(* ===== verification/Nachos_Prelude.thy ===== *)
theory Nachos_Prelude
  imports Main "HOL-Library.Word" "HOL-Library.Signed_Division" "HOL-Library.Multiset"
begin

text \<open>
  Shared vocabulary of the development: the ways Nachos code can fail as a datatype, results as
  values of a sum type with their sequencing operation, C integer division and the macros of
  \<^verbatim>\<open>code/threads/utility.h\<close>, the FIFO interface that the ready list, the semaphore queues and
  the lists of \<^verbatim>\<open>code/threads/list.cc\<close> share, and generic lemmas on lists.
\<close>

unbundle bit_operations_syntax

named_theorems res_simps \<open>unfolding of results, assertions and their sequencing\<close>

section \<open>Failures and results\<close>

text \<open>
  \<open>AssertionFailed\<close> is the ASSERT macro (message, then abort); \<open>NullDereference\<close>,
  \<open>OutOfBounds\<close> and \<open>UseAfterFree\<close> stand for the C++ undefined behaviours that the model tells
  apart instead of giving them a value; \<open>ArithmeticTrap\<close> is the quotient of the most negative
  integer by -1, on which the host processor traps; \<open>BadAlloc\<close> is the \<^verbatim>\<open>std::bad_alloc\<close> thrown by AddrSpace
  and by \<^verbatim>\<open>new[]\<close> with a negative size;
  \<open>UnixError\<close> is a failed host call; \<open>MachineHalted\<close> is the process exit of Cleanup and Exit; \<open>Diverged\<close> is a loop that never ends.
\<close>

datatype nachos_error =
    AssertionFailed
  | NullDereference
  | OutOfBounds
  | UseAfterFree
  | ArithmeticTrap
  | BadAlloc
  | UnixError
  | MachineHalted
  | Diverged

type_synonym 'a res = "nachos_error + 'a"

fun bindR :: "'a res \<Rightarrow> ('a \<Rightarrow> 'b res) \<Rightarrow> 'b res" where
  "bindR (Inl e) f = Inl e"
| "bindR (Inr x) f = f x"

definition ASSERT :: "bool \<Rightarrow> 'a res \<Rightarrow> 'a res" where
  "ASSERT condition k = (if condition then k else Inl AssertionFailed)"

text \<open>The value of a loop defined as a partial function: not returning is an outcome of its own.\<close>

definition loop_result :: "'a res option \<Rightarrow> 'a res" where
  "loop_result r = (case r of None \<Rightarrow> Inl Diverged | Some x \<Rightarrow> x)"

lemma loop_result_simps [simp]: "loop_result None = Inl Diverged" "loop_result (Some r) = r"
  by (simp_all add: loop_result_def)

definition divRoundDown :: "int \<Rightarrow> int \<Rightarrow> int" where
  "divRoundDown n s = n sdiv s"

definition divRoundUp :: "int \<Rightarrow> int \<Rightarrow> int" where
  "divRoundUp n s = n sdiv s + (if n smod s > 0 then 1 else 0)"

text \<open>The C99 rule of division on non-negative operands is Isabelle's.\<close>

lemma sdiv_nonneg [simp]: "0 \<le> a \<Longrightarrow> 0 \<le> b \<Longrightarrow> (a::int) sdiv b = a div b"
  by (cases "b = 0") (auto simp: signed_divide_int_def sgn_if)

lemma smod_nonneg [simp]: "0 \<le> a \<Longrightarrow> 0 \<le> b \<Longrightarrow> (a::int) smod b = a mod b"
  by (auto simp: signed_modulo_int_def sgn_if abs_if)

lemma divRoundUp_bounds:
  assumes "0 \<le> n" and "0 < s"
  shows "n \<le> divRoundUp n s * s" and "divRoundUp n s * s < n + s" and "0 \<le> divRoundUp n s"
proof -
  have eq: "n div s * s + n mod s = n" by simp
  have m: "0 \<le> n mod s" "n mod s < s" using assms by simp_all
  have d: "divRoundUp n s * s = n div s * s + (if n mod s > 0 then s else 0)"
    using assms by (simp add: divRoundUp_def distrib_right)
  show "n \<le> divRoundUp n s * s" "divRoundUp n s * s < n + s"
    unfolding d using assms(2) m eq by (cases "n mod s > 0"; simp; linarith)+
  show "0 \<le> divRoundUp n s"
    using assms by (simp add: divRoundUp_def pos_imp_zdiv_nonneg_iff)
qed

lemma bindR_eq_Inr [res_simps]: "bindR m f = Inr y \<longleftrightarrow> (\<exists>x. m = Inr x \<and> f x = Inr y)"
  by (cases m) auto

lemma bindR_eq_Inl [res_simps]:
  "bindR m f = Inl e \<longleftrightarrow> m = Inl e \<or> (\<exists>x. m = Inr x \<and> f x = Inl e)"
  by (cases m) auto

lemma bindR_assoc: "bindR (bindR m f) g = bindR m (\<lambda>x. bindR (f x) g)"
  by (cases m) auto

lemma bindR_cong [fundef_cong]:
  "m = m' \<Longrightarrow> (\<And>x. m' = Inr x \<Longrightarrow> f x = f' x) \<Longrightarrow> bindR m f = bindR m' f'"
  by (cases m') auto

lemma ASSERT_eq_Inr [res_simps]: "ASSERT c k = Inr y \<longleftrightarrow> c \<and> k = Inr y"
  by (simp add: ASSERT_def)

lemma ASSERT_eq_Inl [res_simps]:
  "ASSERT c k = Inl e \<longleftrightarrow> (\<not> c \<and> e = AssertionFailed) \<or> (c \<and> k = Inl e)"
  by (auto simp: ASSERT_def)

lemma ASSERT_True [simp]: "c \<Longrightarrow> ASSERT c k = k"
  by (simp add: ASSERT_def)

lemma ASSERT_False [simp]: "\<not> c \<Longrightarrow> ASSERT c k = Inl AssertionFailed"
  by (simp add: ASSERT_def)

section \<open>Lists\<close>

lemma takeWhile_dropWhile_cons:
  "dropWhile P xs = y # ys \<Longrightarrow> xs = takeWhile P xs @ y # ys \<and> \<not> P y"
  by (metis hd_dropWhile list.distinct(1) list.sel(1) takeWhile_dropWhile_id)

lemma last_map_nonempty: "xs \<noteq> [] \<Longrightarrow> last (map f xs) = f (last xs)"
  by (rule last_map)

section \<open>The FIFO interface\<close>

text \<open>
  What a client of a first-in first-out list may rely on. The element at position \<open>i\<close> is the
  result of the \<open>i\<close>-th removal whatever is appended meanwhile: this is the round-robin fact that
  the ready list and the wait queues use.
\<close>

fun deq_n :: "('q \<Rightarrow> 'a option \<times> 'q) \<Rightarrow> nat \<Rightarrow> 'q \<Rightarrow> 'a option list \<times> 'q" where
  "deq_n deq 0 q = ([], q)"
| "deq_n deq (Suc n) q =
     (let (x, q') = deq q; (xs, q'') = deq_n deq n q' in (x # xs, q''))"

locale fifo =
  fixes enq :: "'a \<Rightarrow> 'q \<Rightarrow> 'q"
    and deq :: "'q \<Rightarrow> 'a option \<times> 'q"
    and items :: "'q \<Rightarrow> 'a list"
  assumes items_enq: "items (enq x q) = items q @ [x]"
    and deq_empty: "items q = [] \<Longrightarrow> deq q = (None, q)"
    and deq_cons: "items q = x # xs \<Longrightarrow> fst (deq q) = Some x \<and> items (snd (deq q)) = xs"
begin

lemma deq_n_items:
  "n \<le> length (items q) \<Longrightarrow>
   fst (deq_n deq n q) = map Some (take n (items q)) \<and> items (snd (deq_n deq n q)) = drop n (items q)"
proof (induction n arbitrary: q)
  case 0
  then show ?case by simp
next
  case (Suc n)
  then obtain x xs where q: "items q = x # xs" by (cases "items q") auto
  obtain q' where d: "deq q = (Some x, q')" "items q' = xs"
    using deq_cons [OF q] by (cases "deq q") auto
  have "fst (deq_n deq n q') = map Some (take n xs) \<and> items (snd (deq_n deq n q')) = drop n xs"
    using Suc.IH [of q'] Suc.prems q d by simp
  then show ?case using q d by (simp add: case_prod_beta)
qed

lemma enq_items_fold: "items (fold enq xs q) = items q @ xs"
  by (induction xs arbitrary: q) (simp_all add: items_enq)

lemma fifo_order:
  assumes "items q = ys @ x # zs"
  shows "last (fst (deq_n deq (Suc (length ys)) (fold enq new q))) = Some x"
proof -
  let ?q = "fold enq new q"
  have it: "items ?q = ys @ x # zs @ new" using assms by (simp add: enq_items_fold)
  then have "fst (deq_n deq (Suc (length ys)) ?q) = map Some (take (Suc (length ys)) (items ?q))"
    using deq_n_items [of "Suc (length ys)" ?q] by simp
  then show ?thesis using it by (simp del: deq_n.simps)
qed

end

end
