(* ===== verification/Nachos_List.thy ===== *)
theory Nachos_List
  imports Nachos_Prelude
begin

text \<open>
  The singly linked lists of \<^verbatim>\<open>code/threads/list.cc\<close>, as the code has them: list elements live
  in a heap, a list is a pair of pointers to its first and its last element, every operation is a
  sequence of pointer reads and writes that fails on a NULL or dangling pointer. The second part
  gives the functional lists of (key, item) pairs that the operations implement, and the third
  proves that they do. The other components use the functional operations.
\<close>

section \<open>The linked list\<close>

type_synonym ptr = nat

abbreviation NULL :: ptr where
  "NULL \<equiv> 0"

record 'a ListElement =
  nxt :: ptr
  key :: int
  item :: 'a

type_synonym 'a heap = "ptr \<rightharpoonup> 'a ListElement"

record List =
  first :: ptr
  last_elt :: ptr

definition deref :: "'a heap \<Rightarrow> ptr \<Rightarrow> 'a ListElement res" where
  "deref h p =
     (if p = NULL then Inl NullDereference
      else case h p of None \<Rightarrow> Inl UseAfterFree | Some e \<Rightarrow> Inr e)"

definition set_next :: "'a heap \<Rightarrow> ptr \<Rightarrow> ptr \<Rightarrow> 'a heap res" where
  "set_next h p q = bindR (deref h p) (\<lambda>e. Inr (h(p \<mapsto> e\<lparr>nxt := q\<rparr>)))"

text \<open>
  The address \<open>a\<close> that \<^verbatim>\<open>new\<close> returned is an argument of the operations that allocate; what the
  code relies on (it is not NULL and not in use) is \<open>fresh\<close>.
\<close>

definition fresh :: "'a heap \<Rightarrow> ptr \<Rightarrow> bool" where
  "fresh h a \<longleftrightarrow> a \<noteq> NULL \<and> h a = None"

definition ListElement_new :: "'a heap \<Rightarrow> ptr \<Rightarrow> 'a \<Rightarrow> int \<Rightarrow> 'a heap" where
  "ListElement_new h a itemPtr sortKey = h(a \<mapsto> \<lparr>nxt = NULL, key = sortKey, item = itemPtr\<rparr>)"

definition List_new :: List where
  "List_new = \<lparr>first = NULL, last_elt = NULL\<rparr>"

definition IsEmpty :: "List \<Rightarrow> bool" where
  "IsEmpty l \<longleftrightarrow> first l = NULL"

definition Append :: "ptr \<Rightarrow> 'a \<Rightarrow> 'a heap \<times> List \<Rightarrow> ('a heap \<times> List) res" where
  "Append a x = (\<lambda>(h, l).
     let h1 = ListElement_new h a x 0 in
     if IsEmpty l then Inr (h1, l\<lparr>first := a, last_elt := a\<rparr>)
     else bindR (set_next h1 (last_elt l) a) (\<lambda>h2. Inr (h2, l\<lparr>last_elt := a\<rparr>)))"

definition Prepend :: "ptr \<Rightarrow> 'a \<Rightarrow> 'a heap \<times> List \<Rightarrow> ('a heap \<times> List) res" where
  "Prepend a x = (\<lambda>(h, l).
     let h1 = ListElement_new h a x 0 in
     if IsEmpty l then Inr (h1, l\<lparr>first := a, last_elt := a\<rparr>)
     else bindR (set_next h1 a (first l)) (\<lambda>h2. Inr (h2, l\<lparr>first := a\<rparr>)))"

text \<open>
  The loop of SortedInsert: \<open>Some h\<close> when it returned from inside, with the element linked in,
  \<open>None\<close> when it ran to the last element. The walk of a cyclic list would not end, so the loop is
  a partial function.
\<close>

partial_function (option) SortedInsert_loop ::
  "'a heap \<Rightarrow> ptr \<Rightarrow> int \<Rightarrow> ptr \<Rightarrow> 'a heap option res option" where
  "SortedInsert_loop h element sortKey p =
     (case deref h p of Inl e \<Rightarrow> Some (Inl e) | Inr cur \<Rightarrow>
        if nxt cur = NULL then Some (Inr None)
        else case deref h (nxt cur) of Inl e \<Rightarrow> Some (Inl e) | Inr n \<Rightarrow>
          if sortKey < key n
          then Some (bindR (set_next h element (nxt cur)) (\<lambda>h1.
                     bindR (set_next h1 p element) (\<lambda>h2. Inr (Some h2))))
          else SortedInsert_loop h element sortKey (nxt cur))"

definition SortedInsert ::
  "ptr \<Rightarrow> 'a \<Rightarrow> int \<Rightarrow> 'a heap \<times> List \<Rightarrow> ('a heap \<times> List) res option" where
  "SortedInsert a x sortKey = (\<lambda>(h, l).
     let h1 = ListElement_new h a x sortKey in
     if IsEmpty l then Some (Inr (h1, l\<lparr>first := a, last_elt := a\<rparr>))
     else case deref h1 (first l) of Inl e \<Rightarrow> Some (Inl e) | Inr f \<Rightarrow>
       if sortKey < key f
       then Some (bindR (set_next h1 a (first l)) (\<lambda>h2. Inr (h2, l\<lparr>first := a\<rparr>)))
       else map_option (\<lambda>r. bindR r (\<lambda>found. case found of
              Some h2 \<Rightarrow> Inr (h2, l)
            | None \<Rightarrow> bindR (set_next h1 (last_elt l) a) (\<lambda>h2. Inr (h2, l\<lparr>last_elt := a\<rparr>))))
          (SortedInsert_loop h1 a sortKey (first l)))"

text \<open>SortedRemove returns the item with its key (what it stores through \<^verbatim>\<open>keyPtr\<close>), or NULL.\<close>

definition SortedRemove ::
  "'a heap \<times> List \<Rightarrow> ((int \<times> 'a) option \<times> ('a heap \<times> List)) res" where
  "SortedRemove = (\<lambda>(h, l).
     if IsEmpty l then Inr (None, (h, l))
     else bindR (deref h (first l)) (\<lambda>element.
       let l' = (if first l = last_elt l then \<lparr>first = NULL, last_elt = NULL\<rparr>
                 else l\<lparr>first := nxt element\<rparr>)
       in Inr (Some (key element, item element), (h(first l := None), l'))))"

definition Remove :: "'a heap \<times> List \<Rightarrow> ('a option \<times> ('a heap \<times> List)) res" where
  "Remove st = bindR (SortedRemove st) (\<lambda>(r, st'). Inr (map_option snd r, st'))"

partial_function (option) Mapcar_loop ::
  "('a \<Rightarrow> 's \<Rightarrow> 's) \<Rightarrow> 'a heap \<Rightarrow> ptr \<Rightarrow> 's \<Rightarrow> 's res option" where
  "Mapcar_loop func h p s =
     (if p = NULL then Some (Inr s)
      else case deref h p of Inl e \<Rightarrow> Some (Inl e)
           | Inr e \<Rightarrow> Mapcar_loop func h (nxt e) (func (item e) s))"

definition Mapcar :: "('a \<Rightarrow> 's \<Rightarrow> 's) \<Rightarrow> 'a heap \<times> List \<Rightarrow> 's \<Rightarrow> 's res option" where
  "Mapcar func = (\<lambda>(h, l) s. Mapcar_loop func h (first l) s)"

text \<open>The destructor: its loop ends at the first NULL that Remove returns, which may be an item (\<open>null\<close>).\<close>

partial_function (option) List_delete :: "('a \<Rightarrow> bool) \<Rightarrow> 'a heap \<times> List \<Rightarrow> ('a heap \<times> List) res option" where
  "List_delete null st =
     (case Remove st of Inl e \<Rightarrow> Some (Inl e)
      | Inr (r, st') \<Rightarrow> (case r of None \<Rightarrow> Some (Inr st')
           | Some x \<Rightarrow> if null x then Some (Inr st') else List_delete null st'))"

section \<open>The functional lists\<close>

type_synonym 'a keyed = "(int \<times> 'a) list"

definition kappend :: "'a \<Rightarrow> 'a keyed \<Rightarrow> 'a keyed" where
  "kappend x xs = xs @ [(0, x)]"

definition kprepend :: "'a \<Rightarrow> 'a keyed \<Rightarrow> 'a keyed" where
  "kprepend x xs = (0, x) # xs"

definition ksorted_insert :: "'a \<Rightarrow> int \<Rightarrow> 'a keyed \<Rightarrow> 'a keyed" where
  "ksorted_insert x k xs =
     takeWhile (\<lambda>e. \<not> k < fst e) xs @ (k, x) # dropWhile (\<lambda>e. \<not> k < fst e) xs"

fun kremove :: "'a keyed \<Rightarrow> (int \<times> 'a) option \<times> 'a keyed" where
  "kremove [] = (None, [])"
| "kremove (x # xs) = (Some x, xs)"

section \<open>Refinement\<close>

text \<open>
  \<open>path h p as q\<close>: the pointers from \<open>p\<close> run through the allocated addresses \<open>as\<close> to \<open>q\<close>.
  \<open>contents h as\<close>: the keys and items stored there. \<open>list_rel\<close>: the list object represents the
  functional list \<open>xs\<close> in the addresses \<open>as\<close>.
\<close>

primrec path :: "'a heap \<Rightarrow> ptr \<Rightarrow> ptr list \<Rightarrow> ptr \<Rightarrow> bool" where
  "path h p [] q \<longleftrightarrow> p = q"
| "path h p (a # as) q \<longleftrightarrow> p = a \<and> a \<noteq> NULL \<and> (\<exists>e. h a = Some e \<and> path h (nxt e) as q)"

definition contents :: "'a heap \<Rightarrow> ptr list \<Rightarrow> 'a keyed" where
  "contents h as = map (\<lambda>a. (key (the (h a)), item (the (h a)))) as"

definition list_rel :: "'a heap \<times> List \<Rightarrow> ptr list \<Rightarrow> 'a keyed \<Rightarrow> bool" where
  "list_rel st as xs \<longleftrightarrow>
     path (fst st) (first (snd st)) as NULL \<and> distinct as \<and>
     last_elt (snd st) = (if as = [] then NULL else last as) \<and> contents (fst st) as = xs"

lemma path_in_dom: "path h p as q \<Longrightarrow> a \<in> set as \<Longrightarrow> a \<noteq> NULL \<and> (\<exists>e. h a = Some e)"
  by (induction as arbitrary: p) auto

lemma path_append: "path h p (as @ bs) q \<longleftrightarrow> (\<exists>r. path h p as r \<and> path h r bs q)"
  by (induction as arbitrary: p) auto

lemma path_upd [simp]: "a \<notin> set as \<Longrightarrow> path (h(a := v)) p as q = path h p as q"
  by (induction as arbitrary: p) auto

lemma path_NULL_Nil: "path h NULL as NULL \<longleftrightarrow> as = []"
  by (cases as) auto

lemma contents_upd [simp]: "a \<notin> set as \<Longrightarrow> contents (h(a := v)) as = contents h as"
  by (auto simp: contents_def)

lemma contents_nxt [simp]: "h b = Some e \<Longrightarrow> contents (h(b \<mapsto> e\<lparr>nxt := q\<rparr>)) as = contents h as"
  by (auto simp: contents_def)

lemma contents_append [simp]: "contents h (as @ bs) = contents h as @ contents h bs"
  by (simp add: contents_def)

lemma contents_Cons [simp]:
  "contents h (a # as) = (key (the (h a)), item (the (h a))) # contents h as"
  by (simp add: contents_def)

lemma contents_Nil [simp]: "contents h [] = []"
  by (simp add: contents_def)

lemma length_contents [simp]: "length (contents h as) = length as"
  by (simp add: contents_def)

lemma fresh_notin_path: "fresh h a \<Longrightarrow> path h p as q \<Longrightarrow> a \<notin> set as"
  using path_in_dom [of h p as q a] by (auto simp: fresh_def)

lemma path_relink:
  "path h p (as @ [b]) q \<Longrightarrow> b \<notin> set as \<Longrightarrow> h b = Some e \<Longrightarrow>
   path (h(b \<mapsto> e\<lparr>nxt := r\<rparr>)) p (as @ [b]) r"
  by (auto simp: path_append)

text \<open>Linking the allocated element \<open>a\<close> in behind \<open>b\<close>.\<close>

lemma path_insert_after:
  assumes "path h p (as @ b # bs) NULL" and "distinct (as @ b # bs)" and "a \<notin> set (as @ b # bs)"
    and "h a = Some ea" and "a \<noteq> NULL" and "h b = Some eb"
    and "path h c bs NULL"
  shows "path (h(a \<mapsto> ea\<lparr>nxt := c\<rparr>, b \<mapsto> eb\<lparr>nxt := a\<rparr>)) p (as @ b # a # bs) NULL"
  using assms by (auto simp: path_append)

lemma path_suffix: "path h p (as @ b # bs) NULL \<Longrightarrow> path h b (b # bs) NULL"
  by (auto simp: path_append)

lemma deref_path: "path h p as q \<Longrightarrow> a \<in> set as \<Longrightarrow> deref h a = Inr (the (h a))"
  using path_in_dom [of h p as q a] by (auto simp: deref_def)

lemma set_next_path:
  "h a = Some e \<Longrightarrow> a \<noteq> NULL \<Longrightarrow> set_next h a q = Inr (h(a \<mapsto> e\<lparr>nxt := q\<rparr>))"
  by (simp add: set_next_def deref_def)

lemma SortedInsert_loop_end:
  assumes "path h b (b # bs) NULL" and "\<forall>x \<in> set (contents h bs). \<not> k < fst x"
  shows "SortedInsert_loop h a k b = Some (Inr None)"
  using assms
proof (induction bs arbitrary: b)
  case Nil
  then show ?case by (subst SortedInsert_loop.simps) (auto simp: deref_def)
next
  case (Cons c cs)
  have "SortedInsert_loop h a k c = Some (Inr None)"
    using Cons.prems by (intro Cons.IH) auto
  then show ?case using Cons.prems
    by (subst SortedInsert_loop.simps) (auto simp: deref_def)
qed

lemma SortedInsert_loop_found:
  assumes "path h b (b # ys @ c # zs) NULL" and "\<forall>x \<in> set (contents h ys). \<not> k < fst x"
    and "k < key (the (h c))" and "h a = Some ea" and "a \<noteq> NULL" and "a \<notin> set (b # ys @ c # zs)"
    and "distinct (b # ys @ c # zs)"
  shows "SortedInsert_loop h a k b =
    Some (Inr (Some (h(a \<mapsto> ea\<lparr>nxt := c\<rparr>,
                       last (b # ys) \<mapsto> (the (h (last (b # ys))))\<lparr>nxt := a\<rparr>))))"
  using assms
proof (induction ys arbitrary: b)
  case Nil
  then show ?case
    by (subst SortedInsert_loop.simps) (auto simp: deref_def set_next_path)
next
  case (Cons d ds)
  have "SortedInsert_loop h a k d =
    Some (Inr (Some (h(a \<mapsto> ea\<lparr>nxt := c\<rparr>,
                       last (d # ds) \<mapsto> (the (h (last (d # ds))))\<lparr>nxt := a\<rparr>))))"
    using Cons.prems by (intro Cons.IH) auto
  then show ?case using Cons.prems
    by (subst SortedInsert_loop.simps) (auto simp: deref_def)
qed

definition same_outside :: "ptr set \<Rightarrow> 'a heap \<Rightarrow> 'a heap \<Rightarrow> bool" where
  "same_outside A h h' \<longleftrightarrow> (\<forall>b. b \<notin> A \<longrightarrow> h' b = h b)"

lemma IsEmpty_list_rel: "list_rel (h, l) as xs \<Longrightarrow> IsEmpty l \<longleftrightarrow> as = []"
  by (cases as) (auto simp: list_rel_def IsEmpty_def)

lemma list_rel_fresh:
  assumes "list_rel (h, l) as xs" and "fresh h a"
  shows "path h (first l) as NULL \<and> a \<notin> set as \<and> distinct as \<and> a \<noteq> NULL"
  using assms fresh_notin_path [of h a "first l" as NULL] by (simp add: list_rel_def fresh_def)

lemma list_rel_snoc:
  fixes x :: 'a and k :: int and h :: "'a heap"
  assumes "list_rel (h, l) as xs" and "fresh h a" and "as \<noteq> []"
  defines "h1 \<equiv> ListElement_new h a x k"
  shows "set_next h1 (last as) a = Inr (h1(last as \<mapsto> (the (h (last as)))\<lparr>nxt := a\<rparr>))"
    and "list_rel (h1(last as \<mapsto> (the (h (last as)))\<lparr>nxt := a\<rparr>), l\<lparr>last_elt := a\<rparr>)
           (as @ [a]) (xs @ [(k, x)])"
proof -
  obtain bs b where as: "as = bs @ [b]" using assms(3) by (cases as rule: rev_cases) auto
  have p: "path h (first l) as NULL" and a: "a \<notin> set as" and d: "distinct as" and n: "a \<noteq> NULL"
    using list_rel_fresh [OF assms(1,2)] by blast+
  obtain e where e: "h b = Some e" and b0: "b \<noteq> NULL" using path_in_dom [OF p, of b] as by auto
  have h1b: "h1 b = Some e" using a as e by (auto simp: h1_def ListElement_new_def)
  show "set_next h1 (last as) a = Inr (h1(last as \<mapsto> (the (h (last as)))\<lparr>nxt := a\<rparr>))"
    using set_next_path [of h1 b e a] h1b b0 as e by simp
  have "path h1 (first l) (bs @ [b]) NULL"
    using p as a by (simp add: h1_def ListElement_new_def)
  then have "path (h1(b \<mapsto> e\<lparr>nxt := a\<rparr>)) (first l) (bs @ [b]) a"
    using path_relink [of h1 "first l" bs b NULL e a] h1b d as by simp
  moreover have "path (h1(b \<mapsto> e\<lparr>nxt := a\<rparr>)) a [a] NULL"
    using a as n by (simp add: h1_def ListElement_new_def)
  ultimately have "path (h1(b \<mapsto> e\<lparr>nxt := a\<rparr>)) (first l) (as @ [a]) NULL"
    unfolding as path_append by blast
  moreover have "contents (h1(b \<mapsto> e\<lparr>nxt := a\<rparr>)) (as @ [a]) = xs @ [(k, x)]"
    unfolding contents_nxt [of h1 b e, OF h1b]
    using assms(1) a by (simp add: h1_def ListElement_new_def list_rel_def)
  ultimately show "list_rel (h1(last as \<mapsto> (the (h (last as)))\<lparr>nxt := a\<rparr>), l\<lparr>last_elt := a\<rparr>)
           (as @ [a]) (xs @ [(k, x)])"
    using as e d a by (simp add: list_rel_def)
qed

lemma list_rel_cons:
  fixes x :: 'a and k :: int and h :: "'a heap"
  assumes "list_rel (h, l) as xs" and "fresh h a" and "as \<noteq> []"
  defines "h2 \<equiv> h(a \<mapsto> \<lparr>nxt = first l, key = k, item = x\<rparr>)"
  shows "set_next (ListElement_new h a x k) a (first l) = Inr h2"
    and "list_rel (h2, l\<lparr>first := a\<rparr>) (a # as) ((k, x) # xs)"
proof -
  have p: "path h (first l) as NULL" and a: "a \<notin> set as" and n: "a \<noteq> NULL"
    using list_rel_fresh [OF assms(1,2)] by blast+
  show "set_next (ListElement_new h a x k) a (first l) = Inr h2"
    using n by (simp add: set_next_def deref_def ListElement_new_def h2_def)
  show "list_rel (h2, l\<lparr>first := a\<rparr>) (a # as) ((k, x) # xs)"
    using assms(1,3) p a n by (simp add: list_rel_def h2_def)
qed

lemma list_rel_single:
  "list_rel (h, l) [] xs \<Longrightarrow> fresh h a \<Longrightarrow>
   list_rel (ListElement_new h a x k, l\<lparr>first := a, last_elt := a\<rparr>) [a] [(k, x)] \<and> xs = []"
  by (auto simp: list_rel_def ListElement_new_def fresh_def)

lemma contents_split:
  assumes "contents h as = ys @ z # zs"
  obtains bs c cs where "as = bs @ c # cs" and "contents h bs = ys"
    and "z = (key (the (h c)), item (the (h c)))" and "contents h cs = zs"
  using assms by (auto simp: contents_def map_eq_append_conv map_eq_Cons_conv)

section \<open>The linked list implements the functional list\<close>

lemma Append_implements:
  assumes r: "list_rel (h, l) as xs" and f: "fresh h a"
  shows "\<exists>h' l'. Append a x (h, l) = Inr (h', l') \<and> list_rel (h', l') (as @ [a]) (kappend x xs) \<and>
           same_outside (insert a (set as)) h h'"
proof (cases "as = []")
  case True
  then show ?thesis
    using list_rel_single [of h l xs a x 0] r f IsEmpty_list_rel [OF r]
    by (auto simp: Append_def kappend_def same_outside_def ListElement_new_def)
next
  case False
  then show ?thesis
    using list_rel_snoc [OF r f False, where x = x and k = 0] IsEmpty_list_rel [OF r] r
    by (auto simp: Append_def kappend_def same_outside_def ListElement_new_def list_rel_def)
qed

lemma Prepend_implements:
  assumes r: "list_rel (h, l) as xs" and f: "fresh h a"
  shows "\<exists>h' l'. Prepend a x (h, l) = Inr (h', l') \<and> list_rel (h', l') (a # as) (kprepend x xs) \<and>
           same_outside (insert a (set as)) h h'"
proof (cases "as = []")
  case True
  then show ?thesis
    using list_rel_single [of h l xs a x 0] r f IsEmpty_list_rel [OF r]
    by (auto simp: Prepend_def kprepend_def same_outside_def ListElement_new_def)
next
  case False
  then show ?thesis
    using list_rel_cons [OF r f False, where x = x and k = 0] IsEmpty_list_rel [OF r]
    by (auto simp: Prepend_def kprepend_def same_outside_def ListElement_new_def)
qed

lemma SortedRemove_implements:
  assumes r: "list_rel (h, l) as xs"
  shows "\<exists>h' l'. SortedRemove (h, l) = Inr (fst (kremove xs), (h', l')) \<and>
           list_rel (h', l') (tl as) (snd (kremove xs)) \<and> same_outside (set as) h h' \<and>
           (as \<noteq> [] \<longrightarrow> h' (hd as) = None)"
proof (cases as)
  case Nil
  then show ?thesis using r IsEmpty_list_rel [OF r]
    by (auto simp: SortedRemove_def list_rel_def same_outside_def)
next
  case (Cons b bs)
  then obtain e where e: "h b = Some e" "first l = b" "b \<noteq> NULL" "path h (nxt e) bs NULL"
    using r by (auto simp: list_rel_def)
  have "first l = last_elt l \<longleftrightarrow> bs = []"
    using r Cons e by (auto simp: list_rel_def)
  then show ?thesis using r Cons e IsEmpty_list_rel [OF r]
    by (auto simp: SortedRemove_def list_rel_def same_outside_def deref_def Let_def)
qed

lemma SortedInsert_front:
  assumes r: "list_rel (h, l) (b # bs) xs" and f: "fresh h a" and k: "k < key (the (h b))"
  shows "SortedInsert a x k (h, l) =
           Some (Inr (h(a \<mapsto> \<lparr>nxt = first l, key = k, item = x\<rparr>), l\<lparr>first := a\<rparr>))"
proof -
  have "first l = b" "b \<noteq> a" "b \<noteq> NULL" "\<exists>e. h b = Some e"
    using list_rel_fresh [OF r f] by auto
  then show ?thesis
    using list_rel_cons(1) [OF r f, where x = x and k = k] IsEmpty_list_rel [OF r] k
    by (auto simp: SortedInsert_def Let_def deref_def ListElement_new_def)
qed

lemma SortedInsert_middle:
  fixes x :: 'a and h :: "'a heap"
  assumes r: "list_rel (h, l) (b # ys @ c # zs) xs" and f: "fresh h a"
    and le: "\<forall>z \<in> set (contents h (b # ys)). \<not> k < fst z" and k: "k < key (the (h c))"
  defines "h' \<equiv> h(a \<mapsto> \<lparr>nxt = c, key = k, item = x\<rparr>,
                   last (b # ys) \<mapsto> (the (h (last (b # ys))))\<lparr>nxt := a\<rparr>)"
  shows "SortedInsert a x k (h, l) = Some (Inr (h', l))"
    and "list_rel (h', l) ((b # ys) @ a # c # zs)
           (contents h (b # ys) @ (k, x) # contents h (c # zs))"
proof -
  let ?h1 = "ListElement_new h a x k"
  let ?ea = "\<lparr>nxt = NULL, key = k, item = x\<rparr>"
  have p: "path h (first l) (b # ys @ c # zs) NULL" and a: "a \<notin> set (b # ys @ c # zs)"
    and d: "distinct (b # ys @ c # zs)" and n: "a \<noteq> NULL"
    using list_rel_fresh [OF r f] by blast+
  have fb: "first l = b" "b \<noteq> NULL" "\<exists>e. h b = Some e" using p by auto
  obtain as' b' where ab: "b # ys = as' @ [b']" by (metis list.distinct(1) rev_exhaust)
  then have lb: "last (b # ys) = b'" by simp
  have p1: "path ?h1 b (b # ys @ c # zs) NULL"
    using p a fb by (simp add: ListElement_new_def)
  have loop: "SortedInsert_loop ?h1 a k b = Some (Inr (Some (?h1(a \<mapsto> ?ea\<lparr>nxt := c\<rparr>,
                last (b # ys) \<mapsto> (the (?h1 (last (b # ys))))\<lparr>nxt := a\<rparr>))))"
    by (rule SortedInsert_loop_found [OF p1])
      (use le k a n d in \<open>auto simp: ListElement_new_def\<close>)
  have b'in: "b' \<in> set (b # ys)" using lb by (metis last_in_set list.distinct(1))
  then have b'a: "b' \<noteq> a" using a by auto
  have heq: "?h1(a \<mapsto> ?ea\<lparr>nxt := c\<rparr>, last (b # ys) \<mapsto> (the (?h1 (last (b # ys))))\<lparr>nxt := a\<rparr>) = h'"
    using b'a unfolding h'_def lb by (simp add: ListElement_new_def)
  show "SortedInsert a x k (h, l) = Some (Inr (h', l))"
    using loop le fb a IsEmpty_list_rel [OF r] unfolding heq
    by (auto simp: SortedInsert_def Let_def deref_def ListElement_new_def)
  obtain eb where eb: "h b' = Some eb" using path_in_dom [OF p] b'in by (metis UnI1 set_append append_Cons)
  have pc: "path h c (c # zs) NULL" using path_suffix [of h "first l" "b # ys" c zs] p by simp
  have whole: "b # ys @ c # zs = as' @ b' # c # zs" using ab by (metis append_Cons append_assoc append_Nil)
  have pp: "path ?h1 (first l) (as' @ b' # c # zs) NULL"
    using p1 fb unfolding whole by simp
  have "path (?h1(a \<mapsto> ?ea\<lparr>nxt := c\<rparr>, b' \<mapsto> eb\<lparr>nxt := a\<rparr>)) (first l) (as' @ b' # a # c # zs) NULL"
    by (rule path_insert_after [OF pp])
      (use d a n eb b'a pc in \<open>simp_all add: whole ListElement_new_def\<close>)
  then have path': "path h' (first l) ((b # ys) @ a # c # zs) NULL"
    using heq eb b'a ab lb by (simp add: ListElement_new_def)
  have "contents h' ((b # ys) @ a # c # zs) = contents (h(a \<mapsto> \<lparr>nxt = c, key = k, item = x\<rparr>)) ((b # ys) @ a # c # zs)"
    unfolding h'_def lb using eb b'a by (intro contents_nxt) simp_all
  then have "contents h' ((b # ys) @ a # c # zs) = contents h (b # ys) @ (k, x) # contents h (c # zs)"
    using a by simp
  then show "list_rel (h', l) ((b # ys) @ a # c # zs)
           (contents h (b # ys) @ (k, x) # contents h (c # zs))"
    using path' r d a by (simp add: list_rel_def)
qed

lemma SortedInsert_back:
  fixes x :: 'a and h :: "'a heap"
  assumes r: "list_rel (h, l) (b # bs) xs" and f: "fresh h a"
    and le: "\<forall>z \<in> set xs. \<not> k < fst z"
  defines "h1 \<equiv> ListElement_new h a x k"
  shows "SortedInsert a x k (h, l) =
    Some (Inr (h1(last (b # bs) \<mapsto> (the (h (last (b # bs))))\<lparr>nxt := a\<rparr>), l\<lparr>last_elt := a\<rparr>))"
proof -
  have p: "path h (first l) (b # bs) NULL" and a: "a \<notin> set (b # bs)"
    using list_rel_fresh [OF r f] by blast+
  have c: "contents h (b # bs) = xs" and fb: "first l = b" "b \<noteq> NULL" "\<exists>e. h b = Some e"
    and le': "last_elt l = last (b # bs)"
    using r by (auto simp: list_rel_def)
  have "path h1 b (b # bs) NULL" "contents h1 (b # bs) = xs"
    using p a fb c by (simp_all add: h1_def ListElement_new_def)
  then have "SortedInsert_loop h1 a k b = Some (Inr None)"
    using le by (intro SortedInsert_loop_end) auto
  then show ?thesis
    using list_rel_snoc(1) [OF r f, where x = x and k = k] le c fb a le' IsEmpty_list_rel [OF r]
    by (auto simp: SortedInsert_def Let_def deref_def h1_def ListElement_new_def)
qed

lemma SortedInsert_implements:
  assumes r: "list_rel (h, l) as xs" and f: "fresh h a"
  shows "\<exists>h' l' as'. SortedInsert a x k (h, l) = Some (Inr (h', l')) \<and>
           list_rel (h', l') as' (ksorted_insert x k xs) \<and> set as' = insert a (set as) \<and>
           same_outside (insert a (set as)) h h'"
proof (cases as)
  case Nil
  then show ?thesis
    using list_rel_single [of h l xs a x k] r f IsEmpty_list_rel [OF r]
    by (auto simp: SortedInsert_def ksorted_insert_def same_outside_def ListElement_new_def
        intro!: exI [of _ "[a]"])
next
  case (Cons b bs)
  note r = r [unfolded Cons]
  have xs: "xs = contents h (b # bs)" and lst: "last_elt l = last (b # bs)"
    using r by (auto simp: list_rel_def)
  let ?P = "\<lambda>e. \<not> k < fst e"
  show ?thesis
  proof (cases "dropWhile ?P xs")
    case Nil
    then have le: "\<forall>z \<in> set xs. \<not> k < fst z" by (simp add: dropWhile_eq_Nil_conv)
    then have ks: "ksorted_insert x k xs = xs @ [(k, x)]"
      using Nil by (simp add: ksorted_insert_def takeWhile_eq_all_conv [THEN iffD2])
    show ?thesis
      using SortedInsert_back [OF r f le, where x = x] list_rel_snoc(2) [OF r f, where x = x and k = k]
      unfolding ks Cons
      by (intro exI conjI) (auto simp: same_outside_def ListElement_new_def)
  next
    case (Cons z zs)
    let ?ys = "takeWhile ?P xs"
    have sp: "xs = ?ys @ z # zs" and kz: "k < fst z"
      using takeWhile_dropWhile_cons [OF Cons] by auto
    have ks: "ksorted_insert x k xs = ?ys @ (k, x) # z # zs"
      using Cons by (simp add: ksorted_insert_def)
    obtain ds c cs where as: "b # bs = ds @ c # cs" and ds: "contents h ds = ?ys"
      and z: "z = (key (the (h c)), item (the (h c)))" and cs: "contents h cs = zs"
      using contents_split [of h "b # bs" ?ys z zs] sp xs by metis
    have le: "\<forall>z \<in> set (contents h ds). \<not> k < fst z"
      unfolding ds by (auto dest: set_takeWhileD)
    show ?thesis
    proof (cases ds)
      case Nil
      then have c: "c = b" "cs = bs" and ks': "ksorted_insert x k xs = (k, x) # xs"
        using as ds ks sp by auto
      show ?thesis
        using SortedInsert_front [OF r f, where k = k and x = x] kz z c
          list_rel_cons(2) [OF r f, where x = x and k = k] ks' \<open>as = b # bs\<close>
        by (auto simp: same_outside_def intro!: exI [of _ "a # b # bs"])
    next
      case (Cons d ds')
      then have d: "d = b" "bs = ds' @ c # cs" using as by auto
      note mid = SortedInsert_middle [OF r [unfolded d(2)] f, where k = k and x = x]
      have res: "ksorted_insert x k xs = contents h (b # ds') @ (k, x) # contents h (c # cs)"
        using ks ds Cons d z cs by simp
      have "last (b # ds') \<in> set (b # bs)" using d by (metis append_Cons last_in_set list.distinct(1) Un_iff set_append)
      then show ?thesis
        using mid le kz z Cons d \<open>as = b # bs\<close> unfolding res
        by (intro exI [of _ "(b # ds') @ a # c # cs"] exI conjI) (auto simp: same_outside_def)
    qed
  qed
qed

lemma Remove_implements:
  assumes r: "list_rel (h, l) as xs"
  shows "\<exists>h' l'. Remove (h, l) = Inr (map_option snd (fst (kremove xs)), (h', l')) \<and>
           list_rel (h', l') (tl as) (snd (kremove xs)) \<and> same_outside (set as) h h' \<and>
           (as \<noteq> [] \<longrightarrow> h' (hd as) = None)"
  using SortedRemove_implements [OF r] by (auto simp: Remove_def)

lemma Mapcar_implements:
  assumes "path h p as NULL"
  shows "Mapcar_loop func h p s = Some (Inr (fold func (map snd (contents h as)) s))"
  using assms
proof (induction as arbitrary: p s)
  case Nil
  then show ?case by (subst Mapcar_loop.simps) simp
next
  case (Cons a as)
  then show ?case by (subst Mapcar_loop.simps) (auto simp: deref_def)
qed

lemma List_delete_implements:
  assumes "list_rel (h, l) as xs" "\<forall>x \<in> set xs. \<not> null (snd x)"
  shows "\<exists>h'. List_delete null (h, l) = Some (Inr (h', List_new)) \<and>
           (\<forall>a \<in> set as. h' a = None) \<and> same_outside (set as) h h'"
  using assms
proof (induction as arbitrary: h l xs)
  case Nil
  then show ?case
    by (subst List_delete.simps)
      (auto simp: Remove_def SortedRemove_def IsEmpty_def list_rel_def List_new_def same_outside_def)
next
  case (Cons a as)
  from Cons.prems(1) obtain x ys where xs: "xs = x # ys" by (auto simp: list_rel_def)
  obtain h1 l1 where rem: "Remove (h, l) = Inr (Some (snd x), (h1, l1))"
    and r1: "list_rel (h1, l1) as ys" and o1: "same_outside (set (a # as)) h h1" and f1: "h1 a = None"
    using Remove_implements [OF Cons.prems(1)] xs by auto
  obtain h2 where d2: "List_delete null (h1, l1) = Some (Inr (h2, List_new))"
    and n2: "\<forall>b \<in> set as. h2 b = None" and o2: "same_outside (set as) h1 h2"
    using Cons.IH [OF r1] Cons.prems(2) xs by auto
  have "a \<notin> set as" using Cons.prems(1) by (simp add: list_rel_def)
  then have "h2 a = None" using o2 f1 by (simp add: same_outside_def)
  moreover have "List_delete null (h, l) = Some (Inr (h2, List_new))"
    using rem d2 Cons.prems(2) xs by (subst List_delete.simps) simp
  ultimately show ?case using n2 o1 o2 by (auto simp: same_outside_def)
qed

section \<open>The functional lists: order and FIFO\<close>

lemma mset_ksorted_insert: "mset (ksorted_insert x k xs) = add_mset (k, x) (mset xs)"
proof -
  have "mset xs = mset (takeWhile (\<lambda>e. \<not> k < fst e) xs) + mset (dropWhile (\<lambda>e. \<not> k < fst e) xs)"
    by (metis mset_append takeWhile_dropWhile_id)
  then show ?thesis by (simp add: ksorted_insert_def)
qed

lemma set_ksorted_insert: "set (ksorted_insert x k xs) = insert (k, x) (set xs)"
  by (metis mset_ksorted_insert set_mset_add_mset_insert set_mset_mset)

lemma ksorted_insert_Nil [simp]: "ksorted_insert x k [] = [(k, x)]"
  by (simp add: ksorted_insert_def)

lemma ksorted_insert_Cons [simp]:
  "ksorted_insert x k (e # es) = (if k < fst e then (k, x) # e # es else e # ksorted_insert x k es)"
  by (simp add: ksorted_insert_def)

lemma sorted_ksorted_insert:
  "sorted (map fst xs) \<Longrightarrow> sorted (map fst (ksorted_insert x k xs))"
  by (induction xs) (auto simp: set_ksorted_insert)

lemma filter_ksorted_insert:
  "sorted (map fst xs) \<Longrightarrow>
   filter (\<lambda>e. fst e = k') (ksorted_insert x k xs) =
   filter (\<lambda>e. fst e = k') xs @ (if k' = k then [(k, x)] else [])"
proof (induction xs)
  case Nil
  then show ?case by simp
next
  case (Cons e es)
  have "filter (\<lambda>e. fst e = k) (e # es) = []" if "k < fst e"
    using Cons.prems that by (auto simp: filter_empty_conv)
  then show ?case using Cons by auto
qed

interpretation klist: fifo kappend "\<lambda>xs. map_prod (map_option snd) id (kremove xs)" "map snd"
proof unfold_locales
  fix q :: "'a keyed" and x :: 'a
  show "map snd (kappend x q) = map snd q @ [x]" by (simp add: kappend_def)
next
  fix q :: "'a keyed"
  assume "map snd q = []"
  then show "map_prod (map_option snd) id (kremove q) = (None, q)" by simp
next
  fix q :: "'a keyed" and x xs
  assume "map snd q = x # xs"
  then show "fst (map_prod (map_option snd) id (kremove q)) = Some x \<and>
             map snd (snd (map_prod (map_option snd) id (kremove q))) = xs"
    by (cases q) auto
qed

section \<open>Sequences of operations\<close>

text \<open>
  Appends and removals in any order on a list object, and on a queue of items. The results are those
  of the removals. \<open>alloc\<close> is the address that \<^verbatim>\<open>new\<close> returns in a heap.
\<close>

datatype 'a list_op = Append_op 'a | Remove_op

fun run_list :: "('a heap \<Rightarrow> ptr) \<Rightarrow> 'a list_op list \<Rightarrow> 'a heap \<times> List \<Rightarrow> ('a option list \<times> ('a heap \<times> List)) res" where
  "run_list alloc [] st = Inr ([], st)"
| "run_list alloc (Append_op x # ops) st = bindR (Append (alloc (fst st)) x st) (run_list alloc ops)"
| "run_list alloc (Remove_op # ops) st =
     bindR (Remove st) (\<lambda>(r, st1). bindR (run_list alloc ops st1) (\<lambda>(rs, st2). Inr (r # rs, st2)))"

fun run_queue :: "'a list_op list \<Rightarrow> 'a list \<Rightarrow> 'a option list \<times> 'a list" where
  "run_queue [] q = ([], q)"
| "run_queue (Append_op x # ops) q = run_queue ops (q @ [x])"
| "run_queue (Remove_op # ops) [] = (let (rs, q') = run_queue ops [] in (None # rs, q'))"
| "run_queue (Remove_op # ops) (x # q) = (let (rs, q') = run_queue ops q in (Some x # rs, q'))"

fun removed :: "'a option list \<Rightarrow> 'a list" where
  "removed [] = []"
| "removed (None # rs) = removed rs"
| "removed (Some x # rs) = x # removed rs"

fun appended :: "'a list_op list \<Rightarrow> 'a list" where
  "appended [] = []"
| "appended (Append_op x # ops) = x # appended ops"
| "appended (Remove_op # ops) = appended ops"

lemma run_queue_order: "removed (fst (run_queue ops q)) @ snd (run_queue ops q) = q @ appended ops"
  by (induction ops q rule: run_queue.induct) (simp_all add: case_prod_beta)

lemma list_rel_dom: "list_rel (h, l) as xs \<Longrightarrow> set as \<subseteq> dom h"
  using path_in_dom by (fastforce simp: list_rel_def)

lemma same_outside_dom: "same_outside A h h' \<Longrightarrow> dom h' - A = dom h - A"
  by (auto simp: same_outside_def dom_def)

lemma Append_dom:
  assumes r: "list_rel (h, l) as xs" and a: "fresh h a"
  shows "\<exists>h' l'. Append a x (h, l) = Inr (h', l') \<and> list_rel (h', l') (as @ [a]) (kappend x xs) \<and>
     dom h' = insert a (dom h) \<and> same_outside (insert a (set as)) h h'"
proof -
  obtain h' l' where A: "Append a x (h, l) = Inr (h', l')" "list_rel (h', l') (as @ [a]) (kappend x xs)"
      "same_outside (insert a (set as)) h h'"
    using Append_implements [OF r a, of x] by blast
  have "dom h' = insert a (dom h)"
    using list_rel_dom [OF A(2)] list_rel_dom [OF r] same_outside_dom [OF A(3)] by auto
  then show ?thesis using A by blast
qed

lemma Remove_dom:
  assumes r: "list_rel (h, l) as xs"
  shows "\<exists>h' l'. Remove (h, l) = Inr (map_option snd (fst (kremove xs)), (h', l')) \<and>
     list_rel (h', l') (tl as) (snd (kremove xs)) \<and> dom h' = dom h - set (take 1 as) \<and> same_outside (set as) h h'"
proof -
  obtain h' l' where R: "Remove (h, l) = Inr (map_option snd (fst (kremove xs)), (h', l'))"
      "list_rel (h', l') (tl as) (snd (kremove xs))" "same_outside (set as) h h'" "as \<noteq> [] \<longrightarrow> h' (hd as) = None"
    using Remove_implements [OF r] by blast
  have "dom h' = dom h - set (take 1 as)"
  proof (cases as)
    case Nil
    then show ?thesis using same_outside_dom [OF R(3)] by simp
  next
    case (Cons b bs)
    have "b \<notin> dom h'" "b \<notin> set bs" "set bs \<subseteq> dom h'" "set as \<subseteq> dom h"
      using R(4) Cons r list_rel_dom [OF R(2)] list_rel_dom [OF r] by (auto simp: list_rel_def)
    then show ?thesis using same_outside_dom [OF R(3)] Cons by auto
  qed
  then show ?thesis using R by blast
qed

lemma run_list_implements:
  assumes alloc: "\<And>h. finite (dom h) \<Longrightarrow> fresh h (alloc h)"
  shows "list_rel (h, l) as xs \<Longrightarrow> finite (dom h) \<Longrightarrow>
    \<exists>h' l' as' xs'. run_list alloc ops (h, l) = Inr (fst (run_queue ops (map snd xs)), (h', l')) \<and>
      list_rel (h', l') as' xs' \<and> map snd xs' = snd (run_queue ops (map snd xs)) \<and>
      dom h' - set as' = dom h - set as \<and> (\<forall>p \<in> dom h - set as. h' p = h p)"
proof (induction ops arbitrary: h l as xs)
  case Nil
  then show ?case by auto
next
  case (Cons op ops)
  show ?case
  proof (cases op)
    case (Append_op x)
    note fr = alloc [OF Cons.prems(2)]
    obtain h1 l1 where A: "Append (alloc h) x (h, l) = Inr (h1, l1)" "list_rel (h1, l1) (as @ [alloc h]) (kappend x xs)"
        "dom h1 = insert (alloc h) (dom h)" "same_outside (insert (alloc h) (set as)) h h1"
      using Append_dom [OF Cons.prems(1) fr, of x] by blast
    have "alloc h \<notin> dom h" using fr by (auto simp: fresh_def)
    then have out: "dom h1 - set (as @ [alloc h]) = dom h - set as" and "\<forall>p \<in> dom h - set as. p \<notin> insert (alloc h) (set as)"
      using A(3) by auto
    then have same: "\<forall>p \<in> dom h - set as. h1 p = h p" using A(4) by (auto simp: same_outside_def)
    have "finite (dom h1)" using A(3) Cons.prems(2) by simp
    from Cons.IH [OF A(2) this] show ?thesis using A(1) out same Append_op by (auto simp: kappend_def)
  next
    case Remove_op
    obtain h1 l1 where R: "Remove (h, l) = Inr (map_option snd (fst (kremove xs)), (h1, l1))"
        "list_rel (h1, l1) (tl as) (snd (kremove xs))" "dom h1 = dom h - set (take 1 as)" "same_outside (set as) h h1"
      using Remove_dom [OF Cons.prems(1)] by blast
    have "distinct as" using Cons.prems(1) by (simp add: list_rel_def)
    then have out: "dom h1 - set (tl as) = dom h - set as" "\<forall>p \<in> dom h - set as. h1 p = h p"
      using R(3,4) by (cases as; auto simp: same_outside_def)+
    have "finite (dom h1)" using R(3) Cons.prems(2) by simp
    from Cons.IH [OF R(2) this] obtain h' l' as' xs' where
        I: "run_list alloc ops (h1, l1) = Inr (fst (run_queue ops (map snd (snd (kremove xs)))), (h', l'))" "list_rel (h', l') as' xs'"
          "map snd xs' = snd (run_queue ops (map snd (snd (kremove xs))))"
          "dom h' - set as' = dom h - set as" "\<forall>p \<in> dom h - set as. h' p = h p"
      using out by auto
    have "run_list alloc (op # ops) (h, l) = Inr (fst (run_queue (op # ops) (map snd xs)), (h', l'))"
      "map snd xs' = snd (run_queue (op # ops) (map snd xs))"
      using R(1) I(1,3) Remove_op by (cases xs; simp add: case_prod_beta)+
    then show ?thesis using I by blast
  qed
qed

section \<open>Properties\<close>

text \<open>
  C28. SortedInsert (\<^verbatim>\<open>code/threads/list.cc\<close>) on a well-formed linked list whose keys are in
  increasing order, given a fresh address by the allocator, always returns, dereferences no NULL or
  freed pointer, leaves a well-formed linked list whose keys are still in increasing order and that
  holds exactly one element more, puts the new element behind all elements with the same key, and
  writes to no heap cell outside the list.
\<close>

theorem SortedInsert_sorted_stable:
  assumes "list_rel (h, l) as xs" and "fresh h a" and "sorted (map fst xs)"
  shows "\<exists>h' l' as' xs'. SortedInsert a x k (h, l) = Some (Inr (h', l')) \<and>
    list_rel (h', l') as' xs' \<and> sorted (map fst xs') \<and> mset xs' = add_mset (k, x) (mset xs) \<and>
    (\<forall>k'. filter (\<lambda>e. fst e = k') xs' =
            filter (\<lambda>e. fst e = k') xs @ (if k' = k then [(k, x)] else [])) \<and>
    same_outside (insert a (set as)) h h'"
proof -
  obtain h' l' as' where "SortedInsert a x k (h, l) = Some (Inr (h', l'))"
    and "list_rel (h', l') as' (ksorted_insert x k xs)" and "same_outside (insert a (set as)) h h'"
    using SortedInsert_implements [OF assms(1,2)] by blast
  then show ?thesis
    using sorted_ksorted_insert [OF assms(3)] mset_ksorted_insert [of x k xs]
      filter_ksorted_insert [OF assms(3)] by blast
qed

definition example_heap :: "string heap" where
  "example_heap = [8 \<mapsto> \<lparr>nxt = 16, key = 10, item = ''timer''\<rparr>, 16 \<mapsto> \<lparr>nxt = 0, key = 30, item = ''disk''\<rparr>]"

definition example_list :: List where
  "example_list = \<lparr>first = 8, last_elt = 16\<rparr>"

lemma example_list_rel:
  "list_rel (example_heap, example_list) [8, 16] [(10, ''timer''), (30, ''disk'')]"
  by (simp add: list_rel_def example_heap_def example_list_def contents_def)

theorem SortedInsert_sorted_stable_witness:
  "\<exists>h' l' as' xs'. SortedInsert 24 ''console'' 10 (example_heap, example_list) = Some (Inr (h', l')) \<and>
     list_rel (h', l') as' xs' \<and> sorted (map fst xs') \<and>
     filter (\<lambda>e. fst e = 10) xs' = [(10, ''timer''), (10, ''console'')]"
proof -
  have f: "fresh example_heap 24" by (simp add: fresh_def example_heap_def)
  have s: "sorted (map fst [(10 :: int, ''timer''), (30, ''disk'')])" by simp
  show ?thesis
    using SortedInsert_sorted_stable [OF example_list_rel f s, of "''console''" 10] by fastforce
qed

text \<open>
  C29. Append and Remove (\<^verbatim>\<open>code/threads/list.cc\<close>) implement a first-in first-out list without
  memory errors, through any sequence of appends and removals on a well-formed list, \<^verbatim>\<open>new\<close> returning
  an unused address each time: every removal returns what the queue of the items returns (NULL when
  it is empty); the items removed, followed by those left, are the items held at first followed by
  those appended, in order; the list stays well formed; every element removed is freed, no other
  cell of the heap is freed or written.
\<close>

theorem Append_Remove_fifo:
  assumes "list_rel (h, l) as xs" and "finite (dom h)" and "\<forall>h. finite (dom h) \<longrightarrow> fresh h (alloc h)"
  shows "\<exists>h' l' as' xs'. run_list alloc ops (h, l) = Inr (fst (run_queue ops (map snd xs)), (h', l')) \<and>
    list_rel (h', l') as' xs' \<and> map snd xs' = snd (run_queue ops (map snd xs)) \<and>
    removed (fst (run_queue ops (map snd xs))) @ map snd xs' = map snd xs @ appended ops \<and>
    dom h' - set as' = dom h - set as \<and> (\<forall>p \<in> dom h - set as. h' p = h p)"
  using run_list_implements [OF _ assms(1,2), of alloc ops] assms(3) run_queue_order [of ops "map snd xs"] by metis

text \<open>An allocator: one past the largest address in use.\<close>

definition example_alloc :: "'a heap \<Rightarrow> ptr" where
  "example_alloc h = Suc (Max (insert 0 (dom h)))"

lemma example_alloc_fresh: "finite (dom h) \<Longrightarrow> fresh h (example_alloc h)"
proof -
  assume f: "finite (dom h)"
  have "p \<le> Max (insert 0 (dom h))" if "p \<in> dom h" for p using Max_ge [of "insert 0 (dom h)" p] f that by blast
  from this [of "Suc (Max (insert 0 (dom h)))"] have "Suc (Max (insert 0 (dom h))) \<notin> dom h" by auto
  then show ?thesis by (auto simp: fresh_def example_alloc_def)
qed

theorem Append_Remove_fifo_witness:
  "\<exists>st. run_list example_alloc [Remove_op, Append_op ''console'', Remove_op, Remove_op, Remove_op] (example_heap, example_list) =
     Inr ([Some ''timer'', Some ''disk'', Some ''console'', None], st)"
proof -
  have "finite (dom example_heap)" by (simp add: example_heap_def)
  moreover have "\<forall>h :: string heap. finite (dom h) \<longrightarrow> fresh h (example_alloc h)" using example_alloc_fresh by blast
  ultimately show ?thesis
    using Append_Remove_fifo [OF example_list_rel, of example_alloc
      "[Remove_op, Append_op ''console'', Remove_op, Remove_op, Remove_op]"] by (auto simp del: run_list.simps)
qed

end
