(* ===== verification/Nachos_Machine.thy ===== *)
theory Nachos_Machine
  imports Nachos_Prelude
begin

text \<open>
  The simulated MIPS machine as data, and its memory: the registers and the memory of
  \<^verbatim>\<open>code/machine/machine.h\<close> and \<^verbatim>\<open>machine.cc\<close>, the address translation and the virtual memory
  accesses of \<^verbatim>\<open>code/machine/translate.cc\<close>.

  \<^item> Page tables are arrays reached through pointers that the machine and the address spaces share;
    the field \<open>ptables\<close> is the store of those arrays, \<open>pageTable\<close> the machine's pointer.
  \<^item> Where the C++ code calls Machine::RaiseException and then returns at once, the model returns
    the pair of the exception and the bad address (a \<open>trap\<close>); RaiseException itself, which enters
    the kernel, is applied to it by the caller of OneInstruction.
  \<^item> \<open>big\<close> is the macro \<^verbatim>\<open>HOST_IS_BIG_ENDIAN\<close>.
\<close>

section \<open>Constants and data\<close>

abbreviation (input) SectorSize :: nat where "SectorSize \<equiv> 128"
abbreviation (input) PageSize :: nat where "PageSize \<equiv> SectorSize"
abbreviation (input) NumPhysPages :: nat where "NumPhysPages \<equiv> 4096"
abbreviation (input) MemorySize :: nat where "MemorySize \<equiv> NumPhysPages * PageSize"
abbreviation (input) TLBSize :: nat where "TLBSize \<equiv> 4"

abbreviation (input) StackReg :: nat where "StackReg \<equiv> 29"
abbreviation (input) RetAddrReg :: nat where "RetAddrReg \<equiv> 31"
abbreviation (input) NumGPRegs :: nat where "NumGPRegs \<equiv> 32"
abbreviation (input) HiReg :: nat where "HiReg \<equiv> 32"
abbreviation (input) LoReg :: nat where "LoReg \<equiv> 33"
abbreviation (input) PCReg :: nat where "PCReg \<equiv> 34"
abbreviation (input) NextPCReg :: nat where "NextPCReg \<equiv> 35"
abbreviation (input) PrevPCReg :: nat where "PrevPCReg \<equiv> 36"
abbreviation (input) LoadReg :: nat where "LoadReg \<equiv> 37"
abbreviation (input) LoadValueReg :: nat where "LoadValueReg \<equiv> 38"
abbreviation (input) BadVAddrReg :: nat where "BadVAddrReg \<equiv> 39"
abbreviation (input) NumTotalRegs :: nat where "NumTotalRegs \<equiv> 40"

datatype ExceptionType =
    NoException
  | SyscallException
  | PageFaultException
  | ReadOnlyException
  | BusErrorException
  | AddressErrorException
  | OverflowException
  | IllegalInstrException

type_synonym reg_word = "32 word"
type_synonym trap = "ExceptionType \<times> reg_word"

record TranslationEntry =
  virtualPage :: nat
  physicalPage :: nat
  valid :: bool
  readOnly :: bool
  use :: bool
  dirty :: bool

record machine =
  registers :: "reg_word list"
  mainMemory :: "nat \<Rightarrow> 8 word"
  tlb :: "TranslationEntry list option"
  pageTable :: "nat option"
  pageTableSize :: nat
  ptables :: "nat \<rightharpoonup> TranslationEntry list"
  singleStep :: bool
  runUntilTime :: int

definition Machine_new :: "bool \<Rightarrow> machine" where
  "Machine_new debug =
     \<lparr>registers = replicate NumTotalRegs 0, mainMemory = (\<lambda>_. 0), tlb = None, pageTable = None,
      pageTableSize = 0, ptables = (\<lambda>_. None), singleStep = debug, runUntilTime = 0\<rparr>"

definition ReadRegister :: "int \<Rightarrow> machine \<Rightarrow> reg_word res" where
  "ReadRegister num m =
     ASSERT (num \<ge> 0 \<and> num < int NumTotalRegs) (Inr (registers m ! nat num))"

definition WriteRegister :: "int \<Rightarrow> reg_word \<Rightarrow> machine \<Rightarrow> machine res" where
  "WriteRegister num value m =
     ASSERT (num \<ge> 0 \<and> num < int NumTotalRegs)
       (Inr (m\<lparr>registers := (registers m)[nat num := value]\<rparr>))"

text \<open>DelayedLoad indexes the register file with the contents of the register LoadReg.\<close>

definition DelayedLoad :: "reg_word \<Rightarrow> reg_word \<Rightarrow> machine \<Rightarrow> machine res" where
  "DelayedLoad nextReg nextValue m =
     (let regs = registers m; target = unat (regs ! LoadReg) in
      if target < NumTotalRegs
      then Inr (m\<lparr>registers :=
             ((regs[target := regs ! LoadValueReg])[LoadReg := nextReg])
               [LoadValueReg := nextValue, 0 := 0]\<rparr>)
      else Inl OutOfBounds)"

section \<open>Byte order\<close>

definition WordToHost :: "bool \<Rightarrow> 32 word \<Rightarrow> 32 word" where
  "WordToHost big w =
     (if big then (drop_bit 24 w AND 0xff) OR (drop_bit 8 w AND 0xff00) OR
                  (push_bit 8 w AND 0xff0000) OR (push_bit 24 w AND 0xff000000)
      else w)"

definition ShortToHost :: "bool \<Rightarrow> 16 word \<Rightarrow> 16 word" where
  "ShortToHost big w =
     (if big then (push_bit 8 w AND 0xff00) OR (drop_bit 8 w AND 0xff) else w)"

definition WordToMachine :: "bool \<Rightarrow> 32 word \<Rightarrow> 32 word" where
  "WordToMachine big w = WordToHost big w"

definition ShortToMachine :: "bool \<Rightarrow> 16 word \<Rightarrow> 16 word" where
  "ShortToMachine big w = ShortToHost big w"

text \<open>
  The host's own accesses to two and four bytes of memory through an integer pointer
  (\<^verbatim>\<open>*(unsigned int *) &mainMemory[a]\<close>).
\<close>

definition host_order :: "bool \<Rightarrow> 'a list \<Rightarrow> 'a list" where
  "host_order big bs = (if big then rev bs else bs)"

definition word_of_bytes :: "8 word list \<Rightarrow> 'a::len word" where
  "word_of_bytes bs = foldr (\<lambda>b w. Word.unsigned b OR push_bit 8 w) bs 0"

definition bytes_of_word :: "nat \<Rightarrow> 'a::len word \<Rightarrow> 8 word list" where
  "bytes_of_word n w = map (\<lambda>i. Word.unsigned (drop_bit (8 * i) w)) [0..<n]"

definition load_bytes :: "(nat \<Rightarrow> 8 word) \<Rightarrow> nat \<Rightarrow> nat \<Rightarrow> 8 word list" where
  "load_bytes mem a n = map (\<lambda>i. mem (a + i)) [0..<n]"

fun store_bytes :: "(nat \<Rightarrow> 8 word) \<Rightarrow> nat \<Rightarrow> 8 word list \<Rightarrow> (nat \<Rightarrow> 8 word)" where
  "store_bytes mem a [] = mem"
| "store_bytes mem a (b # bs) = store_bytes (mem(a := b)) (Suc a) bs"

definition host_load :: "bool \<Rightarrow> nat \<Rightarrow> (nat \<Rightarrow> 8 word) \<Rightarrow> nat \<Rightarrow> 'a::len word" where
  "host_load big n mem a = word_of_bytes (host_order big (load_bytes mem a n))"

definition host_store :: "bool \<Rightarrow> nat \<Rightarrow> (nat \<Rightarrow> 8 word) \<Rightarrow> nat \<Rightarrow> 'a::len word \<Rightarrow> (nat \<Rightarrow> 8 word)" where
  "host_store big n mem a w = store_bytes mem a (host_order big (bytes_of_word n w))"

section \<open>Address translation\<close>

fun tlb_search :: "TranslationEntry list \<Rightarrow> nat list \<Rightarrow> nat \<Rightarrow> nat option" where
  "tlb_search t [] vpn = None"
| "tlb_search t (i # is) vpn =
     (if valid (t ! i) \<and> virtualPage (t ! i) = vpn then Some i else tlb_search t is vpn)"

text \<open>
  Where the entry of a virtual page is: in the page table at an index, or in the TLB. \<open>Inl\<close> is
  the exception that Translate returns when there is none.
\<close>

datatype entry_loc = In_PageTable nat nat | In_TLB nat

definition find_entry :: "machine \<Rightarrow> nat \<Rightarrow> ((ExceptionType + (entry_loc \<times> TranslationEntry))) res" where
  "find_entry m vpn =
     (case tlb m of
        None \<Rightarrow> (case pageTable m of None \<Rightarrow> Inl NullDereference | Some p \<Rightarrow>
          if vpn \<ge> pageTableSize m then Inr (Inl AddressErrorException)
          else case ptables m p of None \<Rightarrow> Inl UseAfterFree | Some pt \<Rightarrow>
            if vpn \<ge> length pt then Inl OutOfBounds
            else if \<not> valid (pt ! vpn) then Inr (Inl PageFaultException)
            else Inr (Inr (In_PageTable p vpn, pt ! vpn)))
      | Some t \<Rightarrow> (case tlb_search t [0..<TLBSize] vpn of
            None \<Rightarrow> Inr (Inl PageFaultException)
          | Some i \<Rightarrow> Inr (Inr (In_TLB i, t ! i))))"

fun set_entry :: "entry_loc \<Rightarrow> TranslationEntry \<Rightarrow> machine \<Rightarrow> machine" where
  "set_entry (In_PageTable p i) e m =
     m\<lparr>ptables := (ptables m)(p := map_option (\<lambda>pt. pt[i := e]) (ptables m p))\<rparr>"
| "set_entry (In_TLB i) e m = m\<lparr>tlb := map_option (\<lambda>t. t[i := e]) (tlb m)\<rparr>"

definition Translate ::
  "reg_word \<Rightarrow> nat \<Rightarrow> bool \<Rightarrow> machine \<Rightarrow> ((ExceptionType + nat) \<times> machine) res" where
  "Translate virtAddr sz writing m =
     (if (sz = 4 \<and> virtAddr AND 0x3 \<noteq> 0) \<or> (sz = 2 \<and> virtAddr AND 0x1 \<noteq> 0)
      then Inr (Inl AddressErrorException, m)
      else ASSERT (tlb m = None \<or> pageTable m = None)
        (ASSERT (tlb m \<noteq> None \<or> pageTable m \<noteq> None)
          (let vpn = unat virtAddr div PageSize; offset = unat virtAddr mod PageSize in
           bindR (find_entry m vpn) (\<lambda>found. case found of
               Inl exc \<Rightarrow> Inr (Inl exc, m)
             | Inr (loc, entry) \<Rightarrow>
                 if readOnly entry \<and> writing then Inr (Inl ReadOnlyException, m)
                 else let pageFrame = physicalPage entry in
                   if pageFrame \<ge> NumPhysPages then Inr (Inl BusErrorException, m)
                   else let m' = set_entry loc (entry\<lparr>use := True, dirty := (writing \<or> dirty entry)\<rparr>) m;
                            physAddr = pageFrame * PageSize + offset in
                     ASSERT (physAddr + sz \<le> MemorySize) (Inr (Inr physAddr, m'))))))"

section \<open>Virtual memory accesses\<close>

text \<open>
  A one byte read goes through a \<^verbatim>\<open>char\<close>, which is signed on the hosts Nachos supports, so the
  value is sign-extended; a two byte read goes through an unsigned short.
\<close>

definition ReadMem :: "bool \<Rightarrow> reg_word \<Rightarrow> nat \<Rightarrow> machine \<Rightarrow> ((trap + reg_word) \<times> machine) res" where
  "ReadMem big addr sz m =
     bindR (Translate addr sz False m) (\<lambda>(r, m').
       case r of Inl exception \<Rightarrow> Inr (Inl (exception, addr), m')
       | Inr physicalAddress \<Rightarrow>
           if sz = 1 then Inr (Inr (Word.signed (mainMemory m' physicalAddress)), m')
           else if sz = 2
           then Inr (Inr (Word.unsigned (ShortToHost big (host_load big 2 (mainMemory m') physicalAddress))), m')
           else if sz = 4
           then Inr (Inr (WordToHost big (host_load big 4 (mainMemory m') physicalAddress)), m')
           else Inl AssertionFailed)"

definition WriteMem :: "bool \<Rightarrow> reg_word \<Rightarrow> nat \<Rightarrow> reg_word \<Rightarrow> machine \<Rightarrow> ((trap option) \<times> machine) res" where
  "WriteMem big addr sz value m =
     bindR (Translate addr sz True m) (\<lambda>(r, m').
       case r of Inl exception \<Rightarrow> Inr (Some (exception, addr), m')
       | Inr physicalAddress \<Rightarrow>
           if sz = 1
           then Inr (None, m'\<lparr>mainMemory := (mainMemory m')(physicalAddress := Word.unsigned (value AND 0xff))\<rparr>)
           else if sz = 2
           then Inr (None, m'\<lparr>mainMemory := host_store big 2 (mainMemory m') physicalAddress
                               (ShortToMachine big (Word.unsigned (value AND 0xffff)))\<rparr>)
           else if sz = 4
           then Inr (None, m'\<lparr>mainMemory := host_store big 4 (mainMemory m') physicalAddress
                               (WordToMachine big value)\<rparr>)
           else Inl AssertionFailed)"

section \<open>Lemmas on the byte order\<close>

lemma word_of_bytes_Cons [simp]: "word_of_bytes (b # bs) = Word.unsigned b OR push_bit 8 (word_of_bytes bs)"
  by (simp add: word_of_bytes_def)

lemma word_of_bytes_Nil [simp]: "word_of_bytes [] = 0"
  by (simp add: word_of_bytes_def)

lemma bit_word_of_bytes:
  "bit (word_of_bytes bs :: 'a::len word) n \<longleftrightarrow>
     n < LENGTH('a) \<and> n div 8 < length bs \<and> bit (bs ! (n div 8)) (n mod 8)"
proof (induction bs arbitrary: n)
  case Nil
  then show ?case by simp
next
  case (Cons b bs)
  show ?case
  proof (cases "n < 8")
    case True
    then show ?thesis using Cons
      by (simp add: bit_or_iff bit_unsigned_iff bit_push_bit_iff) 
  next
    case False
    then have n: "n div 8 = Suc ((n - 8) div 8)" "(n - 8) mod 8 = n mod 8" and b: "\<not> bit b n"
      using bit_imp_le_length[of b n] by (auto simp: le_div_geq le_mod_geq)
    have "bit (word_of_bytes (b # bs) :: 'a word) n \<longleftrightarrow> n < LENGTH('a) \<and> bit (word_of_bytes bs :: 'a word) (n - 8)"
      using b False by (auto simp: bit_or_iff bit_unsigned_iff bit_push_bit_iff)
    then show ?thesis using Cons [of "n - 8"] n by auto
  qed
qed

lemma masks: "(0xff00 :: 32 word) = push_bit 8 (mask 8)" "(0xff0000 :: 32 word) = push_bit 16 (mask 8)"
  "(0xff000000 :: 32 word) = push_bit 24 (mask 8)" "(0xff :: 32 word) = mask 8"
  by (simp_all add: mask_eq_exp_minus_1)

lemma bit_WordToHost:
  assumes "q < 4" "r < 8"
  shows "bit (WordToHost True w) (8 * q + r) \<longleftrightarrow> bit w (8 * (3 - q) + r)"
proof -
  consider "q = 0" | "q = 1" | "q = 2" | "q = 3"
    using assms by linarith
  then show ?thesis
    by cases (use assms in \<open>simp_all add: WordToHost_def bit_or_iff bit_and_iff bit_push_bit_iff bit_drop_bit_eq masks bit_mask_iff add.commute\<close>)
qed


lemma masks16: "(0xff00 :: 16 word) = push_bit 8 (mask 8)" "(0xff :: 16 word) = mask 8"
  by (simp_all add: mask_eq_exp_minus_1)

lemma bit_ShortToHost:
  assumes "q < 2" "r < 8"
  shows "bit (ShortToHost True w) (8 * q + r) \<longleftrightarrow> bit w (8 * (1 - q) + r)"
proof -
  consider "q = 0" | "q = 1" using assms by linarith
  then show ?thesis
    by cases (use assms in \<open>simp_all add: ShortToHost_def bit_or_iff bit_and_iff bit_push_bit_iff bit_drop_bit_eq
      masks16 bit_mask_iff add.commute\<close>)
qed

lemma length_load_bytes [simp]: "length (load_bytes mem a n) = n"
  by (simp add: load_bytes_def)

lemma length_bytes_of_word [simp]: "length (bytes_of_word n w) = n"
  by (simp add: bytes_of_word_def)

lemma bit_bytes_of_word:
  "i < n \<Longrightarrow> bit (bytes_of_word n (w :: 'a::len word) ! i) r \<longleftrightarrow> r < 8 \<and> bit w (8 * i + r)"
  by (auto simp: bytes_of_word_def bit_unsigned_iff bit_drop_bit_eq)

lemma word_of_bytes_of_word:
  assumes "LENGTH('a) = 8 * n"
  shows "word_of_bytes (bytes_of_word n w) = (w :: 'a::len word)"
proof (rule bit_word_eqI)
  fix k assume k: "k < LENGTH('a)"
  then have "k div 8 < n" using assms by auto
  then show "bit (word_of_bytes (bytes_of_word n w) :: 'a word) k \<longleftrightarrow> bit w k"
    using k by (simp add: bit_word_of_bytes bit_bytes_of_word)
qed

lemma WordToHost_load: "WordToHost big (host_load big 4 mem a) = word_of_bytes (load_bytes mem a 4)"
proof (cases big)
  case True
  show ?thesis
  proof (rule bit_word_eqI)
    fix n assume n: "n < LENGTH(32)"
    define q r where "q = n div 8" and "r = n mod 8"
    have qr: "n = 8 * q + r" "q < 4" "r < 8" using n by (auto simp: q_def r_def)
    have d: "(8 * (3 - q) + r) div 8 = 3 - q" "(8 * (3 - q) + r) mod 8 = r" "8 * (3 - q) + r < 32" 
      using qr by auto
    have d2: "(8 * q + r) div 8 = q" "(8 * q + r) mod 8 = r" using qr by auto
    show "bit (WordToHost big (host_load big 4 mem a)) n = bit (word_of_bytes (load_bytes mem a 4) :: 32 word) n"
      using True qr n d d2
      by (simp add: bit_WordToHost bit_ShortToHost host_load_def host_order_def bit_word_of_bytes rev_nth)
  qed
qed (simp add: WordToHost_def host_load_def host_order_def)

lemma ShortToHost_load: "ShortToHost big (host_load big 2 mem a) = word_of_bytes (load_bytes mem a 2)"
proof (cases big)
  case True
  show ?thesis
  proof (rule bit_word_eqI)
    fix n assume n: "n < LENGTH(16)"
    define q r where "q = n div 8" and "r = n mod 8"
    have qr: "n = 8 * q + r" "q < 2" "r < 8" using n by (auto simp: q_def r_def)
    have d: "(8 * (1 - q) + r) div 8 = 1 - q" "(8 * (1 - q) + r) mod 8 = r" "8 * (1 - q) + r < 16" 
      using qr by auto
    have d2: "(8 * q + r) div 8 = q" "(8 * q + r) mod 8 = r" using qr by auto
    show "bit (ShortToHost big (host_load big 2 mem a)) n = bit (word_of_bytes (load_bytes mem a 2) :: 16 word) n"
      using True qr n d d2
      by (simp add: bit_WordToHost bit_ShortToHost host_load_def host_order_def bit_word_of_bytes rev_nth)
  qed
qed (simp add: ShortToHost_def host_load_def host_order_def)

lemma WordToMachine_bytes: "host_order big (bytes_of_word 4 (WordToMachine big w)) = bytes_of_word 4 w"
proof (cases big)
  case True
  have "rev (bytes_of_word 4 (WordToHost True w)) ! i = bytes_of_word 4 w ! i" if i: "i < 4" for i
  proof (rule bit_word_eqI)
    fix r assume "r < LENGTH(8)"
    then show "bit (rev (bytes_of_word 4 (WordToHost True w)) ! i) r \<longleftrightarrow> bit (bytes_of_word 4 w ! i) r"
      using i bit_WordToHost[of "3 - i" r w] by (simp add: rev_nth bit_bytes_of_word)
  qed
  then show ?thesis using True
    by (auto simp: host_order_def WordToMachine_def intro: nth_equalityI)
qed (simp add: host_order_def WordToMachine_def WordToHost_def)

lemma ShortToMachine_bytes: "host_order big (bytes_of_word 2 (ShortToMachine big w)) = bytes_of_word 2 w"
proof (cases big)
  case True
  have "rev (bytes_of_word 2 (ShortToHost True w)) ! i = bytes_of_word 2 w ! i" if i: "i < 2" for i
  proof (rule bit_word_eqI)
    fix r assume "r < LENGTH(8)"
    then show "bit (rev (bytes_of_word 2 (ShortToHost True w)) ! i) r \<longleftrightarrow> bit (bytes_of_word 2 w ! i) r"
      using i bit_ShortToHost[of "1 - i" r w] by (simp add: rev_nth bit_bytes_of_word)
  qed
  then show ?thesis using True
    by (auto simp: host_order_def ShortToMachine_def intro: nth_equalityI)
qed (simp add: host_order_def ShortToMachine_def ShortToHost_def)

lemma store_bytes_apply:
  "store_bytes mem a bs k = (if a \<le> k \<and> k < a + length bs then bs ! (k - a) else mem k)"
proof (induction bs arbitrary: mem a)
  case (Cons b bs)
  show ?case by (auto simp: Cons nth_Cons')
qed auto

lemma load_store_bytes: "load_bytes (store_bytes mem a bs) a (length bs) = bs"
  by (auto simp: load_bytes_def store_bytes_apply intro: nth_equalityI)


section \<open>Well-formed machines\<close>

definition machine_wf :: "machine \<Rightarrow> bool" where
  "machine_wf m \<longleftrightarrow>
     length (registers m) = NumTotalRegs \<and>
     (\<forall>t. tlb m = Some t \<longrightarrow> length t = TLBSize) \<and>
     (\<forall>p. pageTable m = Some p \<longrightarrow> (\<exists>pt. ptables m p = Some pt \<and> pageTableSize m \<le> length pt))"

definition translation_ready :: "machine \<Rightarrow> bool" where
  "translation_ready m \<longleftrightarrow> (tlb m = None) \<noteq> (pageTable m = None)"

text \<open>What no access to the memory changes of the translation.\<close>

definition same_translation :: "machine \<Rightarrow> machine \<Rightarrow> bool" where
  "same_translation m m' \<longleftrightarrow> (tlb m' = None) = (tlb m = None) \<and> pageTable m' = pageTable m \<and> pageTableSize m' = pageTableSize m"

definition aligned :: "nat \<Rightarrow> reg_word \<Rightarrow> bool" where
  "aligned sz a \<longleftrightarrow> unat a mod sz = 0"

lemma misaligned_iff:
  "sz \<in> {1, 2, 4} \<Longrightarrow>
   ((sz = 4 \<and> a AND 0x3 \<noteq> (0::reg_word)) \<or> (sz = 2 \<and> a AND 0x1 \<noteq> 0)) \<longleftrightarrow> \<not> aligned sz a"
proof -
  have m: "(a AND 0x3 = 0) \<longleftrightarrow> unat a mod 4 = 0" "(a AND 0x1 = 0) \<longleftrightarrow> unat a mod 2 = 0" for a :: reg_word
  proof -
    have a: "a AND 0x3 = take_bit 2 a" "a AND 0x1 = take_bit 1 a"
      by (simp_all add: take_bit_eq_mask mask_eq_exp_minus_1)
    have k: "(take_bit k a = 0) \<longleftrightarrow> unat a mod 2 ^ k = 0" for k
      by (metis take_bit_eq_mod unat_eq_0 unsigned_take_bit_eq)
    show "(a AND 0x3 = 0) \<longleftrightarrow> unat a mod 4 = 0" using k [of 2] unfolding a by simp
    show "(a AND 0x1 = 0) \<longleftrightarrow> unat a mod 2 = 0" using k [of 1] unfolding a by (simp only: power_one_right)
  qed
  show "sz \<in> {1, 2, 4} \<Longrightarrow> ?thesis" by (auto simp: aligned_def m)
qed

lemma offset_fits:
  assumes "sz \<in> {1, 2, 4}" "aligned sz a"
  shows "unat a mod PageSize + sz \<le> PageSize"
proof -
  have "(unat a mod PageSize) mod sz = 0"
    using assms by (auto simp: aligned_def mod_mod_cancel)
  then obtain k where k: "unat a mod PageSize = sz * k" by auto
  have "sz * k < PageSize" using k mod_less_divisor [of PageSize "unat a"] by simp
  then have "sz * k + sz \<le> PageSize" using assms(1) by auto
  then show ?thesis using k by simp
qed

lemma tlb_search_Some:
  "tlb_search t ixs vpn = Some i \<Longrightarrow> i \<in> set ixs \<and> valid (t ! i) \<and> virtualPage (t ! i) = vpn"
  by (induction ixs) (auto split: if_splits)

lemma tlb_search_cong:
  "(\<And>i. i \<in> set ixs \<Longrightarrow> valid (t ! i) = valid (u ! i) \<and> virtualPage (t ! i) = virtualPage (u ! i)) \<Longrightarrow>
   tlb_search t ixs vpn = tlb_search u ixs vpn"
  by (induction ixs) auto

text \<open>Address translation never fails on a well-formed machine; it stays in bounds.\<close>

lemma find_entry_total:
  "machine_wf m \<Longrightarrow> translation_ready m \<Longrightarrow> \<exists>r. find_entry m vpn = Inr r"
  by (fastforce simp: find_entry_def machine_wf_def translation_ready_def split: option.splits)

lemma find_entry_valid: "find_entry m vpn = Inr (Inr (loc, e)) \<Longrightarrow> valid e"
  by (auto simp: find_entry_def dest: tlb_search_Some split: option.splits if_splits)

lemma set_entry_wf [simp]: "machine_wf (set_entry loc e m) = machine_wf m"
  by (cases loc) (auto simp: machine_wf_def)

lemma set_entry_select [simp]:
  "registers (set_entry loc e m) = registers m" "mainMemory (set_entry loc e m) = mainMemory m"
  "pageTableSize (set_entry loc e m) = pageTableSize m" "pageTable (set_entry loc e m) = pageTable m"
  "(tlb (set_entry loc e m) = None) = (tlb m = None)"
  by (cases loc; simp)+

lemma find_entry_set_entry:
  assumes "machine_wf m" "find_entry m vpn = Inr (Inr (loc, e))"
    and "valid e' = valid e" "virtualPage e' = virtualPage e"
  shows "find_entry (set_entry loc e' m) vpn = Inr (Inr (loc, e'))"
proof (cases "tlb m")
  case None
  with assms obtain p pt where "loc = In_PageTable p vpn" "pageTable m = Some p" "ptables m p = Some pt"
    "vpn < pageTableSize m" "vpn < length pt" "e = pt ! vpn" "valid e"
    by (auto simp: find_entry_def split: option.splits if_splits)
  then show ?thesis using None assms(3) by (simp add: find_entry_def)
next
  case (Some t)
  with assms obtain i where i: "loc = In_TLB i" "tlb_search t [0..<TLBSize] vpn = Some i" "e = t ! i"
    by (auto simp: find_entry_def split: option.splits)
  have "i < length t" using tlb_search_Some[OF i(2)] assms(1) Some by (auto simp: machine_wf_def)
  moreover have "tlb_search (t[i := e']) [0..<TLBSize] vpn = tlb_search t [0..<TLBSize] vpn"
    by (rule tlb_search_cong) (use assms i \<open>i < length t\<close> in \<open>auto simp: nth_list_update\<close>)
  ultimately show ?thesis using i Some by (simp add: find_entry_def)
qed

lemma find_entry_mem [simp]: "find_entry (m\<lparr>mainMemory := mm\<rparr>) vpn = find_entry m vpn"
  by (simp add: find_entry_def split: option.splits)

text \<open>Translate by cases, for the access widths the simulator uses.\<close>

definition accessible :: "reg_word \<Rightarrow> nat \<Rightarrow> bool \<Rightarrow> machine \<Rightarrow> (entry_loc \<times> TranslationEntry) \<Rightarrow> bool" where
  "accessible a sz writing m le \<longleftrightarrow> aligned sz a \<and>
     find_entry m (unat a div PageSize) = Inr (Inr le) \<and>
     \<not> (readOnly (snd le) \<and> writing) \<and> physicalPage (snd le) < NumPhysPages"

lemma Translate_misaligned:
  "sz \<in> {1, 2, 4} \<Longrightarrow> \<not> aligned sz a \<Longrightarrow> Translate a sz writing m = Inr (Inl AddressErrorException, m)"
  unfolding Translate_def by (subst misaligned_iff) auto

lemma Translate_not_found:
  assumes "translation_ready m" "sz \<in> {1, 2, 4}" "aligned sz a"
    and "find_entry m (unat a div PageSize) = Inr (Inl exc)"
  shows "Translate a sz writing m = Inr (Inl exc, m)"
proof -
  have "tlb m = None \<or> pageTable m = None" "tlb m \<noteq> None \<or> pageTable m \<noteq> None"
    using assms(1) by (auto simp: translation_ready_def)
  then show ?thesis
    unfolding Translate_def by (subst misaligned_iff) (use assms in \<open>simp_all del: not_None_eq\<close>)
qed

lemma Translate_found:
  assumes "translation_ready m" "sz \<in> {1, 2, 4}" "aligned sz a"
    and "find_entry m (unat a div PageSize) = Inr (Inr (loc, e))"
  shows "Translate a sz writing m =
    (if readOnly e \<and> writing then Inr (Inl ReadOnlyException, m)
     else if physicalPage e \<ge> NumPhysPages then Inr (Inl BusErrorException, m)
     else Inr (Inr (physicalPage e * PageSize + unat a mod PageSize),
               set_entry loc (e\<lparr>use := True, dirty := (writing \<or> dirty e)\<rparr>) m))"
proof -
  have "tlb m = None \<or> pageTable m = None" "tlb m \<noteq> None \<or> pageTable m \<noteq> None"
    using assms(1) by (auto simp: translation_ready_def)
  moreover have "physicalPage e < NumPhysPages \<Longrightarrow>
      physicalPage e * PageSize + unat a mod PageSize + sz \<le> MemorySize"
    using offset_fits [OF assms(2,3)] by simp
  ultimately show ?thesis
    unfolding Translate_def
    by (subst misaligned_iff) (use assms in \<open>simp_all add: Let_def del: not_None_eq\<close>)
qed

lemma Translate_cases:
  assumes "machine_wf m" "translation_ready m" "sz \<in> {1, 2, 4}"
  obtains (exc) exc where "exc \<in> {AddressErrorException, PageFaultException, ReadOnlyException, BusErrorException}"
      "Translate a sz writing m = Inr (Inl exc, m)" "\<And>le. \<not> accessible a sz writing m le"
  | (ok) loc e where "accessible a sz writing m (loc, e)"
      "Translate a sz writing m = Inr (Inr (physicalPage e * PageSize + unat a mod PageSize),
         set_entry loc (e\<lparr>use := True, dirty := (writing \<or> dirty e)\<rparr>) m)"
proof (cases "aligned sz a")
  case True
  obtain r where r: "find_entry m (unat a div PageSize) = Inr r"
    using find_entry_total [OF assms(1,2)] by blast
  show ?thesis
  proof (cases r)
    case (Inl x)
    then have "x \<in> {AddressErrorException, PageFaultException}"
      using r by (auto simp: find_entry_def split: option.splits if_splits)
    then show ?thesis
      using exc [of x] Translate_not_found [OF assms(2,3) True] r Inl by (auto simp: accessible_def)
  next
    case (Inr le)
    then obtain loc e where le: "find_entry m (unat a div PageSize) = Inr (Inr (loc, e))"
      using r by (cases le) auto
    note t = Translate_found [OF assms(2,3) True le, of writing]
    show ?thesis
    proof (cases "accessible a sz writing m (loc, e)")
      case True
      then show ?thesis using t ok by (auto simp: accessible_def)
    next
      case False
      then have "readOnly e \<and> writing \<or> physicalPage e \<ge> NumPhysPages"
        using le \<open>aligned sz a\<close> by (auto simp: accessible_def)
      then have "Translate a sz writing m =
          Inr (Inl (if readOnly e \<and> writing then ReadOnlyException else BusErrorException), m)"
        using t by auto
      moreover have "\<not> accessible a sz writing m le'" for le'
        using False le by (auto simp: accessible_def)
      ultimately show ?thesis by (intro exc) auto
    qed
  qed
next
  case False
  then show ?thesis using exc [of AddressErrorException] Translate_misaligned [OF assms(3) False]
    by (simp add: accessible_def)
qed

lemma Translate_accessible:
  assumes "machine_wf m" "translation_ready m" "sz \<in> {1, 2, 4}" "accessible a sz writing m (loc, e)"
  shows "Translate a sz writing m = Inr (Inr (physicalPage e * PageSize + unat a mod PageSize),
         set_entry loc (e\<lparr>use := True, dirty := (writing \<or> dirty e)\<rparr>) m)"
  using Translate_found [of m sz a loc e writing] assms by (auto simp: accessible_def)

lemma Translate_preserves:
  assumes "machine_wf m" "translation_ready m" "sz \<in> {1, 2, 4}" "Translate a sz writing m = Inr (r, m')"
  shows "machine_wf m'" "translation_ready m'" "registers m' = registers m" "mainMemory m' = mainMemory m"
    "same_translation m m'"
  by (rule Translate_cases [OF assms(1-3), of a writing];
      use assms in \<open>simp add: translation_ready_def same_translation_def; (elim conjE)?; simp\<close>)+

lemma Translate_again:
  assumes "machine_wf m" "translation_ready m" "sz \<in> {1, 2, 4}"
    and "Translate a sz writing m = Inr (Inr pa, m')"
  shows "\<exists>m''. Translate a sz False (m'\<lparr>mainMemory := mm\<rparr>) = Inr (Inr pa, m'') \<and> mainMemory m'' = mm"
proof -
  obtain loc e where acc: "accessible a sz writing m (loc, e)"
    and pa: "pa = physicalPage e * PageSize + unat a mod PageSize"
    and m': "m' = set_entry loc (e\<lparr>use := True, dirty := (writing \<or> dirty e)\<rparr>) m"
    by (rule Translate_cases [OF assms(1-3), of a writing]) (use assms(4) in auto)
  let ?e' = "e\<lparr>use := True, dirty := (writing \<or> dirty e)\<rparr>" and ?m = "m'\<lparr>mainMemory := mm\<rparr>"
  have "find_entry m' (unat a div PageSize) = Inr (Inr (loc, ?e'))"
    unfolding m' by (rule find_entry_set_entry) (use acc assms(1) in \<open>auto simp: accessible_def\<close>)
  then have "accessible a sz False ?m (loc, ?e')"
    using acc by (auto simp: accessible_def)
  moreover have "machine_wf ?m" "translation_ready ?m"
    using Translate_preserves(1,2) [OF assms] by (auto simp: machine_wf_def translation_ready_def)
  ultimately have "Translate a sz False ?m = Inr (Inr pa,
      set_entry loc (?e'\<lparr>use := True, dirty := (False \<or> dirty ?e')\<rparr>) ?m)"
    using Translate_accessible [of ?m sz a False loc ?e'] assms(3) pa by simp
  then show ?thesis by simp
qed


section \<open>Properties of the memory\<close>

lemma ReadMem_little: "ReadMem big a sz m = ReadMem False a sz m"
  unfolding ReadMem_def WordToHost_load ShortToHost_load ..

lemma host_store_little:
  "host_store big 4 mem a (WordToMachine big w) = store_bytes mem a (bytes_of_word 4 w)"
  "host_store big 2 mem a (ShortToMachine big h) = store_bytes mem a (bytes_of_word 2 h)"
  by (simp_all only: host_store_def WordToMachine_bytes ShortToMachine_bytes)

lemma WriteMem_little: "WriteMem big a sz v m = WriteMem False a sz v m"
  unfolding WriteMem_def host_store_little ..

definition stored_bytes :: "nat \<Rightarrow> reg_word \<Rightarrow> 8 word list" where
  "stored_bytes sz v = take sz (bytes_of_word 4 v)"

definition read_back :: "nat \<Rightarrow> reg_word \<Rightarrow> reg_word" where
  "read_back sz v = (if sz = 1 then Word.signed (Word.unsigned v :: 8 word)
     else if sz = 2 then take_bit 16 v else v)"

lemma bytes_of_word_4: "bytes_of_word 4 (v :: 32 word) =
   [Word.unsigned v, Word.unsigned (drop_bit 8 v), Word.unsigned (drop_bit 16 v), Word.unsigned (drop_bit 24 v)]"
  by (simp add: bytes_of_word_def upt_rec)

lemma low_byte: "(Word.unsigned (v AND 0xff) :: 8 word) = Word.unsigned (v :: 32 word)"
  by (rule bit_word_eqI) (auto simp: bit_unsigned_iff bit_and_iff masks bit_mask_iff)

lemma low_half_bytes: "bytes_of_word 2 (Word.unsigned (v AND 0xffff) :: 16 word) = take 2 (bytes_of_word 4 (v :: 32 word))"
proof (rule nth_equalityI)
  fix i assume i: "i < length (bytes_of_word 2 (Word.unsigned (v AND 0xffff) :: 16 word))"
  have m: "(0xffff :: 32 word) = mask 16" by (simp add: mask_eq_exp_minus_1)
  show "bytes_of_word 2 (Word.unsigned (v AND 0xffff) :: 16 word) ! i = take 2 (bytes_of_word 4 v) ! i"
  proof (rule bit_word_eqI)
    fix r assume r: "r < LENGTH(8)"
    show "bit (bytes_of_word 2 (Word.unsigned (v AND 0xffff) :: 16 word) ! i) r = bit (take 2 (bytes_of_word 4 v) ! i) r"
      using i r by (auto simp: bit_bytes_of_word bit_unsigned_iff bit_and_iff m bit_mask_iff)
  qed
qed simp

lemma WriteMem_ok:
  assumes "sz \<in> {1, 2, 4}" "Translate a sz True m = Inr (Inr pa, m')"
  shows "WriteMem big a sz v m =
     Inr (None, m'\<lparr>mainMemory := store_bytes (mainMemory m') pa (stored_bytes sz v)\<rparr>)"
proof -
  consider "sz = 1" | "sz = 2" | "sz = 4" using assms by auto
  then show ?thesis
    by cases (use assms(2) in \<open>simp_all add: WriteMem_def host_store_little low_half_bytes
        stored_bytes_def low_byte bytes_of_word_4\<close>)
qed

lemma ReadMem_ok:
  assumes "sz \<in> {1, 2, 4}" "Translate a sz False m = Inr (Inr pa, m')"
    and "load_bytes (mainMemory m') pa sz = stored_bytes sz v"
  shows "ReadMem big a sz m = Inr (Inr (read_back sz v), m')"
proof -
  consider "sz = 1" | "sz = 2" | "sz = 4" using assms by auto
  then show ?thesis
  proof cases
    case 1
    then show ?thesis using assms(2,3)
      by (simp add: ReadMem_def load_bytes_def stored_bytes_def bytes_of_word_4 read_back_def)
  next
    case 2
    have "(Word.unsigned (word_of_bytes (stored_bytes 2 v) :: 16 word) :: 32 word) = take_bit 16 v"
      unfolding stored_bytes_def low_half_bytes [symmetric]
      by (subst word_of_bytes_of_word, simp, rule bit_word_eqI)
         (auto simp: bit_unsigned_iff bit_take_bit_iff bit_and_iff bit_mask_iff
            mask_eq_exp_minus_1 [of 16, where ?'a = "32 word", simplified, symmetric])
    then show ?thesis using 2 assms(2,3) by (simp add: ReadMem_def ShortToHost_load read_back_def)
  next
    case 3
    then show ?thesis using assms(2,3)
      by (simp add: ReadMem_def WordToHost_load read_back_def stored_bytes_def word_of_bytes_of_word)
  qed
qed

definition example_machine :: machine where
  "example_machine = (Machine_new False)
     \<lparr>pageTable := Some 1, pageTableSize := 2,
      ptables := [1 \<mapsto> [\<lparr>virtualPage = 0, physicalPage = 5, valid = True, readOnly = False, use = False, dirty = False\<rparr>,
                        \<lparr>virtualPage = 1, physicalPage = 3, valid = True, readOnly = True, use = False, dirty = False\<rparr>]]\<rparr>"

lemma example_machine_ok: "machine_wf example_machine" "translation_ready example_machine"
  by (simp_all add: example_machine_def machine_wf_def translation_ready_def Machine_new_def)

text \<open>
  C19. Address translation is total on a well-formed machine that has either a page table or a TLB:
  none of the ASSERTs of Translate can fail. It either returns one of the four exceptions and
  leaves the machine alone, or the address is aligned and mapped, the physical address lies with
  its whole access inside the memory, in the frame of the page's entry and at the page offset, and
  nothing changes but the use and dirty bits of that entry.
\<close>

theorem Translate_total_bounded:
  assumes "machine_wf m" and "translation_ready m" and "sz \<in> {1, 2, 4}"
  shows "(\<exists>exc \<in> {AddressErrorException, PageFaultException, ReadOnlyException, BusErrorException}.
            Translate a sz writing m = Inr (Inl exc, m)) \<or>
         (\<exists>loc e. Translate a sz writing m =
              Inr (Inr (physicalPage e * PageSize + unat a mod PageSize),
                   set_entry loc (e\<lparr>use := True, dirty := (writing \<or> dirty e)\<rparr>) m) \<and>
            unat a mod sz = 0 \<and>
            find_entry m (unat a div PageSize) = Inr (Inr (loc, e)) \<and>
            \<not> (readOnly e \<and> writing) \<and>
            physicalPage e * PageSize + unat a mod PageSize + sz \<le> MemorySize)"
proof (rule Translate_cases [OF assms, of a writing])
  fix loc e
  assume acc: "accessible a sz writing m (loc, e)"
  then have "physicalPage e * PageSize + unat a mod PageSize + sz \<le> MemorySize"
    using offset_fits [OF assms(3), of a] by (simp add: accessible_def)
  moreover assume "Translate a sz writing m = Inr (Inr (physicalPage e * PageSize + unat a mod PageSize),
      set_entry loc (e\<lparr>use := True, dirty := (writing \<or> dirty e)\<rparr>) m)"
  ultimately show ?thesis using acc unfolding accessible_def aligned_def by auto
qed blast

theorem Translate_total_bounded_witness:
  "(\<exists>exc \<in> {AddressErrorException, PageFaultException, ReadOnlyException, BusErrorException}.
      Translate 0x84 4 True example_machine = Inr (Inl exc, example_machine)) \<and>
   Translate 0x84 4 True example_machine = Inr (Inl ReadOnlyException, example_machine)"
proof -
  have "Translate 0x84 4 True example_machine = Inr (Inl ReadOnlyException, example_machine)"
    by (simp add: Translate_def example_machine_def Machine_new_def find_entry_def ASSERT_def)
  then show ?thesis
    using Translate_total_bounded [OF example_machine_ok, of 4 "0x84" True] by simp
qed

text \<open>
  C32. The simulated memory is little endian whatever the byte order of the host: the conversions
  of translate.cc undo the host's own order exactly, so a virtual read and a virtual write do the
  same on a big-endian host as on a little-endian one.
\<close>

theorem memory_host_independent:
  "ReadMem True a sz m = ReadMem False a sz m \<and> WriteMem True a sz v m = WriteMem False a sz v m"
  by (simp only: ReadMem_little [of True] WriteMem_little [of True])

text \<open>
  C33. A successful virtual write is what the next virtual read of that address and width returns
  (a byte sign-extended, a half word zero-extended, a word as it is), and it changes no byte of
  the memory but the \<open>sz\<close> bytes of the physical address.
\<close>

theorem WriteMem_ReadMem:
  assumes "machine_wf m" and "translation_ready m" and "sz \<in> {1, 2, 4}"
    and "WriteMem big a sz v m = Inr (None, m1)"
  shows "\<exists>m2 pa. ReadMem big a sz m1 = Inr (Inr (read_back sz v), m2) \<and>
           Translate a sz True m = Inr (Inr pa, m1\<lparr>mainMemory := mainMemory m\<rparr>) \<and>
           (\<forall>k. \<not> (pa \<le> k \<and> k < pa + sz) \<longrightarrow> mainMemory m1 k = mainMemory m k)"
proof -
  have "\<exists>pa m'. Translate a sz True m = Inr (Inr pa, m')"
    by (rule Translate_cases [OF assms(1-3), of a True]) (use assms(4) in \<open>auto simp: WriteMem_def\<close>)
  then obtain pa m' where tr: "Translate a sz True m = Inr (Inr pa, m')" by blast
  let ?mm = "store_bytes (mainMemory m') pa (stored_bytes sz v)"
  have m1: "m1 = m'\<lparr>mainMemory := ?mm\<rparr>" using WriteMem_ok [OF assms(3) tr] assms(4) by simp
  have len: "length (stored_bytes sz v) = sz" using assms(3) by (auto simp: stored_bytes_def)
  have mem: "mainMemory m' = mainMemory m" using Translate_preserves [OF assms(1-3) tr] by simp
  obtain m2 where t2: "Translate a sz False m1 = Inr (Inr pa, m2)" "mainMemory m2 = ?mm"
    using Translate_again [OF assms(1-3) tr, of ?mm] m1 by auto
  have "load_bytes (mainMemory m2) pa sz = stored_bytes sz v"
    using load_store_bytes [of "mainMemory m'" pa "stored_bytes sz v"] len t2 by simp
  then have "ReadMem big a sz m1 = Inr (Inr (read_back sz v), m2)"
    by (rule ReadMem_ok [OF assms(3) t2(1)])
  moreover have "Translate a sz True m = Inr (Inr pa, m1\<lparr>mainMemory := mainMemory m\<rparr>)"
    using tr m1 mem by simp
  moreover have "\<not> (pa \<le> k \<and> k < pa + sz) \<Longrightarrow> mainMemory m1 k = mainMemory m k" for k
    using m1 mem len by (auto simp: store_bytes_apply)
  ultimately show ?thesis by blast
qed

theorem WriteMem_ReadMem_witness:
  "\<exists>m1 m2. WriteMem True 0x12 2 0x1fffe example_machine = Inr (None, m1) \<and>
     ReadMem True 0x12 2 m1 = Inr (Inr 0xfffe, m2)"
proof -
  have "Translate 0x12 2 True example_machine = Inr (Inr 658, set_entry (In_PageTable 1 0)
     \<lparr>virtualPage = 0, physicalPage = 5, valid = True, readOnly = False, use = True, dirty = True\<rparr> example_machine)"
    by (simp add: Translate_def example_machine_def Machine_new_def find_entry_def ASSERT_def Let_def)
  then obtain m1 where w: "WriteMem True 0x12 2 0x1fffe example_machine = Inr (None, m1)"
    using WriteMem_ok [of 2] by blast
  moreover have "read_back 2 0x1fffe = 0xfffe" by (simp add: read_back_def)
  ultimately show ?thesis
    using WriteMem_ReadMem [OF example_machine_ok _ w] by auto
qed

end
