(* ===== verification/Nachos_Interrupt.thy ===== *)
theory Nachos_Interrupt
  imports Nachos_List Nachos_Machine
begin

text \<open>
  The state of the kernel and the simulation of hardware interrupts: \<^verbatim>\<open>code/machine/interrupt.cc\<close>,
  \<^verbatim>\<open>stats.cc\<close> and \<^verbatim>\<open>timer.cc\<close>, and the interrupt handler of the timer in \<^verbatim>\<open>code/threads/system.cc\<close>.

  The kernel is one record. Its type parameter \<open>'h\<close> is the type of interrupt handlers (the pairs
  of a function pointer and its argument that devices pass to Schedule), and the record is
  extensible, so that each device adds its own state. \<open>run\<close> is the call through the handler's
  function pointer.

  The lists of the kernel (pending interrupts, ready threads, waiting threads) are the functional
  lists that the linked lists of list.cc implement (theory \<open>Nachos_List\<close>).

  A thread's \<open>kstack\<close> is what the host stack and machineState of a thread hold for the kernel: the
  operations the thread is in the middle of, the innermost first. SWITCH saves it by leaving it in
  the thread.
\<close>

section \<open>The state\<close>

datatype IntStatus = IntOff | IntOn
datatype MachineStatus = IdleMode | SystemMode | UserMode
datatype IntType = TimerInt | DiskInt | ConsoleWriteInt | ConsoleReadInt | NetworkSendInt | NetworkRecvInt
datatype ThreadStatus = JUST_CREATED | RUNNING | READY | BLOCKED

type_synonym tid = nat
type_synonym semid = nat

record 'h PendingInterrupt =
  handler :: 'h
  when_due :: int
  int_type :: IntType

text \<open>
  What a thread has left to do in the kernel: \<open>RestoreLevel l\<close> is the \<^verbatim>\<open>(void) interrupt->SetLevel(l)\<close>
  that ends most operations; \<open>RestoreStatus s\<close> is the \<^verbatim>\<open>status = old\<close> that ends OneTick; \<open>AfterSwitch\<close>
  the second half of Scheduler::Run; \<open>Sleeping\<close> the loop of Thread::Sleep; \<open>Waiting s l\<close> the loop
  of Semaphore::P with its oldLevel; \<open>Startup\<close> the call of SetupThreadState in ThreadRoot.
\<close>

datatype frame =
    RestoreLevel IntStatus
  | RestoreStatus MachineStatus
  | AfterSwitch
  | Sleeping
  | Waiting semid IntStatus
  | Startup

record Thread =
  tname :: string
  tstatus :: ThreadStatus
  stack :: "nat option"
  kstack :: "frame list"
  userRegisters :: "reg_word list"
  space :: "nat option"

record Semaphore =
  sname :: string
  svalue :: int
  squeue :: "tid keyed"

record AddrSpace =
  asPageTable :: nat
  numPages :: nat

record Statistics =
  totalTicks :: int
  idleTicks :: int
  systemTicks :: int
  userTicks :: int
  numDiskReads :: int
  numDiskWrites :: int
  numConsoleCharsRead :: int
  numConsoleCharsWritten :: int
  numPageFaults :: int
  numPacketsSent :: int
  numPacketsRecvd :: int

record 'h kernel =
  stats :: Statistics
  level :: IntStatus
  pending :: "'h PendingInterrupt keyed"
  inHandler :: bool
  yieldOnReturn :: bool
  status :: MachineStatus
  readyList :: "tid keyed"
  halted :: bool
  currentThread :: tid
  threadToBeDestroyed :: "tid option"
  threads :: "tid \<rightharpoonup> Thread"
  semaphores :: "semid \<rightharpoonup> Semaphore"
  cpu :: "machine option"
  spaces :: "nat \<rightharpoonup> AddrSpace"

abbreviation (input) UserTick :: int where "UserTick \<equiv> 1"
abbreviation (input) SystemTick :: int where "SystemTick \<equiv> 10"
abbreviation (input) TimerTicks :: int where "TimerTicks \<equiv> 100"

abbreviation now :: "('h, 'd) kernel_scheme \<Rightarrow> int" where "now k \<equiv> totalTicks (stats k)"

definition Statistics_new :: Statistics where
  "Statistics_new =
     \<lparr>totalTicks = 0, idleTicks = 0, systemTicks = 0, userTicks = 0, numDiskReads = 0, numDiskWrites = 0,
      numConsoleCharsRead = 0, numConsoleCharsWritten = 0, numPageFaults = 0, numPacketsSent = 0,
      numPacketsRecvd = 0\<rparr>"

section \<open>Interrupts\<close>

definition ChangeLevel :: "IntStatus \<Rightarrow> IntStatus \<Rightarrow> ('h, 'd) kernel_scheme \<Rightarrow> ('h, 'd) kernel_scheme" where
  "ChangeLevel old new k = k\<lparr>level := new\<rparr>"

definition YieldOnReturn :: "('h, 'd) kernel_scheme \<Rightarrow> ('h, 'd) kernel_scheme res" where
  "YieldOnReturn k = ASSERT (inHandler k) (Inr (k\<lparr>yieldOnReturn := True\<rparr>))"

definition PendingInterrupt_new :: "'h \<Rightarrow> int \<Rightarrow> IntType \<Rightarrow> 'h PendingInterrupt" where
  "PendingInterrupt_new h time kind = \<lparr>handler = h, when_due = time, int_type = kind\<rparr>"

definition Schedule :: "'h \<Rightarrow> int \<Rightarrow> IntType \<Rightarrow> ('h, 'd) kernel_scheme \<Rightarrow> ('h, 'd) kernel_scheme res" where
  "Schedule h fromNow type k =
     (let due = now k + fromNow; toOccur = PendingInterrupt_new h due type in
      ASSERT (fromNow > 0) (Inr (k\<lparr>pending := ksorted_insert toOccur due (pending k)\<rparr>)))"

definition advance_clock :: "int \<Rightarrow> ('h, 'd) kernel_scheme \<Rightarrow> ('h, 'd) kernel_scheme" where
  "advance_clock due k =
     k\<lparr>stats := (stats k)\<lparr>idleTicks := idleTicks (stats k) + (due - now k), totalTicks := due\<rparr>\<rparr>"

text \<open>
  Calling the handler, with the processor's pending load finished first when the interrupt arrives
  in user mode.
\<close>

definition finish_load :: "('h, 'd) kernel_scheme \<Rightarrow> ('h, 'd) kernel_scheme res" where
  "finish_load k =
     (case cpu k of
        Some m \<Rightarrow> if status k = UserMode then bindR (DelayedLoad 0 0 m) (\<lambda>m'. Inr (k\<lparr>cpu := Some m'\<rparr>)) else Inr k
      | None \<Rightarrow> Inr k)"

definition fire ::
  "('h \<Rightarrow> ('h, 'd) kernel_scheme \<Rightarrow> ('h, 'd) kernel_scheme res) \<Rightarrow> 'h PendingInterrupt \<Rightarrow>
   ('h, 'd) kernel_scheme \<Rightarrow> ('h, 'd) kernel_scheme res" where
  "fire run toOccur k =
     bindR (finish_load k) (\<lambda>k1.
       bindR (run (handler toOccur) (k1\<lparr>inHandler := True, status := SystemMode\<rparr>)) (\<lambda>k2.
         Inr (k2\<lparr>status := status k, inHandler := False\<rparr>)))"

definition CheckIfDue ::
  "('h \<Rightarrow> ('h, 'd) kernel_scheme \<Rightarrow> ('h, 'd) kernel_scheme res) \<Rightarrow> bool \<Rightarrow>
   ('h, 'd) kernel_scheme \<Rightarrow> (bool \<times> ('h, 'd) kernel_scheme) res" where
  "CheckIfDue run advanceClock k =
     ASSERT (level k = IntOff)
       (case kremove (pending k) of
          (None, _) \<Rightarrow> Inr (False, k)
        | (Some (due, toOccur), rest) \<Rightarrow>
            let back = (\<lambda>k. Inr (False, k\<lparr>pending := ksorted_insert toOccur due (pending k)\<rparr>));
                k1 = k\<lparr>pending := rest\<rparr> in
            if \<not> advanceClock \<and> due > now k then back k1
            else let k2 = (if due > now k then advance_clock due k1 else k1) in
              if status k2 = IdleMode \<and> int_type toOccur = TimerInt \<and> pending k2 = [] then back k2
              else bindR (fire run toOccur k2) (\<lambda>k3. Inr (True, k3)))"

text \<open>The loop \<^verbatim>\<open>while (CheckIfDue(FALSE)) ;\<close>.\<close>

partial_function (option) CheckIfDue_while ::
  "('h \<Rightarrow> ('h, 'd) kernel_scheme \<Rightarrow> ('h, 'd) kernel_scheme res) \<Rightarrow>
   ('h, 'd) kernel_scheme \<Rightarrow> ('h, 'd) kernel_scheme res option" where
  "CheckIfDue_while run k =
     (case CheckIfDue run False k of
        Inl e \<Rightarrow> Some (Inl e)
      | Inr (fired, k') \<Rightarrow> if fired then CheckIfDue_while run k' else Some (Inr k'))"

text \<open>Shutting down: the exit of the host process. Idle halts when no interrupt is left.\<close>

definition Halt :: "('h, 'd) kernel_scheme \<Rightarrow> ('h, 'd) kernel_scheme res" where
  "Halt k = Inl MachineHalted"

definition Idle ::
  "('h \<Rightarrow> ('h, 'd) kernel_scheme \<Rightarrow> ('h, 'd) kernel_scheme res) \<Rightarrow>
   ('h, 'd) kernel_scheme \<Rightarrow> ('h, 'd) kernel_scheme res" where
  "Idle run k =
     bindR (CheckIfDue run True (k\<lparr>status := IdleMode\<rparr>)) (\<lambda>(fired, k1).
       if fired
       then bindR (loop_result (CheckIfDue_while run k1)) (\<lambda>k2.
              Inr (k2\<lparr>yieldOnReturn := False, status := SystemMode\<rparr>))
       else Halt k1)"

section \<open>The timer\<close>

text \<open>
  \<open>random\<close> is what \<^verbatim>\<open>Random()\<close> returns, a call of the host's random number generator. The handler
  that the kernel installs is TimerInterruptHandler.
\<close>

definition TimeOfNextInterrupt :: "bool \<Rightarrow> int \<Rightarrow> int" where
  "TimeOfNextInterrupt randomize random =
     (if randomize then 1 + random smod (TimerTicks * 2) else TimerTicks)"

definition TimerInterruptHandler :: "('h, 'd) kernel_scheme \<Rightarrow> ('h, 'd) kernel_scheme res" where
  "TimerInterruptHandler k = (if status k \<noteq> IdleMode then YieldOnReturn k else Inr k)"

definition Timer_new :: "'h \<Rightarrow> bool \<Rightarrow> int \<Rightarrow> ('h, 'd) kernel_scheme \<Rightarrow> ('h, 'd) kernel_scheme res" where
  "Timer_new timerHandler doRandom random k =
     Schedule timerHandler (TimeOfNextInterrupt doRandom random) TimerInt k"

definition TimerExpired :: "'h \<Rightarrow> bool \<Rightarrow> int \<Rightarrow> ('h, 'd) kernel_scheme \<Rightarrow> ('h, 'd) kernel_scheme res" where
  "TimerExpired timerHandler randomize random k =
     bindR (Schedule timerHandler (TimeOfNextInterrupt randomize random) TimerInt k) TimerInterruptHandler"

section \<open>The contract of interrupt handlers\<close>

text \<open>
  What the interrupt simulation relies on: a handler does not move the clock, enable interrupts or
  change the machine status, and the interrupts it schedules are in the future.
\<close>

definition handler_keeps :: "('h, 'd) kernel_scheme \<Rightarrow> ('h, 'd) kernel_scheme \<Rightarrow> bool" where
  "handler_keeps k k' \<longleftrightarrow>
     now k' = now k \<and> level k' = level k \<and> inHandler k' = inHandler k \<and> status k' = status k \<and>
     (sorted (map fst (pending k)) \<longrightarrow> sorted (map fst (pending k'))) \<and>
     filter (\<lambda>p. fst p \<le> now k) (pending k') = filter (\<lambda>p. fst p \<le> now k) (pending k)"

lemma filter_later_ksorted_insert:
  "\<not> Q (k, x) \<Longrightarrow> filter Q (ksorted_insert x k xs) = filter Q xs"
  by (induction xs) auto

lemma Schedule_keeps: "Schedule h d ty k = Inr k' \<Longrightarrow> handler_keeps k k'"
  by (auto simp: Schedule_def Let_def handler_keeps_def res_simps sorted_ksorted_insert
      filter_later_ksorted_insert)

lemma handler_keeps_refl [simp]: "handler_keeps k k"
  by (simp add: handler_keeps_def)

lemma handler_keeps_trans: "handler_keeps k k1 \<Longrightarrow> handler_keeps k1 k2 \<Longrightarrow> handler_keeps k k2"
  by (auto simp: handler_keeps_def)

lemma finish_load_keeps: "finish_load k = Inr k' \<Longrightarrow> handler_keeps k k' \<and> k' = k\<lparr>cpu := cpu k'\<rparr>"
  by (auto simp: finish_load_def handler_keeps_def res_simps split: option.splits if_splits)

locale interrupt_handlers =
  fixes run :: "'h \<Rightarrow> ('h, 'd) kernel_scheme \<Rightarrow> ('h, 'd) kernel_scheme res"
  assumes run_keeps: "run h k = Inr k' \<Longrightarrow> handler_keeps k k'"
begin

lemma fire_keeps:
  assumes "fire run p k = Inr k'"
  shows "handler_keeps (k\<lparr>inHandler := False\<rparr>) k'"
proof -
  obtain k1 k2 where "finish_load k = Inr k1" "run (handler p) (k1\<lparr>inHandler := True, status := SystemMode\<rparr>) = Inr k2"
    and k': "k' = k2\<lparr>status := status k, inHandler := False\<rparr>"
    using assms by (auto simp: fire_def res_simps)
  then have "handler_keeps k k1" "handler_keeps (k1\<lparr>inHandler := True, status := SystemMode\<rparr>) k2"
    using finish_load_keeps run_keeps by blast+
  then show ?thesis by (simp add: handler_keeps_def k')
qed

lemma CheckIfDue_level: "CheckIfDue run adv k = Inr (b, k') \<Longrightarrow> level k = IntOff \<and> level k' = IntOff"
  using fire_keeps
  by (auto simp: CheckIfDue_def res_simps Let_def advance_clock_def handler_keeps_def split: prod.splits option.splits if_splits)

lemma CheckIfDue_fired:
  assumes "CheckIfDue run False k = Inr (True, k')"
  obtains due p rest where "pending k = (due, p) # rest" "due \<le> now k"
    "handler_keeps (k\<lparr>pending := rest, inHandler := False\<rparr>) k'"
proof (cases "pending k")
  case Nil
  then show ?thesis using assms by (simp add: CheckIfDue_def res_simps)
next
  case (Cons e rest)
  obtain due p where e: "e = (due, p)" by fastforce
  have "due \<le> now k" "fire run p (k\<lparr>pending := rest\<rparr>) = Inr k'"
    using assms Cons e by (auto simp: CheckIfDue_def res_simps Let_def split: if_splits)
  then show ?thesis using that [of due p rest] Cons e fire_keeps [of p "k\<lparr>pending := rest\<rparr>" k'] by simp
qed

lemma CheckIfDue_not_fired:
  assumes "CheckIfDue run False k = Inr (False, k')"
  shows "mset (pending k') = mset (pending k)" "k' = k\<lparr>pending := pending k'\<rparr>"
    "sorted (map fst (pending k)) \<Longrightarrow> sorted (map fst (pending k'))"
    "status k \<noteq> IdleMode \<Longrightarrow> sorted (map fst (pending k)) \<Longrightarrow> \<forall>e \<in> set (pending k'). now k' < fst e"
proof -
  have "k' = k \<and> pending k = [] \<or>
     (\<exists>due p rest. pending k = (due, p) # rest \<and> k' = k\<lparr>pending := ksorted_insert p due rest\<rparr> \<and>
        (status k \<noteq> IdleMode \<longrightarrow> due > now k))"
    using assms by (cases "pending k") (auto simp: CheckIfDue_def res_simps Let_def split: if_splits prod.splits)
  then show "mset (pending k') = mset (pending k)" "k' = k\<lparr>pending := pending k'\<rparr>"
    "sorted (map fst (pending k)) \<Longrightarrow> sorted (map fst (pending k'))"
    "status k \<noteq> IdleMode \<Longrightarrow> sorted (map fst (pending k)) \<Longrightarrow> \<forall>e \<in> set (pending k'). now k' < fst e"
    by (force simp: mset_ksorted_insert sorted_ksorted_insert set_ksorted_insert)+
qed

text \<open>The loop ends: each round consumes one interrupt that is due, and handlers add none.\<close>

lemma CheckIfDue_while_ends: "\<exists>r. CheckIfDue_while run k = Some r"
proof (induction "length (filter (\<lambda>e. fst e \<le> now k) (pending k))" arbitrary: k rule: less_induct)
  case less
  show ?case
  proof (cases "CheckIfDue run False k")
    case (Inl e)
    then show ?thesis by (subst CheckIfDue_while.simps) simp
  next
    case (Inr r)
    obtain fired k' where r: "r = (fired, k')" by fastforce
    show ?thesis
    proof (cases fired)
      case True
      obtain due p rest where c: "pending k = (due, p) # rest" "due \<le> now k"
        "handler_keeps (k\<lparr>pending := rest, inHandler := False\<rparr>) k'"
        by (rule CheckIfDue_fired [of k k']) (use Inr r True in auto)
      then have "length (filter (\<lambda>e. fst e \<le> now k') (pending k')) < length (filter (\<lambda>e. fst e \<le> now k) (pending k))"
        by (simp add: handler_keeps_def)
      from less [OF this] show ?thesis using Inr r True by (subst CheckIfDue_while.simps) simp
    next
      case False
      then show ?thesis using Inr r by (subst CheckIfDue_while.simps) simp
    qed
  qed
qed

lemma CheckIfDue_while_induct:
  assumes "CheckIfDue_while run k = Some (Inr k')"
    and step: "\<And>k k'. I k \<Longrightarrow> CheckIfDue run False k = Inr (True, k') \<Longrightarrow> I k'"
    and "I k"
  shows "\<exists>k1. I k1 \<and> CheckIfDue run False k1 = Inr (False, k')"
  using assms(1,3)
proof (induction "length (filter (\<lambda>e. fst e \<le> now k) (pending k))" arbitrary: k rule: less_induct)
  case less
  obtain fired k1 where r: "CheckIfDue run False k = Inr (fired, k1)"
    using less.prems(1) by (cases "CheckIfDue run False k") (auto simp: CheckIfDue_while.simps [of run k])
  show ?case
  proof (cases fired)
    case True
    obtain due p rest where c: "pending k = (due, p) # rest" "due \<le> now k"
      "handler_keeps (k\<lparr>pending := rest, inHandler := False\<rparr>) k1"
      by (rule CheckIfDue_fired [of k k1]) (use r True in auto)
    then have "length (filter (\<lambda>e. fst e \<le> now k1) (pending k1)) < length (filter (\<lambda>e. fst e \<le> now k) (pending k))"
      by (simp add: handler_keeps_def)
    moreover have "CheckIfDue_while run k1 = Some (Inr k')"
      using less.prems(1) r True by (simp add: CheckIfDue_while.simps [of run k])
    moreover have "I k1" using step [OF less.prems(2)] r True by simp
    ultimately show ?thesis by (rule less.hyps)
  next
    case False
    then have "k1 = k'" using less.prems(1) r by (simp add: CheckIfDue_while.simps [of run k])
    then show ?thesis using less.prems(2) r False by auto
  qed
qed

lemma CheckIfDue_while_result:
  assumes w: "CheckIfDue_while run k = Some (Inr k')" and s: "sorted (map fst (pending k))" and h: "\<not> inHandler k"
  shows "now k' = now k" "level k' = IntOff" "status k' = status k" "\<not> inHandler k'" "sorted (map fst (pending k'))"
    "status k \<noteq> IdleMode \<Longrightarrow> \<forall>e \<in> set (pending k'). now k' < fst e"
proof -
  define I :: "('h, 'd) kernel_scheme \<Rightarrow> bool" where "I = (\<lambda>j. now j = now k \<and> status j = status k \<and> \<not> inHandler j \<and> sorted (map fst (pending j)))"
  have "I k" using s h by (simp add: I_def)
  have step: "I j'" if "I j" "CheckIfDue run False j = Inr (True, j')" for j j'
  proof (rule CheckIfDue_fired [OF that(2)])
    fix due p rest
    assume "pending j = (due, p) # rest" "handler_keeps (j\<lparr>pending := rest, inHandler := False\<rparr>) j'"
    then show "I j'" using that(1) by (simp add: I_def handler_keeps_def)
  qed
  have "\<exists>k1. I k1 \<and> CheckIfDue run False k1 = Inr (False, k')"
  proof (rule CheckIfDue_while_induct [OF w])
    show "I k" by fact
    show "I j'" if "I j" "CheckIfDue run False j = Inr (True, j')" for j j' using step that .
  qed
  then obtain k1 where k1: "I k1" "CheckIfDue run False k1 = Inr (False, k')" by (elim exE conjE)
  note n = CheckIfDue_not_fired [OF k1(2)]
  have eq: "now k' = now k1" "status k' = status k1" "inHandler k' = inHandler k1"
    by (subst n(2), simp)+
  show "level k' = IntOff" using CheckIfDue_level [OF k1(2)] by simp
  show "now k' = now k" "status k' = status k" "\<not> inHandler k'" using eq k1(1) by (simp_all add: I_def)
  show "sorted (map fst (pending k'))" using n(3) k1(1) by (simp add: I_def)
  show "status k \<noteq> IdleMode \<Longrightarrow> \<forall>e \<in> set (pending k'). now k' < fst e"
    using n(4) k1(1) by (simp add: I_def)
qed

end

end
