(* ===== verification/Nachos_Threads.thy ===== *)
theory Nachos_Threads
  imports Nachos_Interrupt
begin

text \<open>
  Threads and the scheduler: \<^verbatim>\<open>code/threads/thread.cc\<close>, \<^verbatim>\<open>scheduler.cc\<close>, and the operations of
  \<^verbatim>\<open>code/machine/interrupt.cc\<close> that may switch threads (OneTick, SetLevel, Enable).

  An operation that gives up the processor returns the kernel with another current thread; what
  it still has to do is on the \<open>kstack\<close> of the thread it suspended. The operations on \<^verbatim>\<open>this\<close> thread
  that assert \<^verbatim>\<open>this == currentThread\<close> are modelled on the current thread.
\<close>

abbreviation (input) STACK_FENCEPOST :: nat where "STACK_FENCEPOST \<equiv> 0xdeadbeef"

section \<open>Access to threads\<close>

definition get_thread :: "tid \<Rightarrow> ('h, 'd) kernel_scheme \<Rightarrow> Thread res" where
  "get_thread t k = (case threads k t of None \<Rightarrow> Inl UseAfterFree | Some th \<Rightarrow> Inr th)"

definition put_thread :: "tid \<Rightarrow> Thread \<Rightarrow> ('h, 'd) kernel_scheme \<Rightarrow> ('h, 'd) kernel_scheme" where
  "put_thread t th k = k\<lparr>threads := (threads k)(t \<mapsto> th)\<rparr>"

definition upd_thread ::
  "tid \<Rightarrow> (Thread \<Rightarrow> Thread) \<Rightarrow> ('h, 'd) kernel_scheme \<Rightarrow> ('h, 'd) kernel_scheme res" where
  "upd_thread t f k = bindR (get_thread t k) (\<lambda>th. Inr (put_thread t (f th) k))"

definition push_frame :: "frame \<Rightarrow> ('h, 'd) kernel_scheme \<Rightarrow> ('h, 'd) kernel_scheme res" where
  "push_frame f k = upd_thread (currentThread k) (\<lambda>th. th\<lparr>kstack := f # kstack th\<rparr>) k"

section \<open>The scheduler\<close>

definition ReadyToRun :: "tid \<Rightarrow> ('h, 'd) kernel_scheme \<Rightarrow> ('h, 'd) kernel_scheme res" where
  "ReadyToRun t k =
     bindR (upd_thread t (\<lambda>th. th\<lparr>tstatus := READY\<rparr>) k) (\<lambda>k1.
       Inr (k1\<lparr>readyList := kappend t (readyList k1)\<rparr>))"

definition FindNextToRun :: "('h, 'd) kernel_scheme \<Rightarrow> tid option \<times> ('h, 'd) kernel_scheme" where
  "FindNextToRun k =
     (if halted k then (None, k)
      else let (r, rest) = kremove (readyList k) in (map_option snd r, k\<lparr>readyList := rest\<rparr>))"

definition Scheduler_Halt :: "('h, 'd) kernel_scheme \<Rightarrow> ('h, 'd) kernel_scheme" where
  "Scheduler_Halt k = k\<lparr>halted := True\<rparr>"

definition SaveUserState :: "tid \<Rightarrow> ('h, 'd) kernel_scheme \<Rightarrow> ('h, 'd) kernel_scheme res" where
  "SaveUserState t k =
     (case cpu k of None \<Rightarrow> Inl NullDereference
      | Some m \<Rightarrow> upd_thread t (\<lambda>th. th\<lparr>userRegisters := map (\<lambda>i. registers m ! i) [0..<NumTotalRegs]\<rparr>) k)"

definition RestoreUserState :: "tid \<Rightarrow> ('h, 'd) kernel_scheme \<Rightarrow> ('h, 'd) kernel_scheme res" where
  "RestoreUserState t k =
     (case cpu k of None \<Rightarrow> Inl NullDereference
      | Some m \<Rightarrow> bindR (get_thread t k) (\<lambda>th.
          Inr (k\<lparr>cpu := Some (m\<lparr>registers := map (\<lambda>i. userRegisters th ! i) [0..<NumTotalRegs]\<rparr>)\<rparr>)))"

text \<open>AddrSpace::SaveState does nothing; RestoreState installs the page table.\<close>

definition RestoreState :: "nat \<Rightarrow> ('h, 'd) kernel_scheme \<Rightarrow> ('h, 'd) kernel_scheme res" where
  "RestoreState a k =
     (case (spaces k a, cpu k) of
        (Some sp, Some m) \<Rightarrow>
          Inr (k\<lparr>cpu := Some (m\<lparr>pageTable := Some (asPageTable sp), pageTableSize := numPages sp\<rparr>)\<rparr>)
      | (None, _) \<Rightarrow> Inl UseAfterFree
      | (_, None) \<Rightarrow> Inl NullDereference)"

definition CheckOverflow :: "tid \<Rightarrow> ('h, 'd) kernel_scheme \<Rightarrow> ('h, 'd) kernel_scheme res" where
  "CheckOverflow t k =
     bindR (get_thread t k) (\<lambda>th.
       case stack th of None \<Rightarrow> Inr k | Some w \<Rightarrow> ASSERT (w = STACK_FENCEPOST) (Inr k))"

text \<open>Scheduler::Run up to and with SWITCH; the rest is \<open>after_switch\<close>.\<close>

definition Run :: "tid \<Rightarrow> ('h, 'd) kernel_scheme \<Rightarrow> ('h, 'd) kernel_scheme res" where
  "Run nextThread k =
     (let oldThread = currentThread k in
      ASSERT (level k = IntOff)
        (bindR (get_thread oldThread k) (\<lambda>old.
         bindR (if space old \<noteq> None then SaveUserState oldThread k else Inr k) (\<lambda>k1.
         bindR (CheckOverflow oldThread k1) (\<lambda>k2.
         bindR (push_frame AfterSwitch k2) (\<lambda>k3.
         upd_thread nextThread (\<lambda>th. th\<lparr>tstatus := RUNNING\<rparr>) (k3\<lparr>currentThread := nextThread\<rparr>)))))))"

definition Thread_delete :: "tid \<Rightarrow> ('h, 'd) kernel_scheme \<Rightarrow> ('h, 'd) kernel_scheme res" where
  "Thread_delete t k =
     ASSERT (t \<noteq> currentThread k)
       (bindR (get_thread t k) (\<lambda>_. Inr (k\<lparr>threads := (threads k)(t := None)\<rparr>)))"

definition after_switch :: "('h, 'd) kernel_scheme \<Rightarrow> ('h, 'd) kernel_scheme res" where
  "after_switch k =
     bindR (case threadToBeDestroyed k of
              None \<Rightarrow> Inr k
            | Some t \<Rightarrow> bindR (Thread_delete t k) (\<lambda>k1. Inr (k1\<lparr>threadToBeDestroyed := None\<rparr>))) (\<lambda>k2.
     bindR (get_thread (currentThread k2) k2) (\<lambda>th.
       case space th of
         None \<Rightarrow> Inr k2
       | Some a \<Rightarrow> bindR (RestoreUserState (currentThread k2) k2) (RestoreState a)))"

section \<open>Operations of threads\<close>

text \<open>
  \<open>garbage\<close> is the contents of the uninitialised register array of a new thread control block;
  \<open>t\<close> is the address the allocator returns, which is no live thread's.
\<close>

definition Thread_new ::
  "reg_word list \<Rightarrow> tid \<Rightarrow> string \<Rightarrow> ('h, 'd) kernel_scheme \<Rightarrow> ('h, 'd) kernel_scheme res" where
  "Thread_new garbage t threadName k =
     bindR (get_thread (currentThread k) k) (\<lambda>cur.
       Inr (put_thread t
         \<lparr>tname = threadName, tstatus = JUST_CREATED, stack = None, kstack = [],
          userRegisters = garbage[LoadReg := 0, LoadValueReg := 0], space = space cur\<rparr> k))"

definition StackAllocate :: "tid \<Rightarrow> ('h, 'd) kernel_scheme \<Rightarrow> ('h, 'd) kernel_scheme res" where
  "StackAllocate t k =
     upd_thread t (\<lambda>th. th\<lparr>stack := Some STACK_FENCEPOST, kstack := [Startup]\<rparr>) k"

definition Yield :: "('h, 'd) kernel_scheme \<Rightarrow> ('h, 'd) kernel_scheme res" where
  "Yield k =
     (let oldLevel = level k in
      bindR (push_frame (RestoreLevel oldLevel) (ChangeLevel oldLevel IntOff k)) (\<lambda>k1.
        case FindNextToRun k1 of
          (None, k2) \<Rightarrow> Inr k2
        | (Some nextThread, k2) \<Rightarrow> bindR (ReadyToRun (currentThread k2) k2) (Run nextThread)))"

definition Sleep :: "('h, 'd) kernel_scheme \<Rightarrow> ('h, 'd) kernel_scheme res" where
  "Sleep k =
     ASSERT (level k = IntOff)
       (bindR (upd_thread (currentThread k) (\<lambda>th. th\<lparr>tstatus := BLOCKED\<rparr>) k) (push_frame Sleeping))"

definition Finish :: "('h, 'd) kernel_scheme \<Rightarrow> ('h, 'd) kernel_scheme res" where
  "Finish k =
     (let k1 = ChangeLevel (level k) IntOff k in
      ASSERT (threadToBeDestroyed k1 = None)
        (Sleep (k1\<lparr>threadToBeDestroyed := Some (currentThread k1)\<rparr>)))"

section \<open>Time and the interrupt level\<close>

definition tick :: "('h, 'd) kernel_scheme \<Rightarrow> ('h, 'd) kernel_scheme" where
  "tick k =
     (let st = stats k in
      k\<lparr>stats := (if status k = SystemMode
                   then st\<lparr>totalTicks := totalTicks st + SystemTick, systemTicks := systemTicks st + SystemTick\<rparr>
                   else st\<lparr>totalTicks := totalTicks st + UserTick, userTicks := userTicks st + UserTick\<rparr>)\<rparr>)"

definition OneTick ::
  "('h \<Rightarrow> ('h, 'd) kernel_scheme \<Rightarrow> ('h, 'd) kernel_scheme res) \<Rightarrow>
   ('h, 'd) kernel_scheme \<Rightarrow> ('h, 'd) kernel_scheme res" where
  "OneTick run k =
     bindR (loop_result (CheckIfDue_while run (ChangeLevel IntOn IntOff (tick k)))) (\<lambda>k1.
       let k2 = ChangeLevel IntOff IntOn k1 in
       if yieldOnReturn k2
       then bindR (push_frame (RestoreStatus (status k)) (k2\<lparr>yieldOnReturn := False, status := SystemMode\<rparr>)) Yield
       else Inr k2)"

definition SetLevel ::
  "('h \<Rightarrow> ('h, 'd) kernel_scheme \<Rightarrow> ('h, 'd) kernel_scheme res) \<Rightarrow> IntStatus \<Rightarrow>
   ('h, 'd) kernel_scheme \<Rightarrow> ('h, 'd) kernel_scheme res" where
  "SetLevel run new k =
     (let old = level k in
      ASSERT (new = IntOff \<or> \<not> inHandler k)
        (let k1 = ChangeLevel old new k in
         if new = IntOn \<and> old = IntOff then OneTick run k1 else Inr k1))"

definition Enable ::
  "('h \<Rightarrow> ('h, 'd) kernel_scheme \<Rightarrow> ('h, 'd) kernel_scheme res) \<Rightarrow>
   ('h, 'd) kernel_scheme \<Rightarrow> ('h, 'd) kernel_scheme res" where
  "Enable run k = SetLevel run IntOn k"

text \<open>The calls \<^verbatim>\<open>SetLevel(IntOff)\<close> of the operations above are \<open>ChangeLevel\<close>: they do not tick.\<close>

lemma SetLevel_IntOff: "SetLevel run IntOff k = Inr (ChangeLevel (level k) IntOff k)"
  by (simp add: SetLevel_def)

definition Start ::
  "('h \<Rightarrow> ('h, 'd) kernel_scheme \<Rightarrow> ('h, 'd) kernel_scheme res) \<Rightarrow> tid \<Rightarrow>
   ('h, 'd) kernel_scheme \<Rightarrow> ('h, 'd) kernel_scheme res" where
  "Start run t k =
     bindR (get_thread t k) (\<lambda>th.
       ASSERT (tstatus th = JUST_CREATED)
         (bindR (StackAllocate t k) (\<lambda>k1.
            let oldLevel = level k1 in
            bindR (ReadyToRun t (ChangeLevel oldLevel IntOff k1)) (SetLevel run oldLevel))))"

definition SetupThreadState ::
  "('h \<Rightarrow> ('h, 'd) kernel_scheme \<Rightarrow> ('h, 'd) kernel_scheme res) \<Rightarrow>
   ('h, 'd) kernel_scheme \<Rightarrow> ('h, 'd) kernel_scheme res" where
  "SetupThreadState run k = bindR (after_switch k) (Enable run)"

text \<open>One iteration of the loop of Sleep: run the next ready thread, or idle and look again.\<close>

definition Sleep_loop ::
  "('h \<Rightarrow> ('h, 'd) kernel_scheme \<Rightarrow> ('h, 'd) kernel_scheme res) \<Rightarrow>
   ('h, 'd) kernel_scheme \<Rightarrow> ('h, 'd) kernel_scheme res" where
  "Sleep_loop run k =
     (case FindNextToRun k of
        (Some nextThread, k1) \<Rightarrow> Run nextThread k1
      | (None, k1) \<Rightarrow> bindR (Idle run k1) (push_frame Sleeping))"

end
