(* ===== verification/Nachos_Synch.thy ===== *)
theory Nachos_Synch
  imports Nachos_Threads
begin

text \<open>
  Synchronisation: \<^verbatim>\<open>code/threads/synch.cc\<close> (semaphores, locks, the condition variables that are
  not implemented), and the execution of the kernel as a whole: the frames of the current thread
  are run one by one (\<open>kstep\<close>), and a thread with nothing left to do in the kernel makes one of the
  calls of \<open>kcall\<close>.
\<close>

section \<open>Semaphores and locks\<close>

definition get_sem :: "semid \<Rightarrow> ('h, 'd) kernel_scheme \<Rightarrow> Semaphore res" where
  "get_sem s k = (case semaphores k s of None \<Rightarrow> Inl UseAfterFree | Some q \<Rightarrow> Inr q)"

definition put_sem :: "semid \<Rightarrow> Semaphore \<Rightarrow> ('h, 'd) kernel_scheme \<Rightarrow> ('h, 'd) kernel_scheme" where
  "put_sem s q k = k\<lparr>semaphores := (semaphores k)(s \<mapsto> q)\<rparr>"

definition Semaphore_new ::
  "semid \<Rightarrow> string \<Rightarrow> int \<Rightarrow> ('h, 'd) kernel_scheme \<Rightarrow> ('h, 'd) kernel_scheme" where
  "Semaphore_new s debugName initialValue k =
     put_sem s \<lparr>sname = debugName, svalue = initialValue, squeue = []\<rparr> k"

definition Semaphore_delete :: "semid \<Rightarrow> ('h, 'd) kernel_scheme \<Rightarrow> ('h, 'd) kernel_scheme" where
  "Semaphore_delete s k = k\<lparr>semaphores := (semaphores k)(s := None)\<rparr>"

text \<open>P disables interrupts and enters its loop; \<open>P_loop\<close> is one evaluation of the loop's condition.\<close>

definition P :: "semid \<Rightarrow> ('h, 'd) kernel_scheme \<Rightarrow> ('h, 'd) kernel_scheme res" where
  "P s k =
     (let oldLevel = level k in push_frame (Waiting s oldLevel) (ChangeLevel oldLevel IntOff k))"

definition P_loop ::
  "('h \<Rightarrow> ('h, 'd) kernel_scheme \<Rightarrow> ('h, 'd) kernel_scheme res) \<Rightarrow> semid \<Rightarrow> IntStatus \<Rightarrow>
   ('h, 'd) kernel_scheme \<Rightarrow> ('h, 'd) kernel_scheme res" where
  "P_loop run s oldLevel k =
     bindR (get_sem s k) (\<lambda>q.
       if svalue q = 0
       then bindR (push_frame (Waiting s oldLevel)
                    (put_sem s (q\<lparr>squeue := kappend (currentThread k) (squeue q)\<rparr>) k)) Sleep
       else SetLevel run oldLevel (put_sem s (q\<lparr>svalue := svalue q - 1\<rparr>) k))"

text \<open>
  \<open>V_atomic\<close> is the body of V between its two calls of SetLevel. The value is an unbounded integer: a
  semaphore is taken not to receive more than \<open>2 ^ 31 - 1\<close> units that no one waits for.
\<close>

definition V_atomic :: "semid \<Rightarrow> ('h, 'd) kernel_scheme \<Rightarrow> ('h, 'd) kernel_scheme res" where
  "V_atomic s k =
     bindR (get_sem s k) (\<lambda>q.
       let (r, rest) = kremove (squeue q) in
       bindR (case r of None \<Rightarrow> Inr k | Some (_, t) \<Rightarrow> ReadyToRun t k) (\<lambda>k1.
         Inr (put_sem s (q\<lparr>squeue := rest, svalue := svalue q + 1\<rparr>) k1)))"

definition V ::
  "('h \<Rightarrow> ('h, 'd) kernel_scheme \<Rightarrow> ('h, 'd) kernel_scheme res) \<Rightarrow> semid \<Rightarrow>
   ('h, 'd) kernel_scheme \<Rightarrow> ('h, 'd) kernel_scheme res" where
  "V run s k =
     (let oldLevel = level k in
      bindR (V_atomic s (ChangeLevel oldLevel IntOff k)) (SetLevel run oldLevel))"

text \<open>Called with interrupts disabled, as interrupt handlers do, V is its atomic body.\<close>

lemma put_sem_level [simp]: "level (put_sem s q k) = level k"
  by (simp add: put_sem_def)

definition Lock_new :: "semid \<Rightarrow> string option \<Rightarrow> ('h, 'd) kernel_scheme \<Rightarrow> ('h, 'd) kernel_scheme" where
  "Lock_new s debugName k =
     Semaphore_new s (case debugName of Some n \<Rightarrow> n | None \<Rightarrow> ''lock'') 1 k"

definition Acquire :: "semid \<Rightarrow> ('h, 'd) kernel_scheme \<Rightarrow> ('h, 'd) kernel_scheme res" where
  "Acquire s k = P s k"

definition Release ::
  "('h \<Rightarrow> ('h, 'd) kernel_scheme \<Rightarrow> ('h, 'd) kernel_scheme res) \<Rightarrow> semid \<Rightarrow>
   ('h, 'd) kernel_scheme \<Rightarrow> ('h, 'd) kernel_scheme res" where
  "Release run s k = V run s k"

text \<open>The condition variables are placeholders: every operation, the constructor included, aborts.\<close>

definition Condition_new :: "string \<Rightarrow> ('h, 'd) kernel_scheme \<Rightarrow> ('h, 'd) kernel_scheme res" where
  "Condition_new debugName k = ASSERT False (Inr k)"

definition Condition_Wait :: "semid \<Rightarrow> ('h, 'd) kernel_scheme \<Rightarrow> ('h, 'd) kernel_scheme res" where
  "Condition_Wait conditionLock k = ASSERT False (Inr k)"

definition Condition_Signal :: "semid \<Rightarrow> ('h, 'd) kernel_scheme \<Rightarrow> ('h, 'd) kernel_scheme res" where
  "Condition_Signal conditionLock k = ASSERT False (Inr k)"

definition Condition_Broadcast :: "semid \<Rightarrow> ('h, 'd) kernel_scheme \<Rightarrow> ('h, 'd) kernel_scheme res" where
  "Condition_Broadcast conditionLock k = ASSERT False (Inr k)"

section \<open>Running the kernel\<close>

fun run_frame ::
  "('h \<Rightarrow> ('h, 'd) kernel_scheme \<Rightarrow> ('h, 'd) kernel_scheme res) \<Rightarrow> frame \<Rightarrow>
   ('h, 'd) kernel_scheme \<Rightarrow> ('h, 'd) kernel_scheme res" where
  "run_frame run (RestoreLevel l) k = SetLevel run l k"
| "run_frame run (RestoreStatus st) k = Inr (k\<lparr>status := st\<rparr>)"
| "run_frame run AfterSwitch k = after_switch k"
| "run_frame run Sleeping k = Sleep_loop run k"
| "run_frame run (Waiting s l) k = P_loop run s l k"
| "run_frame run Startup k = SetupThreadState run k"

definition kstep ::
  "('h \<Rightarrow> ('h, 'd) kernel_scheme \<Rightarrow> ('h, 'd) kernel_scheme res) \<Rightarrow>
   ('h, 'd) kernel_scheme \<Rightarrow> ('h, 'd) kernel_scheme res" where
  "kstep run k =
     bindR (get_thread (currentThread k) k) (\<lambda>th.
       case kstack th of
         [] \<Rightarrow> Inr k
       | f # fs \<Rightarrow> run_frame run f (put_thread (currentThread k) (th\<lparr>kstack := fs\<rparr>) k))"

text \<open>The calls a thread makes when it is not in the kernel.\<close>

datatype kcall =
    Call_Yield
  | Call_Finish
  | Call_P semid
  | Call_V semid
  | Call_New tid string "reg_word list"
  | Call_Start tid
  | Call_Semaphore semid string int
  | Call_Tick

fun do_call ::
  "('h \<Rightarrow> ('h, 'd) kernel_scheme \<Rightarrow> ('h, 'd) kernel_scheme res) \<Rightarrow> kcall \<Rightarrow>
   ('h, 'd) kernel_scheme \<Rightarrow> ('h, 'd) kernel_scheme res" where
  "do_call run Call_Yield k = Yield k"
| "do_call run Call_Finish k = Finish k"
| "do_call run (Call_P s) k = P s k"
| "do_call run (Call_V s) k = V run s k"
| "do_call run (Call_New t n g) k = Thread_new g t n k"
| "do_call run (Call_Start t) k = Start run t k"
| "do_call run (Call_Semaphore s n v) k = Inr (Semaphore_new s n v k)"
| "do_call run Call_Tick k = OneTick run k"

end
