(* ===== verification/Nachos_Scheduling.thy ===== *)
theory Nachos_Scheduling
  imports Nachos_Synch
begin

text \<open>
  The scheduling invariant, on a view of the kernel that keeps of each thread its status and its
  kernel stack. \<open>tinv v c rl sems tbd\<close> relates the view \<open>v\<close>, the current thread \<open>c\<close>, the ready list
  \<open>rl\<close>, the semaphores and the thread to be destroyed:

  \<^item> only the current thread is RUNNING; the READY threads are those of the ready list, each once,
    and the BLOCKED ones those in the queue of the semaphore whose P they are in, each in one queue
    and once, or the finished thread;
  \<^item> a suspended thread is in the middle of Scheduler::Run or has not started, a current thread
    that is not RUNNING is in the loop of Sleep;
  \<^item> the finished thread is deleted by whoever runs next, before anything else;
  \<^item> semaphore values are not negative, and no wakeup is lost: while threads are queued on a
    semaphore, its value is at most the number of threads that are awake inside P.

  One lemma per way the kernel changes this view; the theory \<open>Nachos_Kernel\<close> applies them to the
  operations.
\<close>

section \<open>The scheduling invariant\<close>

definition restore_frame :: "frame \<Rightarrow> bool" where
  "restore_frame f \<longleftrightarrow> f = RestoreLevel IntOn \<or> (\<exists>st. f = RestoreStatus st)"

definition calm :: "frame list \<Rightarrow> bool" where
  "calm fs \<longleftrightarrow> (\<forall>f \<in> set fs. restore_frame f) \<or> (\<exists>s. fs = [Waiting s IntOn])"

definition returning :: "frame list \<Rightarrow> bool" where
  "returning fs \<longleftrightarrow> (\<exists>s. fs = [Waiting s IntOn]) \<or> (\<exists>gs. fs = RestoreLevel IntOn # gs \<and> (\<forall>f \<in> set gs. restore_frame f))"

definition resumable :: "frame list \<Rightarrow> bool" where
  "resumable ks \<longleftrightarrow> ks = [Startup] \<or> (\<exists>fs. ks = AfterSwitch # fs \<and> returning fs)"

type_synonym tview = "tid \<rightharpoonup> (ThreadStatus \<times> frame list)"

definition in_queue :: "(semid \<rightharpoonup> Semaphore) \<Rightarrow> semid \<Rightarrow> tid \<Rightarrow> bool" where
  "in_queue sems s t \<longleftrightarrow> (\<exists>q. sems s = Some q \<and> t \<in> set (map snd (squeue q)))"

definition thread_ok ::
  "tid \<Rightarrow> tid list \<Rightarrow> (semid \<rightharpoonup> Semaphore) \<Rightarrow> tid option \<Rightarrow> tid \<Rightarrow> ThreadStatus \<Rightarrow> frame list \<Rightarrow> bool" where
  "thread_ok c rl sems tbd t st ks \<longleftrightarrow>
     (case st of
        JUST_CREATED \<Rightarrow> t \<noteq> c \<and> ks = []
      | RUNNING \<Rightarrow> t = c \<and> (calm ks \<or> resumable ks)
      | READY \<Rightarrow> t \<in> set rl \<and> (if t = c then \<exists>s. ks = [Sleeping, Waiting s IntOn] else resumable ks)
      | BLOCKED \<Rightarrow> (\<exists>fs. ks = (if t = c then Sleeping else AfterSwitch) # fs \<and>
                     ((\<exists>s. fs = [Waiting s IntOn] \<and> in_queue sems s t) \<or> (fs = [] \<and> tbd = Some t))))"

definition sem_ok :: "tview \<Rightarrow> semid \<Rightarrow> Semaphore \<Rightarrow> bool" where
  "sem_ok v s q \<longleftrightarrow> 0 \<le> svalue q \<and> distinct (map snd (squeue q)) \<and>
     (\<forall>t \<in> set (map snd (squeue q)). \<exists>f. v t = Some (BLOCKED, [f, Waiting s IntOn]))"

definition dying_ok :: "tview \<Rightarrow> tid \<Rightarrow> tid \<Rightarrow> bool" where
  "dying_ok v c t \<longleftrightarrow> (\<exists>f. v t = Some (BLOCKED, [f])) \<and> (t \<noteq> c \<longrightarrow> (\<exists>st ks. v c = Some (st, ks) \<and> resumable ks))"

definition awake :: "tview \<Rightarrow> semid \<Rightarrow> tid set" where
  "awake v s = {t. \<exists>st ks l. v t = Some (st, ks) \<and> st \<noteq> BLOCKED \<and> Waiting s l \<in> set ks}"

definition tinv :: "tview \<Rightarrow> tid \<Rightarrow> tid list \<Rightarrow> (semid \<rightharpoonup> Semaphore) \<Rightarrow> tid option \<Rightarrow> bool" where
  "tinv v c rl sems tbd \<longleftrightarrow>
     finite (dom v) \<and> v c \<noteq> None \<and> distinct rl \<and>
     (\<forall>t st ks. v t = Some (st, ks) \<longrightarrow> thread_ok c rl sems tbd t st ks) \<and>
     (\<forall>t \<in> set rl. \<exists>ks. v t = Some (READY, ks)) \<and>
     (\<forall>s q. sems s = Some q \<longrightarrow> sem_ok v s q) \<and>
     (\<forall>t. tbd = Some t \<longrightarrow> dying_ok v c t) \<and>
     (\<forall>t st ks s l. v t = Some (st, ks) \<longrightarrow> Waiting s l \<in> set ks \<longrightarrow> sems s \<noteq> None) \<and>
     (\<forall>s q. sems s = Some q \<longrightarrow> squeue q \<noteq> [] \<longrightarrow> svalue q \<le> int (card (awake v s)))"

lemma calm_simps [simp]: "calm []" "calm [Waiting s l] \<longleftrightarrow> l = IntOn"
  "\<not> calm (Sleeping # fs)" "\<not> calm (AfterSwitch # fs)" "\<not> calm (Startup # fs)"
  by (auto simp: calm_def restore_frame_def)

lemma resumable_simps [simp]: "\<not> resumable []" "\<not> resumable (Sleeping # fs)" "\<not> resumable (Waiting s l # fs)"
   "\<not> resumable (RestoreLevel l # fs)" "\<not> resumable (RestoreStatus st # fs)"
   "resumable (AfterSwitch # fs) \<longleftrightarrow> returning fs" "resumable (Startup # fs) \<longleftrightarrow> fs = []"
  by (auto simp: resumable_def)

lemma returning_simps [simp]: "returning [Waiting s l] \<longleftrightarrow> l = IntOn" "\<not> returning []"
  by (auto simp: returning_def)

lemma returning_calm: "returning fs \<Longrightarrow> calm fs"
  by (auto simp: returning_def calm_def restore_frame_def)

lemma tinvI:
  assumes "finite (dom v)" "v c \<noteq> None" "distinct rl"
    "\<And>t st ks. v t = Some (st, ks) \<Longrightarrow> thread_ok c rl sems tbd t st ks"
    "\<And>t. t \<in> set rl \<Longrightarrow> \<exists>ks. v t = Some (READY, ks)"
    "\<And>s q. sems s = Some q \<Longrightarrow> sem_ok v s q"
    "\<And>t. tbd = Some t \<Longrightarrow> dying_ok v c t"
    "\<And>t st ks s l. v t = Some (st, ks) \<Longrightarrow> Waiting s l \<in> set ks \<Longrightarrow> sems s \<noteq> None"
    "\<And>s q. sems s = Some q \<Longrightarrow> squeue q \<noteq> [] \<Longrightarrow> svalue q \<le> int (card (awake v s))"
  shows "tinv v c rl sems tbd"
  using assms unfolding tinv_def by blast

lemma tinvD:
  assumes "tinv v c rl sems tbd"
  shows "finite (dom v)" "v c \<noteq> None" "distinct rl"
    "\<And>t st ks. v t = Some (st, ks) \<Longrightarrow> thread_ok c rl sems tbd t st ks"
    "\<And>t. t \<in> set rl \<Longrightarrow> \<exists>ks. v t = Some (READY, ks)"
    "\<And>s q. sems s = Some q \<Longrightarrow> sem_ok v s q"
    "\<And>t. tbd = Some t \<Longrightarrow> dying_ok v c t"
    "\<And>t st ks s l. v t = Some (st, ks) \<Longrightarrow> Waiting s l \<in> set ks \<Longrightarrow> sems s \<noteq> None"
    "\<And>s q. sems s = Some q \<Longrightarrow> squeue q \<noteq> [] \<Longrightarrow> svalue q \<le> int (card (awake v s))"
  using assms unfolding tinv_def by blast+

lemma finite_awake: "finite (dom v) \<Longrightarrow> finite (awake v s)"
  by (rule finite_subset [of _ "dom v"]) (auto simp: awake_def)

lemma awake_upd:
  "awake (v(t \<mapsto> (st, ks))) s =
     (if st \<noteq> BLOCKED \<and> (\<exists>l. Waiting s l \<in> set ks) then insert t (awake v s) else awake v s - {t})"
  by (auto simp: awake_def)

lemma awake_same:
  assumes "v t = Some (st, ks)" "st \<noteq> BLOCKED" "st' \<noteq> BLOCKED" "\<And>s l. Waiting s l \<in> set ks' \<longleftrightarrow> Waiting s l \<in> set ks"
  shows "awake (v(t \<mapsto> (st', ks'))) = awake v"
  using assms by (auto simp: awake_def fun_eq_iff)

text \<open>V with a waiting thread: it becomes ready.\<close>

lemma tinv_V_wake:
  assumes i: "tinv v c rl sems tbd" and q: "sems s = Some q" "squeue q = (k0, t) # rest"
  shows "\<exists>ks. v t = Some (BLOCKED, ks) \<and>
     tinv (v(t \<mapsto> (READY, ks))) c (rl @ [t]) (sems(s \<mapsto> q\<lparr>squeue := rest, svalue := svalue q + 1\<rparr>)) tbd"
proof -
  note d = tinvD [OF i]
  have ok: "sem_ok v s q" using d(6) q by blast
  then obtain f where f: "v t = Some (BLOCKED, [f, Waiting s IntOn])" using q by (auto simp: sem_ok_def)
  have ft: "f = (if t = c then Sleeping else AfterSwitch)" using d(4) [OF f] by (auto simp: thread_ok_def)
  let ?v = "v(t \<mapsto> (READY, [f, Waiting s IntOn]))" and ?q = "q\<lparr>squeue := rest, svalue := svalue q + 1\<rparr>"
  let ?sems = "sems(s \<mapsto> ?q)"
  have notrl: "t \<notin> set rl" using d(5) [of t] f by auto
  have queue_eq: "in_queue ?sems s' x = in_queue sems s' x" if "x \<noteq> t" for s' x
    using that q by (auto simp: in_queue_def)
  have "tinv ?v c (rl @ [t]) ?sems tbd"
  proof (rule tinvI)
    show "finite (dom ?v)" "?v c \<noteq> None" "distinct (rl @ [t])" using d(1-3) notrl by auto
    show "thread_ok c (rl @ [t]) ?sems tbd x st ks" if "?v x = Some (st, ks)" for x st ks
    proof (cases "x = t")
      case True
      then show ?thesis using that ft by (auto simp: thread_ok_def)
    next
      case False
      then have "thread_ok c rl sems tbd x st ks" using that d(4) by simp
      then show ?thesis using False queue_eq [OF False]
        by (auto simp: thread_ok_def split: ThreadStatus.splits)
    qed
    show "\<exists>ks. ?v x = Some (READY, ks)" if "x \<in> set (rl @ [t])" for x
      using that d(5) by auto
    show "sem_ok ?v s' q'" if "?sems s' = Some q'" for s' q'
    proof (cases "s' = s")
      case True
      then show ?thesis using that ok q by (auto simp: sem_ok_def)
    next
      case False
      then have s': "sem_ok v s' q'" using that d(6) by simp
      then have "t \<notin> set (map snd (squeue q'))" using f False by (force simp: sem_ok_def)
      then show ?thesis using s' by (auto simp: sem_ok_def)
    qed
    show "dying_ok ?v c x" if "tbd = Some x" for x
      using d(7) [OF that] f ft by (auto simp: dying_ok_def)
    show "?sems s' \<noteq> None" if "?v x = Some (st, ks)" "Waiting s' l \<in> set ks" for x st ks s' l
      using that d(8) f by (auto split: if_splits)
    show "svalue q' \<le> int (card (awake ?v s'))" if "?sems s' = Some q'" "squeue q' \<noteq> []" for s' q'
    proof (cases "s' = s")
      case True
      then have "svalue q' = svalue q + 1" "svalue q \<le> int (card (awake v s))" using that d(9) q by auto
      moreover have "t \<notin> awake v s" using f by (auto simp: awake_def)
      moreover have "awake ?v s = insert t (awake v s)" by (subst awake_upd) (auto simp: ft)
      ultimately show ?thesis using True finite_awake [OF d(1)] by simp
    next
      case False
      then have "awake ?v s' = awake v s'" using f ft by (auto simp: awake_def)
      then show ?thesis using that d(9) False by auto
    qed
  qed
  then show ?thesis using f by blast
qed


lemma tinv_V_empty:
  assumes i: "tinv v c rl sems tbd" and q: "sems s = Some q" "squeue q = []"
  shows "tinv v c rl (sems(s \<mapsto> q\<lparr>svalue := svalue q + 1\<rparr>)) tbd"
proof -
  note d = tinvD [OF i]
  have "in_queue (sems(s \<mapsto> q\<lparr>svalue := svalue q + 1\<rparr>)) = in_queue sems"
    using q by (auto simp: in_queue_def fun_eq_iff)
  then have "thread_ok c rl (sems(s \<mapsto> q\<lparr>svalue := svalue q + 1\<rparr>)) tbd = thread_ok c rl sems tbd"
    unfolding thread_ok_def fun_eq_iff by (simp only: simp_thms)
  then show ?thesis
    using d q by (intro tinvI) (auto simp: sem_ok_def split: if_splits)
qed

text \<open>P: blocking when the value is zero, taking it otherwise.\<close>

lemma tinv_P_block:
  assumes i: "tinv v c rl sems tbd" and q: "sems s = Some q" "svalue q = 0"
    and c: "v c = Some (RUNNING, [Waiting s IntOn])"
  shows "tinv (v(c \<mapsto> (BLOCKED, [Sleeping, Waiting s IntOn]))) c rl
           (sems(s \<mapsto> q\<lparr>squeue := squeue q @ [(0, c)]\<rparr>)) tbd"
proof -
  note d = tinvD [OF i]
  let ?v = "v(c \<mapsto> (BLOCKED, [Sleeping, Waiting s IntOn]))" and ?q = "q\<lparr>squeue := squeue q @ [(0, c)]\<rparr>"
  let ?sems = "sems(s \<mapsto> ?q)"
  have nq: "c \<notin> set (map snd (squeue q'))" if "sems s' = Some q'" for s' q'
    using d(6) [OF that] c by (fastforce simp: sem_ok_def)
  have queue_eq: "in_queue ?sems s' x = in_queue sems s' x" if "x \<noteq> c" for s' x
    using that q by (auto simp: in_queue_def)
  show ?thesis
  proof (rule tinvI)
    show "finite (dom ?v)" "?v c \<noteq> None" "distinct rl" using d(1-3) by auto
    show "thread_ok c rl ?sems tbd x st ks" if "?v x = Some (st, ks)" for x st ks
    proof (cases "x = c")
      case True
      then show ?thesis using that by (auto simp: thread_ok_def in_queue_def)
    next
      case False
      then have "thread_ok c rl sems tbd x st ks" using that d(4) by simp
      then show ?thesis using False queue_eq [OF False]
        by (auto simp: thread_ok_def split: ThreadStatus.splits)
    qed
    show "\<exists>ks. ?v x = Some (READY, ks)" if "x \<in> set rl" for x
      using d(5) [OF that] c by auto
    show "sem_ok ?v s' q'" if "?sems s' = Some q'" for s' q'
    proof (cases "s' = s")
      case True
      then show ?thesis using that d(6) [OF q(1)] nq [OF q(1)] by (auto simp: sem_ok_def)
    next
      case False
      then show ?thesis using that d(6) [of s' q'] nq [of s' q'] by (auto simp: sem_ok_def)
    qed
    show "dying_ok ?v c x" if "tbd = Some x" for x
      using d(7) [OF that] c by (auto simp: dying_ok_def)
    show "?sems s' \<noteq> None" if "?v x = Some (st, ks)" "Waiting s' l \<in> set ks" for x st ks s' l
      using that d(8) by (auto split: if_splits)
    show "svalue q' \<le> int (card (awake ?v s'))" if "?sems s' = Some q'" "squeue q' \<noteq> []" for s' q'
    proof (cases "s' = s")
      case True
      then show ?thesis using that q by auto
    next
      case False
      then have "awake ?v s' = awake v s'" using c by (auto simp: awake_def)
      then show ?thesis using that d(9) False by auto
    qed
  qed
qed

lemma tinv_P_take:
  assumes i: "tinv v c rl sems tbd" and q: "sems s = Some q" "svalue q \<noteq> 0"
    and c: "v c = Some (RUNNING, [Waiting s IntOn])"
  shows "tinv (v(c \<mapsto> (RUNNING, []))) c rl (sems(s \<mapsto> q\<lparr>svalue := svalue q - 1\<rparr>)) tbd"
proof -
  note d = tinvD [OF i]
  let ?v = "v(c \<mapsto> (RUNNING, []))" and ?q = "q\<lparr>svalue := svalue q - 1\<rparr>"
  let ?sems = "sems(s \<mapsto> ?q)"
  have queue_eq: "in_queue ?sems = in_queue sems"
    using q by (auto simp: in_queue_def fun_eq_iff)
  show ?thesis
  proof (rule tinvI)
    show "finite (dom ?v)" "?v c \<noteq> None" "distinct rl" using d(1-3) by auto
    show "thread_ok c rl ?sems tbd x st ks" if "?v x = Some (st, ks)" for x st ks
    proof (cases "x = c")
      case True
      then show ?thesis using that by (auto simp: thread_ok_def)
    next
      case False
      then have "thread_ok c rl sems tbd x st ks" using that d(4) by simp
      then show ?thesis unfolding thread_ok_def queue_eq .
    qed
    show "\<exists>ks. ?v x = Some (READY, ks)" if "x \<in> set rl" for x
      using d(5) [OF that] c by auto
    show "sem_ok ?v s' q'" if "?sems s' = Some q'" for s' q'
    proof -
      note a = that
      obtain q0 where q0: "sems s' = Some q0" "squeue q' = squeue q0" "0 \<le> svalue q'"
        using a q d(6) [OF q(1)] d(6) [of s' q'] by (cases "s' = s") (auto simp: sem_ok_def)
      then show ?thesis using d(6) [OF q0(1)] c by (fastforce simp: sem_ok_def)
    qed
    show "dying_ok ?v c x" if "tbd = Some x" for x
      using d(7) [OF that] c by (auto simp: dying_ok_def)
    show "?sems s' \<noteq> None" if "?v x = Some (st, ks)" "Waiting s' l \<in> set ks" for x st ks s' l
      using that d(8) by (auto split: if_splits)
    show "svalue q' \<le> int (card (awake ?v s'))" if "?sems s' = Some q'" "squeue q' \<noteq> []" for s' q'
    proof (cases "s' = s")
      case True
      then have "svalue q' = svalue q - 1" "svalue q \<le> int (card (awake v s))" using that d(9) q by auto
      moreover have "c \<in> awake v s" using c by (auto simp: awake_def)
      moreover have "awake ?v s = awake v s - {c}" by (subst awake_upd) simp
      ultimately show ?thesis using True finite_awake [OF d(1), of s] by (simp add: card_Diff_singleton)
    next
      case False
      then have "awake ?v s' = awake v s'" using c by (auto simp: awake_def)
      then show ?thesis using that d(9) False by auto
    qed
  qed
qed


text \<open>
  The current thread changes its own stack or status while no other thread is concerned: pushing
  and popping frames outside of P.
\<close>

lemma tinv_current:
  assumes i: "tinv v c rl sems tbd" and c: "v c = Some (RUNNING, ks)"
    and ks': "calm ks' \<or> resumable ks'" and w: "\<And>s l. Waiting s l \<in> set ks' \<Longrightarrow> sems s \<noteq> None"
    and aw: "\<And>s l. Waiting s l \<in> set ks \<Longrightarrow> Waiting s l \<in> set ks'"
    and t: "tbd = None \<or> resumable ks'"
  shows "tinv (v(c \<mapsto> (RUNNING, ks'))) c rl sems tbd"
proof -
  note d = tinvD [OF i]
  let ?v = "v(c \<mapsto> (RUNNING, ks'))"
  show ?thesis
  proof (rule tinvI)
    show "finite (dom ?v)" "?v c \<noteq> None" "distinct rl" using d(1-3) by auto
    show "thread_ok c rl sems tbd x st ks" if "?v x = Some (st, ks)" for x st ks
      using that d(4) [of x st ks] ks' by (auto simp: thread_ok_def split: if_splits)
    show "\<exists>ks. ?v x = Some (READY, ks)" if "x \<in> set rl" for x
      using d(5) [OF that] c by auto
    show "sem_ok ?v s' q'" if "sems s' = Some q'" for s' q'
      using d(6) [OF that] c by (fastforce simp: sem_ok_def)
    show "dying_ok ?v c x" if "tbd = Some x" for x
      using d(7) [OF that] c t that by (auto simp: dying_ok_def)
    show "sems s' \<noteq> None" if "?v x = Some (st, ks)" "Waiting s' l \<in> set ks" for x st ks s' l
      using that d(8) w by (auto split: if_splits)
    show "svalue q' \<le> int (card (awake ?v s'))" if "sems s' = Some q'" "squeue q' \<noteq> []" for s' q'
    proof -
      have "awake v s' \<subseteq> awake ?v s'" using c by (auto simp: awake_def) (metis aw)
      moreover have "finite (awake ?v s')" using d(1) by (intro finite_awake) simp
      ultimately have "card (awake v s') \<le> card (awake ?v s')" by (intro card_mono)
      then show ?thesis using d(9) [OF that] by linarith
    qed
  qed
qed

text \<open>Giving up the processor in Sleep.\<close>

lemma tinv_switch_sleep:
  assumes i: "tinv v c (t # rs) sems tbd" and c: "v c = Some (st, Sleeping # fs)"
  shows "\<exists>kt. v t = Some (READY, kt) \<and>
     tinv (if t = c then v(c \<mapsto> (RUNNING, AfterSwitch # fs))
           else v(c \<mapsto> (st, AfterSwitch # fs), t \<mapsto> (RUNNING, kt))) t rs sems tbd"
proof -
  note d = tinvD [OF i]
  obtain kt where t: "v t = Some (READY, kt)" using d(5) [of t] by auto
  have st: "st = READY \<or> st = BLOCKED" using d(4) [OF c] by (cases st) (auto simp: thread_ok_def)
  have fs: "(\<exists>s. fs = [Waiting s IntOn]) \<or> (fs = [] \<and> st = BLOCKED \<and> tbd = Some c)"
    using d(4) [OF c] st by (auto simp: thread_ok_def)
  then have cfs: "st = READY \<Longrightarrow> returning fs" by auto
  have kt: "t \<noteq> c \<Longrightarrow> resumable kt" using d(4) [OF t] by (auto simp: thread_ok_def)
  have tc: "t = c \<Longrightarrow> st = READY" using c t by simp
  let ?v = "if t = c then v(c \<mapsto> (RUNNING, AfterSwitch # fs)) else v(c \<mapsto> (st, AfterSwitch # fs), t \<mapsto> (RUNNING, kt))"
  have nq: "t \<notin> set (map snd (squeue q'))" if "sems s' = Some q'" for s' q'
    using d(6) [OF that] t by (fastforce simp: sem_ok_def)
  have aw: "awake ?v = awake v" using c t tc st by (fastforce simp: awake_def fun_eq_iff)
  have "tinv ?v t rs sems tbd"
  proof (rule tinvI)
    show "finite (dom ?v)" "?v t \<noteq> None" "distinct rs" using d(1-3) by auto
    show "thread_ok t rs sems tbd x st' ks" if "?v x = Some (st', ks)" for x st' ks
    proof -
      consider "x = t" | "x = c" "x \<noteq> t" | "x \<noteq> c" "x \<noteq> t" by blast
      then show ?thesis
      proof cases
        case 1
        then show ?thesis using that cfs kt tc by (auto simp: thread_ok_def split: if_splits)
      next
        case 2
        then show ?thesis using that d(4) [OF c] st cfs by (auto simp: thread_ok_def)
      next
        case 3
        then have "thread_ok c (t # rs) sems tbd x st' ks" using that d(4) by (auto split: if_splits)
        then show ?thesis using 3 by (cases st') (auto simp: thread_ok_def)
      qed
    qed
    show "\<exists>ks. ?v x = Some (READY, ks)" if "x \<in> set rs" for x
      using d(5) [of x] that d(3) c by (auto split: if_splits)
    show "sem_ok ?v s' q'" if "sems s' = Some q'" for s' q'
      using d(6) [OF that] nq [OF that] c by (fastforce simp: sem_ok_def)
    show "dying_ok ?v t x" if "tbd = Some x" for x
      using d(7) [OF that] c t kt fs tc by (auto simp: dying_ok_def split: if_splits)
    show "sems s' \<noteq> None" if "?v x = Some (st', ks)" "Waiting s' l \<in> set ks" for x st' ks s' l
    proof -
      have "\<exists>st0 ks0. v x = Some (st0, ks0) \<and> Waiting s' l \<in> set ks0"
        using that c t by (auto split: if_splits)
      then show ?thesis using d(8) by blast
    qed
    show "svalue q' \<le> int (card (awake ?v s'))" if "sems s' = Some q'" "squeue q' \<noteq> []" for s' q'
      using d(9) [OF that] by (simp only: aw)
  qed
  then show ?thesis using t by blast
qed

text \<open>Giving it up in Yield.\<close>

lemma tinv_switch_yield:
  assumes i: "tinv v c (t # rs) sems None" and c: "v c = Some (RUNNING, ks)" and ks: "returning ks"
  shows "\<exists>kt. v t = Some (READY, kt) \<and> t \<noteq> c \<and>
     tinv (v(c \<mapsto> (READY, AfterSwitch # ks), t \<mapsto> (RUNNING, kt))) t (rs @ [c]) sems None"
proof -
  note d = tinvD [OF i]
  obtain kt where t: "v t = Some (READY, kt)" using d(5) [of t] by auto
  then have tc: "t \<noteq> c" using c by auto
  have kt: "resumable kt" using d(4) [OF t] tc by (auto simp: thread_ok_def)
  let ?v = "v(c \<mapsto> (READY, AfterSwitch # ks), t \<mapsto> (RUNNING, kt))"
  have nq: "t \<notin> set (map snd (squeue q'))" "c \<notin> set (map snd (squeue q'))" if "sems s' = Some q'" for s' q'
    using d(6) [OF that] t c by (fastforce simp: sem_ok_def)+
  have aw: "awake ?v = awake v" using c t tc by (fastforce simp: awake_def fun_eq_iff)
  have crl: "c \<notin> set (t # rs)" using d(5) [of c] c by auto
  have "tinv ?v t (rs @ [c]) sems None"
  proof (rule tinvI)
    show "finite (dom ?v)" "?v t \<noteq> None" "distinct (rs @ [c])" using d(1-3) crl by auto
    show "thread_ok t (rs @ [c]) sems None x st' ks'" if "?v x = Some (st', ks')" for x st' ks'
    proof -
      consider "x = t" | "x = c" "x \<noteq> t" | "x \<noteq> c" "x \<noteq> t" by blast
      then show ?thesis
      proof cases
        case 1
        then show ?thesis using that kt by (auto simp: thread_ok_def)
      next
        case 2
        then show ?thesis using that ks by (auto simp: thread_ok_def)
      next
        case 3
        then have "thread_ok c (t # rs) sems None x st' ks'" using that d(4) by auto
        then show ?thesis using 3 by (cases st') (auto simp: thread_ok_def)
      qed
    qed
    show "\<exists>ks. ?v x = Some (READY, ks)" if "x \<in> set (rs @ [c])" for x
      using d(5) [of x] that d(3) tc by auto
    show "sem_ok ?v s' q'" if "sems s' = Some q'" for s' q'
      using d(6) [OF that] nq [OF that] by (fastforce simp: sem_ok_def)
    show "sems s' \<noteq> None" if "?v x = Some (st', ks')" "Waiting s' l \<in> set ks'" for x st' ks' s' l
    proof -
      have "\<exists>st0 ks0. v x = Some (st0, ks0) \<and> Waiting s' l \<in> set ks0"
        using that c t by (auto split: if_splits)
      then show ?thesis using d(8) by blast
    qed
    show "svalue q' \<le> int (card (awake ?v s'))" if "sems s' = Some q'" "squeue q' \<noteq> []" for s' q'
      using d(9) [OF that] by (simp only: aw)
  qed simp
  then show ?thesis using t tc by blast
qed


text \<open>The thread that finished is deleted by the thread that runs next.\<close>

lemma tinv_delete:
  assumes i: "tinv v c rl sems (Some t)" and c: "v c = Some (RUNNING, ks)"
  shows "t \<noteq> c \<and> v t \<noteq> None \<and> tinv (v(t := None)) c rl sems None"
proof -
  note d = tinvD [OF i]
  obtain f where t: "v t = Some (BLOCKED, [f])" using d(7) by (auto simp: dying_ok_def)
  then have tc: "t \<noteq> c" using c by auto
  have nq: "t \<notin> set (map snd (squeue q'))" if "sems s' = Some q'" for s' q'
    using d(6) [OF that] t by (fastforce simp: sem_ok_def)
  have aw: "awake (v(t := None)) = awake v" using t by (auto simp: awake_def fun_eq_iff)
  have "tinv (v(t := None)) c rl sems None"
  proof (rule tinvI)
    show "finite (dom (v(t := None)))" "(v(t := None)) c \<noteq> None" "distinct rl" using d(1-3) tc by auto
    show "thread_ok c rl sems None x st ks" if "(v(t := None)) x = Some (st, ks)" for x st ks
    proof -
      have "thread_ok c rl sems (Some t) x st ks" "x \<noteq> t" using that d(4) by (auto split: if_splits)
      then show ?thesis by (cases st) (auto simp: thread_ok_def)
    qed
    show "\<exists>ks. (v(t := None)) x = Some (READY, ks)" if "x \<in> set rl" for x
      using d(5) [OF that] t by auto
    show "sem_ok (v(t := None)) s' q'" if "sems s' = Some q'" for s' q'
      using d(6) [OF that] nq [OF that] by (fastforce simp: sem_ok_def)
    show "sems s' \<noteq> None" if "(v(t := None)) x = Some (st', ks')" "Waiting s' l \<in> set ks'" for x st' ks' s' l
      using that d(8) by (auto split: if_splits)
    show "svalue q' \<le> int (card (awake (v(t := None)) s'))" if "sems s' = Some q'" "squeue q' \<noteq> []" for s' q'
      using d(9) [OF that] by (simp only: aw)
  qed simp
  then show ?thesis using t tc by simp
qed

lemma tinv_finish:
  assumes i: "tinv v c rl sems None" and c: "v c = Some (RUNNING, [])"
  shows "tinv (v(c \<mapsto> (BLOCKED, [Sleeping]))) c rl sems (Some c)"
proof -
  note d = tinvD [OF i]
  let ?v = "v(c \<mapsto> (BLOCKED, [Sleeping]))"
  have aw: "awake ?v = awake v" using c by (auto simp: awake_def fun_eq_iff)
  show ?thesis
  proof (rule tinvI)
    show "finite (dom ?v)" "?v c \<noteq> None" "distinct rl" using d(1-3) by auto
    show "thread_ok c rl sems (Some c) x st ks" if "?v x = Some (st, ks)" for x st ks
    proof (cases "x = c")
      case True
      then show ?thesis using that by (auto simp: thread_ok_def)
    next
      case False
      then have "thread_ok c rl sems None x st ks" using that d(4) by simp
      then show ?thesis using False by (cases st) (auto simp: thread_ok_def)
    qed
    show "\<exists>ks. ?v x = Some (READY, ks)" if "x \<in> set rl" for x using d(5) [OF that] c by auto
    show "sem_ok ?v s' q'" if "sems s' = Some q'" for s' q'
      using d(6) [OF that] c by (fastforce simp: sem_ok_def)
    show "dying_ok ?v c x" if "Some c = Some x" for x using that by (simp add: dying_ok_def)
    show "sems s' \<noteq> None" if "?v x = Some (st', ks')" "Waiting s' l \<in> set ks'" for x st' ks' s' l
      using that d(8) by (auto split: if_splits)
    show "svalue q' \<le> int (card (awake ?v s'))" if "sems s' = Some q'" "squeue q' \<noteq> []" for s' q'
      using d(9) [OF that] by (simp only: aw)
  qed
qed

lemma tinv_new:
  assumes i: "tinv v c rl sems tbd" and t: "v t = None"
  shows "tinv (v(t \<mapsto> (JUST_CREATED, []))) c rl sems tbd"
proof -
  note d = tinvD [OF i]
  let ?v = "v(t \<mapsto> (JUST_CREATED, []))"
  have tc: "t \<noteq> c" using d(2) t by auto
  have aw: "awake ?v = awake v" using t by (auto simp: awake_def fun_eq_iff)
  show ?thesis
  proof (rule tinvI)
    show "finite (dom ?v)" "?v c \<noteq> None" "distinct rl" using d(1-3) by auto
    show "thread_ok c rl sems tbd x st ks" if "?v x = Some (st, ks)" for x st ks
      using that d(4) [of x st ks] tc by (auto simp: thread_ok_def split: if_splits)
    show "\<exists>ks. ?v x = Some (READY, ks)" if "x \<in> set rl" for x using d(5) [OF that] t by auto
    show "sem_ok ?v s' q'" if "sems s' = Some q'" for s' q'
      using d(6) [OF that] t by (fastforce simp: sem_ok_def)
    show "dying_ok ?v c x" if "tbd = Some x" for x using d(7) [OF that] t tc by (auto simp: dying_ok_def)
    show "sems s' \<noteq> None" if "?v x = Some (st', ks')" "Waiting s' l \<in> set ks'" for x st' ks' s' l
      using that d(8) by (auto split: if_splits)
    show "svalue q' \<le> int (card (awake ?v s'))" if "sems s' = Some q'" "squeue q' \<noteq> []" for s' q'
      using d(9) [OF that] by (simp only: aw)
  qed
qed

lemma tinv_start:
  assumes i: "tinv v c rl sems tbd" and t: "v t = Some (JUST_CREATED, ks0)"
  shows "tinv (v(t \<mapsto> (READY, [Startup]))) c (rl @ [t]) sems tbd"
proof -
  note d = tinvD [OF i]
  let ?v = "v(t \<mapsto> (READY, [Startup]))"
  have tc: "t \<noteq> c" and k0: "ks0 = []" using d(4) [OF t] by (auto simp: thread_ok_def)
  have trl: "t \<notin> set rl" using d(5) [of t] t by auto
  have aw: "awake ?v = awake v" using t k0 by (auto simp: awake_def fun_eq_iff)
  show ?thesis
  proof (rule tinvI)
    show "finite (dom ?v)" "?v c \<noteq> None" "distinct (rl @ [t])" using d(1-3) trl by auto
    show "thread_ok c (rl @ [t]) sems tbd x st ks" if "?v x = Some (st, ks)" for x st ks
    proof (cases "x = t")
      case True
      then show ?thesis using that tc by (auto simp: thread_ok_def)
    next
      case False
      then have "thread_ok c rl sems tbd x st ks" using that d(4) by simp
      then show ?thesis by (cases st) (auto simp: thread_ok_def)
    qed
    show "\<exists>ks. ?v x = Some (READY, ks)" if "x \<in> set (rl @ [t])" for x using d(5) [of x] that by auto
    show "sem_ok ?v s' q'" if "sems s' = Some q'" for s' q'
      using d(6) [OF that] t by (fastforce simp: sem_ok_def)
    show "dying_ok ?v c x" if "tbd = Some x" for x using d(7) [OF that] t tc by (auto simp: dying_ok_def)
    show "sems s' \<noteq> None" if "?v x = Some (st', ks')" "Waiting s' l \<in> set ks'" for x st' ks' s' l
      using that d(8) by (auto split: if_splits)
    show "svalue q' \<le> int (card (awake ?v s'))" if "sems s' = Some q'" "squeue q' \<noteq> []" for s' q'
      using d(9) [OF that] by (simp only: aw)
  qed
qed

lemma tinv_new_sem:
  assumes i: "tinv v c rl sems tbd" and s: "sems s = None" and val: "0 \<le> n"
  shows "tinv v c rl (sems(s \<mapsto> \<lparr>sname = nm, svalue = n, squeue = []\<rparr>)) tbd"
proof -
  note d = tinvD [OF i]
  have "in_queue (sems(s \<mapsto> \<lparr>sname = nm, svalue = n, squeue = []\<rparr>)) = in_queue sems"
    using s by (auto simp: in_queue_def fun_eq_iff)
  then have "thread_ok c rl (sems(s \<mapsto> \<lparr>sname = nm, svalue = n, squeue = []\<rparr>)) tbd = thread_ok c rl sems tbd"
    unfolding thread_ok_def fun_eq_iff by (simp only: simp_thms)
  then show ?thesis
    using d s val by (intro tinvI) (auto simp: sem_ok_def split: if_splits)
qed

end
