(* ===== verification/Nachos_Kernel.thy ===== *)
theory Nachos_Kernel
  imports Nachos_Scheduling
begin

text \<open>
  The invariant of the kernel and its preservation by every operation. \<open>kinv J p k\<close> is the
  scheduling invariant of theory \<open>Nachos_Scheduling\<close> read off the kernel, with \<open>p\<close> the frames of the
  current thread that have been popped while its innermost operation is executed; the condition on
  the registers saved in threads and on their address spaces (\<open>cpu_inv\<close>); and the condition \<open>J\<close> that
  interrupt handlers need of their devices and of the semaphores that exist. \<open>linv\<close> ties the
  interrupt level to the innermost frame of the current thread.

  The locale \<open>kernel_handlers\<close> is the contract between the kernel and the interrupt handlers of the
  devices; its lemmas show that the kernel, whatever calls its threads make, never violates an
  assertion, never uses a deleted thread and keeps its invariant. It is interpreted on the handlers
  of the devices in theory \<open>Nachos_Devices\<close>.
\<close>

section \<open>The invariant of the kernel\<close>

definition tview_of :: "frame list \<Rightarrow> ('h, 'd) kernel_scheme \<Rightarrow> tview" where
  "tview_of p k = (\<lambda>t. map_option (\<lambda>th. (tstatus th, if t = currentThread k then p @ kstack th else kstack th)) (threads k t))"

definition regs_ok :: "reg_word list \<Rightarrow> bool" where
  "regs_ok rs \<longleftrightarrow> length rs = NumTotalRegs \<and> unat (rs ! LoadReg) < NumGPRegs"

definition thread_cpu_ok :: "bool \<Rightarrow> nat set \<Rightarrow> Thread \<Rightarrow> bool" where
  "thread_cpu_ok has_cpu live th \<longleftrightarrow>
     regs_ok (userRegisters th) \<and> (stack th = None \<or> stack th = Some STACK_FENCEPOST) \<and>
     (\<forall>a. space th = Some a \<longrightarrow> a \<in> live \<and> has_cpu)"

definition cpu_inv :: "('h, 'd) kernel_scheme \<Rightarrow> bool" where
  "cpu_inv k \<longleftrightarrow>
     (\<forall>m. cpu k = Some m \<longrightarrow> regs_ok (registers m)) \<and>
     (\<forall>t th. threads k t = Some th \<longrightarrow> thread_cpu_ok (cpu k \<noteq> None) (dom (spaces k)) th)"

definition devs_ok :: "('h option \<Rightarrow> semid set \<Rightarrow> 'd \<Rightarrow> bool) \<Rightarrow> ('h, 'd) kernel_scheme \<Rightarrow> bool" where
  "devs_ok J k \<longleftrightarrow> J None (dom (semaphores k)) (kernel.more k) \<and>
     (\<forall>e \<in> set (pending k). J (Some (handler (snd e))) (dom (semaphores k)) (kernel.more k))"

definition kinv :: "('h option \<Rightarrow> semid set \<Rightarrow> 'd \<Rightarrow> bool) \<Rightarrow> frame list \<Rightarrow> ('h, 'd) kernel_scheme \<Rightarrow> bool" where
  "kinv J p k \<longleftrightarrow>
     tinv (tview_of p k) (currentThread k) (map snd (readyList k)) (semaphores k) (threadToBeDestroyed k) \<and>
     cpu_inv k \<and> devs_ok J k"

text \<open>The parts of the kernel the invariant does not read.\<close>

lemma tview_of_irrelevant [simp]:
  "tview_of p (k\<lparr>level := x1\<rparr>) = tview_of p k" "tview_of p (k\<lparr>stats := x2\<rparr>) = tview_of p k"
  "tview_of p (k\<lparr>pending := x3\<rparr>) = tview_of p k" "tview_of p (k\<lparr>inHandler := x4\<rparr>) = tview_of p k"
  "tview_of p (k\<lparr>yieldOnReturn := x5\<rparr>) = tview_of p k" "tview_of p (k\<lparr>status := x6\<rparr>) = tview_of p k"
  "tview_of p (k\<lparr>readyList := x7\<rparr>) = tview_of p k" "tview_of p (put_sem s q k) = tview_of p k"
  "tview_of p (k\<lparr>threadToBeDestroyed := x8\<rparr>) = tview_of p k" "tview_of p (k\<lparr>cpu := x9\<rparr>) = tview_of p k"
  by (simp_all add: tview_of_def put_sem_def)

lemma cpu_inv_irrelevant [simp]:
  "cpu_inv (k\<lparr>level := x1\<rparr>) = cpu_inv k" "cpu_inv (k\<lparr>stats := x2\<rparr>) = cpu_inv k"
  "cpu_inv (k\<lparr>pending := x3\<rparr>) = cpu_inv k" "cpu_inv (k\<lparr>inHandler := x4\<rparr>) = cpu_inv k"
  "cpu_inv (k\<lparr>yieldOnReturn := x5\<rparr>) = cpu_inv k" "cpu_inv (k\<lparr>status := x6\<rparr>) = cpu_inv k"
  "cpu_inv (k\<lparr>readyList := x7\<rparr>) = cpu_inv k" "cpu_inv (put_sem s q k) = cpu_inv k"
  "cpu_inv (k\<lparr>threadToBeDestroyed := x8\<rparr>) = cpu_inv k" "cpu_inv (k\<lparr>currentThread := x10\<rparr>) = cpu_inv k"
  by (simp_all add: cpu_inv_def put_sem_def)

lemma devs_ok_irrelevant [simp]:
  "devs_ok J (k\<lparr>level := x1\<rparr>) = devs_ok J k" "devs_ok J (k\<lparr>stats := x2\<rparr>) = devs_ok J k"
  "devs_ok J (k\<lparr>inHandler := x4\<rparr>) = devs_ok J k" "devs_ok J (k\<lparr>threads := x11\<rparr>) = devs_ok J k"
  "devs_ok J (k\<lparr>yieldOnReturn := x5\<rparr>) = devs_ok J k" "devs_ok J (k\<lparr>status := x6\<rparr>) = devs_ok J k"
  "devs_ok J (k\<lparr>readyList := x7\<rparr>) = devs_ok J k" "devs_ok J (put_thread t th k) = devs_ok J k"
  "devs_ok J (k\<lparr>threadToBeDestroyed := x8\<rparr>) = devs_ok J k" "devs_ok J (k\<lparr>currentThread := x10\<rparr>) = devs_ok J k"
  "devs_ok J (k\<lparr>cpu := x9\<rparr>) = devs_ok J k"
  by (simp_all add: devs_ok_def put_thread_def)

lemma devs_ok_put_sem [simp]: "semaphores k s = Some q' \<Longrightarrow> devs_ok J (put_sem s q k) = devs_ok J k"
  by (simp add: devs_ok_def put_sem_def insert_absorb domIff)

lemma kinv_pending:
  assumes "kinv J p k" "\<forall>e \<in> set x. e \<in> set (pending k)"
  shows "kinv J p (k\<lparr>pending := x\<rparr>)"
  using assms by (auto simp: kinv_def devs_ok_def)

lemma kinv_irrelevant [simp]:
  "kinv J p (k\<lparr>level := x1\<rparr>) = kinv J p k" "kinv J p (k\<lparr>stats := x2\<rparr>) = kinv J p k"
  "kinv J p (k\<lparr>inHandler := x4\<rparr>) = kinv J p k"
  "kinv J p (k\<lparr>yieldOnReturn := x5\<rparr>) = kinv J p k" "kinv J p (k\<lparr>status := x6\<rparr>) = kinv J p k"
  by (simp_all add: kinv_def)

lemma put_thread_select [simp]:
  "currentThread (put_thread t th k) = currentThread k" "readyList (put_thread t th k) = readyList k"
  "semaphores (put_thread t th k) = semaphores k" "threadToBeDestroyed (put_thread t th k) = threadToBeDestroyed k"
  "threads (put_thread t th k) = (threads k)(t \<mapsto> th)" "level (put_thread t th k) = level k"
  "cpu (put_thread t th k) = cpu k" "spaces (put_thread t th k) = spaces k" "halted (put_thread t th k) = halted k"
  "inHandler (put_thread t th k) = inHandler k" "pending (put_thread t th k) = pending k"
  "stats (put_thread t th k) = stats k" "status (put_thread t th k) = status k"
  "yieldOnReturn (put_thread t th k) = yieldOnReturn k" "kernel.more (put_thread t th k) = kernel.more k"
  by (simp_all add: put_thread_def)

lemma put_sem_select [simp]:
  "currentThread (put_sem s q k) = currentThread k" "readyList (put_sem s q k) = readyList k"
  "semaphores (put_sem s q k) = (semaphores k)(s \<mapsto> q)" "threadToBeDestroyed (put_sem s q k) = threadToBeDestroyed k"
  "threads (put_sem s q k) = threads k" "halted (put_sem s q k) = halted k"
  "cpu (put_sem s q k) = cpu k" "spaces (put_sem s q k) = spaces k"
  "inHandler (put_sem s q k) = inHandler k" "pending (put_sem s q k) = pending k"
  "stats (put_sem s q k) = stats k" "status (put_sem s q k) = status k"
  "yieldOnReturn (put_sem s q k) = yieldOnReturn k" "kernel.more (put_sem s q k) = kernel.more k"
  by (simp_all add: put_sem_def)

lemma insert_dom_Some [simp]: "m s = Some q \<Longrightarrow> insert s (dom m) = dom m"
  by (rule insert_absorb) (simp add: domIff)

lemma ChangeLevel_simps [simp]: "ChangeLevel a l k = k\<lparr>level := l\<rparr>"
  by (simp add: ChangeLevel_def)

lemma tview_of_put_thread:
  "tview_of p (put_thread t th k) =
     (tview_of p k)(t \<mapsto> (tstatus th, if t = currentThread k then p @ kstack th else kstack th))"
  by (auto simp: tview_of_def)

lemma cpu_inv_put_thread:
  "cpu_inv k \<Longrightarrow> thread_cpu_ok (cpu k \<noteq> None) (dom (spaces k)) th \<Longrightarrow> cpu_inv (put_thread t th k)"
  by (auto simp: cpu_inv_def)

lemma cpu_inv_thread: "cpu_inv k \<Longrightarrow> threads k t = Some th \<Longrightarrow> thread_cpu_ok (cpu k \<noteq> None) (dom (spaces k)) th"
  by (auto simp: cpu_inv_def)

lemma thread_cpu_ok_upd [simp]:
  "thread_cpu_ok c d (th\<lparr>tstatus := x\<rparr>) = thread_cpu_ok c d th"
  "thread_cpu_ok c d (th\<lparr>kstack := y\<rparr>) = thread_cpu_ok c d th"
  by (simp_all add: thread_cpu_ok_def)

lemma cpu_inv_upd_thread:
  assumes "cpu_inv k" "threads k t = Some th"
  shows "cpu_inv (put_thread t (th\<lparr>tstatus := x\<rparr>) k)" "cpu_inv (put_thread t (th\<lparr>kstack := y\<rparr>) k)"
    "cpu_inv (put_thread t (th\<lparr>kstack := y, tstatus := x\<rparr>) k)" "cpu_inv (put_thread t (th\<lparr>tstatus := x, kstack := y\<rparr>) k)"
  by (rule cpu_inv_put_thread [OF assms(1)]; use cpu_inv_thread [OF assms] in simp)+

lemma tview_of_Some:
  "tview_of p k t = Some (st, ks) \<longleftrightarrow>
     (\<exists>th. threads k t = Some th \<and> st = tstatus th \<and> ks = (if t = currentThread k then p @ kstack th else kstack th))"
  by (auto simp: tview_of_def)

lemma kinv_current: "kinv J p k \<Longrightarrow> \<exists>th. threads k (currentThread k) = Some th"
  by (auto simp: kinv_def tview_of_def dest: tinvD(2))

lemma kinvD: "kinv J p k \<Longrightarrow> tinv (tview_of p k) (currentThread k) (map snd (readyList k)) (semaphores k) (threadToBeDestroyed k)"
  "kinv J p k \<Longrightarrow> cpu_inv k" "kinv J p k \<Longrightarrow> devs_ok J k"
  by (simp_all add: kinv_def)

text \<open>Pushing and popping.\<close>

lemma push_frame_eq:
  "threads k (currentThread k) = Some th \<Longrightarrow>
   push_frame f k = Inr (put_thread (currentThread k) (th\<lparr>kstack := f # kstack th\<rparr>) k)"
  by (simp add: push_frame_def upd_thread_def get_thread_def)

lemma kinv_push:
  assumes "threads k (currentThread k) = Some th"
  shows "kinv J p (put_thread (currentThread k) (th\<lparr>kstack := fs @ kstack th\<rparr>) k) = kinv J (p @ fs) k"
proof -
  have "tview_of p (put_thread (currentThread k) (th\<lparr>kstack := fs @ kstack th\<rparr>) k) = tview_of (p @ fs) k"
    using assms by (auto simp: tview_of_def fun_eq_iff)
  moreover have "cpu_inv (put_thread (currentThread k) (th\<lparr>kstack := fs @ kstack th\<rparr>) k) = cpu_inv k"
    using assms by (auto simp: cpu_inv_def split: if_splits)
  ultimately show ?thesis by (simp add: kinv_def)
qed

lemma kinv_pop:
  assumes "threads k (currentThread k) = Some th" "kstack th = f # fs"
  shows "kinv J [f] (put_thread (currentThread k) (th\<lparr>kstack := fs\<rparr>) k) = kinv J [] k"
proof -
  let ?k = "put_thread (currentThread k) (th\<lparr>kstack := fs\<rparr>) k"
  have "put_thread (currentThread ?k) (th\<lparr>kstack := fs, kstack := [f] @ kstack (th\<lparr>kstack := fs\<rparr>)\<rparr>) ?k = k"
    using assms by (auto simp: put_thread_def fun_upd_idem)
  then show ?thesis using kinv_push [of ?k "th\<lparr>kstack := fs\<rparr>" J "[]" "[f]"] by simp
qed

text \<open>What an operation that leaves the control of the processor alone keeps.\<close>

definition same_control :: "('h, 'd) kernel_scheme \<Rightarrow> ('h, 'd) kernel_scheme \<Rightarrow> bool" where
  "same_control k k' \<longleftrightarrow> currentThread k' = currentThread k \<and>
     threadToBeDestroyed k' = threadToBeDestroyed k \<and>
     (\<forall>t. map_option kstack (threads k' t) = map_option kstack (threads k t)) \<and>
     (\<forall>th. threads k (currentThread k) = Some th \<longrightarrow> tstatus th = RUNNING \<longrightarrow>
        (\<exists>th'. threads k' (currentThread k) = Some th' \<and> tstatus th' = RUNNING)) \<and>
     (\<forall>s. semaphores k s \<noteq> None \<longrightarrow> semaphores k' s \<noteq> None)"

lemma same_control_refl [simp]: "same_control k k"
  by (simp add: same_control_def)

lemma same_control_trans: "same_control k k1 \<Longrightarrow> same_control k1 k2 \<Longrightarrow> same_control k k2"
  unfolding same_control_def by metis

lemma same_control_current:
  assumes "same_control k k'" "threads k (currentThread k) = Some th" "tstatus th = RUNNING"
  shows "\<exists>th'. threads k' (currentThread k') = Some th' \<and> tstatus th' = RUNNING \<and> kstack th' = kstack th"
proof -
  have "map_option kstack (threads k' (currentThread k)) = map_option kstack (threads k (currentThread k))"
    "currentThread k' = currentThread k"
    "\<exists>th'. threads k' (currentThread k) = Some th' \<and> tstatus th' = RUNNING"
    using assms by (simp_all add: same_control_def)
  then show ?thesis using assms(2) by auto
qed

lemma ReadyToRun_eq:
  "threads k t = Some th \<Longrightarrow>
   ReadyToRun t k = Inr ((put_thread t (th\<lparr>tstatus := READY\<rparr>) k)\<lparr>readyList := kappend t (readyList k)\<rparr>)"
  by (simp add: ReadyToRun_def upd_thread_def get_thread_def)

lemma V_atomic_kinv:
  assumes inv: "kinv J p k" and q: "semaphores k s = Some q"
  shows "\<exists>k'. V_atomic s k = Inr k' \<and> kinv J p k' \<and> same_control k k' \<and>
     k' = k\<lparr>threads := threads k', readyList := readyList k', semaphores := semaphores k'\<rparr>"
proof (cases "squeue q")
  case Nil
  have inv': "kinv J p (put_sem s (q\<lparr>svalue := svalue q + 1\<rparr>) k)"
    using kinvD [OF inv] tinv_V_empty [OF kinvD(1) [OF inv] q Nil] q by (simp add: kinv_def)
  have eq: "q\<lparr>squeue := [], svalue := svalue q + 1\<rparr> = q\<lparr>svalue := svalue q + 1\<rparr>"
    using Nil by (cases q) simp
  have "V_atomic s k = Inr (put_sem s (q\<lparr>squeue := [], svalue := svalue q + 1\<rparr>) k)"
    using q Nil by (simp add: V_atomic_def get_sem_def)
  then have "V_atomic s k = Inr (put_sem s (q\<lparr>svalue := svalue q + 1\<rparr>) k)" by (simp only: eq)
  with inv' show ?thesis by (auto simp: same_control_def put_sem_def)
next
  case (Cons e rest)
  then obtain k0 t where e: "squeue q = (k0, t) # rest" by (cases e) auto
  obtain ks where ks: "tview_of p k t = Some (BLOCKED, ks)" and
    i': "tinv ((tview_of p k)(t \<mapsto> (READY, ks))) (currentThread k) (map snd (readyList k) @ [t])
           ((semaphores k)(s \<mapsto> q\<lparr>squeue := rest, svalue := svalue q + 1\<rparr>)) (threadToBeDestroyed k)"
    using tinv_V_wake [OF kinvD(1) [OF inv] q e] by blast
  obtain th where th: "threads k t = Some th" "tstatus th = BLOCKED"
    "ks = (if t = currentThread k then p @ kstack th else kstack th)"
    using ks by (auto simp: tview_of_Some)
  let ?k = "put_sem s (q\<lparr>squeue := rest, svalue := svalue q + 1\<rparr>)
     ((put_thread t (th\<lparr>tstatus := READY\<rparr>) k)\<lparr>readyList := kappend t (readyList k)\<rparr>)"
  have v: "V_atomic s k = Inr ?k"
    using q e th by (simp add: V_atomic_def get_sem_def ReadyToRun_eq)
  have "cpu_inv (put_thread t (th\<lparr>tstatus := READY\<rparr>) k)"
    using kinvD(2) [OF inv] th(1) by (rule cpu_inv_upd_thread)
  then have "kinv J p ?k"
    using i' th kinvD(3) [OF inv] q by (cases "t = currentThread k") (simp_all add: kinv_def tview_of_put_thread kappend_def)
  moreover have "same_control k ?k" using th by (auto simp: same_control_def)
  ultimately show ?thesis using v by (auto simp: put_sem_def put_thread_def)
qed


section \<open>Switching threads\<close>

lemma calm_tbd:
  assumes "kinv J p k" "threads k (currentThread k) = Some th" "tstatus th = RUNNING" "\<not> resumable (p @ kstack th)"
  shows "threadToBeDestroyed k = None"
proof (rule ccontr)
  assume "threadToBeDestroyed k \<noteq> None"
  then obtain t where t: "threadToBeDestroyed k = Some t" by blast
  have "dying_ok (tview_of p k) (currentThread k) t" using tinvD(7) [OF kinvD(1) [OF assms(1)] t] .
  then show False using assms by (auto simp: dying_ok_def tview_of_def)
qed

lemma regs_ok_copy: "regs_ok rs \<Longrightarrow> map (\<lambda>i. rs ! i) [0..<NumTotalRegs] = rs"
  by (auto simp: regs_ok_def intro: nth_equalityI)

text \<open>The effect of Run on the current thread, whose registers are saved when it is a user thread.\<close>

definition saved_regs :: "('h, 'd) kernel_scheme \<Rightarrow> Thread \<Rightarrow> reg_word list" where
  "saved_regs k th =
     (case (space th, cpu k) of (Some _, Some m) \<Rightarrow> registers m | _ \<Rightarrow> userRegisters th)"

lemma Run_eq:
  assumes "cpu_inv k" "threads k (currentThread k) = Some th" "threads k t = Some th'" "level k = IntOff"
  shows "Run t k =
    (let old = th\<lparr>userRegisters := saved_regs k th, kstack := AfterSwitch # kstack th\<rparr> in
     Inr ((put_thread t ((if t = currentThread k then old else th')\<lparr>tstatus := RUNNING\<rparr>)
            (put_thread (currentThread k) old k))\<lparr>currentThread := t\<rparr>))"
proof -
  have ok: "thread_cpu_ok (cpu k \<noteq> None) (dom (spaces k)) th" using cpu_inv_thread assms by blast
  have save: "(if space th \<noteq> None then SaveUserState (currentThread k) k else Inr k) =
      Inr (put_thread (currentThread k) (th\<lparr>userRegisters := saved_regs k th\<rparr>) k)"
  proof (cases "space th")
    case None
    then show ?thesis using assms(2) by (auto simp: saved_regs_def put_thread_def fun_upd_idem)
  next
    case (Some a)
    then obtain m where m: "cpu k = Some m" using ok by (auto simp: thread_cpu_ok_def)
    then have "regs_ok (registers m)" using assms(1) by (simp add: cpu_inv_def)
    then show ?thesis using Some m assms(2)
      by (simp add: SaveUserState_def upd_thread_def get_thread_def saved_regs_def regs_ok_copy)
  qed
  have over: "CheckOverflow (currentThread k) (put_thread (currentThread k) (th\<lparr>userRegisters := r\<rparr>) k) =
      Inr (put_thread (currentThread k) (th\<lparr>userRegisters := r\<rparr>) k)" for r
    using ok by (auto simp: CheckOverflow_def get_thread_def thread_cpu_ok_def split: option.splits)
  have "get_thread (currentThread k) k = Inr th" using assms(2) by (simp add: get_thread_def)
  then have "Run t k = upd_thread t (\<lambda>th. th\<lparr>tstatus := RUNNING\<rparr>)
      ((put_thread (currentThread k) (th\<lparr>userRegisters := saved_regs k th, kstack := AfterSwitch # kstack th\<rparr>)
         (put_thread (currentThread k) (th\<lparr>userRegisters := saved_regs k th\<rparr>) k))\<lparr>currentThread := t\<rparr>)"
    using assms(4) by (simp add: Run_def Let_def save over push_frame_eq del: not_None_eq)
  then show ?thesis
    using assms(3) by (auto simp: upd_thread_def get_thread_def put_thread_def Let_def)
qed

lemma cpu_inv_Run:
  assumes "cpu_inv k" "threads k (currentThread k) = Some th" "threads k t = Some th'"
  shows "cpu_inv ((put_thread t ((if t = currentThread k then th\<lparr>userRegisters := saved_regs k th, kstack := ks\<rparr> else th')\<lparr>tstatus := st\<rparr>)
            (put_thread (currentThread k) (th\<lparr>userRegisters := saved_regs k th, kstack := ks\<rparr>) k))\<lparr>currentThread := t\<rparr>)"
proof -
  note ok = cpu_inv_thread [OF assms(1)]
  have "regs_ok (saved_regs k th)"
    using assms(1) ok [OF assms(2)] by (auto simp: saved_regs_def cpu_inv_def thread_cpu_ok_def split: option.splits)
  then have "thread_cpu_ok (cpu k \<noteq> None) (dom (spaces k)) (th\<lparr>userRegisters := saved_regs k th, kstack := ks\<rparr>)"
    using ok [OF assms(2)] by (simp add: thread_cpu_ok_def)
  then show ?thesis using ok [OF assms(3)] assms(1)
    by (auto simp: cpu_inv_def)
qed

lemma Sleep_switch:
  assumes inv: "kinv J [Sleeping] k" and f: "FindNextToRun k = (Some t, k1)" and l: "level k = IntOff"
  shows "\<exists>k'. Run t k1 = Inr k' \<and> kinv J [] k' \<and> level k' = IntOff \<and> inHandler k' = inHandler k \<and> pending k' = pending k \<and>
     (\<exists>th. threads k' (currentThread k') = Some th \<and> resumable (kstack th))"
proof -
  obtain kx rs where r: "readyList k = (kx, t) # rs" and k1: "k1 = k\<lparr>readyList := rs\<rparr>" and h: "\<not> halted k"
    using f by (cases "readyList k") (auto simp: FindNextToRun_def split: if_splits)
  obtain th where th: "threads k (currentThread k) = Some th" using kinv_current [OF inv] by blast
  note d = kinvD [OF inv]
  have c: "tview_of [Sleeping] k (currentThread k) = Some (tstatus th, Sleeping # kstack th)"
    using th by (simp add: tview_of_def)
  obtain kt where kt: "tview_of [Sleeping] k t = Some (READY, kt)" and
    i': "tinv (if t = currentThread k then (tview_of [Sleeping] k)(currentThread k \<mapsto> (RUNNING, AfterSwitch # kstack th))
           else (tview_of [Sleeping] k)(currentThread k \<mapsto> (tstatus th, AfterSwitch # kstack th), t \<mapsto> (RUNNING, kt)))
           t (map snd rs) (semaphores k) (threadToBeDestroyed k)"
    using tinv_switch_sleep [of "tview_of [Sleeping] k" "currentThread k" t "map snd rs", OF _ c] d(1) r by auto
  obtain th' where th': "threads k t = Some th'" using kt by (auto simp: tview_of_Some)
  let ?old = "th\<lparr>userRegisters := saved_regs k th, kstack := AfterSwitch # kstack th\<rparr>"
  let ?k = "(put_thread t ((if t = currentThread k then ?old else th')\<lparr>tstatus := RUNNING\<rparr>)
            (put_thread (currentThread k) ?old k1))\<lparr>currentThread := t\<rparr>"
  have sr: "saved_regs k1 = saved_regs k" by (rule ext) (simp add: k1 saved_regs_def)
  have k1s: "currentThread k1 = currentThread k" "threads k1 = threads k" "cpu_inv k1" "level k1 = IntOff"
    using d(2) l by (simp_all add: k1)
  have "Run t k1 = Inr ?k"
    using Run_eq [OF k1s(3), unfolded k1s(1,2) sr, OF th th' k1s(4)] unfolding Let_def .
  moreover have "kinv J [] ?k"
  proof -
    have "tview_of [] ?k = (if t = currentThread k then (tview_of [Sleeping] k)(currentThread k \<mapsto> (RUNNING, AfterSwitch # kstack th))
           else (tview_of [Sleeping] k)(currentThread k \<mapsto> (tstatus th, AfterSwitch # kstack th), t \<mapsto> (RUNNING, kt)))"
      using kt th th' by (auto simp: tview_of_def fun_eq_iff k1)
    moreover have "cpu_inv ?k" by (rule cpu_inv_Run [OF k1s(3), unfolded k1s(1,2) sr, OF th th'])
    ultimately show ?thesis using i' d(3) by (simp add: kinv_def k1)
  qed
  moreover have "resumable (kstack (if t = currentThread k then ?old else th'))"
  proof -
    have ok: "thread_ok (currentThread k) (map snd (readyList k)) (semaphores k) (threadToBeDestroyed k) t READY kt"
      using tinvD(4) [OF d(1) kt] .
    show ?thesis
    proof (cases "t = currentThread k")
      case True
      then show ?thesis using ok c kt by (auto simp: thread_ok_def)
    next
      case False
      then show ?thesis using ok kt th' by (auto simp: thread_ok_def tview_of_Some)
    qed
  qed
  ultimately show ?thesis using l th th'
    by (intro exI [of _ ?k]) (auto simp: k1)
qed


lemma Yield_kinv:
  assumes inv: "kinv J [] k" and th: "threads k (currentThread k) = Some th" "tstatus th = RUNNING"
    and ks: "\<forall>f \<in> set (kstack th). restore_frame f" and l: "level k = IntOn"
  shows "\<exists>k'. Yield k = Inr k' \<and> kinv J [] k' \<and> level k' = IntOff \<and> inHandler k' = inHandler k \<and> pending k' = pending k \<and>
     (\<exists>th. threads k' (currentThread k') = Some th \<and>
        (resumable (kstack th) \<or> (\<exists>fs. kstack th = RestoreLevel IntOn # fs)))"
proof -
  let ?c = "currentThread k" and ?th = "th\<lparr>kstack := RestoreLevel IntOn # kstack th\<rparr>"
  let ?k1 = "put_thread ?c ?th (k\<lparr>level := IntOff\<rparr>)"
  note d = kinvD [OF inv]
  have nres: "\<not> resumable ([] @ kstack th)" using ks by (cases "kstack th") (auto simp: resumable_def restore_frame_def)
  have tbd: "threadToBeDestroyed k = None" by (rule calm_tbd [OF inv th nres])
  have vc: "tview_of [] k ?c = Some (RUNNING, kstack th)" using th by (simp add: tview_of_def)
  have v1: "tview_of [] ?k1 = (tview_of [] k)(?c \<mapsto> (RUNNING, RestoreLevel IntOn # kstack th))"
    using th by (simp add: tview_of_put_thread)
  have ret: "returning (RestoreLevel IntOn # kstack th)" using ks by (simp add: returning_def)
  have i1: "tinv (tview_of [] ?k1) ?c (map snd (readyList k)) (semaphores k) None"
    unfolding v1
  proof (rule tinv_current [OF d(1) [unfolded tbd] vc])
    show "calm (RestoreLevel IntOn # kstack th) \<or> resumable (RestoreLevel IntOn # kstack th)"
      using returning_calm [OF ret] by blast
    show "semaphores k s \<noteq> None" if "Waiting s l \<in> set (RestoreLevel IntOn # kstack th)" for s l
      using that ks by (auto simp: restore_frame_def)
  qed auto
  have c1: "cpu_inv ?k1" using cpu_inv_upd_thread(2) [of "k\<lparr>level := IntOff\<rparr>" ?c th] d(2) th by simp
  have push: "push_frame (RestoreLevel IntOn) (k\<lparr>level := IntOff\<rparr>) = Inr ?k1"
    using push_frame_eq [of "k\<lparr>level := IntOff\<rparr>" th] th by simp
  show ?thesis
  proof (cases "halted k \<or> readyList k = []")
    case True
    have "FindNextToRun ?k1 = (None, ?k1)" using True by (auto simp: FindNextToRun_def put_thread_def)
    then have "Yield k = Inr ?k1" using push l by (simp add: Yield_def)
    moreover have "kinv J [] ?k1" using i1 c1 tbd d(3) by (simp add: kinv_def)
    ultimately show ?thesis by auto
  next
    case False
    then obtain kx t rs where r: "readyList k = (kx, t) # rs" "\<not> halted k" by (cases "readyList k") auto
    let ?k2 = "?k1\<lparr>readyList := rs\<rparr>"
    have find: "FindNextToRun ?k1 = (Some t, ?k2)" using r by (simp add: FindNextToRun_def)
    obtain kt where kt: "(tview_of [] ?k1) t = Some (READY, kt)" "t \<noteq> ?c" and
      i2: "tinv ((tview_of [] ?k1)(?c \<mapsto> (READY, AfterSwitch # RestoreLevel IntOn # kstack th), t \<mapsto> (RUNNING, kt))) t
             (map snd rs @ [?c]) (semaphores k) None"
      using tinv_switch_yield [of "tview_of [] ?k1" ?c t "map snd rs" "semaphores k" "RestoreLevel IntOn # kstack th"]
        i1 r ret v1 by auto
    obtain th' where th': "threads k t = Some th'" "kstack th' = kt" using kt by (auto simp: tview_of_Some)
    let ?k3 = "(put_thread ?c (?th\<lparr>tstatus := READY\<rparr>) ?k2)\<lparr>readyList := kappend ?c rs\<rparr>"
    have ready: "ReadyToRun ?c ?k2 = Inr ?k3" by (simp add: ReadyToRun_eq)
    have c3: "cpu_inv ?k3" using cpu_inv_upd_thread(1) [OF c1, of ?c ?th] by (simp add: cpu_inv_def)
    have cur3: "threads ?k3 (currentThread ?k3) = Some (?th\<lparr>tstatus := READY\<rparr>)" "threads ?k3 t = Some th'"
      using th' kt by auto
    let ?old = "?th\<lparr>tstatus := READY, userRegisters := saved_regs ?k3 (?th\<lparr>tstatus := READY\<rparr>),
        kstack := AfterSwitch # RestoreLevel IntOn # kstack th\<rparr>"
    let ?k4 = "(put_thread t (th'\<lparr>tstatus := RUNNING\<rparr>) (put_thread ?c ?old ?k3))\<lparr>currentThread := t\<rparr>"
    have run: "Run t ?k3 = Inr ?k4" using Run_eq [OF c3 cur3] kt(2) by (simp add: Let_def)
    have "kinv J [] ?k4"
    proof -
      have "tview_of [] ?k4 = (tview_of [] ?k1)(?c \<mapsto> (READY, AfterSwitch # RestoreLevel IntOn # kstack th), t \<mapsto> (RUNNING, kt))"
        using kt th' by (auto simp: tview_of_def fun_eq_iff)
      moreover have "cpu_inv ?k4"
        using cpu_inv_Run [OF c3 cur3, where ks = "AfterSwitch # RestoreLevel IntOn # kstack th" and st = RUNNING] kt(2) by simp
      ultimately show ?thesis using i2 tbd d(3) by (simp add: kinv_def kappend_def)
    qed
    moreover have "Yield k = Inr ?k4" using push find ready run l by (simp add: Yield_def)
    moreover have "resumable kt"
    proof -
      have "thread_ok ?c (map snd (readyList k)) (semaphores k) None t READY kt" using tinvD(4) [OF i1 kt(1)] .
      then show ?thesis using kt(2) by (auto simp: thread_ok_def)
    qed
    ultimately show ?thesis using th' by (intro exI [of _ ?k4]) auto
  qed
qed


section \<open>The kernel with interrupt handlers that respect the invariant\<close>

definition handler_failure ::
  "('h option \<Rightarrow> semid set \<Rightarrow> 'd \<Rightarrow> bool) \<Rightarrow> ('h \<Rightarrow> ('h, 'd) kernel_scheme \<Rightarrow> ('h, 'd) kernel_scheme res) \<Rightarrow> nachos_error \<Rightarrow> bool" where
  "handler_failure J run e \<longleftrightarrow> (\<exists>h k p. inHandler k \<and> level k = IntOff \<and> kinv J p k \<and>
     J (Some h) (dom (semaphores k)) (kernel.more k) \<and> run h k = Inl e)"

definition linv :: "('h, 'd) kernel_scheme \<Rightarrow> bool" where
  "linv k \<longleftrightarrow> \<not> inHandler k \<and> sorted (map fst (pending k)) \<and>
     (\<forall>th. threads k (currentThread k) = Some th \<longrightarrow>
        (case kstack th of
           [] \<Rightarrow> level k = IntOn
         | RestoreStatus _ # _ \<Rightarrow> level k = IntOn
         | RestoreLevel _ # _ \<Rightarrow> True
         | _ \<Rightarrow> level k = IntOff))"

definition kernel_ok :: "('h option \<Rightarrow> semid set \<Rightarrow> 'd \<Rightarrow> bool) \<Rightarrow> ('h, 'd) kernel_scheme \<Rightarrow> bool" where
  "kernel_ok J k \<longleftrightarrow> kinv J [] k \<and> linv k"

lemma linv_resumable:
  "threads k (currentThread k) = Some th \<Longrightarrow> resumable (kstack th) \<Longrightarrow> level k = IntOff \<Longrightarrow> \<not> inHandler k \<Longrightarrow>
   sorted (map fst (pending k)) \<Longrightarrow> linv k"
  by (auto simp: linv_def resumable_def)

lemma linv_frame:
  "t \<noteq> currentThread k \<Longrightarrow> linv (put_thread t th k) = linv k" "linv (put_sem s q k) = linv k"
  unfolding linv_def put_thread_select put_sem_select put_sem_level by simp_all

lemma DelayedLoad_regs_ok: "regs_ok (registers m) \<Longrightarrow> \<exists>m'. DelayedLoad 0 0 m = Inr m' \<and> regs_ok (registers m')"
  by (auto simp: regs_ok_def DelayedLoad_def Let_def nth_list_update)

lemma finish_load_kinv:
  assumes "kinv J p k"
  shows "\<exists>k'. finish_load k = Inr k' \<and> kinv J p k' \<and> same_control k k' \<and> level k' = level k"
proof (cases "cpu k = None \<or> status k \<noteq> UserMode")
  case True
  then show ?thesis using assms by (auto simp: finish_load_def split: option.splits)
next
  case False
  then obtain m where m: "cpu k = Some m" "status k = UserMode" by auto
  obtain m' where m': "DelayedLoad 0 0 m = Inr m'" "regs_ok (registers m')"
    using DelayedLoad_regs_ok [of m] kinvD(2) [OF assms] m(1) by (auto simp: cpu_inv_def)
  have "kinv J p (k\<lparr>cpu := Some m'\<rparr>)"
    using kinvD [OF assms] m m' by (auto simp: kinv_def cpu_inv_def)
  then show ?thesis using m m' by (auto simp: finish_load_def same_control_def)
qed

text \<open>Popping a frame of the running thread.\<close>

lemma kinv_pop_running:
  assumes inv: "kinv J [f] k" and th: "threads k (currentThread k) = Some th" "tstatus th = RUNNING"
    and c: "calm (kstack th) \<or> resumable (kstack th)"
    and f: "\<And>s l. f \<noteq> Waiting s l" and tbd: "threadToBeDestroyed k = None"
  shows "kinv J [] k"
proof -
  note d = kinvD [OF inv]
  have v: "tview_of [] k = (tview_of [f] k)(currentThread k \<mapsto> (RUNNING, kstack th))"
    using th by (auto simp: tview_of_def fun_eq_iff)
  have vc: "tview_of [f] k (currentThread k) = Some (RUNNING, f # kstack th)" using th by (simp add: tview_of_def)
  have "tinv (tview_of [] k) (currentThread k) (map snd (readyList k)) (semaphores k) (threadToBeDestroyed k)"
    unfolding v
  proof (rule tinv_current [OF d(1) vc c])
    show "semaphores k s \<noteq> None" if "Waiting s l \<in> set (kstack th)" for s l
      using tinvD(8) [OF d(1) vc] that by auto
    show "Waiting s l \<in> set (kstack th)" if "Waiting s l \<in> set (f # kstack th)" for s l
      using that f [of s l] by auto
  qed (use tbd in simp)
  then show ?thesis using d(2,3) by (simp add: kinv_def)
qed

lemma running_stack:
  assumes "kinv J p k" "threads k (currentThread k) = Some th" "tstatus th = RUNNING"
  shows "calm (p @ kstack th) \<or> resumable (p @ kstack th)"
proof -
  have "tview_of p k (currentThread k) = Some (RUNNING, p @ kstack th)" using assms by (simp add: tview_of_def)
  from tinvD(4) [OF kinvD(1) [OF assms(1)] this] show ?thesis by (simp add: thread_ok_def)
qed

text \<open>Resuming a thread: the finished thread is deleted, the user state restored.\<close>

lemma delete_destroyed:
  assumes inv: "kinv J [f] k" and th: "threads k (currentThread k) = Some th" "tstatus th = RUNNING"
  shows "\<exists>k1. (case threadToBeDestroyed k of None \<Rightarrow> Inr k
       | Some t \<Rightarrow> bindR (Thread_delete t k) (\<lambda>k1. Inr (k1\<lparr>threadToBeDestroyed := None\<rparr>))) = Inr k1 \<and>
     kinv J [f] k1 \<and> threadToBeDestroyed k1 = None \<and> currentThread k1 = currentThread k \<and>
     threads k1 (currentThread k) = Some th \<and>
     k1 = k\<lparr>threads := threads k1, threadToBeDestroyed := None\<rparr>"
proof (cases "threadToBeDestroyed k")
  case None
  then have "k = k\<lparr>threads := threads k, threadToBeDestroyed := None\<rparr>" by simp
  then show ?thesis using inv th None by auto
next
  case (Some t)
  note d = kinvD [OF inv]
  have vc: "tview_of [f] k (currentThread k) = Some (RUNNING, f # kstack th)" using th by (simp add: tview_of_def)
  have del: "t \<noteq> currentThread k" "tview_of [f] k t \<noteq> None"
    "tinv ((tview_of [f] k)(t := None)) (currentThread k) (map snd (readyList k)) (semaphores k) None"
    using tinv_delete [OF d(1) [unfolded Some] vc] by blast+
  obtain tht where t: "threads k t = Some tht" using del(2) by (auto simp: tview_of_def)
  let ?k = "k\<lparr>threads := (threads k)(t := None), threadToBeDestroyed := None\<rparr>"
  have "tview_of [f] ?k = (tview_of [f] k)(t := None)" by (auto simp: tview_of_def)
  then have "kinv J [f] ?k" using del(3) d(2,3) by (auto simp: kinv_def cpu_inv_def)
  then show ?thesis using Some del(1) t th by (auto simp: Thread_delete_def get_thread_def)
qed

lemma restore_user:
  assumes inv: "kinv J p k" and th: "threads k (currentThread k) = Some th"
  shows "\<exists>k'. (case space th of None \<Rightarrow> Inr k
       | Some a \<Rightarrow> bindR (RestoreUserState (currentThread k) k) (RestoreState a)) = Inr k' \<and>
     kinv J p k' \<and> k' = k\<lparr>cpu := cpu k'\<rparr>"
proof (cases "space th")
  case None
  then show ?thesis using inv by auto
next
  case (Some a)
  note d = kinvD [OF inv]
  have ok: "thread_cpu_ok (cpu k \<noteq> None) (dom (spaces k)) th" using cpu_inv_thread d(2) th by blast
  then obtain m sp where m: "cpu k = Some m" "spaces k a = Some sp" and r: "regs_ok (userRegisters th)"
    using Some by (auto simp: thread_cpu_ok_def)
  let ?m = "m\<lparr>registers := userRegisters th, pageTable := Some (asPageTable sp), pageTableSize := numPages sp\<rparr>"
  have "kinv J p (k\<lparr>cpu := Some ?m\<rparr>)" using d m r by (auto simp: kinv_def cpu_inv_def)
  then show ?thesis using Some m th regs_ok_copy [OF r]
    by (auto simp: RestoreUserState_def RestoreState_def get_thread_def)
qed

lemma after_switch_kinv:
  assumes inv: "kinv J [f] k" and th: "threads k (currentThread k) = Some th" "tstatus th = RUNNING"
    and f: "resumable (f # kstack th)"
  shows "\<exists>k'. after_switch k = Inr k' \<and> kinv J [] k' \<and> currentThread k' = currentThread k \<and>
     threads k' (currentThread k) = Some th \<and> level k' = level k \<and> inHandler k' = inHandler k \<and> pending k' = pending k"
proof -
  obtain k1 where k1: "(case threadToBeDestroyed k of None \<Rightarrow> Inr k
       | Some t \<Rightarrow> bindR (Thread_delete t k) (\<lambda>k1. Inr (k1\<lparr>threadToBeDestroyed := None\<rparr>))) = Inr k1"
     "kinv J [f] k1" "threadToBeDestroyed k1 = None" "currentThread k1 = currentThread k"
     "threads k1 (currentThread k1) = Some th"
     and eq: "k1 = k\<lparr>threads := threads k1, threadToBeDestroyed := None\<rparr>"
    using delete_destroyed [OF inv th] by auto
  have eq1: "level k1 = level k" "inHandler k1 = inHandler k" "pending k1 = pending k" by (subst eq, simp)+
  have "calm (kstack th)" and nw: "\<And>s l. f \<noteq> Waiting s l" using f returning_calm by (auto simp: resumable_def)
  then have "kinv J [] k1" using kinv_pop_running [OF k1(2,5) th(2)] k1(3) by blast
  then obtain k2 where k2: "(case space th of None \<Rightarrow> Inr k1
       | Some a \<Rightarrow> bindR (RestoreUserState (currentThread k1) k1) (RestoreState a)) = Inr k2"
     "kinv J [] k2" and eq2: "k2 = k1\<lparr>cpu := cpu k2\<rparr>"
    using restore_user [OF _ k1(5)] by blast
  have "currentThread k2 = currentThread k1" "threads k2 = threads k1" "level k2 = level k1"
    "inHandler k2 = inHandler k1" "pending k2 = pending k1" by (subst eq2, simp)+
  then show ?thesis using k1 k2 eq1 unfolding after_switch_def by (simp add: get_thread_def)
qed

text \<open>
  The calls of a thread that is not in the kernel, and what the caller is responsible for: the
  semaphore exists, the addresses returned by the allocator are fresh, the value of a new semaphore
  is not negative, a thread is started once.
\<close>

definition in_user :: "('h, 'd) kernel_scheme \<Rightarrow> bool" where
  "in_user k = (case threads k (currentThread k) of Some th \<Rightarrow> kstack th = [] | None \<Rightarrow> False)"

fun call_ok :: "kcall \<Rightarrow> ('h, 'd) kernel_scheme \<Rightarrow> bool" where
  "call_ok Call_Yield k = True"
| "call_ok Call_Finish k = True"
| "call_ok (Call_P s) k = (semaphores k s \<noteq> None)"
| "call_ok (Call_V s) k = (semaphores k s \<noteq> None)"
| "call_ok (Call_New t n g) k = (threads k t = None \<and> length g = NumTotalRegs)"
| "call_ok (Call_Start t) k = (case threads k t of Some th \<Rightarrow> tstatus th = JUST_CREATED | None \<Rightarrow> False)"
| "call_ok (Call_Semaphore s n v) k = (semaphores k s = None \<and> 0 \<le> v)"
| "call_ok Call_Tick k = True"

inductive kreach ::
  "('h \<Rightarrow> ('h, 'd) kernel_scheme \<Rightarrow> ('h, 'd) kernel_scheme res) \<Rightarrow>
   ('h, 'd) kernel_scheme \<Rightarrow> ('h, 'd) kernel_scheme \<Rightarrow> bool"
  for run k0 where
  init: "kreach run k0 k0"
| step: "kreach run k0 k \<Longrightarrow> \<not> in_user k \<Longrightarrow> kstep run k = Inr k' \<Longrightarrow> kreach run k0 k'"
| call: "kreach run k0 k \<Longrightarrow> in_user k \<Longrightarrow> call_ok c k \<Longrightarrow> do_call run c k = Inr k' \<Longrightarrow> kreach run k0 k'"

locale kernel_handlers = interrupt_handlers run
  for run :: "'h \<Rightarrow> ('h, 'd) kernel_scheme \<Rightarrow> ('h, 'd) kernel_scheme res" +
  fixes J :: "'h option \<Rightarrow> semid set \<Rightarrow> 'd \<Rightarrow> bool"
  assumes J_mono: "J x A d \<Longrightarrow> A \<subseteq> B \<Longrightarrow> J x B d"
    and run_kinv: "run h k = Inr k' \<Longrightarrow> inHandler k \<Longrightarrow> level k = IntOff \<Longrightarrow> kinv J p k \<Longrightarrow>
      J (Some h) (dom (semaphores k)) (kernel.more k) \<Longrightarrow> kinv J p k' \<and> same_control k k'"
begin

lemma CheckIfDue_while_error:
  assumes "CheckIfDue_while run k = Some (Inl e)"
    and step: "\<And>k k'. I k \<Longrightarrow> CheckIfDue run False k = Inr (True, k') \<Longrightarrow> I k'"
    and "I k"
  shows "\<exists>k1. I k1 \<and> CheckIfDue run False k1 = Inl e"
  using assms(1,3)
proof (induction "length (filter (\<lambda>e. fst e \<le> now k) (pending k))" arbitrary: k rule: less_induct)
  case less
  show ?case
  proof (cases "CheckIfDue run False k")
    case (Inl e')
    then show ?thesis using less.prems by (auto simp: CheckIfDue_while.simps [of run k])
  next
    case (Inr r)
    then obtain k1 where r: "CheckIfDue run False k = Inr (True, k1)" "CheckIfDue_while run k1 = Some (Inl e)"
      using less.prems(1) by (cases r) (auto simp: CheckIfDue_while.simps [of run k] split: if_splits)
    obtain due p rest where c: "pending k = (due, p) # rest" "due \<le> now k"
      "handler_keeps (k\<lparr>pending := rest, inHandler := False\<rparr>) k1"
      by (rule CheckIfDue_fired [OF r(1)])
    then have "length (filter (\<lambda>e. fst e \<le> now k1) (pending k1)) < length (filter (\<lambda>e. fst e \<le> now k) (pending k))"
      by (simp add: handler_keeps_def)
    then show ?thesis using less.hyps [of k1] r step [OF less.prems(2) r(1)] by blast
  qed
qed

lemma fire_kinv:
  assumes "kinv J p k" "level k = IntOff" and j: "J (Some (handler x)) (dom (semaphores k)) (kernel.more k)"
  shows "case fire run x k of Inl e \<Rightarrow> handler_failure J run e | Inr k' \<Rightarrow> kinv J p k' \<and> same_control k k'"
proof -
  obtain k1 where k1: "finish_load k = Inr k1" "kinv J p k1" "same_control k k1" "level k1 = IntOff"
    using finish_load_kinv [OF assms(1)] assms(2) by auto
  let ?k = "k1\<lparr>inHandler := True, status := SystemMode\<rparr>"
  have eq: "k1 = k\<lparr>cpu := cpu k1\<rparr>" using finish_load_keeps [OF k1(1)] by simp
  have "semaphores k1 = semaphores k" "kernel.more k1 = kernel.more k" by (subst eq, simp)+
  then have j1: "J (Some (handler x)) (dom (semaphores ?k)) (kernel.more ?k)" using j by simp
  show ?thesis
  proof (cases "run (handler x) ?k")
    case (Inl e)
    moreover have "handler_failure J run e"
      unfolding handler_failure_def by (rule exI [of _ "handler x"], rule exI [of _ ?k], rule exI [of _ p]) (use Inl k1 j1 in simp)
    ultimately show ?thesis using k1 by (simp add: fire_def)
  next
    case (Inr k2)
    have "kinv J p ?k" using k1 by simp
    with Inr have "kinv J p k2" "same_control ?k k2" using run_kinv [OF Inr _ _ _ j1] k1(4) by simp_all
    moreover have "same_control k k2"
      using k1(3) \<open>same_control ?k k2\<close> by (rule_tac same_control_trans [OF k1(3)]) (simp add: same_control_def)
    ultimately show ?thesis using k1 Inr by (simp add: fire_def same_control_def)
  qed
qed

lemma CheckIfDue_kinv:
  assumes "kinv J p k" "level k = IntOff"
  shows "case CheckIfDue run adv k of Inl e \<Rightarrow> handler_failure J run e | Inr (b, k') \<Rightarrow> kinv J p k' \<and> same_control k k'"
proof (cases "pending k")
  case Nil
  then show ?thesis using assms by (simp add: CheckIfDue_def)
next
  case (Cons e rest)
  obtain due x where e: "e = (due, x)" by fastforce
  define k2 where "k2 = (if due > now k then advance_clock due (k\<lparr>pending := rest\<rparr>) else k\<lparr>pending := rest\<rparr>)"
  have k2: "kinv J p k2" "level k2 = IntOff" "same_control k k2"
    using assms kinv_pending [OF assms(1), of rest] Cons
    by (auto simp: k2_def advance_clock_def same_control_def)
  have j: "J (Some (handler x)) (dom (semaphores k2)) (kernel.more k2)"
    using kinvD(3) [OF assms(1)] Cons e by (auto simp: devs_ok_def k2_def advance_clock_def)
  have putback: "kinv J p (k\<lparr>pending := ksorted_insert x due rest\<rparr>)" "kinv J p (k2\<lparr>pending := ksorted_insert x due rest\<rparr>)"
  proof -
    show b: "kinv J p (k\<lparr>pending := ksorted_insert x due rest\<rparr>)"
      by (rule kinv_pending [OF assms(1)]) (auto simp: Cons e set_ksorted_insert)
    then show "kinv J p (k2\<lparr>pending := ksorted_insert x due rest\<rparr>)"
      by (auto simp: k2_def advance_clock_def kinv_def devs_ok_def)
  qed
  have rest: "pending k2 = rest" by (simp add: k2_def advance_clock_def)
  note f = fire_kinv [OF k2(1,2) j]
  show ?thesis
  proof (cases "fire run x k2")
    case (Inl er)
    then show ?thesis using f assms Cons e k2 rest putback
      by (auto simp: CheckIfDue_def Let_def k2_def [symmetric] same_control_def)
  next
    case (Inr k3)
    then have "kinv J p k3" "same_control k k3" using f k2(3) same_control_trans by auto
    then show ?thesis using Inr assms Cons e k2 rest putback
      by (auto simp: CheckIfDue_def Let_def k2_def [symmetric] same_control_def)
  qed
qed

lemma CheckIfDue_while_kinv:
  assumes "kinv J p k" "level k = IntOff"
  shows "case loop_result (CheckIfDue_while run k) of
      Inl e \<Rightarrow> handler_failure J run e | Inr k' \<Rightarrow> kinv J p k' \<and> same_control k k'"
proof -
  define I :: "('h, 'd) kernel_scheme \<Rightarrow> bool" where "I = (\<lambda>j. kinv J p j \<and> same_control k j \<and> level j = IntOff)"
  have "I k" using assms by (simp add: I_def)
  have step: "I j'" if "I j" "CheckIfDue run b j = Inr (b', j')" for j j' b b'
    using that CheckIfDue_kinv [of p j b] CheckIfDue_level [OF that(2)] same_control_trans
    by (auto simp: I_def)
  obtain r where r: "CheckIfDue_while run k = Some r" using CheckIfDue_while_ends by blast
  show ?thesis
  proof (cases r)
    case (Inl e)
    have "\<exists>k1. I k1 \<and> CheckIfDue run False k1 = Inl e"
      by (rule CheckIfDue_while_error [of k e I]) (use r Inl \<open>I k\<close> step in auto)
    then show ?thesis using CheckIfDue_kinv [of p _ False] r Inl by (fastforce simp: I_def)
  next
    case (Inr k')
    have "\<exists>k1. I k1 \<and> CheckIfDue run False k1 = Inr (False, k')"
      by (rule CheckIfDue_while_induct [of k k' I]) (use r Inr \<open>I k\<close> step in auto)
    then have "I k'" using step by blast
    then show ?thesis using r Inr by (simp add: I_def)
  qed
qed

lemma Idle_kinv:
  assumes "kinv J p k" "level k = IntOff" "\<not> inHandler k" "sorted (map fst (pending k))"
  shows "case Idle run k of Inl e \<Rightarrow> e = MachineHalted \<or> handler_failure J run e
     | Inr k' \<Rightarrow> kinv J p k' \<and> same_control k k' \<and> level k' = IntOff \<and> \<not> inHandler k' \<and> sorted (map fst (pending k'))"
proof -
  let ?k = "k\<lparr>status := IdleMode\<rparr>"
  have k: "kinv J p ?k" "level ?k = IntOff" using assms by simp_all
  note c = CheckIfDue_kinv [OF k, of True]
  show ?thesis
  proof (cases "CheckIfDue run True ?k")
    case (Inl e)
    then show ?thesis using c by (simp add: Idle_def)
  next
    case (Inr r)
    then obtain b k1 where r: "CheckIfDue run True ?k = Inr (b, k1)" by (cases r) auto
    have k1: "kinv J p k1" "same_control k k1" "level k1 = IntOff"
      using c r CheckIfDue_level [OF r] by (auto simp: same_control_def)
    show ?thesis
    proof (cases b)
      case False
      then show ?thesis using r by (simp add: Idle_def Halt_def)
    next
      case True
      have fired: "\<not> inHandler k1 \<and> sorted (map fst (pending k1))"
      proof -
        obtain due x rest k2 where p: "pending k = (due, x) # rest" and
          f: "fire run x k2 = Inr k1" "pending k2 = rest"
          using r True
          by (cases "pending k")
             (auto simp: CheckIfDue_def res_simps Let_def advance_clock_def split: if_splits)
        then show ?thesis using fire_keeps [OF f(1)] assms(4) by (simp add: handler_keeps_def)
      qed
      obtain w where w: "CheckIfDue_while run k1 = Some w" using CheckIfDue_while_ends by blast
      note cw = CheckIfDue_while_kinv [OF k1(1,3)]
      show ?thesis
      proof (cases w)
        case (Inl e)
        then show ?thesis using cw w r True by (simp add: Idle_def)
      next
        case (Inr k2)
        have "kinv J p k2" "same_control k1 k2" using cw w Inr by simp_all
        moreover have "level k2 = IntOff" "\<not> inHandler k2" "sorted (map fst (pending k2))"
          using CheckIfDue_while_result [of k1 k2] w Inr fired by simp_all
        moreover have "same_control k k2" using k1(2) \<open>same_control k1 k2\<close> by (rule same_control_trans)
        ultimately show ?thesis using r True w Inr by (simp add: Idle_def same_control_def)
      qed
    qed
  qed
qed

lemma OneTick_ok:
  assumes inv: "kinv J [] k" and th: "threads k (currentThread k) = Some th" "tstatus th = RUNNING"
    and ks: "\<forall>f \<in> set (kstack th). restore_frame f" and h: "\<not> inHandler k" "sorted (map fst (pending k))"
  shows "case OneTick run k of Inl e \<Rightarrow> handler_failure J run e | Inr k' \<Rightarrow> kernel_ok J k'"
proof -
  let ?k = "(tick k)\<lparr>level := IntOff\<rparr>"
  have t: "kinv J [] ?k" "level ?k = IntOff" "\<not> inHandler ?k" "sorted (map fst (pending ?k))" "same_control k ?k"
    using inv h by (auto simp: tick_def Let_def same_control_def)
  note cw = CheckIfDue_while_kinv [OF t(1,2)]
  obtain w where w: "CheckIfDue_while run ?k = Some w" using CheckIfDue_while_ends by blast
  show ?thesis
  proof (cases w)
    case (Inl e)
    then show ?thesis using cw w by (simp add: OneTick_def)
  next
    case (Inr k1)
    have k1: "kinv J [] k1" "same_control k k1" "\<not> inHandler k1" "sorted (map fst (pending k1))"
      using cw w Inr t CheckIfDue_while_result [of ?k k1] same_control_trans [OF t(5)] by simp_all
    obtain th1 where th1: "threads k1 (currentThread k1) = Some th1" "tstatus th1 = RUNNING" "kstack th1 = kstack th"
      using same_control_current [OF k1(2) th] by blast
    show ?thesis
    proof (cases "yieldOnReturn k1")
      case False
      have "linv (k1\<lparr>level := IntOn\<rparr>)"
        using k1 th1 ks by (cases "kstack th") (auto simp: linv_def restore_frame_def)
      then show ?thesis using False w Inr k1 by (simp add: OneTick_def Let_def kernel_ok_def)
    next
      case True
      let ?k2 = "k1\<lparr>level := IntOn, yieldOnReturn := False, status := SystemMode\<rparr>"
      let ?th = "th1\<lparr>kstack := RestoreStatus (status k) # kstack th1\<rparr>"
      let ?k3 = "put_thread (currentThread k1) ?th ?k2"
      have push: "push_frame (RestoreStatus (status k)) ?k2 = Inr ?k3"
        using push_frame_eq [of ?k2 th1] th1 by simp
      have nres: "\<not> resumable ([] @ kstack th1)" "\<not> resumable (RestoreStatus (status k) # kstack th1)"
        using ks th1(3) by (cases "kstack th1"; auto simp: resumable_def restore_frame_def)+
      have tbd: "threadToBeDestroyed k1 = None" by (rule calm_tbd [OF k1(1) th1(1,2) nres(1)])
      have "kinv J [] ?k3"
      proof -
        have v: "tview_of [] ?k3 = (tview_of [] k1)(currentThread k1 \<mapsto> (RUNNING, RestoreStatus (status k) # kstack th1))"
          using th1 by (simp add: tview_of_put_thread)
        have "tinv (tview_of [] ?k3) (currentThread k1) (map snd (readyList k1)) (semaphores k1) None"
          unfolding v
        proof (rule tinv_current)
          show "tinv (tview_of [] k1) (currentThread k1) (map snd (readyList k1)) (semaphores k1) None"
            using kinvD(1) [OF k1(1)] tbd by simp
          show "tview_of [] k1 (currentThread k1) = Some (RUNNING, kstack th1)" using th1 by (simp add: tview_of_def)
          show "calm (RestoreStatus (status k) # kstack th1) \<or> resumable (RestoreStatus (status k) # kstack th1)"
            using ks th1(3) by (auto simp: calm_def restore_frame_def)
          show "semaphores k1 s \<noteq> None" if "Waiting s l \<in> set (RestoreStatus (status k) # kstack th1)" for s l
            using that ks th1(3) by (auto simp: restore_frame_def)
        qed auto
        moreover have "cpu_inv ?k3" using cpu_inv_upd_thread(2) [of ?k2 "currentThread k1" th1] kinvD(2) [OF k1(1)] th1 by simp
        ultimately show ?thesis using tbd kinvD(3) [OF k1(1)] by (simp add: kinv_def)
      qed
      then have "\<exists>k'. Yield ?k3 = Inr k' \<and> kinv J [] k' \<and> level k' = IntOff \<and> inHandler k' = inHandler ?k3 \<and>
          pending k' = pending ?k3 \<and> (\<exists>th. threads k' (currentThread k') = Some th \<and>
            (resumable (kstack th) \<or> (\<exists>fs. kstack th = RestoreLevel IntOn # fs)))"
        by (rule Yield_kinv [where th = ?th]) (use th1 ks in \<open>auto simp: restore_frame_def\<close>)
      then obtain k' th' where y: "Yield ?k3 = Inr k'" "kinv J [] k'" "level k' = IntOff" "\<not> inHandler k'"
          "sorted (map fst (pending k'))" "threads k' (currentThread k') = Some th'"
          "resumable (kstack th') \<or> (\<exists>fs. kstack th' = RestoreLevel IntOn # fs)"
        using k1 by auto
      from y(7) have "linv k'"
      proof
        assume "resumable (kstack th')"
        then show ?thesis using linv_resumable y by blast
      next
        assume "\<exists>fs. kstack th' = RestoreLevel IntOn # fs"
        then show ?thesis using y by (auto simp: linv_def)
      qed
      then show ?thesis using True w Inr push y by (simp add: OneTick_def Let_def kernel_ok_def)
    qed
  qed
qed

lemma linv_restore:
  "threads k (currentThread k) = Some th \<Longrightarrow> \<forall>f \<in> set (kstack th). restore_frame f \<Longrightarrow> level k = IntOn \<Longrightarrow>
   \<not> inHandler k \<Longrightarrow> sorted (map fst (pending k)) \<Longrightarrow> linv k"
  by (cases "kstack th") (auto simp: linv_def restore_frame_def)

lemma SetLevel_On_ok:
  assumes inv: "kinv J [] k" and th: "threads k (currentThread k) = Some th" "tstatus th = RUNNING"
    and ks: "\<forall>f \<in> set (kstack th). restore_frame f" and h: "\<not> inHandler k" "sorted (map fst (pending k))"
  shows "case SetLevel run IntOn k of Inl e \<Rightarrow> handler_failure J run e | Inr k' \<Rightarrow> kernel_ok J k'"
proof (cases "level k")
  case IntOff
  have "case OneTick run (k\<lparr>level := IntOn\<rparr>) of Inl e \<Rightarrow> handler_failure J run e | Inr k' \<Rightarrow> kernel_ok J k'"
    by (rule OneTick_ok [where th = th]) (use assms in simp_all)
  then show ?thesis using IntOff h by (simp add: SetLevel_def Let_def)
next
  case IntOn
  have "linv (k\<lparr>level := IntOn\<rparr>)" by (rule linv_restore [where th = th]) (use assms in simp_all)
  then show ?thesis using IntOn h inv by (simp add: SetLevel_def Let_def kernel_ok_def)
qed

text \<open>One step of each kind of frame. The frame has been popped.\<close>

lemma Sleeping_ok:
  assumes inv: "kinv J [Sleeping] k" and l: "level k = IntOff" "\<not> inHandler k" "sorted (map fst (pending k))"
  shows "case Sleep_loop run k of Inl e \<Rightarrow> e = MachineHalted \<or> handler_failure J run e | Inr k' \<Rightarrow> kernel_ok J k'"
proof (cases "FindNextToRun k")
  case (Pair r k1)
  show ?thesis
  proof (cases r)
    case (Some t)
    obtain k' th where k': "Run t k1 = Inr k'" "kinv J [] k'" "level k' = IntOff" "inHandler k' = inHandler k"
      "pending k' = pending k" "threads k' (currentThread k') = Some th" "resumable (kstack th)"
      using Sleep_switch [OF inv _ l(1), of t k1] Pair Some by blast
    then have "linv k'" using l by (intro linv_resumable) auto
    then show ?thesis using Pair Some k' by (simp add: Sleep_loop_def kernel_ok_def)
  next
    case None
    then have k1: "k1 = k" using Pair by (cases "readyList k") (auto simp: FindNextToRun_def split: if_splits)
    note i = Idle_kinv [OF inv l]
    show ?thesis
    proof (cases "Idle run k")
      case (Inl e)
      then show ?thesis using i Pair None k1 by (simp add: Sleep_loop_def)
    next
      case (Inr k2)
      then have k2: "kinv J [Sleeping] k2" "level k2 = IntOff" "\<not> inHandler k2" "sorted (map fst (pending k2))"
        using i by simp_all
      obtain th where th: "threads k2 (currentThread k2) = Some th" using kinv_current [OF k2(1)] by blast
      let ?k = "put_thread (currentThread k2) (th\<lparr>kstack := Sleeping # kstack th\<rparr>) k2"
      have "kinv J [] ?k" using kinv_push [OF th, of J "[]" "[Sleeping]"] k2(1) by simp
      moreover have "linv ?k" using k2 by (simp add: linv_def)
      ultimately show ?thesis using Pair None k1 Inr push_frame_eq [OF th]
        by (simp add: Sleep_loop_def kernel_ok_def)
    qed
  qed
qed

lemma Waiting_ok:
  assumes inv: "kinv J [Waiting s IntOn] k" and th: "threads k (currentThread k) = Some th" "tstatus th = RUNNING" "kstack th = []"
    and l: "level k = IntOff" "\<not> inHandler k" "sorted (map fst (pending k))"
  shows "case P_loop run s IntOn k of Inl e \<Rightarrow> handler_failure J run e | Inr k' \<Rightarrow> kernel_ok J k'"
proof -
  let ?c = "currentThread k" and ?v = "tview_of [Waiting s IntOn] k"
  note d = kinvD [OF inv]
  have vc: "?v ?c = Some (RUNNING, [Waiting s IntOn])" using th by (simp add: tview_of_def)
  obtain q where q: "semaphores k s = Some q" using tinvD(8) [OF d(1) vc, of s IntOn] by auto
  show ?thesis
  proof (cases "svalue q = 0")
    case True
    let ?q = "q\<lparr>squeue := kappend ?c (squeue q)\<rparr>"
    let ?k = "put_thread ?c (th\<lparr>tstatus := BLOCKED, kstack := [Sleeping, Waiting s IntOn]\<rparr>) (put_sem s ?q k)"
    have "push_frame (Waiting s IntOn) (put_sem s ?q k) =
        Inr (put_thread ?c (th\<lparr>kstack := [Waiting s IntOn]\<rparr>) (put_sem s ?q k))"
      using push_frame_eq [of "put_sem s ?q k" th] th by simp
    then have eq: "P_loop run s IntOn k = Inr ?k"
      using q True l(1) by (simp add: P_loop_def get_sem_def Sleep_def upd_thread_def get_thread_def push_frame_def put_thread_def)
    have "tview_of [] ?k = ?v(?c \<mapsto> (BLOCKED, [Sleeping, Waiting s IntOn]))"
      by (auto simp: tview_of_def fun_eq_iff)
    then have "tinv (tview_of [] ?k) ?c (map snd (readyList k)) ((semaphores k)(s \<mapsto> ?q)) (threadToBeDestroyed k)"
      using tinv_P_block [OF d(1) q True vc] by (simp add: kappend_def)
    moreover have "cpu_inv ?k" by (rule cpu_inv_upd_thread(4)) (use d(2) th in simp_all)
    ultimately have "kinv J [] ?k" using d(3) q by (simp add: kinv_def)
    moreover have "linv ?k" using l by (simp add: linv_def)
    ultimately show ?thesis using eq by (simp add: kernel_ok_def)
  next
    case False
    let ?k = "put_sem s (q\<lparr>svalue := svalue q - 1\<rparr>) k"
    have "tview_of [] k = ?v(?c \<mapsto> (RUNNING, []))" using th by (auto simp: tview_of_def fun_eq_iff)
    then have "kinv J [] ?k"
      using tinv_P_take [OF d(1) q False vc] d(2,3) q by (simp add: kinv_def)
    then have "case SetLevel run IntOn ?k of Inl e \<Rightarrow> handler_failure J run e | Inr k' \<Rightarrow> kernel_ok J k'"
      by (rule SetLevel_On_ok [where th = th]) (use th l in simp_all)
    then show ?thesis using q False by (simp add: P_loop_def get_sem_def)
  qed
qed

lemma resume_ok:
  assumes inv: "kinv J [f] k" and th: "threads k (currentThread k) = Some th" "tstatus th = RUNNING"
    and f: "resumable (f # kstack th)" and l: "level k = IntOff" "\<not> inHandler k" "sorted (map fst (pending k))"
  shows "case run_frame run f k of Inl e \<Rightarrow> handler_failure J run e | Inr k' \<Rightarrow> kernel_ok J k'"
proof -
  obtain k' where k': "after_switch k = Inr k'" "kinv J [] k'" "currentThread k' = currentThread k"
    "threads k' (currentThread k') = Some th" "level k' = IntOff" "\<not> inHandler k'" "sorted (map fst (pending k'))"
    using after_switch_kinv [OF inv th f] l by auto
  from f consider "f = Startup" "kstack th = []" | "f = AfterSwitch" "returning (kstack th)"
    by (auto simp: resumable_def)
  then show ?thesis
  proof cases
    case 1
    have "case SetLevel run IntOn k' of Inl e \<Rightarrow> handler_failure J run e | Inr k' \<Rightarrow> kernel_ok J k'"
      by (rule SetLevel_On_ok [where th = th]) (use k' th 1 in simp_all)
    then show ?thesis using 1 k'(1) by (simp add: SetupThreadState_def Enable_def)
  next
    case 2
    have "linv k'" using k' 2 by (auto simp: linv_def returning_def)
    then show ?thesis using 2 k' by (simp add: kernel_ok_def)
  qed
qed

lemma kstep_ok:
  assumes "kernel_ok J k"
  shows "case kstep run k of Inl e \<Rightarrow> e = MachineHalted \<or> handler_failure J run e | Inr k' \<Rightarrow> kernel_ok J k'"
proof -
  have inv: "kinv J [] k" and lv: "linv k" using assms by (simp_all add: kernel_ok_def)
  obtain th where th: "threads k (currentThread k) = Some th" using kinv_current [OF inv] by blast
  have h: "\<not> inHandler k" "sorted (map fst (pending k))" using lv by (simp_all add: linv_def)
  have tok: "thread_ok (currentThread k) (map snd (readyList k)) (semaphores k) (threadToBeDestroyed k)
      (currentThread k) (tstatus th) (kstack th)"
    using tinvD(4) [OF kinvD(1) [OF inv], of "currentThread k"] th by (simp add: tview_of_def)
  show ?thesis
  proof (cases "kstack th")
    case Nil
    then show ?thesis using th assms by (simp add: kstep_def get_thread_def)
  next
    case (Cons f fs)
    let ?th = "th\<lparr>kstack := fs\<rparr>" and ?k = "put_thread (currentThread k) (th\<lparr>kstack := fs\<rparr>) k"
    have i: "kinv J [f] ?k" using kinv_pop [OF th Cons] inv by simp
    have step: "kstep run k = run_frame run f ?k" using th Cons by (simp add: kstep_def get_thread_def)
    have cur: "threads ?k (currentThread ?k) = Some ?th" by simp
    have lf: "case f of RestoreStatus _ \<Rightarrow> level k = IntOn | RestoreLevel _ \<Rightarrow> True | _ \<Rightarrow> level k = IntOff"
      using lv th Cons by (auto simp: linv_def split: frame.splits)
    from tok Cons consider "f = Sleeping" | "tstatus th = RUNNING" "resumable (f # fs)"
      | s where "tstatus th = RUNNING" "f = Waiting s IntOn" "fs = []"
      | "tstatus th = RUNNING" "restore_frame f" "\<forall>g \<in> set fs. restore_frame g"
      by (cases "tstatus th") (auto simp: thread_ok_def calm_def split: if_splits)
    then show ?thesis
    proof cases
      case 1
      then show ?thesis using Sleeping_ok [of ?k] i lf h step by simp
    next
      case 2
      then have "level ?k = IntOff" using lf by (auto simp: resumable_def)
      then show ?thesis using resume_ok [OF i cur] 2 h step by (auto split: sum.splits)
    next
      case 3
      then show ?thesis using Waiting_ok [of s ?k ?th] i lf h step by (auto split: sum.splits)
    next
      case 4
      have nr: "\<not> resumable ([f] @ kstack ?th)" using 4 by (auto simp: restore_frame_def)
      have tbd: "threadToBeDestroyed ?k = None" by (rule calm_tbd [OF i cur _ nr]) (use 4 in simp)
      have i0: "kinv J [] ?k"
        by (rule kinv_pop_running [OF i cur _ _ _ tbd]) (use 4 in \<open>auto simp: calm_def restore_frame_def\<close>)
      show ?thesis
      proof (cases "f = RestoreLevel IntOn")
        case True
        have "case SetLevel run IntOn ?k of Inl e \<Rightarrow> handler_failure J run e | Inr k' \<Rightarrow> kernel_ok J k'"
          by (rule SetLevel_On_ok [OF i0 cur]) (use 4 h in simp_all)
        then show ?thesis using True step by (auto split: sum.splits)
      next
        case False
        then obtain st where f: "f = RestoreStatus st" using 4 by (auto simp: restore_frame_def)
        have "linv (?k\<lparr>status := st\<rparr>)"
          by (rule linv_restore [where th = ?th]) (use 4 h f lf in simp_all)
        then show ?thesis using f step i0 by (simp add: kernel_ok_def)
      qed
    qed
  qed
qed

text \<open>The calls a thread makes.\<close>

lemma V_ok:
  assumes inv: "kinv J [] k" and th: "threads k (currentThread k) = Some th" "tstatus th = RUNNING" "kstack th = []"
    and l: "level k = IntOn" "\<not> inHandler k" "sorted (map fst (pending k))" and s: "semaphores k s \<noteq> None"
  shows "case V run s k of Inl e \<Rightarrow> handler_failure J run e | Inr k' \<Rightarrow> kernel_ok J k'"
proof -
  let ?k = "k\<lparr>level := IntOff\<rparr>"
  obtain q where q: "semaphores ?k s = Some q" using s by auto
  obtain k' where k': "V_atomic s ?k = Inr k'" "kinv J [] k'" "same_control ?k k'"
    and eq: "k' = ?k\<lparr>threads := threads k', readyList := readyList k', semaphores := semaphores k'\<rparr>"
    using V_atomic_kinv [OF _ q, of J "[]"] inv by auto
  have f: "currentThread k' = currentThread k" "inHandler k' = inHandler k" "pending k' = pending k"
    by (subst eq, simp)+
  obtain th' where th': "threads k' (currentThread k') = Some th'" "tstatus th' = RUNNING" "kstack th' = []"
    using same_control_current [OF k'(3), of th] th by auto
  have "case SetLevel run IntOn k' of Inl e \<Rightarrow> handler_failure J run e | Inr k' \<Rightarrow> kernel_ok J k'"
    by (rule SetLevel_On_ok [OF k'(2) th'(1,2)]) (use th' f l in simp_all)
  then show ?thesis using k'(1) l by (simp add: V_def Let_def)
qed

lemma Start_ok:
  assumes inv: "kinv J [] k" and th: "threads k (currentThread k) = Some th" "tstatus th = RUNNING" "kstack th = []"
    and l: "level k = IntOn" "\<not> inHandler k" "sorted (map fst (pending k))"
    and t: "threads k t = Some tht" "tstatus tht = JUST_CREATED"
  shows "case Start run t k of Inl e \<Rightarrow> handler_failure J run e | Inr k' \<Rightarrow> kernel_ok J k'"
proof -
  note d = kinvD [OF inv]
  have tc: "t \<noteq> currentThread k" using th t by auto
  let ?th = "tht\<lparr>stack := Some STACK_FENCEPOST, kstack := [Startup], tstatus := READY\<rparr>"
  let ?k = "(put_thread t ?th (k\<lparr>level := IntOff\<rparr>))\<lparr>readyList := kappend t (readyList k)\<rparr>"
  have eq: "Start run t k = SetLevel run IntOn ?k"
    using t l(1) by (simp add: Start_def StackAllocate_def upd_thread_def get_thread_def ReadyToRun_def put_thread_def Let_def)
  have vt: "tview_of [] k t = Some (JUST_CREATED, kstack tht)" using t tc by (simp add: tview_of_def)
  have v: "tview_of [] ?k = (tview_of [] k)(t \<mapsto> (READY, [Startup]))"
    using tc by (simp add: tview_of_put_thread)
  have "thread_cpu_ok (cpu k \<noteq> None) (dom (spaces k)) ?th"
    using cpu_inv_thread [OF d(2) t(1)] by (simp add: thread_cpu_ok_def)
  then have "cpu_inv (put_thread t ?th (k\<lparr>level := IntOff\<rparr>))" by (intro cpu_inv_put_thread) (use d(2) in simp_all)
  then have "kinv J [] ?k"
    using tinv_start [OF d(1) vt] d(3) v by (simp add: kinv_def kappend_def)
  then have "case SetLevel run IntOn ?k of Inl e \<Rightarrow> handler_failure J run e | Inr k' \<Rightarrow> kernel_ok J k'"
    by (rule SetLevel_On_ok [where th = th]) (use th tc l in simp_all)
  then show ?thesis using eq by simp
qed

lemma Finish_ok:
  assumes inv: "kinv J [] k" and th: "threads k (currentThread k) = Some th" "tstatus th = RUNNING" "kstack th = []"
    and l: "\<not> inHandler k" "sorted (map fst (pending k))"
  shows "\<exists>k'. Finish k = Inr k' \<and> kernel_ok J k'"
proof -
  note d = kinvD [OF inv]
  have tbd: "threadToBeDestroyed k = None" by (rule calm_tbd [OF inv th(1,2)]) (simp add: th)
  let ?c = "currentThread k" and ?th = "th\<lparr>tstatus := BLOCKED, kstack := [Sleeping]\<rparr>"
  let ?k = "(put_thread (currentThread k) ?th k)\<lparr>level := IntOff, threadToBeDestroyed := Some ?c\<rparr>"
  have "Finish k = Inr ?k"
    using tbd th by (simp add: Finish_def Let_def Sleep_def upd_thread_def get_thread_def push_frame_def put_thread_def)
  moreover have "kinv J [] ?k"
  proof -
    have vc: "tview_of [] k ?c = Some (RUNNING, [])" using th by (simp add: tview_of_def)
    have "cpu_inv (put_thread ?c ?th k)" using cpu_inv_upd_thread(4) [OF d(2) th(1)] .
    then show ?thesis using tinv_finish [OF d(1) [unfolded tbd] vc] d(3)
      by (simp add: kinv_def tview_of_put_thread)
  qed
  moreover have "linv ?k" using l by (simp add: linv_def)
  ultimately show ?thesis by (simp add: kernel_ok_def)
qed

lemma P_ok:
  assumes inv: "kinv J [] k" and th: "threads k (currentThread k) = Some th" "tstatus th = RUNNING" "kstack th = []"
    and l: "level k = IntOn" "\<not> inHandler k" "sorted (map fst (pending k))" and s: "semaphores k s \<noteq> None"
  shows "\<exists>k'. P s k = Inr k' \<and> kernel_ok J k'"
proof -
  note d = kinvD [OF inv]
  have tbd: "threadToBeDestroyed k = None" by (rule calm_tbd [OF inv th(1,2)]) (simp add: th)
  let ?c = "currentThread k" and ?k = "put_thread (currentThread k) (th\<lparr>kstack := [Waiting s IntOn]\<rparr>) (k\<lparr>level := IntOff\<rparr>)"
  have "P s k = Inr ?k"
    using th l(1) push_frame_eq [of "k\<lparr>level := IntOff\<rparr>" th] by (simp add: P_def)
  moreover have "kinv J [] ?k"
  proof -
    have vc: "tview_of [] k ?c = Some (RUNNING, [])" using th by (simp add: tview_of_def)
    have "tinv ((tview_of [] k)(?c \<mapsto> (RUNNING, [Waiting s IntOn]))) ?c (map snd (readyList k)) (semaphores k) None"
      by (rule tinv_current [OF d(1) [unfolded tbd] vc]) (use s in auto)
    moreover have "cpu_inv ?k" by (rule cpu_inv_upd_thread(2)) (use d(2) th in simp_all)
    ultimately show ?thesis using d(3) th tbd by (simp add: kinv_def tview_of_put_thread)
  qed
  moreover have "linv ?k" using l by (simp add: linv_def)
  ultimately show ?thesis by (simp add: kernel_ok_def)
qed

lemma Thread_new_ok:
  assumes inv: "kinv J [] k" and th: "threads k (currentThread k) = Some th"
    and lv: "linv k" and t: "threads k t = None" and g: "length g = NumTotalRegs"
  shows "\<exists>k'. Thread_new g t n k = Inr k' \<and> kernel_ok J k'"
proof -
  note d = kinvD [OF inv]
  let ?th = "\<lparr>tname = n, tstatus = JUST_CREATED, stack = None, kstack = [],
          userRegisters = g[LoadReg := 0, LoadValueReg := 0], space = space th\<rparr>"
  have tc: "t \<noteq> currentThread k" using th t by auto
  have "thread_cpu_ok (cpu k \<noteq> None) (dom (spaces k)) ?th"
    using cpu_inv_thread [OF d(2) th] g by (simp add: thread_cpu_ok_def regs_ok_def)
  then have "cpu_inv (put_thread t ?th k)" by (rule cpu_inv_put_thread [OF d(2)])
  moreover have "tview_of [] k t = None" using t by (simp add: tview_of_def)
  ultimately have "kinv J [] (put_thread t ?th k)"
    using tinv_new [OF d(1)] d(3) tc by (simp add: kinv_def tview_of_put_thread)
  moreover have "linv (put_thread t ?th k)" using lv tc by (simp add: linv_frame)
  ultimately show ?thesis using th by (simp add: Thread_new_def get_thread_def kernel_ok_def)
qed

lemma Semaphore_new_ok:
  assumes "kinv J [] k" "linv k" "semaphores k s = None" "0 \<le> v"
  shows "kernel_ok J (Semaphore_new s n v k)"
proof -
  have "devs_ok J (Semaphore_new s n v k)"
    using kinvD(3) [OF assms(1)] by (auto simp: devs_ok_def Semaphore_new_def intro: J_mono)
  then have "kinv J [] (Semaphore_new s n v k)"
    using tinv_new_sem [OF kinvD(1) [OF assms(1)] assms(3,4)] kinvD(2) [OF assms(1)]
    by (simp add: kinv_def Semaphore_new_def)
  moreover have "linv (Semaphore_new s n v k)"
    using assms(2) by (simp add: linv_frame Semaphore_new_def)
  ultimately show ?thesis by (simp add: kernel_ok_def)
qed

lemma do_call_ok:
  assumes ok: "kernel_ok J k" and u: "in_user k" and c: "call_ok c k"
  shows "case do_call run c k of Inl e \<Rightarrow> handler_failure J run e | Inr k' \<Rightarrow> kernel_ok J k'"
proof -
  have inv: "kinv J [] k" and lv: "linv k" using ok by (simp_all add: kernel_ok_def)
  obtain th where th: "threads k (currentThread k) = Some th" "kstack th = []"
    using u by (auto simp: in_user_def split: option.splits)
  have r: "tstatus th = RUNNING"
    using tinvD(4) [OF kinvD(1) [OF inv], of "currentThread k" "tstatus th" "[]"] th
    by (cases "tstatus th") (auto simp: tview_of_def thread_ok_def)
  have l: "level k = IntOn" "\<not> inHandler k" "sorted (map fst (pending k))"
    using lv th by (simp_all add: linv_def)
  have ks: "\<forall>f \<in> set (kstack th). restore_frame f" using th by simp
  note pre = inv th(1) r th(2) l
  show ?thesis
  proof (cases c)
    case Call_Yield
    obtain k' th' where y: "Yield k = Inr k'" "kinv J [] k'" "level k' = IntOff" "\<not> inHandler k'"
        "sorted (map fst (pending k'))" "threads k' (currentThread k') = Some th'"
        "resumable (kstack th') \<or> (\<exists>fs. kstack th' = RestoreLevel IntOn # fs)"
      using Yield_kinv [OF inv th(1) r ks l(1)] l by auto
    have "linv k'" using y(7) linv_resumable [OF y(6)] y(3-6) by (auto simp: linv_def)
    then show ?thesis using Call_Yield y by (simp add: kernel_ok_def)
  next
    case Call_Finish
    then show ?thesis using Finish_ok [OF inv th(1) r th(2) l(2,3)] by auto
  next
    case (Call_P s)
    then show ?thesis using P_ok [OF pre, of s] c by auto
  next
    case (Call_V s)
    then show ?thesis using V_ok [OF pre, of s] c by simp
  next
    case (Call_New t n g)
    then show ?thesis using Thread_new_ok [OF inv th(1) lv, of t g n] c by auto
  next
    case (Call_Start t)
    then obtain tht where "threads k t = Some tht" "tstatus tht = JUST_CREATED"
      using c by (auto split: option.splits)
    then show ?thesis using Start_ok [OF pre, of t] Call_Start by simp
  next
    case (Call_Semaphore s n v)
    then show ?thesis using Semaphore_new_ok [OF inv lv, of s v n] c by simp
  next
    case Call_Tick
    then show ?thesis using OneTick_ok [OF inv th(1) r ks l(2,3)] by simp
  qed
qed

lemma kreach_ok:
  assumes "kreach run k0 k" "kernel_ok J k0"
  shows "kernel_ok J k"
  using assms
proof (induction rule: kreach.induct)
  case (step k k')
  then show ?case using kstep_ok [of k] by simp
next
  case (call k c k')
  then show ?case using do_call_ok [of k c] by simp
qed

end

end
