(* ===== verification/Nachos_Disk.thy ===== *)
theory Nachos_Disk
  imports Nachos_Machine
begin

text \<open>
  The simulated disk of \<^verbatim>\<open>code/machine/disk.cc\<close> as a device on its own: its UNIX file (a list of
  bytes, accessed as \<^verbatim>\<open>sysdep.cc\<close> does), the position of its head, and the computation of the
  latency of a request. The requests themselves, which schedule an interrupt, are in theory
  \<open>Nachos_Devices\<close>.

  C integers: \<^verbatim>\<open>stats->totalTicks\<close> is a \<^verbatim>\<open>long long\<close> and is stored into variables of type \<^verbatim>\<open>int\<close>; the
  conversion is \<open>to_int\<close>.
\<close>

section \<open>The UNIX file behind the disk\<close>

text \<open>
  Lseek followed by Read or WriteFile. Read aborts when the file is too short; writing past the end
  fills the gap with zeros.
\<close>

definition file_read :: "nat \<Rightarrow> nat \<Rightarrow> 8 word list \<Rightarrow> 8 word list res" where
  "file_read offset nBytes file =
     ASSERT (length (take nBytes (drop offset file)) = nBytes) (Inr (take nBytes (drop offset file)))"

definition file_write :: "nat \<Rightarrow> 8 word list \<Rightarrow> 8 word list \<Rightarrow> 8 word list" where
  "file_write offset buffer file =
     take offset (file @ replicate (offset - length file) 0) @ buffer @ drop (offset + length buffer) file"

lemma length_file_write [simp]:
  "length (file_write offset buffer file) = max (length file) (offset + length buffer)"
  by (auto simp: file_write_def max_def min_def)

lemma file_read_eq: "offset + n \<le> length file \<Longrightarrow> file_read offset n file = Inr (take n (drop offset file))"
  by (simp add: file_read_def)

lemma file_read_write_same: "take (length b) (drop off (file_write off b file)) = b"
  by (simp add: file_write_def)

lemma file_read_write_other:
  assumes "off2 + n \<le> off \<or> off + length b \<le> off2" "off + length b \<le> length file" "off2 + n \<le> length file"
  shows "take n (drop off2 (file_write off b file)) = take n (drop off2 file)"
proof (rule nth_equalityI)
  show "length (take n (drop off2 (file_write off b file))) = length (take n (drop off2 file))"
    using assms by simp
  fix i
  assume "i < length (take n (drop off2 (file_write off b file)))"
  then have "i < n" "off2 + i < length file" using assms by simp_all
  then show "take n (drop off2 (file_write off b file)) ! i = take n (drop off2 file) ! i"
    using assms by (auto simp: file_write_def nth_append)
qed

section \<open>The disk\<close>

abbreviation (input) SectorsPerTrack :: int where "SectorsPerTrack \<equiv> 32"
abbreviation (input) NumTracks :: int where "NumTracks \<equiv> 32"
abbreviation (input) NumSectors :: int where "NumSectors \<equiv> 1024"
abbreviation (input) RotationTime :: int where "RotationTime \<equiv> 500"
abbreviation (input) SeekTime :: int where "SeekTime \<equiv> 500"
abbreviation (input) MagicSize :: nat where "MagicSize \<equiv> 4"
abbreviation (input) DiskSize :: nat where "DiskSize \<equiv> 131076"

definition MagicNumber :: "32 word" where "MagicNumber = 0x456789ab"

definition to_int :: "int \<Rightarrow> int" where
  "to_int x = sint (word_of_int x :: 32 word)"

record Disk =
  diskFile :: "8 word list"
  active :: bool
  lastSector :: int
  bufferInit :: int

text \<open>\<open>file\<close> is the contents of the UNIX file when it exists.\<close>

definition Disk_new :: "bool \<Rightarrow> 8 word list option \<Rightarrow> Disk res" where
  "Disk_new big file =
     bindR (case file of
         Some bytes \<Rightarrow> bindR (file_read 0 MagicSize bytes) (\<lambda>bs.
           ASSERT ((word_of_bytes (host_order big bs) :: 32 word) = MagicNumber) (Inr bytes))
       | None \<Rightarrow> Inr (file_write (DiskSize - 4) (bytes_of_word 4 (0 :: 32 word))
                        (file_write 0 (host_order big (bytes_of_word MagicSize MagicNumber)) [])))
       (\<lambda>bytes. Inr \<lparr>diskFile = bytes, active = False, lastSector = 0, bufferInit = 0\<rparr>)"

text \<open>The seek time and, through the pointer argument, the time to the next sector boundary.\<close>

definition TimeToSeek :: "int \<Rightarrow> Disk \<Rightarrow> int \<Rightarrow> int \<times> int" where
  "TimeToSeek totalTicks d newSector =
     (let newTrack = newSector sdiv SectorsPerTrack;
          oldTrack = lastSector d sdiv SectorsPerTrack;
          seek = \<bar>newTrack - oldTrack\<bar> * SeekTime;
          over = (totalTicks + seek) smod RotationTime
      in (seek, if over > 0 then RotationTime - over else 0))"

definition ModuloDiff :: "int \<Rightarrow> int \<Rightarrow> int" where
  "ModuloDiff dest origin =
     (let toOffset = dest smod SectorsPerTrack; fromOffset = origin smod SectorsPerTrack
      in ((toOffset - fromOffset) + SectorsPerTrack) smod SectorsPerTrack)"

definition ComputeLatency :: "int \<Rightarrow> Disk \<Rightarrow> int \<Rightarrow> bool \<Rightarrow> int" where
  "ComputeLatency totalTicks d newSector writing =
     (let (seek, rotation) = TimeToSeek totalTicks d newSector;
          timeAfter = to_int (totalTicks + seek + rotation)
      in if \<not> writing \<and> seek = 0 \<and>
            to_int (timeAfter - bufferInit d) sdiv RotationTime > ModuloDiff newSector (bufferInit d sdiv RotationTime)
         then RotationTime
         else seek + (rotation + ModuloDiff newSector (timeAfter sdiv RotationTime) * RotationTime) + RotationTime)"

definition UpdateLast :: "int \<Rightarrow> int \<Rightarrow> Disk \<Rightarrow> Disk" where
  "UpdateLast totalTicks newSector d =
     (let (seek, rotate) = TimeToSeek totalTicks d newSector;
          d1 = (if seek \<noteq> 0 then d\<lparr>bufferInit := to_int (totalTicks + seek + rotate)\<rparr> else d)
      in d1\<lparr>lastSector := newSector\<rparr>)"

text \<open>The transfer of one sector, done at once on the UNIX file.\<close>

definition sector_offset :: "int \<Rightarrow> nat" where
  "sector_offset sectorNumber = nat (int SectorSize * sectorNumber + int MagicSize)"

definition transfer_in :: "int \<Rightarrow> Disk \<Rightarrow> 8 word list res" where
  "transfer_in sectorNumber d = file_read (sector_offset sectorNumber) SectorSize (diskFile d)"

definition transfer_out :: "int \<Rightarrow> 8 word list \<Rightarrow> Disk \<Rightarrow> Disk" where
  "transfer_out sectorNumber data d = d\<lparr>diskFile := file_write (sector_offset sectorNumber) data (diskFile d)\<rparr>"

section \<open>The latency of a request\<close>

definition disk_inv :: "Disk \<Rightarrow> bool" where
  "disk_inv d \<longleftrightarrow> 0 \<le> lastSector d \<and> lastSector d < NumSectors \<and> DiskSize \<le> length (diskFile d)"

lemma smod_bounds: "0 < b \<Longrightarrow> - b < a smod b \<and> a smod b < (b :: int)"
proof -
  assume b: "0 < b"
  have m: "0 \<le> x mod b \<and> x mod b < b" for x using b by simp
  have "a smod b = (if 0 \<le> a then a mod b else - (- a mod b))"
    using b by (auto simp: signed_modulo_int_def sgn_if abs_if)
  then show ?thesis using b m [of a] m [of "- a"] 
    by (cases "0 \<le> a") (simp_all only: if_True if_False simp_thms, linarith+)
qed

lemma ModuloDiff_bounds:
  assumes "0 \<le> dest"
  shows "0 \<le> ModuloDiff dest origin" "ModuloDiff dest origin < SectorsPerTrack"
proof -
  have "0 \<le> dest smod 32" "dest smod 32 < 32" using assms by simp_all
  moreover have "- 32 < origin smod 32" "origin smod 32 < 32" using smod_bounds [of 32 origin] by simp_all
  ultimately have "0 \<le> dest smod 32 - origin smod 32 + 32" by linarith
  then show "0 \<le> ModuloDiff dest origin" "ModuloDiff dest origin < SectorsPerTrack"
    by (simp_all add: ModuloDiff_def Let_def)
qed

lemma ModuloDiff_nonneg: "0 \<le> dest \<Longrightarrow> 0 \<le> origin \<Longrightarrow> ModuloDiff dest origin = (dest - origin) mod SectorsPerTrack"
proof -
  assume a: "0 \<le> dest" "0 \<le> origin"
  have "0 \<le> dest mod 32 - origin mod 32 + 32"
    using pos_mod_bound [of 32 origin] pos_mod_sign [of 32 dest] by linarith
  then show ?thesis using a by (simp add: ModuloDiff_def Let_def mod_diff_eq)
qed

lemma round_up: "b * q + r = a \<Longrightarrow> a + (b - r) = b * (q + (1 :: int))"
  by (simp add: algebra_simps)

lemma TimeToSeek_bounds:
  assumes d: "0 \<le> lastSector d" "lastSector d < NumSectors"
    and s: "0 \<le> newSector" "newSector < NumSectors" and e: "TimeToSeek totalTicks d newSector = (seek, rotation)"
  shows "0 \<le> seek" "seek \<le> 15500" "0 \<le> rotation" "rotation < RotationTime"
    "0 \<le> totalTicks \<Longrightarrow> RotationTime dvd totalTicks + seek + rotation"
proof -
  have seek: "seek = \<bar>newSector div 32 - lastSector d div 32\<bar> * 500"
    using e d s by (simp add: TimeToSeek_def Let_def)
  have tracks: "0 \<le> newSector div 32" "newSector div 32 \<le> 31" "0 \<le> lastSector d div 32" "lastSector d div 32 \<le> 31"
    using d s by linarith+
  show s0: "0 \<le> seek" unfolding seek by simp
  show "seek \<le> 15500" unfolding seek using tracks by (simp add: abs_le_iff)
  define over where "over = (totalTicks + seek) smod 500"
  have over: "over < 500" using smod_bounds [of 500] by (simp add: over_def)
  have rot: "rotation = (if over > 0 then 500 - over else 0)"
    using e [unfolded TimeToSeek_def Let_def prod.inject] unfolding over_def by (elim conjE, hypsubst) (rule refl)
  show "0 \<le> rotation" "rotation < RotationTime" unfolding rot using over by simp_all
  assume t: "0 \<le> totalTicks"
  have om: "over = (totalTicks + seek) mod 500" using t s0 by (simp add: over_def)
  show "RotationTime dvd totalTicks + seek + rotation"
  proof (cases "over > 0")
    case True
    have "totalTicks + seek + rotation = 500 * ((totalTicks + seek) div 500 + 1)"
      unfolding rot if_P [OF True] by (rule round_up) (simp add: om)
    then show ?thesis by simp
  next
    case False
    then have "(totalTicks + seek) mod 500 = 0" using om pos_mod_sign [of 500 "totalTicks + seek"] by linarith
    then show ?thesis using False by (simp add: rot dvd_eq_mod_eq_0)
  qed
qed

text \<open>The latency as the sum the comment describes, or the transfer from the track buffer.\<close>

lemma ComputeLatency_cases:
  assumes e: "TimeToSeek totalTicks d newSector = (seek, rotation)"
  obtains "ComputeLatency totalTicks d newSector writing = RotationTime" "\<not> writing" "seek = 0"
  | "ComputeLatency totalTicks d newSector writing =
       seek + rotation + ModuloDiff newSector (to_int (totalTicks + seek + rotation) sdiv RotationTime) * RotationTime + RotationTime"
  using e by (cases "\<not> writing \<and> seek = 0 \<and>
      to_int (to_int (totalTicks + seek + rotation) - bufferInit d) sdiv RotationTime > ModuloDiff newSector (bufferInit d sdiv RotationTime)")
    (auto simp: ComputeLatency_def Let_def)

lemma to_int_id: "- (2 ^ 31) \<le> x \<Longrightarrow> x < 2 ^ 31 \<Longrightarrow> to_int x = x"
  by (simp add: to_int_def sint_sbintrunc' signed_take_bit_int_eq_self)

lemma latency_range:
  assumes d: "0 \<le> lastSector d" "lastSector d < NumSectors"
    and s: "0 \<le> newSector" "newSector < NumSectors"
  shows "RotationTime \<le> ComputeLatency totalTicks d newSector writing"
    "ComputeLatency totalTicks d newSector writing < 32000"
proof -
  obtain seek rotation where e: "TimeToSeek totalTicks d newSector = (seek, rotation)" by fastforce
  note b = TimeToSeek_bounds [OF d s e]
  note m = ModuloDiff_bounds [OF s(1), of "to_int (totalTicks + seek + rotation) sdiv RotationTime"]
  show "RotationTime \<le> ComputeLatency totalTicks d newSector writing"
    "ComputeLatency totalTicks d newSector writing < 32000"
    by (rule ComputeLatency_cases [OF e, of writing]; use b m in linarith)+
qed

text \<open>
  A read that the track buffer serves: on the track of the head, of a sector that has passed under
  the head since the head came to the track.
\<close>

definition buffered :: "int \<Rightarrow> Disk \<Rightarrow> int \<Rightarrow> bool" where
  "buffered totalTicks d newSector =
     (let (seek, rotation) = TimeToSeek totalTicks d newSector in
      seek = 0 \<and> ModuloDiff newSector (bufferInit d sdiv RotationTime)
        < to_int (to_int (totalTicks + seek + rotation) - bufferInit d) sdiv RotationTime)"

lemma ComputeLatency_eq:
  assumes "TimeToSeek totalTicks d newSector = (seek, rotation)"
  shows "ComputeLatency totalTicks d newSector writing =
     (if \<not> writing \<and> buffered totalTicks d newSector then RotationTime
      else seek + rotation + ModuloDiff newSector (to_int (totalTicks + seek + rotation) sdiv RotationTime) * RotationTime + RotationTime)"
  unfolding ComputeLatency_def buffered_def Let_def assms prod.case by auto

text \<open>
  C37. While the clock is below \<open>2 ^ 30\<close> ticks: the time at which the transfer of a request starts is a
  multiple of the sector time, and the sector that passes under the head at that moment, counting
  sectors round the track since time 0, is the sector requested, for every write and for every read
  that the track buffer does not serve, on the track of the head or on another; the seek is over by
  then. A read that the track buffer serves takes the transfer time of one sector.
\<close>

theorem head_position:
  assumes "0 \<le> totalTicks" "0 \<le> lastSector d" "lastSector d < NumSectors" "0 \<le> newSector" "newSector < NumSectors"
    and "TimeToSeek totalTicks d newSector = (seek, rotation)" "totalTicks < 2 ^ 30"
  shows "if \<not> writing \<and> buffered totalTicks d newSector then ComputeLatency totalTicks d newSector writing = RotationTime
     else let start = totalTicks + ComputeLatency totalTicks d newSector writing - RotationTime in
       RotationTime dvd start \<and> (start div RotationTime) mod SectorsPerTrack = newSector mod SectorsPerTrack \<and>
       totalTicks + seek \<le> start"
proof (cases "\<not> writing \<and> buffered totalTicks d newSector")
  case True
  then show ?thesis using ComputeLatency_eq [OF assms(6), of writing] by simp
next
  case False
  note b = TimeToSeek_bounds [OF assms(2-6)]
  let ?after = "totalTicks + seek + rotation"
  have after: "to_int ?after = ?after" using b assms(1,7) by (intro to_int_id) simp_all
  define k where "k = ?after div 500"
  have k: "?after = 500 * k" "0 \<le> k" using b assms(1) by (simp_all add: k_def pos_imp_zdiv_nonneg_iff)
  define j where "j = (newSector - k) mod 32"
  have j: "0 \<le> j" by (simp add: j_def)
  have "?after sdiv 500 = k" using k by simp
  then have "ModuloDiff newSector (to_int ?after sdiv 500) = j"
    using ModuloDiff_nonneg [OF assms(4) k(2)] by (simp add: after j_def)
  then have lat: "ComputeLatency totalTicks d newSector writing = seek + rotation + j * 500 + 500"
    unfolding ComputeLatency_eq [OF assms(6)] if_not_P [OF False] by simp
  have start: "totalTicks + ComputeLatency totalTicks d newSector writing - 500 = 500 * (k + j)"
    unfolding lat using k(1) by (simp add: algebra_simps)
  have "(k + j) mod 32 = newSector mod 32" by (simp add: j_def mod_add_right_eq)
  then show ?thesis unfolding if_not_P [OF False] using k j b unfolding Let_def start by simp
qed

lemma head_position_witness:
  "let d = \<lparr>diskFile = [], active = False, lastSector = 5, bufferInit = 1000\<rparr>;
       start = 1234 + ComputeLatency 1234 d 3 False - 500 in
   \<not> buffered 1234 d 3 \<and> 500 dvd start \<and> (start div 500) mod 32 = 3 \<and> 1234 \<le> start"
proof -
  let ?d = "\<lparr>diskFile = [], active = False, lastSector = 5, bufferInit = 1000\<rparr>"
  have nb: "\<not> buffered 1234 ?d 3" by (simp add: buffered_def TimeToSeek_def ModuloDiff_def to_int_id)
  then show ?thesis using head_position [of 1234 ?d 3 0 266 False] by (simp add: TimeToSeek_def)
qed

text \<open>
  C38. The latency of a request on a valid sector is at least the transfer time of a sector and below 32000
  ticks, whatever the position of the head and the clock, even after the C integers of the
  computation have wrapped: Schedule's assertion that the delay is positive holds for every request.
\<close>

theorem ComputeLatency_bounds:
  assumes "disk_inv d" "0 \<le> newSector" "newSector < NumSectors"
  shows "RotationTime \<le> ComputeLatency totalTicks d newSector writing \<and>
     ComputeLatency totalTicks d newSector writing < 32000 \<and> disk_inv (UpdateLast totalTicks newSector d)"
  using latency_range [of d newSector totalTicks writing] assms
  by (auto simp: disk_inv_def UpdateLast_def Let_def split: prod.splits)

lemma ComputeLatency_bounds_witness:
  "let d = \<lparr>diskFile = replicate DiskSize 0, active = False, lastSector = 1023, bufferInit = 0\<rparr> in
   500 \<le> ComputeLatency (2 ^ 31 + 7) d 0 False \<and> ComputeLatency (2 ^ 31 + 7) d 0 False < 32000 \<and>
   disk_inv (UpdateLast (2 ^ 31 + 7) 0 d)"
  unfolding Let_def
  by (rule ComputeLatency_bounds) (simp_all add: disk_inv_def)

section \<open>The sectors of the disk\<close>

lemma sector_offset_bounds:
  assumes "0 \<le> s" "s < NumSectors"
  shows "sector_offset s + SectorSize \<le> DiskSize" "MagicSize \<le> sector_offset s"
  using assms by (simp_all add: sector_offset_def)

lemma sector_offset_apart:
  assumes "0 \<le> s" "0 \<le> s'" "s \<noteq> s'"
  shows "sector_offset s + SectorSize \<le> sector_offset s' \<or> sector_offset s' + SectorSize \<le> sector_offset s"
  using assms by (auto simp: sector_offset_def)

lemma transfer_in_eq:
  "disk_inv d \<Longrightarrow> 0 \<le> s \<Longrightarrow> s < NumSectors \<Longrightarrow>
   transfer_in s d = Inr (take SectorSize (drop (sector_offset s) (diskFile d)))"
  unfolding transfer_in_def by (rule file_read_eq) (use sector_offset_bounds [of s] in \<open>auto simp: disk_inv_def\<close>)

lemma transfer_out_inv: "disk_inv d \<Longrightarrow> disk_inv (transfer_out s data d)"
  by (auto simp: disk_inv_def transfer_out_def le_max_iff_disj)

lemma disk_read_write:
  assumes "disk_inv d" "0 \<le> s" "s < NumSectors" "length data = SectorSize" "0 \<le> s'" "s' < NumSectors"
  shows "transfer_in s' (transfer_out s data d) = (if s' = s then Inr data else transfer_in s' d)"
proof -
  let ?d = "transfer_out s data d"
  have inv: "disk_inv ?d" using assms(1) by (rule transfer_out_inv)
  have len: "DiskSize \<le> length (diskFile d)" using assms(1) by (simp add: disk_inv_def)
  have eq: "diskFile ?d = file_write (sector_offset s) data (diskFile d)" by (simp add: transfer_out_def)
  note o = sector_offset_bounds [OF assms(2,3)] sector_offset_bounds [OF assms(5,6)]
  show ?thesis
  proof (cases "s' = s")
    case True
    then show ?thesis using transfer_in_eq [OF inv assms(2,3)] assms(4)
        file_read_write_same [of data "sector_offset s" "diskFile d"] by (simp add: transfer_out_def)
  next
    case False
    then have "take SectorSize (drop (sector_offset s') (diskFile ?d)) = take SectorSize (drop (sector_offset s') (diskFile d))"
      unfolding eq
      by (intro file_read_write_other) (use sector_offset_apart [OF assms(2,5)] o len assms(4) in auto)
    then show ?thesis using False transfer_in_eq [OF inv assms(5,6)] transfer_in_eq [OF assms(1,5,6)] by simp
  qed
qed

text \<open>
  The disk stores sectors: what is written to a valid sector is read back from it, every other
  sector keeps its contents, and the magic number stays, so the disk that a run writes can be
  opened by the next run.
\<close>

lemma disk_sectors:
  assumes "disk_inv d" "0 \<le> s" "s < NumSectors" "length data = SectorSize" "0 \<le> s'" "s' < NumSectors"
  shows "transfer_in s' (transfer_out s data d) = (if s' = s then Inr data else transfer_in s' d) \<and>
     disk_inv (transfer_out s data d) \<and>
     file_read 0 MagicSize (diskFile (transfer_out s data d)) = file_read 0 MagicSize (diskFile d)"
proof -
  have len: "DiskSize \<le> length (diskFile d)" using assms(1) by (simp add: disk_inv_def)
  have eq: "diskFile (transfer_out s data d) = file_write (sector_offset s) data (diskFile d)" by (simp add: transfer_out_def)
  have "take MagicSize (drop 0 (diskFile (transfer_out s data d))) = take MagicSize (drop 0 (diskFile d))"
    unfolding eq by (rule file_read_write_other) (use sector_offset_bounds [OF assms(2,3)] len assms(4) in auto)
  then show ?thesis using disk_read_write [OF assms] transfer_out_inv [OF assms(1)] by (simp add: file_read_def)
qed

lemma Disk_new_inv:
  "\<exists>d. Disk_new big None = Inr d \<and> disk_inv d \<and> \<not> active d \<and>
     Disk_new big (Some (diskFile d)) = Inr d"
proof -
  let ?m = "host_order big (bytes_of_word MagicSize MagicNumber)" and ?z = "bytes_of_word 4 (0 :: 32 word)"
  let ?f = "file_write (DiskSize - 4) ?z (file_write 0 ?m [])"
  have len: "length ?m = 4" "length ?z = 4" by (simp_all add: host_order_def bytes_of_word_def)
  have lf: "length ?f = DiskSize" using len by simp
  have "take 4 ?f = ?m" using len by (simp add: file_write_def)
  then have r: "file_read 0 MagicSize ?f = Inr ?m" using lf file_read_eq [of 0 4 ?f] by simp
  have "(word_of_bytes (host_order big ?m) :: 32 word) = MagicNumber"
    by (simp add: host_order_def word_of_bytes_of_word)
  then show ?thesis using r lf by (simp add: Disk_new_def disk_inv_def)
qed

end
