(* ===== verification/Nachos_Devices.thy ===== *)
theory Nachos_Devices
  imports Nachos_Kernel Nachos_Disk
begin

text \<open>
  The devices and their interrupt handlers: the timer, the disk with its synchronous interface
  (\<^verbatim>\<open>code/machine/disk.cc\<close>, \<^verbatim>\<open>code/filesys/synchdisk.cc\<close>) and the console with its synchronous interface
  (\<^verbatim>\<open>code/machine/console.cc\<close>, \<^verbatim>\<open>code/userprog/synchconsole.cc\<close>), as the extension of the kernel's record,
  and the initialisation of the kernel in \<^verbatim>\<open>code/threads/system.cc\<close>. The two locales of the kernel are
  interpreted on the handlers of these devices.

  The host's side of a device is part of its state: the values that \<^verbatim>\<open>Random()\<close> will return, the
  answers of \<^verbatim>\<open>select\<close> on the keyboard, the bytes that arrive on it, the bytes written to the display.
\<close>

section \<open>The devices\<close>

datatype int_handler = TimerHandler | DiskDone | ConsoleReadPoll | ConsoleWriteDone

abbreviation (input) EOF :: int where "EOF \<equiv> -1"
abbreviation (input) ConsoleTime :: int where "ConsoleTime \<equiv> 100"

record SynchDisk =
  disk :: Disk
  disk_sem :: semid
  disk_lock :: semid

record Console =
  readFileNo :: int
  writeFileNo :: int
  putBusy :: bool
  incoming :: int
  utf8 :: bool
  polls :: "bool list"
  keyboard :: "8 word list"
  display :: "8 word list"

record Devices =
  rand :: "nat \<Rightarrow> int"
  rand_count :: nat
  randomize :: "bool option"
  synchDisk :: "SynchDisk option"
  console :: "Console option"
  stdin_busy :: bool
  readAvail :: semid
  writeDone :: semid
  m_readLock :: semid
  m_writeLock :: semid

type_synonym nachos = "(int_handler, Devices) kernel_scheme"

definition set_devices :: "Devices \<Rightarrow> nachos \<Rightarrow> nachos" where
  "set_devices d k = kernel.more_update (\<lambda>_. d) k"

definition Random :: "nachos \<Rightarrow> int \<times> nachos" where
  "Random k = (let d = kernel.more k in
     (rand d (rand_count d), set_devices (d\<lparr>rand_count := Suc (rand_count d)\<rparr>) k))"

text \<open>The V of an interrupt handler, which runs with interrupts disabled.\<close>

definition handler_V :: "semid \<Rightarrow> nachos \<Rightarrow> nachos res" where
  "handler_V s k = V_atomic s k"

section \<open>The timer\<close>

definition timer_interrupt :: "nachos \<Rightarrow> nachos res" where
  "timer_interrupt k =
     (case randomize (kernel.more k) of
        None \<Rightarrow> Inl NullDereference
      | Some doRandom \<Rightarrow>
          let (r, k1) = (if doRandom then Random k else (0, k)) in TimerExpired TimerHandler doRandom r k1)"

section \<open>The disk\<close>

definition count_read :: "nachos \<Rightarrow> nachos" where
  "count_read k = k\<lparr>stats := (stats k)\<lparr>numDiskReads := numDiskReads (stats k) + 1\<rparr>\<rparr>"

definition count_write :: "nachos \<Rightarrow> nachos" where
  "count_write k = k\<lparr>stats := (stats k)\<lparr>numDiskWrites := numDiskWrites (stats k) + 1\<rparr>\<rparr>"

definition set_disk :: "Disk \<Rightarrow> nachos \<Rightarrow> nachos" where
  "set_disk d k = set_devices ((kernel.more k)\<lparr>synchDisk := map_option (\<lambda>sd. sd\<lparr>disk := d\<rparr>) (synchDisk (kernel.more k))\<rparr>) k"

definition ReadRequest :: "int \<Rightarrow> nachos \<Rightarrow> (8 word list \<times> nachos) res" where
  "ReadRequest sectorNumber k =
     (case synchDisk (kernel.more k) of
        None \<Rightarrow> Inl NullDereference
      | Some sd \<Rightarrow>
          let d = disk sd; ticks = ComputeLatency (now k) d sectorNumber False in
          ASSERT (\<not> active d)
            (ASSERT (sectorNumber \<ge> 0 \<and> sectorNumber < NumSectors)
              (bindR (transfer_in sectorNumber d) (\<lambda>data.
               let k1 = set_disk (UpdateLast (now k) sectorNumber (d\<lparr>active := True\<rparr>)) k in
               bindR (Schedule DiskDone ticks DiskInt (count_read k1)) (\<lambda>k2. Inr (data, k2))))))"

definition WriteRequest :: "int \<Rightarrow> 8 word list \<Rightarrow> nachos \<Rightarrow> nachos res" where
  "WriteRequest sectorNumber data k =
     (case synchDisk (kernel.more k) of
        None \<Rightarrow> Inl NullDereference
      | Some sd \<Rightarrow>
          let d = disk sd; ticks = ComputeLatency (now k) d sectorNumber True in
          ASSERT (\<not> active d)
            (ASSERT (sectorNumber \<ge> 0 \<and> sectorNumber < NumSectors)
              (let d1 = transfer_out sectorNumber data d;
                   k1 = set_disk (UpdateLast (now k) sectorNumber (d1\<lparr>active := True\<rparr>)) k in
               Schedule DiskDone ticks DiskInt (count_write k1))))"

definition HandleInterrupt :: "nachos \<Rightarrow> nachos res" where
  "HandleInterrupt k =
     (case synchDisk (kernel.more k) of
        None \<Rightarrow> Inl NullDereference
      | Some sd \<Rightarrow> handler_V (disk_sem sd) (set_disk ((disk sd)\<lparr>active := False\<rparr>) k))"

definition SynchDisk_new ::
  "bool \<Rightarrow> 8 word list option \<Rightarrow> semid \<Rightarrow> semid \<Rightarrow> nachos \<Rightarrow> nachos res" where
  "SynchDisk_new big file s l k =
     (let k1 = Lock_new l (Some ''synch disk lock'') (Semaphore_new s ''synch disk'' 0 k) in
      bindR (Disk_new big file) (\<lambda>d.
        Inr (set_devices ((kernel.more k1)\<lparr>synchDisk := Some \<lparr>disk = d, disk_sem = s, disk_lock = l\<rparr>\<rparr>) k1)))"

section \<open>The console\<close>

definition set_console :: "Console \<Rightarrow> nachos \<Rightarrow> nachos" where
  "set_console c k = set_devices ((kernel.more k)\<lparr>console := Some c\<rparr>) k"

text \<open>
  The calls of the host on the keyboard are taken to succeed: \<^verbatim>\<open>read\<close> returns a byte or the end of the
  file, \<^verbatim>\<open>select\<close> says whether one is there (PollFile asserts that its result is no error).
\<close>

definition ReadPartial :: "Console \<Rightarrow> 8 word option \<times> Console" where
  "ReadPartial c = (case keyboard c of [] \<Rightarrow> (None, c) | b # bs \<Rightarrow> (Some b, c\<lparr>keyboard := bs\<rparr>))"

definition PollFile :: "Console \<Rightarrow> bool \<times> Console" where
  "PollFile c = (case polls c of [] \<Rightarrow> (False, c) | b # bs \<Rightarrow> (b, c\<lparr>polls := bs\<rparr>))"

text \<open>
  \<open>readFile\<close> and \<open>writeFile\<close> are the descriptors that opening the two files gives, None for the
  NULL pointer, which stands for the standard input and output. \<open>env\<close> is the host's side.
\<close>

definition Console_new :: "int option \<Rightarrow> int option \<Rightarrow> Console \<Rightarrow> nachos \<Rightarrow> nachos res" where
  "Console_new readFile writeFile env k =
     ASSERT (readFile = None \<longrightarrow> \<not> stdin_busy (kernel.more k))
       (let k1 = (if readFile = None then set_devices ((kernel.more k)\<lparr>stdin_busy := True\<rparr>) k else k);
            c = env\<lparr>readFileNo := (case readFile of None \<Rightarrow> 0 | Some f \<Rightarrow> f),
                    writeFileNo := (case writeFile of None \<Rightarrow> 1 | Some f \<Rightarrow> f),
                    putBusy := False, incoming := EOF\<rparr>
        in Schedule ConsoleReadPoll ConsoleTime ConsoleReadInt (set_console c k1))"

definition SynchConsole_new ::
  "int option \<Rightarrow> int option \<Rightarrow> Console \<Rightarrow> semid \<Rightarrow> semid \<Rightarrow> nachos \<Rightarrow> nachos res" where
  "SynchConsole_new inFile outFile env rl wl k =
     bindR (Console_new inFile outFile env k) (\<lambda>k1.
       let k2 = Lock_new wl (Some ''SynchConsole_WriteLock'') (Lock_new rl (Some ''SynchConsole_ReadLock'') k1) in
       Inr (set_devices ((kernel.more k2)\<lparr>m_readLock := rl, m_writeLock := wl\<rparr>) k2))"

text \<open>Reading one character: the outcome, and the console with its incoming character.\<close>

datatype arrival = EndOfFile | Dropped | CharRead

definition read_char :: "Console \<Rightarrow> arrival \<times> Console" where
  "read_char c0 =
     (let (r, con) = ReadPartial c0 in
      case r of
        None \<Rightarrow> (EndOfFile, con\<lparr>incoming := EOF\<rparr>)
      | Some c \<Rightarrow>
          if \<not> utf8 con then (CharRead, con\<lparr>incoming := uint c\<rparr>)
          else if c AND 0x80 = 0 then (CharRead, con\<lparr>incoming := uint c\<rparr>)
          else if c AND 0xe0 \<noteq> 0xc0 then (Dropped, con)
          else if c AND 0x1c \<noteq> 0 then (Dropped, con)
          else
            let (r2, con2) = ReadPartial con in
            case r2 of
              None \<Rightarrow> (EndOfFile, con2\<lparr>incoming := EOF\<rparr>)
            | Some d \<Rightarrow>
                if d AND 0xc0 \<noteq> 0x80 then (Dropped, con2)
                else (CharRead, con2\<lparr>incoming := (push_bit 6 (uint (c AND 0x03))) OR uint d\<rparr>))"

definition count_char_read :: "nachos \<Rightarrow> nachos" where
  "count_char_read k = k\<lparr>stats := (stats k)\<lparr>numConsoleCharsRead := numConsoleCharsRead (stats k) + 1\<rparr>\<rparr>"

definition CheckCharAvail :: "nachos \<Rightarrow> nachos res" where
  "CheckCharAvail k =
     (case console (kernel.more k) of
        None \<Rightarrow> Inl NullDereference
      | Some c \<Rightarrow>
          let reschedule = Schedule ConsoleReadPoll ConsoleTime ConsoleReadInt;
              ra = readAvail (kernel.more k) in
          if readFileNo c = -1 then Inr (set_console (c\<lparr>readFileNo := -2\<rparr>) k)
          else if incoming c \<noteq> EOF then reschedule k
          else
            let (ready, c1) = PollFile c in
            if \<not> ready then reschedule (set_console c1 k)
            else
              let (a, c2) = read_char c1; k2 = set_console c2 k in
              case a of
                EndOfFile \<Rightarrow> bindR (handler_V ra k2) reschedule
              | Dropped \<Rightarrow> Inr k2
              | CharRead \<Rightarrow> bindR (reschedule k2) (\<lambda>k3. handler_V ra (count_char_read k3)))"

definition count_char_written :: "nachos \<Rightarrow> nachos" where
  "count_char_written k = k\<lparr>stats := (stats k)\<lparr>numConsoleCharsWritten := numConsoleCharsWritten (stats k) + 1\<rparr>\<rparr>"

definition WriteDone :: "nachos \<Rightarrow> nachos res" where
  "WriteDone k =
     (case console (kernel.more k) of
        None \<Rightarrow> Inl NullDereference
      | Some c \<Rightarrow> handler_V (writeDone (kernel.more k)) (count_char_written (set_console (c\<lparr>putBusy := False\<rparr>) k)))"

definition GetChar :: "nachos \<Rightarrow> (int \<times> nachos) res" where
  "GetChar k =
     (case console (kernel.more k) of
        None \<Rightarrow> Inl NullDereference
      | Some c \<Rightarrow> Inr (incoming c, set_console (c\<lparr>incoming := EOF\<rparr>) k))"

definition encode_char :: "bool \<Rightarrow> int \<Rightarrow> 8 word list" where
  "encode_char is_utf8 ch =
     (if ch < 0x80 \<or> \<not> is_utf8 then [word_of_int ch]
      else if ch < 0x100 then [word_of_int (drop_bit 6 (ch AND 0xc0) OR 0xc0), word_of_int ((ch AND 0x3f) OR 0x80)]
      else [])"

definition PutChar :: "int \<Rightarrow> nachos \<Rightarrow> nachos res" where
  "PutChar ch k =
     (case console (kernel.more k) of
        None \<Rightarrow> Inl NullDereference
      | Some c \<Rightarrow>
          ASSERT (\<not> putBusy c)
            (Schedule ConsoleWriteDone ConsoleTime ConsoleWriteInt
              (set_console (c\<lparr>display := display c @ encode_char (utf8 c) ch, putBusy := True\<rparr>) k)))"

section \<open>The interrupt vector\<close>

fun run_handler :: "int_handler \<Rightarrow> nachos \<Rightarrow> nachos res" where
  "run_handler TimerHandler k = timer_interrupt k"
| "run_handler DiskDone k = HandleInterrupt k"
| "run_handler ConsoleReadPoll k = CheckCharAvail k"
| "run_handler ConsoleWriteDone k = WriteDone k"

section \<open>The handlers respect the kernel\<close>

lemma set_devices_select [simp]:
  "stats (set_devices d k) = stats k" "level (set_devices d k) = level k" "pending (set_devices d k) = pending k"
  "inHandler (set_devices d k) = inHandler k" "status (set_devices d k) = status k" "threads (set_devices d k) = threads k"
  "semaphores (set_devices d k) = semaphores k" "currentThread (set_devices d k) = currentThread k"
  "readyList (set_devices d k) = readyList k" "threadToBeDestroyed (set_devices d k) = threadToBeDestroyed k"
  "cpu (set_devices d k) = cpu k" "spaces (set_devices d k) = spaces k" "kernel.more (set_devices d k) = d"
  by (cases k; simp add: set_devices_def)+

lemma V_atomic_keeps: "V_atomic s k = Inr k' \<Longrightarrow> handler_keeps k k' \<and> kernel.more k' = kernel.more k"
  by (auto simp: V_atomic_def res_simps get_sem_def ReadyToRun_def upd_thread_def get_thread_def put_thread_def
      put_sem_def handler_keeps_def split: option.splits prod.splits)

lemma handler_keeps_irrelevant [simp]:
  "handler_keeps (set_devices d k) k' = handler_keeps k k'" "handler_keeps k (set_devices d k') = handler_keeps k k'"
  by (simp_all add: handler_keeps_def)

lemma TimerInterruptHandler_keeps: "TimerInterruptHandler k = Inr k' \<Longrightarrow> handler_keeps k k'"
  by (auto simp: TimerInterruptHandler_def YieldOnReturn_def res_simps handler_keeps_def split: if_splits)

lemma count_keeps:
  "handler_keeps (count_read k) k' = handler_keeps k k'" "handler_keeps (count_write k) k' = handler_keeps k k'"
  "handler_keeps (count_char_read k) k' = handler_keeps k k'" "handler_keeps (count_char_written k) k' = handler_keeps k k'"
  by (simp_all add: handler_keeps_def count_read_def count_write_def count_char_read_def count_char_written_def)

lemma run_handler_keeps:
  assumes "run_handler h k = Inr k'"
  shows "handler_keeps k k'"
proof (cases h)
  case TimerHandler
  then show ?thesis using assms
    by (auto simp: timer_interrupt_def Random_def Let_def TimerExpired_def res_simps split: option.splits if_splits
        dest!: Schedule_keeps TimerInterruptHandler_keeps intro: handler_keeps_trans)
next
  case DiskDone
  then show ?thesis using assms
    by (auto simp: HandleInterrupt_def handler_V_def set_disk_def split: option.splits dest!: V_atomic_keeps)
next
  case ConsoleReadPoll
  then show ?thesis using assms
    by (auto simp: CheckCharAvail_def Let_def handler_V_def set_console_def res_simps count_keeps
        split: option.splits if_splits prod.splits arrival.splits
        dest!: V_atomic_keeps Schedule_keeps intro: handler_keeps_trans)
next
  case ConsoleWriteDone
  then show ?thesis using assms
    by (auto simp: WriteDone_def handler_V_def set_console_def count_keeps split: option.splits dest!: V_atomic_keeps)
qed

interpretation dev: interrupt_handlers run_handler
  by unfold_locales (rule run_handler_keeps)

text \<open>What the handlers need: the device exists, its semaphores too, random numbers are not negative.\<close>

fun dev_inv :: "int_handler option \<Rightarrow> semid set \<Rightarrow> Devices \<Rightarrow> bool" where
  "dev_inv None S d \<longleftrightarrow>
     (\<forall>i. 0 \<le> rand d i) \<and> readAvail d \<in> S \<and> writeDone d \<in> S \<and>
     (\<forall>sd. synchDisk d = Some sd \<longrightarrow> disk_sem sd \<in> S \<and> disk_inv (disk sd))"
| "dev_inv (Some TimerHandler) S d \<longleftrightarrow> randomize d \<noteq> None"
| "dev_inv (Some DiskDone) S d \<longleftrightarrow> synchDisk d \<noteq> None"
| "dev_inv (Some ConsoleReadPoll) S d \<longleftrightarrow> console d \<noteq> None"
| "dev_inv (Some ConsoleWriteDone) S d \<longleftrightarrow> console d \<noteq> None"

lemma dev_inv_mono: "dev_inv x A d \<Longrightarrow> A \<subseteq> B \<Longrightarrow> dev_inv x B d"
  by (cases "(x, A, d)" rule: dev_inv.cases) auto

definition devices_grow :: "Devices \<Rightarrow> Devices \<Rightarrow> bool" where
  "devices_grow d d' \<longleftrightarrow> (randomize d \<noteq> None \<longrightarrow> randomize d' \<noteq> None) \<and>
     (synchDisk d \<noteq> None \<longrightarrow> synchDisk d' \<noteq> None) \<and> (console d \<noteq> None \<longrightarrow> console d' \<noteq> None)"

lemma dev_inv_grow: "dev_inv (Some h) S d \<Longrightarrow> devices_grow d d' \<Longrightarrow> dev_inv (Some h) S d'"
  by (cases h) (auto simp: devices_grow_def)

lemma set_devices_kinv:
  assumes "kinv dev_inv p k" "devices_grow (kernel.more k) d" "dev_inv None (dom (semaphores k)) d"
  shows "kinv dev_inv p (set_devices d k) \<and> same_control k (set_devices d k)"
proof -
  have "tview_of p (set_devices d k) = tview_of p k" by (simp add: tview_of_def)
  moreover have "cpu_inv (set_devices d k) = cpu_inv k" by (simp add: cpu_inv_def)
  moreover have "devs_ok dev_inv (set_devices d k)"
    using kinvD(3) [OF assms(1)] assms(2,3) by (auto simp: devs_ok_def intro: dev_inv_grow)
  ultimately show ?thesis using assms(1) by (simp add: kinv_def same_control_def)
qed

lemma Schedule_kinv:
  assumes "kinv J p k" "0 < n" "J (Some h) (dom (semaphores k)) (kernel.more k)"
  shows "\<exists>k'. Schedule h n ty k = Inr k' \<and> kinv J p k' \<and> same_control k k' \<and> kernel.more k' = kernel.more k \<and>
     k' = k\<lparr>pending := pending k'\<rparr> \<and> (sorted (map fst (pending k)) \<longrightarrow> sorted (map fst (pending k')))"
proof -
  let ?k = "k\<lparr>pending := ksorted_insert (PendingInterrupt_new h (now k + n) ty) (now k + n) (pending k)\<rparr>"
  have "Schedule h n ty k = Inr ?k" using assms(2) by (simp add: Schedule_def Let_def)
  moreover have "devs_ok J ?k"
    using kinvD(3) [OF assms(1)] assms(3) by (auto simp: devs_ok_def set_ksorted_insert PendingInterrupt_new_def)
  then have "kinv J p ?k" using assms(1) by (simp add: kinv_def)
  moreover have "same_control k ?k" by (simp add: same_control_def)
  ultimately show ?thesis by (auto simp: sorted_ksorted_insert)
qed

lemma handler_V_kinv:
  assumes "kinv J p k" "s \<in> dom (semaphores k)"
  shows "\<exists>k'. handler_V s k = Inr k' \<and> kinv J p k' \<and> same_control k k' \<and> kernel.more k' = kernel.more k"
proof -
  obtain q where q: "semaphores k s = Some q" using assms(2) by blast
  obtain k' where "V_atomic s k = Inr k'" "kinv J p k'" "same_control k k'" using V_atomic_kinv [OF assms(1) q] by blast
  then show ?thesis using V_atomic_keeps [of s k k'] by (auto simp: handler_V_def)
qed

text \<open>Each handler succeeds and keeps the invariant.\<close>

definition handler_ok :: "frame list \<Rightarrow> nachos \<Rightarrow> nachos res \<Rightarrow> bool" where
  "handler_ok p k r \<longleftrightarrow> (\<exists>k'. r = Inr k' \<and> kinv dev_inv p k' \<and> same_control k k')"

lemma handler_okI: "r = Inr k' \<Longrightarrow> kinv dev_inv p k' \<Longrightarrow> same_control k k' \<Longrightarrow> handler_ok p k r"
  by (simp add: handler_ok_def)

lemma handler_ok_from: "handler_ok p k1 r \<Longrightarrow> same_control k k1 \<Longrightarrow> handler_ok p k r"
  by (auto simp: handler_ok_def intro: same_control_trans)

lemma handler_ok_V: "kinv dev_inv p k \<Longrightarrow> s \<in> dom (semaphores k) \<Longrightarrow> handler_ok p k (handler_V s k)"
  using handler_V_kinv [of dev_inv p k s] by (auto simp: handler_ok_def)

lemma handler_ok_Schedule:
  "kinv dev_inv p k \<Longrightarrow> 0 < n \<Longrightarrow> dev_inv (Some h) (dom (semaphores k)) (kernel.more k) \<Longrightarrow> handler_ok p k (Schedule h n ty k)"
  using Schedule_kinv [of dev_inv p k n h ty] by (auto simp: handler_ok_def)

lemma kinv_dev: "kinv dev_inv p k \<Longrightarrow> dev_inv None (dom (semaphores k)) (kernel.more k)"
  using kinvD(3) [of dev_inv p k] by (simp add: devs_ok_def)

lemma Random_kinv:
  assumes inv: "kinv dev_inv p k"
  shows "kinv dev_inv p (snd (Random k)) \<and> same_control k (snd (Random k))"
  unfolding Random_def Let_def snd_conv
  by (rule set_devices_kinv [OF inv]) (use kinv_dev [OF inv] in \<open>auto simp: devices_grow_def\<close>)

lemma timer_ok:
  assumes inv: "kinv dev_inv p k" and h: "inHandler k" "randomize (kernel.more k) \<noteq> None"
  shows "handler_ok p k (timer_interrupt k)"
proof -
  obtain b where b: "randomize (kernel.more k) = Some b" using h(2) by blast
  define k1 where "k1 = (if b then snd (Random k) else k)"
  define r where "r = (if b then fst (Random k) else 0)"
  have k1: "kinv dev_inv p k1 \<and> same_control k k1" "randomize (kernel.more k1) = Some b" "inHandler k1"
    using Random_kinv [OF inv] inv b h by (auto simp: k1_def Random_def Let_def)
  have "0 \<le> r" using kinv_dev [OF inv] by (simp add: r_def Random_def Let_def)
  then have pos: "0 < TimeOfNextInterrupt b r" by (simp add: TimeOfNextInterrupt_def add_pos_nonneg)
  obtain k2 where k2: "Schedule TimerHandler (TimeOfNextInterrupt b r) TimerInt k1 = Inr k2"
    "kinv dev_inv p k2" "same_control k1 k2" and eq: "k2 = k1\<lparr>pending := pending k2\<rparr>"
    using Schedule_kinv [of dev_inv p k1 _ TimerHandler TimerInt] k1 pos by auto
  have "inHandler k2" using k1(3) by (subst eq) simp
  then have "TimerInterruptHandler k2 = Inr (if status k2 \<noteq> IdleMode then k2\<lparr>yieldOnReturn := True\<rparr> else k2)"
    by (simp add: TimerInterruptHandler_def YieldOnReturn_def)
  moreover have "timer_interrupt k = bindR (Schedule TimerHandler (TimeOfNextInterrupt b r) TimerInt k1) TimerInterruptHandler"
    using b by (simp add: timer_interrupt_def k1_def r_def TimerExpired_def split_beta)
  ultimately show ?thesis using k2 k1(1) same_control_trans [of k k1 k2]
    by (auto simp: handler_ok_def same_control_def)
qed

lemma set_disk_kinv:
  assumes inv: "kinv dev_inv p k" and d: "synchDisk (kernel.more k) = Some sd" "disk_inv d"
  shows "kinv dev_inv p (set_disk d k) \<and> same_control k (set_disk d k)"
  unfolding set_disk_def by (rule set_devices_kinv [OF inv]) (use kinv_dev [OF inv] d in \<open>auto simp: devices_grow_def\<close>)

lemma set_console_kinv:
  assumes inv: "kinv dev_inv p k"
  shows "kinv dev_inv p (set_console c k) \<and> same_control k (set_console c k)"
  unfolding set_console_def by (rule set_devices_kinv [OF inv]) (use kinv_dev [OF inv] in \<open>auto simp: devices_grow_def\<close>)

lemma disk_ok:
  assumes inv: "kinv dev_inv p k" and d: "synchDisk (kernel.more k) = Some sd"
  shows "handler_ok p k (HandleInterrupt k)"
proof -
  have sem: "disk_sem sd \<in> dom (semaphores k)" "disk_inv ((disk sd)\<lparr>active := False\<rparr>)"
    using kinv_dev [OF inv] d by (auto simp: disk_inv_def)
  note k1 = set_disk_kinv [OF inv d sem(2)]
  have "handler_ok p (set_disk ((disk sd)\<lparr>active := False\<rparr>) k) (handler_V (disk_sem sd) (set_disk ((disk sd)\<lparr>active := False\<rparr>) k))"
    by (rule handler_ok_V) (use k1 sem in \<open>auto simp: set_disk_def\<close>)
  then show ?thesis using d handler_ok_from k1 by (simp add: HandleInterrupt_def)
qed

lemma count_kinv:
  "kinv J p (count_read k) = kinv J p k" "kinv J p (count_write k) = kinv J p k"
  "kinv J p (count_char_read k) = kinv J p k" "kinv J p (count_char_written k) = kinv J p k"
  "same_control k (count_read k)" "same_control k (count_write k)"
  "same_control k (count_char_read k)" "same_control k (count_char_written k)"
  by (simp_all add: count_read_def count_write_def count_char_read_def count_char_written_def same_control_def)

lemma count_select [simp]:
  "semaphores (count_read k) = semaphores k" "semaphores (count_write k) = semaphores k"
  "semaphores (count_char_read k) = semaphores k" "semaphores (count_char_written k) = semaphores k"
  "kernel.more (count_read k) = kernel.more k" "kernel.more (count_write k) = kernel.more k"
  by (simp_all add: count_read_def count_write_def count_char_read_def count_char_written_def)

lemma console_write_ok:
  assumes inv: "kinv dev_inv p k" and c: "console (kernel.more k) = Some c"
  shows "handler_ok p k (WriteDone k)"
proof -
  let ?k = "count_char_written (set_console (c\<lparr>putBusy := False\<rparr>) k)"
  have k1: "kinv dev_inv p ?k" "same_control k ?k"
    using set_console_kinv [OF inv] same_control_trans [OF _ count_kinv(8)] by (simp_all add: count_kinv)
  have "handler_ok p ?k (handler_V (writeDone (kernel.more k)) ?k)"
    by (rule handler_ok_V) (use k1 kinv_dev [OF inv] in \<open>auto simp: set_console_def\<close>)
  then show ?thesis using c k1(2) by (simp add: WriteDone_def handler_ok_from)
qed

lemma console_read_ok:
  assumes inv: "kinv dev_inv p k" and c: "console (kernel.more k) = Some c"
  shows "handler_ok p k (CheckCharAvail k)"
proof -
  let ?S = "Schedule ConsoleReadPoll ConsoleTime ConsoleReadInt"
  let ?ra = "readAvail (kernel.more k)"
  have sc: "kinv dev_inv p (set_console x k)" "same_control k (set_console x k)" for x
    using set_console_kinv [OF inv] by blast+
  have ra: "?ra \<in> dom (semaphores (set_console x k))" for x
    using kinv_dev [OF inv] by (simp add: set_console_def)
  have sched: "handler_ok p k1 (?S k1)" if "kinv dev_inv p k1" "console (kernel.more k1) \<noteq> None" for k1
    by (rule handler_ok_Schedule) (use that in auto)
  have schedx: "handler_ok p k (?S (set_console x k))" for x
    by (rule handler_ok_from [OF sched]) (use sc in \<open>auto simp: set_console_def\<close>)
  consider (closed) "readFileNo c = -1" | (buffered) "readFileNo c \<noteq> -1" "incoming c \<noteq> EOF"
    | (nothing) c1 where "readFileNo c \<noteq> -1" "incoming c = EOF" "PollFile c = (False, c1)"
    | (char) c1 a c2 where "readFileNo c \<noteq> -1" "incoming c = EOF" "PollFile c = (True, c1)" "read_char c1 = (a, c2)"
    by (metis surj_pair)
  then show ?thesis
  proof cases
    case closed
    then show ?thesis using c sc by (auto simp: CheckCharAvail_def intro: handler_okI)
  next
    case buffered
    then show ?thesis using c sched [OF inv] by (simp add: CheckCharAvail_def)
  next
    case (nothing c1)
    then show ?thesis using c schedx by (simp add: CheckCharAvail_def)
  next
    case (char c1 a c2)
    let ?k2 = "set_console c2 k"
    show ?thesis
    proof (cases a)
      case EndOfFile
      obtain k3 where k3: "handler_V ?ra ?k2 = Inr k3" "kinv dev_inv p k3" "same_control ?k2 k3" "kernel.more k3 = kernel.more ?k2"
        using handler_V_kinv [OF sc(1) ra, of c2] by blast
      have "handler_ok p k3 (?S k3)" by (rule sched) (use k3 in \<open>auto simp: set_console_def\<close>)
      then have "handler_ok p k (?S k3)"
        by (rule handler_ok_from) (use k3 sc same_control_trans in blast)
      then show ?thesis using char EndOfFile c k3 by (simp add: CheckCharAvail_def)
    next
      case Dropped
      then show ?thesis using char c sc by (auto simp: CheckCharAvail_def intro: handler_okI)
    next
      case CharRead
      obtain k3 where k3: "?S ?k2 = Inr k3" "kinv dev_inv p k3" "same_control ?k2 k3" and eq: "k3 = ?k2\<lparr>pending := pending k3\<rparr>"
        using Schedule_kinv [OF sc(1) [of c2], of 100 ConsoleReadPoll ConsoleReadInt] by (auto simp: set_console_def)
      have "semaphores k3 = semaphores ?k2" by (subst eq) simp
      then have "handler_ok p (count_char_read k3) (handler_V ?ra (count_char_read k3))"
        by (intro handler_ok_V) (use k3 ra in \<open>simp_all add: count_kinv\<close>)
      then have "handler_ok p k (handler_V ?ra (count_char_read k3))"
        by (rule handler_ok_from) (use k3 sc same_control_trans count_kinv(7) in blast)
      then show ?thesis using char CharRead c k3 by (simp add: CheckCharAvail_def)
    qed
  qed
qed

lemma run_handler_ok:
  assumes "kinv dev_inv p k" "inHandler k" "dev_inv (Some h) (dom (semaphores k)) (kernel.more k)"
  shows "handler_ok p k (run_handler h k)"
  using assms timer_ok disk_ok console_read_ok console_write_ok by (cases h) auto

interpretation nachos: kernel_handlers run_handler dev_inv
proof unfold_locales
  show "dev_inv x B d" if "dev_inv x A d" "A \<subseteq> B" for x A B d using dev_inv_mono that .
  show "kinv dev_inv p k' \<and> same_control k k'"
    if "run_handler h k = Inr k'" "inHandler k" "level k = IntOff" "kinv dev_inv p k"
      "dev_inv (Some h) (dom (semaphores k)) (kernel.more k)" for h k k' p
    using run_handler_ok [OF that(4,2,5)] that(1) by (auto simp: handler_ok_def)
qed

lemma no_handler_failure: "\<not> handler_failure dev_inv run_handler e"
  using run_handler_ok by (fastforce simp: handler_failure_def handler_ok_def)

section \<open>The encoding of characters\<close>

text \<open>The two bytes of a character above ASCII, checked for the 128 characters.\<close>

lemma utf8_ascii: "\<forall>ch \<in> set [0..127]. (word_of_int ch :: 8 word) AND 0x80 = 0"
  by code_simp

lemma utf8_pair:
  "\<forall>ch \<in> set [128..255].
     let c = word_of_int (drop_bit 6 (ch AND 0xc0) OR 0xc0) :: 8 word; d = word_of_int ((ch AND 0x3f) OR 0x80) :: 8 word in
     c AND 0x80 \<noteq> 0 \<and> c AND 0xe0 = 0xc0 \<and> c AND 0x1c = 0 \<and> d AND 0xc0 = 0x80 \<and>
     push_bit 6 (uint (c AND 0x03)) OR uint d = ch"
  by code_simp

text \<open>
  C39. A character of the latin-1 range written by PutChar reads back as itself: whatever the
  encoding of the host (UTF-8 or 8 bits), the bytes that PutChar sends to the display are the bytes
  from which CheckCharAvail decodes the same character, and no byte after them is consumed.
\<close>

theorem console_roundtrip:
  assumes "0 \<le> ch" and "ch < 256" and "keyboard c = encode_char (utf8 c) ch @ rest"
  shows "read_char c = (CharRead, c\<lparr>keyboard := rest, incoming := ch\<rparr>)"
proof (cases "ch < 0x80 \<or> \<not> utf8 c")
  case True
  then have k: "keyboard c = word_of_int ch # rest" using assms(3) by (simp add: encode_char_def)
  have u: "uint (word_of_int ch :: 8 word) = ch" using assms(1,2) by (simp add: uint_word_of_int)
  have "(word_of_int ch :: 8 word) AND 0x80 = 0" if "ch < 0x80"
    by (rule utf8_ascii [rule_format]) (unfold set_upto atLeastAtMost_iff, use assms(1) that in auto)
  then show ?thesis using True k u by (auto simp: read_char_def ReadPartial_def)
next
  case False
  let ?c = "word_of_int (drop_bit 6 (ch AND 0xc0) OR 0xc0) :: 8 word" and ?d = "word_of_int ((ch AND 0x3f) OR 0x80) :: 8 word"
  have k: "keyboard c = ?c # ?d # rest" using False assms(2,3) by (simp add: encode_char_def)
  have "ch \<in> set [128..255]" unfolding set_upto atLeastAtMost_iff using False assms by auto
  note p = utf8_pair [rule_format, OF this, unfolded Let_def]
  have "read_char c = (CharRead, c\<lparr>keyboard := rest, incoming := push_bit 6 (uint (?c AND 0x03)) OR uint ?d\<rparr>)"
    using k p False by (simp only: read_char_def ReadPartial_def) simp
  then show ?thesis using p by simp
qed

lemma console_roundtrip_witness:
  "let c = \<lparr>readFileNo = 0, writeFileNo = 1, putBusy = False, incoming = -1, utf8 = True, polls = [],
        keyboard = [0xc3, 0xa9, 0x41], display = []\<rparr> in
   read_char c = (CharRead, c\<lparr>keyboard := [0x41], incoming := 233\<rparr>)"
proof -
  have "encode_char True 233 = [0xc3, 0xa9]" by code_simp
  then show ?thesis
    using console_roundtrip [of 233 "\<lparr>readFileNo = 0, writeFileNo = 1, putBusy = False, incoming = -1, utf8 = True, polls = [],
        keyboard = [0xc3, 0xa9, 0x41], display = []\<rparr>" "[0x41]"] by simp
qed

end
