(* ===== verification/Nachos_System.thy ===== *)
theory Nachos_System
  imports Nachos_Devices
begin

text \<open>
  The kernel as a running system: its initialisation (\<^verbatim>\<open>Initialize\<close> of \<^verbatim>\<open>code/threads/system.cc\<close>), the
  calls that threads make on its devices, and the states it can reach. The theorems of this theory
  hold in every reachable state, whatever the threads do, whenever interrupts arrive.
\<close>

section \<open>Initialisation\<close>

text \<open>
  The state before Initialize creates anything: the two semaphores of SynchConsole are static
  objects. Then the timer, when its option is given, the main thread, and the enabling of
  interrupts.
\<close>

definition power_on :: "Devices \<Rightarrow> nachos" where
  "power_on d =
     \<lparr>stats = Statistics_new, level = IntOff, pending = [], inHandler = False, yieldOnReturn = False,
      status = SystemMode, readyList = [], halted = False, currentThread = 0, threadToBeDestroyed = None,
      threads = (\<lambda>_. None),
      semaphores = [readAvail d \<mapsto> \<lparr>sname = ''read avail'', svalue = 0, squeue = []\<rparr>,
                    writeDone d \<mapsto> \<lparr>sname = ''write done'', svalue = 0, squeue = []\<rparr>],
      cpu = None, spaces = (\<lambda>_. None), \<dots> = d\<rparr>"

definition main_thread :: "reg_word list \<Rightarrow> Thread" where
  "main_thread garbage =
     \<lparr>tname = ''main'', tstatus = RUNNING, stack = None, kstack = [],
      userRegisters = garbage[LoadReg := 0, LoadValueReg := 0], space = None\<rparr>"

definition start_timer :: "nachos \<Rightarrow> nachos res" where
  "start_timer k =
     (let (r, k1) = Random (set_devices ((kernel.more k)\<lparr>randomize := Some True\<rparr>) k)
      in Timer_new TimerHandler True r k1)"

definition Initialize :: "bool \<Rightarrow> reg_word list \<Rightarrow> Devices \<Rightarrow> nachos res" where
  "Initialize randomYield garbage d =
     bindR (if randomYield then start_timer (power_on d) else Inr (power_on d)) (\<lambda>k.
       Enable run_handler (put_thread 0 (main_thread garbage) k))"

section \<open>Calls on devices\<close>

datatype dcall =
    D_ReadRequest int
  | D_WriteRequest int "8 word list"
  | D_PutChar int
  | D_GetChar
  | D_Machine bool
  | D_SynchConsole "int option" "int option" Console semid semid
  | D_SynchDisk bool "8 word list option" semid semid

fun do_dcall :: "dcall \<Rightarrow> nachos \<Rightarrow> nachos res" where
  "do_dcall (D_ReadRequest s) k = map_sum id snd (ReadRequest s k)"
| "do_dcall (D_WriteRequest s data) k = WriteRequest s data k"
| "do_dcall (D_PutChar ch) k = PutChar ch k"
| "do_dcall D_GetChar k = map_sum id snd (GetChar k)"
| "do_dcall (D_Machine debug) k = Inr (k\<lparr>cpu := Some (Machine_new debug)\<rparr>)"
| "do_dcall (D_SynchConsole inFile outFile env rl wl) k = SynchConsole_new inFile outFile env rl wl k"
| "do_dcall (D_SynchDisk big file s l) k = SynchDisk_new big file s l k"

text \<open>
  What the caller has to ensure: a request is made on a disk that is idle, on an existing sector,
  with a whole sector of data; a character is put when the previous one has been written; the
  semaphores of a new device are new, and the file of a disk is one that a disk created.
\<close>

fun dcall_ok :: "dcall \<Rightarrow> nachos \<Rightarrow> bool" where
  "dcall_ok (D_ReadRequest s) k =
     (case synchDisk (kernel.more k) of None \<Rightarrow> False | Some sd \<Rightarrow> \<not> active (disk sd) \<and> 0 \<le> s \<and> s < NumSectors)"
| "dcall_ok (D_WriteRequest s data) k =
     (case synchDisk (kernel.more k) of None \<Rightarrow> False
      | Some sd \<Rightarrow> \<not> active (disk sd) \<and> 0 \<le> s \<and> s < NumSectors \<and> length data = SectorSize)"
| "dcall_ok (D_PutChar ch) k = (case console (kernel.more k) of None \<Rightarrow> False | Some c \<Rightarrow> \<not> putBusy c)"
| "dcall_ok D_GetChar k = (console (kernel.more k) \<noteq> None)"
| "dcall_ok (D_Machine debug) k = (cpu k = None)"
| "dcall_ok (D_SynchConsole inFile outFile env rl wl) k =
     (\<not> stdin_busy (kernel.more k) \<and> rl \<noteq> wl \<and> semaphores k rl = None \<and> semaphores k wl = None)"
| "dcall_ok (D_SynchDisk big file s l) k =
     (s \<noteq> l \<and> semaphores k s = None \<and> semaphores k l = None \<and> synchDisk (kernel.more k) = None \<and>
      (case Disk_new big file of Inl _ \<Rightarrow> False | Inr d \<Rightarrow> DiskSize \<le> length (diskFile d)))"

inductive sys_reach :: "bool \<Rightarrow> reg_word list \<Rightarrow> Devices \<Rightarrow> nachos \<Rightarrow> bool" for randomYield garbage d where
  sys_boot: "Initialize randomYield garbage d = Inr k \<Longrightarrow> sys_reach randomYield garbage d k"
| sys_step: "sys_reach randomYield garbage d k \<Longrightarrow> \<not> in_user k \<Longrightarrow> kstep run_handler k = Inr k' \<Longrightarrow>
     sys_reach randomYield garbage d k'"
| sys_call: "sys_reach randomYield garbage d k \<Longrightarrow> in_user k \<Longrightarrow> call_ok c k \<Longrightarrow> do_call run_handler c k = Inr k' \<Longrightarrow>
     sys_reach randomYield garbage d k'"
| sys_device: "sys_reach randomYield garbage d k \<Longrightarrow> in_user k \<Longrightarrow> dcall_ok dc k \<Longrightarrow> do_dcall dc k = Inr k' \<Longrightarrow>
     sys_reach randomYield garbage d k'"

definition boot_ok :: "reg_word list \<Rightarrow> Devices \<Rightarrow> bool" where
  "boot_ok garbage d \<longleftrightarrow> length garbage = NumTotalRegs \<and> (\<forall>i. 0 \<le> rand d i) \<and> readAvail d \<noteq> writeDone d \<and>
     randomize d = None \<and> synchDisk d = None \<and> console d = None"

section \<open>The invariant of the system\<close>

lemma power_on_select [simp]:
  "stats (power_on d) = Statistics_new" "level (power_on d) = IntOff" "pending (power_on d) = []"
  "\<not> inHandler (power_on d)" "readyList (power_on d) = []" "currentThread (power_on d) = 0"
  "threadToBeDestroyed (power_on d) = None" "threads (power_on d) = (\<lambda>_. None)" "cpu (power_on d) = None"
  "spaces (power_on d) = (\<lambda>_. None)" "kernel.more (power_on d) = d"
  "semaphores (power_on d) = [readAvail d \<mapsto> \<lparr>sname = ''read avail'', svalue = 0, squeue = []\<rparr>,
                    writeDone d \<mapsto> \<lparr>sname = ''write done'', svalue = 0, squeue = []\<rparr>]"
  by (simp_all add: power_on_def)

lemma boot_kinv:
  assumes b: "boot_ok garbage d" and k: "threads k = (\<lambda>_. None)" "semaphores k = semaphores (power_on d)"
    "readyList k = []" "threadToBeDestroyed k = None" "cpu k = None" "currentThread k = 0"
    "kernel.more k = d'" "dev_inv None (dom (semaphores k)) d'"
    "\<forall>e \<in> set (pending k). dev_inv (Some (handler (snd e))) (dom (semaphores k)) d'"
  shows "kinv dev_inv [] (put_thread 0 (main_thread garbage) k)"
proof -
  let ?k = "put_thread 0 (main_thread garbage) k"
  have v: "tview_of [] ?k = [0 \<mapsto> (RUNNING, [])]"
    using k by (auto simp: tview_of_def main_thread_def)
  have "tinv [0 \<mapsto> (RUNNING, [])] 0 [] (semaphores k) None"
    by (rule tinvI) (auto simp: k thread_ok_def sem_ok_def split: if_splits)
  moreover have "cpu_inv ?k"
    using b k by (auto simp: cpu_inv_def thread_cpu_ok_def regs_ok_def main_thread_def boot_ok_def)
  moreover have "devs_ok dev_inv k" using k by (simp add: devs_ok_def)
  ultimately show ?thesis using k v by (simp add: kinv_def)
qed

lemma Initialize_ok:
  assumes b: "boot_ok garbage d"
  shows "\<exists>k. Initialize randomYield garbage d = Inr k \<and> kernel_ok dev_inv k"
proof -
  define k1 where "k1 = set_devices (d\<lparr>randomize := Some True, rand_count := Suc (rand_count d)\<rparr>) (power_on d)"
  define n where "n = TimeOfNextInterrupt True (rand d (rand_count d))"
  have n: "0 < n" using b by (simp add: n_def TimeOfNextInterrupt_def boot_ok_def add_pos_nonneg)
  define k2 where "k2 = (if randomYield then k1\<lparr>pending := [(n, PendingInterrupt_new TimerHandler n TimerInt)]\<rparr> else power_on d)"
  have eq: "(if randomYield then start_timer (power_on d) else Inr (power_on d)) = Inr k2"
    using n by (auto simp: k2_def start_timer_def Random_def Let_def Timer_new_def Schedule_def n_def [symmetric] k1_def
        Statistics_new_def set_devices_def power_on_def)
  have "kinv dev_inv [] (put_thread 0 (main_thread garbage) k2)"
    by (cases randomYield; rule boot_kinv [OF b])
       (use b in \<open>auto simp: k2_def k1_def boot_ok_def PendingInterrupt_new_def\<close>)
  then have "case SetLevel run_handler IntOn (put_thread 0 (main_thread garbage) k2) of
      Inl e \<Rightarrow> handler_failure dev_inv run_handler e | Inr k' \<Rightarrow> kernel_ok dev_inv k'"
    by (rule nachos.SetLevel_On_ok [where th = "main_thread garbage"])
       (auto simp: k2_def k1_def main_thread_def)
  then show ?thesis using no_handler_failure
    by (auto simp: Initialize_def eq Enable_def split: sum.splits)
qed

text \<open>Device calls keep the invariant of the kernel.\<close>

lemma same_control_linv:
  assumes "linv k" "same_control k k'" "kinv J [] k" "level k' = level k" "\<not> inHandler k'" "sorted (map fst (pending k'))"
  shows "linv k'"
proof -
  obtain th where th: "threads k (currentThread k) = Some th" using kinv_current assms(3) by blast
  have cur: "currentThread k' = currentThread k"
    and "map_option kstack (threads k' (currentThread k)) = map_option kstack (threads k (currentThread k))"
    using assms(2) by (simp_all add: same_control_def)
  then obtain th' where th': "threads k' (currentThread k') = Some th'" "kstack th' = kstack th" using th by auto
  show ?thesis using assms(1,5,6) th th' unfolding linv_def assms(4) by simp
qed

definition quiet :: "nachos \<Rightarrow> nachos \<Rightarrow> bool" where
  "quiet k k' \<longleftrightarrow> level k' = level k \<and> inHandler k' = inHandler k \<and>
     (sorted (map fst (pending k)) \<longrightarrow> sorted (map fst (pending k')))"

lemma device_call_ok:
  assumes ok: "kernel_ok dev_inv k" and r: "r = Inr k'" "kinv dev_inv [] k'" "same_control k k'" "quiet k k'"
  shows "\<exists>k'. r = Inr k' \<and> kernel_ok dev_inv k'"
proof -
  have "linv k'"
    by (rule same_control_linv [of k k' dev_inv]) (use ok r in \<open>auto simp: kernel_ok_def quiet_def linv_def\<close>)
  then show ?thesis using r by (simp add: kernel_ok_def)
qed

lemma quiet_simps [simp]:
  "quiet k (set_devices d k)" "quiet k (k\<lparr>pending := x\<rparr>) = (sorted (map fst (pending k)) \<longrightarrow> sorted (map fst x))"
  "quiet k (count_read k)" "quiet k (count_write k)"
  by (simp_all add: quiet_def count_read_def count_write_def)

lemma quiet_trans: "quiet k k1 \<Longrightarrow> quiet k1 k2 \<Longrightarrow> quiet k k2"
  by (auto simp: quiet_def)

lemma Schedule_quiet:
  assumes "kinv dev_inv p k" "0 < n" "dev_inv (Some h) (dom (semaphores k)) (kernel.more k)"
  shows "\<exists>k'. Schedule h n ty k = Inr k' \<and> kinv dev_inv p k' \<and> same_control k k' \<and> quiet k k'"
proof -
  obtain k' where k': "Schedule h n ty k = Inr k'" "kinv dev_inv p k'" "same_control k k'"
    "sorted (map fst (pending k)) \<longrightarrow> sorted (map fst (pending k'))" and eq: "k' = k\<lparr>pending := pending k'\<rparr>"
    using Schedule_kinv [of dev_inv p k n h ty] assms by auto
  have "level k' = level k" "inHandler k' = inHandler k" by (subst eq, simp)+
  then show ?thesis using k' by (auto simp: quiet_def)
qed

lemma disk_request_ok:
  assumes ok: "kernel_ok dev_inv k" and sd: "synchDisk (kernel.more k) = Some sd"
    and s: "0 \<le> s" "s < NumSectors" and d: "disk_inv d" "lastSector d = lastSector (disk sd)"
    and cnt: "cnt = count_read \<or> cnt = count_write"
  shows "\<exists>k'. Schedule DiskDone (ComputeLatency (now k) (disk sd) s w) DiskInt
      (cnt (set_disk (UpdateLast (now k) s (d\<lparr>active := True\<rparr>)) k)) = Inr k' \<and> kernel_ok dev_inv k'"
proof -
  have inv: "kinv dev_inv [] k" using ok by (simp add: kernel_ok_def)
  have di: "disk_inv (disk sd)" using kinv_dev [OF inv] sd by simp
  have pos: "0 < ComputeLatency (now k) (disk sd) s w"
    using latency_range(1) [of "disk sd" s "now k" w] di s by (simp add: disk_inv_def)
  have "disk_inv (UpdateLast (now k) s (d\<lparr>active := True\<rparr>))"
    using d s by (auto simp: disk_inv_def UpdateLast_def Let_def split: prod.splits)
  note k1 = set_disk_kinv [OF inv sd this]
  let ?k = "cnt (set_disk (UpdateLast (now k) s (d\<lparr>active := True\<rparr>)) k)"
  have c: "kinv dev_inv [] ?k" "same_control k ?k" "quiet k ?k"
    "dev_inv (Some DiskDone) (dom (semaphores ?k)) (kernel.more ?k)"
    using k1 cnt sd same_control_trans [OF _ count_kinv(5)] same_control_trans [OF _ count_kinv(6)]
      quiet_trans [OF _ quiet_simps(3)] quiet_trans [OF _ quiet_simps(4)]
    by (auto simp: count_kinv set_disk_def)
  obtain k' where "Schedule DiskDone (ComputeLatency (now k) (disk sd) s w) DiskInt ?k = Inr k'"
    "kinv dev_inv [] k'" "same_control ?k k'" "quiet ?k k'"
    using Schedule_quiet [OF c(1) pos c(4)] by blast
  then show ?thesis using c same_control_trans quiet_trans
    by (intro device_call_ok [OF ok]) blast+
qed

lemma quiet_put_sem [simp]: "quiet k (put_sem s q k)"
  by (simp add: quiet_def)

lemma new_lock_kernel_ok:
  "kernel_ok dev_inv k \<Longrightarrow> semaphores k s = None \<Longrightarrow> kernel_ok dev_inv (Lock_new s nm k)"
  using nachos.Semaphore_new_ok [of k s 1] by (simp add: Lock_new_def kernel_ok_def)

lemma set_devices_kernel_ok:
  assumes "kernel_ok dev_inv k" "devices_grow (kernel.more k) d" "dev_inv None (dom (semaphores k)) d"
  shows "kernel_ok dev_inv (set_devices d k)"
  using device_call_ok [OF assms(1) refl, of "set_devices d k"] set_devices_kinv [of "[]" k d] assms
  by (auto simp: kernel_ok_def)

lemma SynchDisk_new_ok:
  assumes ok: "kernel_ok dev_inv k" and c: "dcall_ok (D_SynchDisk big file s l) k"
  shows "\<exists>k'. SynchDisk_new big file s l k = Inr k' \<and> kernel_ok dev_inv k'"
proof -
  obtain d where d: "Disk_new big file = Inr d" "DiskSize \<le> length (diskFile d)"
    using c by (auto split: sum.splits)
  then have inv: "disk_inv d" by (auto simp: Disk_new_def disk_inv_def res_simps)
  let ?k0 = "Semaphore_new s ''synch disk'' 0 k"
  let ?k1 = "Lock_new l (Some ''synch disk lock'') ?k0"
  have "kernel_ok dev_inv ?k0"
    using nachos.Semaphore_new_ok [of k s 0] ok c by (simp add: kernel_ok_def)
  then have k1: "kernel_ok dev_inv ?k1" by (rule new_lock_kernel_ok) (use c in \<open>simp add: Semaphore_new_def\<close>)
  have s: "s \<in> dom (semaphores ?k1)" by (simp add: Lock_new_def Semaphore_new_def)
  have "dev_inv None (dom (semaphores ?k1)) (kernel.more ?k1)" using kinv_dev k1 by (auto simp: kernel_ok_def)
  then have "kernel_ok dev_inv (set_devices ((kernel.more ?k1)\<lparr>synchDisk := Some \<lparr>disk = d, disk_sem = s, disk_lock = l\<rparr>\<rparr>) ?k1)"
    by (intro set_devices_kernel_ok [OF k1]) (use inv s in \<open>auto simp: devices_grow_def\<close>)
  then show ?thesis using d(1) by (simp add: SynchDisk_new_def Let_def)
qed

lemma SynchConsole_new_ok:
  assumes ok: "kernel_ok dev_inv k" and c: "dcall_ok (D_SynchConsole inFile outFile env rl wl) k"
  shows "\<exists>k'. SynchConsole_new inFile outFile env rl wl k = Inr k' \<and> kernel_ok dev_inv k'"
proof -
  have inv: "kinv dev_inv [] k" using ok by (simp add: kernel_ok_def)
  define k1 where "k1 = (if inFile = None then set_devices ((kernel.more k)\<lparr>stdin_busy := True\<rparr>) k else k)"
  have k1: "kernel_ok dev_inv k1" "semaphores k1 = semaphores k"
  proof -
    have "kernel_ok dev_inv (set_devices ((kernel.more k)\<lparr>stdin_busy := True\<rparr>) k)"
      by (rule set_devices_kernel_ok [OF ok]) (use kinv_dev [OF inv] in \<open>auto simp: devices_grow_def\<close>)
    then show "kernel_ok dev_inv k1" using ok by (simp add: k1_def)
    show "semaphores k1 = semaphores k" by (simp add: k1_def)
  qed
  define con where "con = env\<lparr>readFileNo := (case inFile of None \<Rightarrow> 0 | Some f \<Rightarrow> f),
      writeFileNo := (case outFile of None \<Rightarrow> 1 | Some f \<Rightarrow> f), putBusy := False, incoming := EOF\<rparr>"
  let ?k2 = "set_console con k1"
  have k2: "kernel_ok dev_inv ?k2"
    unfolding set_console_def by (rule set_devices_kernel_ok [OF k1(1)])
      (use kinv_dev k1(1) in \<open>auto simp: devices_grow_def kernel_ok_def\<close>)
  have d2: "dev_inv (Some ConsoleReadPoll) (dom (semaphores ?k2)) (kernel.more ?k2)" by (simp add: set_console_def)
  obtain k3 where k3: "Schedule ConsoleReadPoll ConsoleTime ConsoleReadInt ?k2 = Inr k3" "kernel_ok dev_inv k3"
    using Schedule_quiet [of "[]" ?k2 100 ConsoleReadPoll ConsoleReadInt] device_call_ok [OF k2] k2 d2
    by (auto simp: kernel_ok_def)
  have "semaphores k3 = semaphores k"
    using k3(1) k1(2) by (auto simp: Schedule_def Let_def res_simps set_console_def)
  then have free: "semaphores k3 rl = None" "semaphores (Lock_new rl nm k3) wl = None" for nm
    using c by (auto simp: Lock_new_def Semaphore_new_def)
  define k4 where "k4 = Lock_new wl (Some ''SynchConsole_WriteLock'') (Lock_new rl (Some ''SynchConsole_ReadLock'') k3)"
  have k4: "kernel_ok dev_inv k4"
    unfolding k4_def by (intro new_lock_kernel_ok k3 free)
  then have "kernel_ok dev_inv (set_devices ((kernel.more k4)\<lparr>m_readLock := rl, m_writeLock := wl\<rparr>) k4)"
    by (rule set_devices_kernel_ok) (use kinv_dev k4 in \<open>auto simp: devices_grow_def kernel_ok_def\<close>)
  moreover have "Console_new inFile outFile env k = Inr k3"
    using c k3(1) by (simp add: Console_new_def Let_def k1_def con_def)
  ultimately show ?thesis by (simp add: SynchConsole_new_def Let_def k4_def)
qed

lemma do_dcall_ok:
  assumes ok: "kernel_ok dev_inv k" and c: "dcall_ok dc k"
  shows "\<exists>k'. do_dcall dc k = Inr k' \<and> kernel_ok dev_inv k'"
proof -
  have inv: "kinv dev_inv [] k" using ok by (simp add: kernel_ok_def)
  note dv = kinv_dev [OF inv]
  show ?thesis
  proof (cases dc)
    case (D_ReadRequest s)
    obtain sd where sd: "synchDisk (kernel.more k) = Some sd" "\<not> active (disk sd)" "0 \<le> s" "s < NumSectors"
      using c D_ReadRequest by (auto split: option.splits)
    have di: "disk_inv (disk sd)" using dv sd by simp
    obtain data where "transfer_in s (disk sd) = Inr data" using transfer_in_eq [OF di sd(3,4)] by blast
    then show ?thesis using disk_request_ok [OF ok sd(1,3,4) di refl, of count_read False] D_ReadRequest sd
      by (auto simp: ReadRequest_def Let_def)
  next
    case (D_WriteRequest s data)
    obtain sd where sd: "synchDisk (kernel.more k) = Some sd" "\<not> active (disk sd)" "0 \<le> s" "s < NumSectors"
      using c D_WriteRequest by (auto split: option.splits)
    have di: "disk_inv (transfer_out s data (disk sd))" using dv sd transfer_out_inv by simp
    have "lastSector (transfer_out s data (disk sd)) = lastSector (disk sd)" by (simp add: transfer_out_def)
    then show ?thesis using disk_request_ok [OF ok sd(1,3,4) di, of count_write True] D_WriteRequest sd
      by (auto simp: WriteRequest_def Let_def)
  next
    case (D_PutChar ch)
    obtain con where con: "console (kernel.more k) = Some con" "\<not> putBusy con"
      using c D_PutChar by (auto split: option.splits)
    let ?k = "set_console (con\<lparr>display := display con @ encode_char (utf8 con) ch, putBusy := True\<rparr>) k"
    have sc: "kinv dev_inv [] ?k" "same_control k ?k" "quiet k ?k"
      using set_console_kinv [OF inv] by (auto simp: set_console_def)
    have "dev_inv (Some ConsoleWriteDone) (dom (semaphores ?k)) (kernel.more ?k)" by (simp add: set_console_def)
    then obtain k' where "Schedule ConsoleWriteDone ConsoleTime ConsoleWriteInt ?k = Inr k'" "kinv dev_inv [] k'"
      "same_control ?k k'" "quiet ?k k'" using Schedule_quiet [OF sc(1), of 100 ConsoleWriteDone ConsoleWriteInt] by auto
    then show ?thesis using sc same_control_trans quiet_trans con D_PutChar
      by (intro device_call_ok [OF ok, of _ k']) (auto simp: PutChar_def)
  next
    case D_GetChar
    then obtain con where con: "console (kernel.more k) = Some con" using c by auto
    have "kernel_ok dev_inv (set_console (con\<lparr>incoming := EOF\<rparr>) k)"
      unfolding set_console_def by (rule set_devices_kernel_ok [OF ok]) (use dv in \<open>auto simp: devices_grow_def\<close>)
    then show ?thesis using con D_GetChar by (simp add: GetChar_def)
  next
    case (D_Machine debug)
    let ?k = "k\<lparr>cpu := Some (Machine_new debug)\<rparr>"
    have "kinv dev_inv [] ?k" using inv
      by (auto simp: kinv_def cpu_inv_def thread_cpu_ok_def regs_ok_def Machine_new_def)
    then show ?thesis using D_Machine
      by (intro device_call_ok [OF ok, of _ ?k]) (auto simp: same_control_def quiet_def)
  next
    case (D_SynchConsole i out env rl wl)
    then show ?thesis using SynchConsole_new_ok [OF ok] c by simp
  next
    case (D_SynchDisk big unixFile s l)
    then show ?thesis using SynchDisk_new_ok [OF ok] c by simp
  qed
qed

lemma sys_reach_ok:
  assumes "sys_reach r garbage d k" "boot_ok garbage d"
  shows "kernel_ok dev_inv k"
  using assms
proof (induction rule: sys_reach.induct)
  case (sys_boot k)
  then show ?case using Initialize_ok [of garbage d r] by auto
next
  case (sys_step k k')
  then show ?case using nachos.kstep_ok [of k] by simp
next
  case (sys_call k c k')
  then show ?case using nachos.do_call_ok [of k c] by simp
next
  case (sys_device k dc k')
  then show ?case using do_dcall_ok [of k dc] by auto
qed

section \<open>Properties of the running kernel\<close>

text \<open>A run that boots without timer, used by the witnesses below.\<close>

definition example_devices :: Devices where
  "example_devices =
     \<lparr>rand = (\<lambda>_. 0), rand_count = 0, randomize = None, synchDisk = None, console = None, stdin_busy = False,
      readAvail = 0, writeDone = 1, m_readLock = 2, m_writeLock = 3\<rparr>"

lemma example_boot_ok: "boot_ok (replicate 40 0) example_devices"
  by (simp add: boot_ok_def example_devices_def)

definition example_kernel :: nachos where
  "example_kernel = (power_on example_devices)\<lparr>
     stats := Statistics_new\<lparr>totalTicks := 10, systemTicks := 10\<rparr>, level := IntOn,
     threads := [0 \<mapsto> main_thread (replicate 40 0)]\<rparr>"

lemma example_initialize: "Initialize False (replicate 40 0) example_devices = Inr example_kernel"
proof -
  have w: "CheckIfDue_while run_handler k = Some (Inr k)" if "pending k = []" "level k = IntOff" for k
    by (subst CheckIfDue_while.simps) (simp add: CheckIfDue_def that)
  show ?thesis
    by (simp add: Initialize_def Enable_def SetLevel_def Let_def OneTick_def tick_def w put_thread_def
        example_kernel_def power_on_def Statistics_new_def)
qed

lemma example_reach: "sys_reach False (replicate 40 0) example_devices example_kernel"
  by (rule sys_boot) (rule example_initialize)

lemma example_in_user: "in_user example_kernel"
  by (simp add: in_user_def example_kernel_def main_thread_def)

lemma kernel_ok_tick: "\<exists>k'. OneTick run_handler example_kernel = Inr k'"
  using nachos.do_call_ok [OF sys_reach_ok [OF example_reach example_boot_ok] example_in_user, of Call_Tick]
    no_handler_failure by (cases "OneTick run_handler example_kernel") auto

text \<open>The main thread makes a semaphore of value 0 and waits on it.\<close>

definition example_blocked :: nachos where
  "example_blocked = example_kernel\<lparr>level := IntOff,
     semaphores := (semaphores example_kernel)(5 \<mapsto> \<lparr>sname = ''s'', svalue = 0, squeue = [(0, 0)]\<rparr>),
     threads := [0 \<mapsto> (main_thread (replicate 40 0))\<lparr>tstatus := BLOCKED, kstack := [Sleeping, Waiting 5 IntOn]\<rparr>]\<rparr>"

lemma example_blocked_reach: "sys_reach False (replicate 40 0) example_devices example_blocked"
proof -
  let ?th = "main_thread (replicate 40 0)"
  let ?k1 = "Semaphore_new 5 ''s'' 0 example_kernel"
  let ?k2 = "put_thread 0 (?th\<lparr>kstack := [Waiting 5 IntOn]\<rparr>) (?k1\<lparr>level := IntOff\<rparr>)"
  have "sys_reach False (replicate 40 0) example_devices ?k1"
    by (rule sys_call [OF example_reach example_in_user, of "Call_Semaphore 5 ''s'' 0"])
       (simp_all add: example_kernel_def example_devices_def)
  moreover have "in_user ?k1" using example_in_user by (simp add: in_user_def Semaphore_new_def)
  moreover have "do_call run_handler (Call_P 5) ?k1 = Inr ?k2"
    by (simp add: P_def Semaphore_new_def push_frame_def upd_thread_def get_thread_def example_kernel_def
        main_thread_def put_thread_def put_sem_def)
  ultimately have "sys_reach False (replicate 40 0) example_devices ?k2"
    by (rule_tac sys_call [where c = "Call_P 5"]) (simp_all add: Semaphore_new_def)
  moreover have "\<not> in_user ?k2" by (simp add: in_user_def example_kernel_def Semaphore_new_def)
  moreover have "kstep run_handler ?k2 = Inr example_blocked"
    by (simp add: kstep_def get_thread_def put_thread_def P_loop_def get_sem_def Semaphore_new_def put_sem_def
        push_frame_def upd_thread_def Sleep_def example_kernel_def example_blocked_def main_thread_def kappend_def)
  ultimately show ?thesis by (rule sys_step)
qed

text \<open>
  C2. Safety of the kernel. Booted on any devices, whatever calls its threads make within their contracts
  (\<open>call_ok\<close>, \<open>dcall_ok\<close>) and whenever interrupts arrive: the kernel never fails an assertion, never touches a deleted thread or
  semaphore, never follows a null pointer and never loops in CheckIfDue. The execution of what a
  thread still has to do in the kernel succeeds, unless nothing is left to do and the machine
  halts; every call that a thread makes within its contract succeeds.
\<close>

theorem kernel_safe:
  assumes "boot_ok garbage d" and "sys_reach randomYield garbage d k"
  shows "if in_user k
         then (\<forall>c. call_ok c k \<longrightarrow> (\<exists>k'. do_call run_handler c k = Inr k')) \<and>
              (\<forall>dc. dcall_ok dc k \<longrightarrow> (\<exists>k'. do_dcall dc k = Inr k'))
         else (\<exists>k'. kstep run_handler k = Inr k') \<or> kstep run_handler k = Inl MachineHalted"
proof -
  have ok: "kernel_ok dev_inv k" using sys_reach_ok [OF assms(2,1)] .
  have "\<exists>k'. do_call run_handler c k = Inr k'" if "in_user k" "call_ok c k" for c
    using nachos.do_call_ok [OF ok that] no_handler_failure by (cases "do_call run_handler c k") auto
  moreover have "\<exists>k'. do_dcall dc k = Inr k'" if "dcall_ok dc k" for dc
    using do_dcall_ok [OF ok that] by blast
  moreover have "(\<exists>k'. kstep run_handler k = Inr k') \<or> kstep run_handler k = Inl MachineHalted"
    using nachos.kstep_ok [OF ok] no_handler_failure by (cases "kstep run_handler k") auto
  ultimately show ?thesis by auto
qed

lemma kernel_safe_witness: "\<exists>k'. do_call run_handler Call_Yield example_kernel = Inr k'"
  using kernel_safe [OF example_boot_ok example_reach] example_in_user call_ok.simps(1) [of example_kernel]
  by (metis (no_types))



text \<open>
  C8. No wakeup is lost: in every reachable kernel, when threads are queued on a semaphore whose
  value is positive, at least as many threads that have been woken up (or have not been blocked) are still inside P on
  that semaphore, READY on the ready list or RUNNING, and will take the units.
\<close>

theorem no_lost_wakeup:
  assumes "boot_ok garbage d" and "sys_reach randomYield garbage d k"
    and "semaphores k s = Some q" and "squeue q \<noteq> []"
  shows "svalue q \<le> int (card {t. \<exists>th. threads k t = Some th \<and> Waiting s IntOn \<in> set (kstack th) \<and>
           (t = currentThread k \<or> t \<in> set (map snd (readyList k))) \<and> tstatus th \<noteq> BLOCKED})"
proof -
  have inv: "kinv dev_inv [] k" using sys_reach_ok [OF assms(2,1)] by (simp add: kernel_ok_def)
  note d = tinvD [OF kinvD(1) [OF inv]]
  have "awake (tview_of [] k) s \<subseteq> {t. \<exists>th. threads k t = Some th \<and> Waiting s IntOn \<in> set (kstack th) \<and>
           (t = currentThread k \<or> t \<in> set (map snd (readyList k))) \<and> tstatus th \<noteq> BLOCKED}" (is "_ \<subseteq> ?A")
  proof
    fix t
    assume "t \<in> awake (tview_of [] k) s"
    then obtain th l where th: "threads k t = Some th" "tstatus th \<noteq> BLOCKED" "Waiting s l \<in> set (kstack th)"
      by (auto simp: awake_def tview_of_Some split: if_splits)
    have ok: "thread_ok (currentThread k) (map snd (readyList k)) (semaphores k) (threadToBeDestroyed k) t (tstatus th) (kstack th)"
      by (rule d(4)) (use th in \<open>simp add: tview_of_def\<close>)
    then have "l = IntOn"
      using th by (auto simp: thread_ok_def calm_def resumable_def returning_def restore_frame_def split: ThreadStatus.splits if_splits)
    then show "t \<in> ?A" using th ok by (auto simp: thread_ok_def split: ThreadStatus.splits)
  qed
  moreover have "finite ?A"
    by (rule finite_subset [OF _ d(1)]) (auto simp: tview_of_def)
  ultimately have "card (awake (tview_of [] k) s) \<le> card ?A" by (rule_tac card_mono)
  then show ?thesis using d(9) [OF assms(3,4)] by linarith
qed

lemma no_lost_wakeup_witness:
  "\<exists>q. semaphores example_blocked 5 = Some q \<and> squeue q \<noteq> [] \<and>
     svalue q \<le> int (card {t. \<exists>th. threads example_blocked t = Some th \<and> Waiting 5 IntOn \<in> set (kstack th) \<and>
           (t = currentThread example_blocked \<or> t \<in> set (map snd (readyList example_blocked))) \<and> tstatus th \<noteq> BLOCKED})"
  using no_lost_wakeup [OF example_boot_ok example_blocked_reach, of 5 "\<lparr>sname = ''s'', svalue = 0, squeue = [(0, 0)]\<rparr>"]
  by (simp add: example_blocked_def)

text \<open>
  C21. The loop \<^verbatim>\<open>while (CheckIfDue(FALSE))\<close> of OneTick and Idle always ends, with the handlers of
  the timer, the disk and the console: whatever the state, finitely many interrupts fire.
\<close>

theorem CheckIfDue_terminates: "\<exists>r. CheckIfDue_while run_handler k = Some r"
  by (rule dev.CheckIfDue_while_ends)

text \<open>Operations that switch threads do not touch the clock nor the pending interrupts.\<close>

lemma upd_thread_time: "upd_thread t f k = Inr k' \<Longrightarrow> now k' = now k \<and> pending k' = pending k"
  by (auto simp: upd_thread_def res_simps)

lemma push_frame_time: "push_frame f k = Inr k' \<Longrightarrow> now k' = now k \<and> pending k' = pending k"
  unfolding push_frame_def by (rule upd_thread_time)

lemma Run_time: "Run t k = Inr k' \<Longrightarrow> now k' = now k \<and> pending k' = pending k"
  by (auto simp: Run_def Let_def res_simps SaveUserState_def CheckOverflow_def
      split: option.splits if_splits dest!: upd_thread_time push_frame_time)

lemma Yield_time:
  assumes "Yield k = Inr k'"
  shows "now k' = now k \<and> pending k' = pending k"
proof -
  obtain k1 where k1: "push_frame (RestoreLevel (level k)) (k\<lparr>level := IntOff\<rparr>) = Inr k1"
    and r: "(case FindNextToRun k1 of (None, k2) \<Rightarrow> Inr k2
       | (Some t, k2) \<Rightarrow> bindR (ReadyToRun (currentThread k2) k2) (Run t)) = Inr k'"
    using assms by (auto simp: Yield_def Let_def res_simps)
  obtain x k2 where f: "FindNextToRun k1 = (x, k2)" by fastforce
  then have "now k2 = now k1 \<and> pending k2 = pending k1"
    by (auto simp: FindNextToRun_def split: if_splits prod.splits)
  then show ?thesis using push_frame_time [OF k1] r f
    by (cases x) (auto simp: ReadyToRun_def res_simps dest!: upd_thread_time Run_time)
qed

text \<open>
  C22. Interrupts are delivered on time: after the tick of the clock that ends an instruction or
  re-enables interrupts, the clock has advanced by the tick of the mode and no pending interrupt is
  due any more, whether or not the tick ended in a context switch.
\<close>

theorem OneTick_delivers:
  assumes "sorted (map fst (pending k))" and "\<not> inHandler k" and "status k \<noteq> IdleMode"
    and "OneTick run_handler k = Inr k'"
  shows "now k' = now k + (if status k = SystemMode then SystemTick else UserTick) \<and>
     sorted (map fst (pending k')) \<and> (\<forall>e \<in> set (pending k'). now k' < fst e)"
proof -
  let ?k = "(tick k)\<lparr>level := IntOff\<rparr>"
  have t: "sorted (map fst (pending ?k))" "\<not> inHandler ?k" "status ?k = status k"
    "now ?k = now k + (if status k = SystemMode then SystemTick else UserTick)"
    using assms(1,2) by (simp_all add: tick_def Let_def)
  obtain k1 where w: "CheckIfDue_while run_handler ?k = Some (Inr k1)"
    and r: "(let k2 = k1\<lparr>level := IntOn\<rparr> in if yieldOnReturn k2
       then bindR (push_frame (RestoreStatus (status k)) (k2\<lparr>yieldOnReturn := False, status := SystemMode\<rparr>)) Yield
       else Inr k2) = Inr k'"
    using assms(4) dev.CheckIfDue_while_ends [of ?k] by (auto simp: OneTick_def res_simps)
  note c = dev.CheckIfDue_while_result [OF w t(1,2)]
  have "now k' = now k1 \<and> pending k' = pending k1"
    using r by (auto simp: Let_def res_simps split: if_splits dest!: Yield_time push_frame_time)
  then show ?thesis using c t assms(3) by simp
qed

lemma OneTick_delivers_witness:
  "\<exists>k'. OneTick run_handler example_kernel = Inr k' \<and> now k' = 20 \<and> (\<forall>e \<in> set (pending k'). now k' < fst e)"
proof -
  have "\<exists>k'. OneTick run_handler example_kernel = Inr k'"
    using kernel_ok_tick by simp
  then show ?thesis using OneTick_delivers [of example_kernel]
    by (auto simp: example_kernel_def power_on_def)
qed

end
