(* ===== verification/Nachos_Fairness.thy ===== *)
theory Nachos_Fairness
  imports Nachos_System
begin

text \<open>
  The order in which ready threads get the processor. Every operation of the kernel changes the
  ready list only by appending at its end and by removing its head, and the head removed becomes
  the current thread; the contract on interrupt handlers is the locale \<open>fair_handlers\<close>. It follows
  that no thread overtakes another on the ready list, and that the waiting of a ready thread is
  bounded.
\<close>

section \<open>The ready list\<close>

definition ready_tids :: "('h, 'd) kernel_scheme \<Rightarrow> tid list" where
  "ready_tids k = map snd (readyList k)"

definition appends :: "('h, 'd) kernel_scheme \<Rightarrow> ('h, 'd) kernel_scheme \<Rightarrow> bool" where
  "appends k k' \<longleftrightarrow> currentThread k' = currentThread k \<and> (\<exists>zs. ready_tids k' = ready_tids k @ zs)"

definition fifo_step :: "('h, 'd) kernel_scheme \<Rightarrow> ('h, 'd) kernel_scheme \<Rightarrow> bool" where
  "fifo_step k k' \<longleftrightarrow> appends k k' \<or>
     (\<exists>zs rest zs'. ready_tids k @ zs = currentThread k' # rest \<and> ready_tids k' = rest @ zs')"

lemma appends_refl [simp]: "appends k k"
  by (simp add: appends_def)

lemma appends_trans: "appends k k1 \<Longrightarrow> appends k1 k2 \<Longrightarrow> appends k k2"
  by (auto simp: appends_def)

lemma appends_fifo: "appends k k' \<Longrightarrow> fifo_step k k'"
  by (simp add: fifo_step_def)

lemma fifo_stepI: "ready_tids k @ zs = currentThread k' # rest \<Longrightarrow> ready_tids k' = rest @ zs' \<Longrightarrow> fifo_step k k'"
  unfolding fifo_step_def by blast

lemma appends_then_fifo:
  assumes "appends k k1" "fifo_step k1 k2"
  shows "fifo_step k k2"
proof (cases "appends k1 k2")
  case True
  then show ?thesis using assms(1) appends_trans appends_fifo by blast
next
  case False
  then obtain zs rest zs' where r: "ready_tids k1 @ zs = currentThread k2 # rest" "ready_tids k2 = rest @ zs'"
    using assms(2) by (auto simp: fifo_step_def)
  obtain ys where "ready_tids k1 = ready_tids k @ ys" using assms(1) by (auto simp: appends_def)
  then show ?thesis using r by (intro fifo_stepI [of k "ys @ zs"]) simp_all
qed

lemma appends_same:
  "readyList k' = readyList k \<Longrightarrow> currentThread k' = currentThread k \<Longrightarrow> appends k k'"
  by (simp add: appends_def ready_tids_def)

lemma upd_thread_appends: "upd_thread t f k = Inr k' \<Longrightarrow> appends k k'"
  by (auto simp: upd_thread_def res_simps intro: appends_same)

lemma push_frame_appends: "push_frame f k = Inr k' \<Longrightarrow> appends k k'"
  unfolding push_frame_def by (rule upd_thread_appends)

lemma ReadyToRun_appends: "ReadyToRun t k = Inr k' \<Longrightarrow> appends k k'"
  by (auto simp: ReadyToRun_def upd_thread_def res_simps appends_def ready_tids_def kappend_def)

lemma V_atomic_appends:
  assumes "V_atomic s k = Inr k'"
  shows "appends k k'"
proof -
  obtain q where q: "get_sem s k = Inr q" using assms by (auto simp: V_atomic_def res_simps)
  show ?thesis
  proof (cases "squeue q")
    case Nil
    then show ?thesis using assms q by (auto simp: V_atomic_def intro: appends_same)
  next
    case (Cons e rest)
    then obtain k1 where "ReadyToRun (snd e) k = Inr k1" "k' = put_sem s (q\<lparr>squeue := rest, svalue := svalue q + 1\<rparr>) k1"
      using assms q by (cases e) (auto simp: V_atomic_def res_simps)
    then show ?thesis using ReadyToRun_appends [of "snd e" k k1] by (simp add: appends_def ready_tids_def)
  qed
qed

lemma Schedule_appends: "Schedule h n ty k = Inr k' \<Longrightarrow> appends k k'"
  by (auto simp: Schedule_def Let_def res_simps intro: appends_same)

lemma finish_load_appends: "finish_load k = Inr k' \<Longrightarrow> appends k k'"
  by (auto simp: finish_load_def res_simps split: option.splits if_splits intro: appends_same)

lemma RestoreState_appends: "RestoreState a k = Inr k' \<Longrightarrow> appends k k'"
  by (cases "spaces k a"; cases "cpu k") (auto simp: RestoreState_def intro: appends_same)

lemma RestoreUserState_appends: "RestoreUserState t k = Inr k' \<Longrightarrow> appends k k'"
  by (cases "cpu k") (auto simp: RestoreUserState_def res_simps intro: appends_same)

lemma Thread_delete_appends: "Thread_delete t k = Inr k' \<Longrightarrow> appends k k'"
  by (auto simp: Thread_delete_def res_simps intro: appends_same)

lemma after_switch_appends:
  assumes "after_switch k = Inr k'"
  shows "appends k k'"
proof -
  obtain k1 and th :: Thread where k1: "(case threadToBeDestroyed k of None \<Rightarrow> Inr k
       | Some t \<Rightarrow> bindR (Thread_delete t k) (\<lambda>k1. Inr (k1\<lparr>threadToBeDestroyed := None\<rparr>))) = Inr k1"
    and r: "(case space th of None \<Rightarrow> Inr k1 | Some a \<Rightarrow> bindR (RestoreUserState (currentThread k1) k1) (RestoreState a)) = Inr k'"
    using assms unfolding after_switch_def bindR_eq_Inr by blast
  have "appends k k1"
    using k1 by (auto simp: res_simps split: option.splits dest!: Thread_delete_appends)
      (simp add: appends_def ready_tids_def)
  moreover have "appends k1 k'"
    using r by (auto simp: res_simps split: option.splits dest!: RestoreUserState_appends RestoreState_appends intro: appends_trans)
  ultimately show ?thesis by (rule appends_trans)
qed

text \<open>A dispatch: the head of the list is removed and run.\<close>

lemma upd_thread_ready: "upd_thread t f k = Inr k' \<Longrightarrow> currentThread k' = currentThread k \<and> readyList k' = readyList k"
  by (auto simp: upd_thread_def res_simps)

lemma push_frame_ready: "push_frame f k = Inr k' \<Longrightarrow> currentThread k' = currentThread k \<and> readyList k' = readyList k"
  unfolding push_frame_def by (rule upd_thread_ready)

lemma Run_ready: "Run t k = Inr k' \<Longrightarrow> currentThread k' = t \<and> readyList k' = readyList k"
  by (auto simp: Run_def Let_def res_simps SaveUserState_def CheckOverflow_def
      split: option.splits if_splits dest!: upd_thread_ready push_frame_ready)

lemma FindNextToRun_ready:
  assumes "FindNextToRun k = (x, k1)"
  shows "currentThread k1 = currentThread k"
    "x = None \<Longrightarrow> ready_tids k1 = ready_tids k" "x = Some t \<Longrightarrow> ready_tids k = t # ready_tids k1"
  using assms by (cases "readyList k"; auto simp: FindNextToRun_def ready_tids_def split: if_splits)+

lemma Yield_fifo:
  assumes "Yield k = Inr k'"
  shows "fifo_step k k'"
proof -
  obtain k1 where k1: "push_frame (RestoreLevel (level k)) (k\<lparr>level := IntOff\<rparr>) = Inr k1"
    and r: "(case FindNextToRun k1 of (None, k2) \<Rightarrow> Inr k2
       | (Some t, k2) \<Rightarrow> bindR (ReadyToRun (currentThread k2) k2) (Run t)) = Inr k'"
    using assms by (auto simp: Yield_def Let_def res_simps)
  have a: "appends k k1"
    using push_frame_appends [OF k1] by (simp add: appends_def ready_tids_def)
  obtain x k2 where f: "FindNextToRun k1 = (x, k2)" by fastforce
  note fr = FindNextToRun_ready [OF f]
  show ?thesis
  proof (cases x)
    case None
    then have "appends k1 k'" using r f fr by (simp add: appends_def)
    then show ?thesis using a appends_trans appends_fifo by blast
  next
    case (Some t)
    then obtain k3 where k3: "ReadyToRun (currentThread k2) k2 = Inr k3" "Run t k3 = Inr k'"
      using r f by (auto simp: res_simps)
    obtain zs where "ready_tids k' = ready_tids k2 @ zs" "currentThread k' = t"
      using ReadyToRun_appends [OF k3(1)] Run_ready [OF k3(2)] by (auto simp: appends_def ready_tids_def)
    then have "fifo_step k1 k'" using fr(3) [OF Some] by (intro fifo_stepI [of k1 "[]"]) simp_all
    then show ?thesis by (rule appends_then_fifo [OF a])
  qed
qed

locale fair_handlers = interrupt_handlers run
  for run :: "'h \<Rightarrow> ('h, 'd) kernel_scheme \<Rightarrow> ('h, 'd) kernel_scheme res" +
  assumes run_appends: "run h k = Inr k' \<Longrightarrow> appends k k'"
begin

lemma fire_appends: "fire run p k = Inr k' \<Longrightarrow> appends k k'"
proof -
  assume "fire run p k = Inr k'"
  then obtain k1 k2 where f: "finish_load k = Inr k1"
    "run (handler p) (k1\<lparr>inHandler := True, status := SystemMode\<rparr>) = Inr k2"
    "k' = k2\<lparr>status := status k, inHandler := False\<rparr>"
    by (auto simp: fire_def res_simps)
  then have "appends k k1" "appends (k1\<lparr>inHandler := True, status := SystemMode\<rparr>) k2"
    using finish_load_appends run_appends by blast+
  then show ?thesis using f(3) by (auto simp: appends_def ready_tids_def)
qed

lemma CheckIfDue_appends:
  assumes "CheckIfDue run adv k = Inr (b, k')"
  shows "appends k k'"
proof (cases "pending k")
  case Nil
  then show ?thesis using assms by (auto simp: CheckIfDue_def res_simps)
next
  case (Cons e rest)
  obtain due x where e: "e = (due, x)" by fastforce
  have same: "appends (advance_clock due (k\<lparr>pending := rest\<rparr>)) k1 \<Longrightarrow> appends k k1"
    "appends (k\<lparr>pending := rest\<rparr>) k1 \<Longrightarrow> appends k k1" for k1
    by (simp_all add: appends_def ready_tids_def advance_clock_def)
  show ?thesis using assms Cons e
    by (auto simp: CheckIfDue_def Let_def res_simps split: if_splits dest!: fire_appends intro: same)
       (simp_all add: appends_def ready_tids_def advance_clock_def)
qed

lemma CheckIfDue_while_appends:
  assumes "CheckIfDue_while run k = Some (Inr k')"
  shows "appends k k'"
proof -
  have "\<exists>k1. appends k k1 \<and> CheckIfDue run False k1 = Inr (False, k')"
    by (rule CheckIfDue_while_induct [of k k' "appends k", OF assms])
       (auto dest: CheckIfDue_appends intro: appends_trans)
  then show ?thesis using CheckIfDue_appends appends_trans by blast
qed

lemma loop_appends: "loop_result (CheckIfDue_while run k) = Inr k' \<Longrightarrow> appends k k'"
  using CheckIfDue_while_ends [of k] CheckIfDue_while_appends by auto

lemma Idle_appends:
  assumes "Idle run k = Inr k'"
  shows "appends k k'"
proof -
  obtain b k1 where k1: "CheckIfDue run True (k\<lparr>status := IdleMode\<rparr>) = Inr (b, k1)" "b"
    and k2: "\<exists>k2. loop_result (CheckIfDue_while run k1) = Inr k2 \<and> k' = k2\<lparr>yieldOnReturn := False, status := SystemMode\<rparr>"
    using assms by (auto simp: Idle_def Halt_def res_simps split: if_splits)
  have "appends (k\<lparr>status := IdleMode\<rparr>) k1" using CheckIfDue_appends k1 by blast
  then show ?thesis using k2 loop_appends by (fastforce simp: appends_def ready_tids_def)
qed

lemma OneTick_fifo:
  assumes "OneTick run k = Inr k'"
  shows "fifo_step k k'"
proof -
  obtain k1 where k1: "loop_result (CheckIfDue_while run ((tick k)\<lparr>level := IntOff\<rparr>)) = Inr k1"
    and r: "(if yieldOnReturn k1
       then bindR (push_frame (RestoreStatus (status k)) (k1\<lparr>level := IntOn, yieldOnReturn := False, status := SystemMode\<rparr>)) Yield
       else Inr (k1\<lparr>level := IntOn\<rparr>)) = Inr k'"
    using assms by (auto simp: OneTick_def Let_def res_simps split: if_splits)
  have a: "appends k k1" using loop_appends [OF k1] by (simp add: appends_def ready_tids_def tick_def Let_def)
  show ?thesis
  proof (cases "yieldOnReturn k1")
    case True
    then obtain k2 where k2: "push_frame (RestoreStatus (status k)) (k1\<lparr>level := IntOn, yieldOnReturn := False, status := SystemMode\<rparr>) = Inr k2"
      "Yield k2 = Inr k'" using r by (auto simp: res_simps)
    have "appends k1 k2" using push_frame_appends [OF k2(1)] by (simp add: appends_def ready_tids_def)
    then show ?thesis using a Yield_fifo [OF k2(2)] appends_then_fifo by blast
  next
    case False
    then show ?thesis using r a by (auto simp: appends_def ready_tids_def intro: appends_fifo)
  qed
qed

lemma SetLevel_fifo:
  assumes "SetLevel run l k = Inr k'"
  shows "fifo_step k k'"
proof (cases "l = IntOn \<and> level k = IntOff")
  case True
  then have "fifo_step (k\<lparr>level := IntOn\<rparr>) k'"
    using assms OneTick_fifo by (auto simp: SetLevel_def Let_def res_simps)
  then show ?thesis by (simp add: fifo_step_def appends_def ready_tids_def)
next
  case False
  then show ?thesis using assms
    by (auto simp: SetLevel_def Let_def res_simps intro!: appends_fifo appends_same split: if_splits)
qed

lemma Sleep_loop_fifo:
  assumes "Sleep_loop run k = Inr k'"
  shows "fifo_step k k'"
proof -
  obtain x k1 where f: "FindNextToRun k = (x, k1)" by fastforce
  note fr = FindNextToRun_ready [OF f]
  show ?thesis
  proof (cases x)
    case None
    then obtain k2 where k2: "Idle run k1 = Inr k2" "push_frame Sleeping k2 = Inr k'"
      using assms f by (auto simp: Sleep_loop_def res_simps)
    have "appends k k1" using fr None by (simp add: appends_def)
    then show ?thesis using Idle_appends [OF k2(1)] push_frame_appends [OF k2(2)] appends_trans appends_fifo by blast
  next
    case (Some t)
    then have r: "Run t k1 = Inr k'" using assms f by (simp add: Sleep_loop_def)
    have "ready_tids k @ [] = currentThread k' # ready_tids k1" "ready_tids k' = ready_tids k1 @ []"
      using Run_ready [OF r] fr(3) [OF Some] by (simp_all add: ready_tids_def)
    then show ?thesis unfolding fifo_step_def by blast
  qed
qed

lemma run_frame_fifo:
  assumes "run_frame run f k = Inr k'"
  shows "fifo_step k k'"
proof (cases f)
  case (Waiting s l)
  then obtain q where q: "get_sem s k = Inr q"
    "(if svalue q = 0 then bindR (push_frame (Waiting s l) (put_sem s (q\<lparr>squeue := kappend (currentThread k) (squeue q)\<rparr>) k)) Sleep
      else SetLevel run l (put_sem s (q\<lparr>svalue := svalue q - 1\<rparr>) k)) = Inr k'"
    using assms by (auto simp: P_loop_def res_simps)
  show ?thesis
  proof (cases "svalue q = 0")
    case True
    then obtain k1 k2 where k1: "push_frame (Waiting s l) (put_sem s (q\<lparr>squeue := kappend (currentThread k) (squeue q)\<rparr>) k) = Inr k1"
      "upd_thread (currentThread k1) (\<lambda>th. th\<lparr>tstatus := BLOCKED\<rparr>) k1 = Inr k2" "push_frame Sleeping k2 = Inr k'"
      using q by (auto simp: Sleep_def res_simps)
    have "appends k k1" using push_frame_appends [OF k1(1)] by (simp add: appends_def ready_tids_def)
    then show ?thesis
      using upd_thread_appends [OF k1(2)] push_frame_appends [OF k1(3)] appends_trans appends_fifo by blast
  next
    case False
    then have "fifo_step (put_sem s (q\<lparr>svalue := svalue q - 1\<rparr>) k) k'" using q SetLevel_fifo by auto
    then show ?thesis by (simp add: fifo_step_def appends_def ready_tids_def)
  qed
next
  case Startup
  then obtain k1 where "after_switch k = Inr k1" "SetLevel run IntOn k1 = Inr k'"
    using assms by (auto simp: SetupThreadState_def Enable_def res_simps)
  then show ?thesis using after_switch_appends SetLevel_fifo appends_then_fifo by blast
next
  case (RestoreStatus st)
  then show ?thesis using assms by (auto intro!: appends_fifo appends_same)
qed (use assms in \<open>auto intro: SetLevel_fifo Sleep_loop_fifo appends_fifo after_switch_appends\<close>)

lemma kstep_fifo:
  assumes "kstep run k = Inr k'"
  shows "fifo_step k k'"
proof -
  obtain th where th: "threads k (currentThread k) = Some th" using assms
    by (auto simp: kstep_def get_thread_def split: option.splits)
  show ?thesis
  proof (cases "kstack th")
    case Nil
    then show ?thesis using assms th by (simp add: kstep_def get_thread_def appends_fifo)
  next
    case (Cons f fs)
    then have "fifo_step (put_thread (currentThread k) (th\<lparr>kstack := fs\<rparr>) k) k'"
      using assms th run_frame_fifo by (simp add: kstep_def get_thread_def)
    then show ?thesis by (simp add: fifo_step_def appends_def ready_tids_def)
  qed
qed

lemma do_call_fifo:
  assumes "do_call run c k = Inr k'"
  shows "fifo_step k k'"
proof (cases c)
  case Call_Finish
  then obtain k2 where k2: "upd_thread (currentThread k) (\<lambda>th. th\<lparr>tstatus := BLOCKED\<rparr>)
      (k\<lparr>level := IntOff, threadToBeDestroyed := Some (currentThread k)\<rparr>) = Inr k2" "push_frame Sleeping k2 = Inr k'"
    using assms by (auto simp: Finish_def Sleep_def Let_def res_simps)
  have "appends k k2" using upd_thread_appends [OF k2(1)] by (simp add: appends_def ready_tids_def)
  then show ?thesis using push_frame_appends [OF k2(2)] appends_trans appends_fifo by blast
next
  case (Call_P s)
  then have "appends (k\<lparr>level := IntOff\<rparr>) k'" using assms push_frame_appends by (auto simp: P_def Let_def)
  then show ?thesis by (simp add: appends_def ready_tids_def appends_fifo fifo_step_def)
next
  case (Call_V s)
  then obtain k1 where "V_atomic s (k\<lparr>level := IntOff\<rparr>) = Inr k1" "SetLevel run (level k) k1 = Inr k'"
    using assms by (auto simp: V_def Let_def res_simps)
  then have "appends (k\<lparr>level := IntOff\<rparr>) k1" "fifo_step k1 k'" using V_atomic_appends SetLevel_fifo by blast+
  then show ?thesis using appends_then_fifo [of k k1 k'] by (simp add: appends_def ready_tids_def)
next
  case (Call_Start t)
  then obtain k1 k2 where k1: "StackAllocate t k = Inr k1" "ReadyToRun t (k1\<lparr>level := IntOff\<rparr>) = Inr k2"
    "SetLevel run (level k1) k2 = Inr k'"
    using assms by (auto simp: Start_def Let_def res_simps)
  have "appends k k1" using k1(1) upd_thread_appends by (auto simp: StackAllocate_def)
  moreover have "appends k1 k2" using ReadyToRun_appends [OF k1(2)] by (simp add: appends_def ready_tids_def)
  ultimately show ?thesis using SetLevel_fifo [OF k1(3)] appends_trans appends_then_fifo by blast
next
  case (Call_New t n g)
  then show ?thesis using assms by (auto simp: Thread_new_def res_simps intro!: appends_fifo appends_same)
next
  case (Call_Semaphore s n v)
  then show ?thesis using assms by (auto simp: Semaphore_new_def intro!: appends_fifo appends_same)
qed (use assms in \<open>auto intro: Yield_fifo OneTick_fifo\<close>)

end

section \<open>The handlers of the devices\<close>

lemma set_devices_appends: "appends (set_devices d k) k' = appends k k'" "appends k (set_devices d k') = appends k k'"
  "appends k (put_sem s q k') = appends k k'"
  by (simp_all add: appends_def ready_tids_def)

lemma count_appends:
  "appends (count_read k) k' = appends k k'" "appends (count_write k) k' = appends k k'"
  "appends (count_char_read k) k' = appends k k'" "appends (count_char_written k) k' = appends k k'"
  by (simp_all add: appends_def ready_tids_def count_read_def count_write_def count_char_read_def count_char_written_def)

lemmas device_appends = set_devices_appends count_appends set_disk_def set_console_def

lemma TimerInterruptHandler_appends: "TimerInterruptHandler k = Inr k' \<Longrightarrow> appends k k'"
  by (auto simp: TimerInterruptHandler_def YieldOnReturn_def res_simps intro: appends_same split: if_splits)

lemma run_handler_appends:
  assumes "run_handler h k = Inr k'"
  shows "appends k k'"
proof (cases h)
  case TimerHandler
  then show ?thesis using assms
    by (auto simp: timer_interrupt_def Random_def Let_def TimerExpired_def res_simps device_appends
        split: option.splits if_splits dest!: Schedule_appends TimerInterruptHandler_appends intro: appends_trans)
next
  case DiskDone
  then show ?thesis using assms
    by (auto simp: HandleInterrupt_def handler_V_def device_appends split: option.splits dest!: V_atomic_appends)
next
  case ConsoleReadPoll
  then show ?thesis using assms
    by (auto simp: CheckCharAvail_def Let_def handler_V_def device_appends res_simps
        split: option.splits if_splits prod.splits arrival.splits
        dest!: V_atomic_appends Schedule_appends intro: appends_trans)
next
  case ConsoleWriteDone
  then show ?thesis using assms
    by (auto simp: WriteDone_def handler_V_def device_appends split: option.splits dest!: V_atomic_appends)
qed

interpretation fair: fair_handlers run_handler
  by unfold_locales (rule run_handler_appends)

lemma SynchDisk_new_appends: "SynchDisk_new big file s l k = Inr k' \<Longrightarrow> appends k k'"
  by (auto simp: SynchDisk_new_def Let_def res_simps device_appends Lock_new_def Semaphore_new_def intro: appends_same)

lemma Console_new_appends: "Console_new i out env k = Inr k' \<Longrightarrow> appends k k'"
  by (auto simp: Console_new_def Let_def res_simps device_appends split: if_splits dest!: Schedule_appends)

lemma do_dcall_appends:
  assumes "do_dcall dc k = Inr k'"
  shows "appends k k'"
proof (cases dc)
  case (D_ReadRequest s)
  then obtain data where "ReadRequest s k = Inr (data, k')" using assms by (cases "ReadRequest s k") auto
  then show ?thesis
    by (auto simp: ReadRequest_def Let_def res_simps device_appends split: option.splits dest!: Schedule_appends)
next
  case (D_WriteRequest s data)
  then show ?thesis using assms
    by (auto simp: WriteRequest_def Let_def res_simps device_appends split: option.splits dest!: Schedule_appends)
next
  case (D_PutChar ch)
  then show ?thesis using assms
    by (auto simp: PutChar_def res_simps device_appends split: option.splits dest!: Schedule_appends)
next
  case D_GetChar
  then show ?thesis using assms by (auto simp: GetChar_def device_appends split: option.splits)
next
  case (D_SynchConsole i out env rl wl)
  then show ?thesis using assms
    by (auto simp: SynchConsole_new_def Let_def res_simps device_appends Lock_new_def Semaphore_new_def
        dest!: Console_new_appends)
next
  case (D_SynchDisk big unixFile s l)
  then show ?thesis using assms SynchDisk_new_appends by auto
qed (use assms in \<open>auto intro: appends_same\<close>)

section \<open>Bounded waiting\<close>

text \<open>One step of the system: the kernel, or a call of the thread that runs.\<close>

definition sys_next :: "nachos \<Rightarrow> nachos \<Rightarrow> bool" where
  "sys_next k k' \<longleftrightarrow>
     (\<not> in_user k \<and> kstep run_handler k = Inr k') \<or>
     (in_user k \<and> (\<exists>c. call_ok c k \<and> do_call run_handler c k = Inr k')) \<or>
     (in_user k \<and> (\<exists>dc. dcall_ok dc k \<and> do_dcall dc k = Inr k'))"

lemma sys_next_fifo: "sys_next k k' \<Longrightarrow> fifo_step k k'"
  by (auto simp: sys_next_def intro: fair.kstep_fifo fair.do_call_fifo appends_fifo do_dcall_appends)

fun sys_run :: "nachos list \<Rightarrow> bool" where
  "sys_run (k # k' # ks) \<longleftrightarrow> sys_next k k' \<and> sys_run (k' # ks)"
| "sys_run _ \<longleftrightarrow> True"

text \<open>How often the current thread changes in a run.\<close>

fun switches :: "nachos list \<Rightarrow> nat" where
  "switches (k # k' # ks) = (if currentThread k' \<noteq> currentThread k then 1 else 0) + switches (k' # ks)"
| "switches _ = 0"

lemma no_overtaking:
  assumes "fifo_step k k'" and "ready_tids k = xs @ t # ys"
  shows "(currentThread k' = currentThread k \<and> (\<exists>ys'. ready_tids k' = xs @ t # ys')) \<or>
     (\<exists>x xs' ys'. xs = x # xs' \<and> currentThread k' = x \<and> ready_tids k' = xs' @ t # ys') \<or>
     (xs = [] \<and> currentThread k' = t)"
proof (cases "appends k k'")
  case True
  then show ?thesis using assms(2) by (auto simp: appends_def)
next
  case False
  then obtain zs rest zs' where r: "ready_tids k @ zs = currentThread k' # rest" "ready_tids k' = rest @ zs'"
    using assms(1) by (auto simp: fifo_step_def)
  then show ?thesis using assms(2) by (cases xs) auto
qed

lemma waiting_run:
  "sys_run (k # ks) \<Longrightarrow> ready_tids k = xs @ t # ys \<Longrightarrow> length xs < switches (k # ks) \<Longrightarrow>
   \<exists>k' \<in> set ks. currentThread k' = t"
proof (induction ks arbitrary: k xs ys)
  case Nil
  then show ?case by simp
next
  case (Cons k1 ks)
  from no_overtaking [OF sys_next_fifo Cons.prems(2), of k1] Cons.prems(1)
  consider (same) ys' where "currentThread k1 = currentThread k" "ready_tids k1 = xs @ t # ys'"
    | (nxt) x xs' ys' where "xs = x # xs'" "ready_tids k1 = xs' @ t # ys'"
    | (now) "currentThread k1 = t" by auto
  then show ?case
  proof cases
    case same
    then show ?thesis using Cons.IH [of k1 xs ys'] Cons.prems by auto
  next
    case nxt
    then have "length xs' < switches (k1 # ks)" using Cons.prems(3) by (auto split: if_splits)
    then show ?thesis using Cons.IH [of k1 xs' ys'] Cons.prems nxt by auto
  next
    case now
    then show ?thesis by simp
  qed
qed

text \<open>
  C10. Bounded waiting: in every run of the system, a thread that is on the ready list with \<open>n\<close>
  threads before it gets the processor before the current thread has changed more than \<open>n\<close> times,
  whatever the threads do and whatever interrupts arrive meanwhile.
\<close>

theorem bounded_waiting:
  assumes "sys_run (k # ks)" and "n < length (ready_tids k)" and "n < switches (k # ks)"
  shows "\<exists>k' \<in> set ks. currentThread k' = ready_tids k ! n"
  by (rule waiting_run [OF assms(1) id_take_nth_drop [OF assms(2)]]) (use assms(2,3) in simp)

definition example_ready :: nachos where
  "example_ready = example_kernel\<lparr>readyList := [(0, 1)],
     threads := [0 \<mapsto> main_thread (replicate 40 0), 1 \<mapsto> (main_thread (replicate 40 0))\<lparr>tstatus := READY, kstack := [Startup]\<rparr>]\<rparr>"

lemma bounded_waiting_witness:
  "\<exists>k'. do_call run_handler Call_Yield example_ready = Inr k' \<and> (\<exists>k1 \<in> set [k']. currentThread k1 = ready_tids example_ready ! 0)"
proof -
  have u: "in_user example_ready" by (simp add: in_user_def example_ready_def example_kernel_def main_thread_def)
  obtain k' where k': "Yield example_ready = Inr k'" "currentThread k' = 1"
    by (simp add: Yield_def push_frame_def upd_thread_def get_thread_def example_ready_def example_kernel_def main_thread_def
        put_thread_def FindNextToRun_def ReadyToRun_def Run_def Let_def CheckOverflow_def kappend_def power_on_def)
  have "call_ok Call_Yield example_ready \<and> do_call run_handler Call_Yield example_ready = Inr k'" using k' by simp
  then have "sys_next example_ready k'" using u unfolding sys_next_def by blast
  then have "sys_run [example_ready, k']" by simp
  moreover have "switches [example_ready, k'] = 1" "length (ready_tids example_ready) = 1"
    using k' by (simp_all add: example_ready_def example_kernel_def ready_tids_def)
  ultimately show ?thesis using bounded_waiting [of example_ready "[k']" 0] k' by simp
qed

end
