(* ===== verification/Nachos_BitMap.thy ===== *)
theory Nachos_BitMap
  imports Nachos_Prelude
begin

text \<open>
  The bitmaps of \<^verbatim>\<open>code/userprog/bitmap.cc\<close>, at the level of the 32-bit words that store the
  bits, the set of marked bits they represent, and the allocator interface that the file headers
  and the user thread table rely on.
\<close>

section \<open>The bitmap\<close>

abbreviation BitsInWord :: int where
  "BitsInWord \<equiv> 32"

record BitMap =
  numBits :: int
  numWords :: int
  bmap :: "32 word list"

text \<open>An access to the word array at a C int index.\<close>

definition word_at :: "BitMap \<Rightarrow> int \<Rightarrow> 32 word res" where
  "word_at b i = (if 0 \<le> i \<and> i < int (length (bmap b)) then Inr (bmap b ! nat i) else Inl OutOfBounds)"

definition Mark :: "int \<Rightarrow> BitMap \<Rightarrow> BitMap res" where
  "Mark which b =
     ASSERT (which \<ge> 0 \<and> which < numBits b)
       (bindR (word_at b (which sdiv BitsInWord)) (\<lambda>w.
          Inr (b\<lparr>bmap := (bmap b)[nat (which sdiv BitsInWord) :=
                 w OR push_bit (nat (which smod BitsInWord)) 1]\<rparr>)))"

definition Clear :: "int \<Rightarrow> BitMap \<Rightarrow> BitMap res" where
  "Clear which b =
     ASSERT (which \<ge> 0 \<and> which < numBits b)
       (bindR (word_at b (which sdiv BitsInWord)) (\<lambda>w.
          Inr (b\<lparr>bmap := (bmap b)[nat (which sdiv BitsInWord) :=
                 w AND NOT (push_bit (nat (which smod BitsInWord)) 1)]\<rparr>)))"

definition Test :: "int \<Rightarrow> BitMap \<Rightarrow> bool res" where
  "Test which b =
     ASSERT (which \<ge> 0 \<and> which < numBits b)
       (bindR (word_at b (which sdiv BitsInWord)) (\<lambda>w.
          Inr (w AND push_bit (nat (which smod BitsInWord)) 1 \<noteq> 0)))"

text \<open>
  The loops run over the list of the values that the loop variable takes. \<open>garbage\<close> is what the
  array allocated by the constructor holds before the loop.
\<close>

fun Clear_loop :: "int list \<Rightarrow> BitMap \<Rightarrow> BitMap res" where
  "Clear_loop [] b = Inr b"
| "Clear_loop (i # is) b = bindR (Clear i b) (Clear_loop is)"

definition BitMap_new :: "32 word list \<Rightarrow> int \<Rightarrow> BitMap res" where
  "BitMap_new garbage nitems =
     (let nw = divRoundUp nitems BitsInWord in
      Clear_loop [0..nitems - 1]
        \<lparr>numBits = nitems, numWords = nw, bmap = take (nat nw) garbage\<rparr>)"

fun Find_loop :: "int list \<Rightarrow> BitMap \<Rightarrow> (int \<times> BitMap) res" where
  "Find_loop [] b = Inr (- 1, b)"
| "Find_loop (i # is) b =
     bindR (Test i b) (\<lambda>set. if \<not> set then bindR (Mark i b) (\<lambda>b'. Inr (i, b')) else Find_loop is b)"

definition Find :: "BitMap \<Rightarrow> (int \<times> BitMap) res" where
  "Find b = Find_loop [0..numBits b - 1] b"

fun NumClear_loop :: "int list \<Rightarrow> BitMap \<Rightarrow> int \<Rightarrow> int res" where
  "NumClear_loop [] b cnt = Inr cnt"
| "NumClear_loop (i # is) b cnt =
     bindR (Test i b) (\<lambda>set. NumClear_loop is b (if \<not> set then cnt + 1 else cnt))"

definition NumClear :: "BitMap \<Rightarrow> int res" where
  "NumClear b = NumClear_loop [0..numBits b - 1] b 0"

section \<open>The allocator interface\<close>

text \<open>
  \<open>used m\<close> are the allocated numbers among \<open>0 \<dots> size m - 1\<close>. The client lemma is about the loop
  of FileHeader::Allocate, which calls \<open>alloc\<close> once for every sector of a file.
\<close>

fun alloc_loop :: "('m \<Rightarrow> (int \<times> 'm) res) \<Rightarrow> nat \<Rightarrow> 'm \<Rightarrow> (int list \<times> 'm) res" where
  "alloc_loop alloc 0 m = Inr ([], m)"
| "alloc_loop alloc (Suc n) m =
     bindR (alloc m) (\<lambda>(i, m'). bindR (alloc_loop alloc n m') (\<lambda>(is, m''). Inr (i # is, m'')))"

locale allocator =
  fixes alloc :: "'m \<Rightarrow> (int \<times> 'm) res"
    and clear :: "int \<Rightarrow> 'm \<Rightarrow> 'm res"
    and size :: "'m \<Rightarrow> int"
    and used :: "'m \<Rightarrow> int set"
    and inv :: "'m \<Rightarrow> bool"
  assumes used_bound: "inv m \<Longrightarrow> used m \<subseteq> {0..<size m}"
    and find_free: "inv m \<Longrightarrow> used m \<noteq> {0..<size m} \<Longrightarrow>
          \<exists>i m'. alloc m = Inr (i, m') \<and> i \<in> {0..<size m} - used m \<and>
                 (\<forall>j \<in> {0..<i}. j \<in> used m) \<and>
                 used m' = insert i (used m) \<and> size m' = size m \<and> inv m'"
    and find_full: "inv m \<Longrightarrow> used m = {0..<size m} \<Longrightarrow> alloc m = Inr (- 1, m)"
    and clear_used: "inv m \<Longrightarrow> i \<in> {0..<size m} \<Longrightarrow>
          \<exists>m'. clear i m = Inr m' \<and> used m' = used m - {i} \<and> size m' = size m \<and> inv m'"
begin

lemma finite_used: "inv m \<Longrightarrow> finite (used m)"
  using used_bound finite_subset by blast

lemma alloc_loop_fresh:
  assumes "inv m" and "n \<le> card ({0..<size m} - used m)"
  shows "\<exists>js m'. alloc_loop alloc n m = Inr (js, m') \<and> length js = n \<and> distinct js \<and>
           set js \<subseteq> {0..<size m} - used m \<and> used m' = used m \<union> set js \<and> size m' = size m \<and> inv m'"
  using assms
proof (induction n arbitrary: m)
  case 0
  then show ?case by auto
next
  case (Suc n)
  then have "{0..<size m} - used m \<noteq> {}" by (metis card.empty not_less_eq_eq zero_le)
  then have "used m \<noteq> {0..<size m}" by auto
  then obtain i m1 where f: "alloc m = Inr (i, m1)" and i: "i \<in> {0..<size m} - used m"
    and u1: "used m1 = insert i (used m)" and s1: "size m1 = size m" and I1: "inv m1"
    using find_free [OF Suc.prems(1)] by auto
  have fr: "{0..<size m1} - used m1 = {0..<size m} - used m - {i}" using u1 s1 by auto
  then have "n \<le> card ({0..<size m1} - used m1)" using Suc.prems i by simp
  then obtain js m2 where r: "alloc_loop alloc n m1 = Inr (js, m2)" "length js = n" "distinct js"
    "set js \<subseteq> {0..<size m1} - used m1" "used m2 = used m1 \<union> set js" "size m2 = size m1" "inv m2"
    using Suc.IH [OF I1] by blast
  then show ?case using f i u1 s1 fr by auto
qed

end

section \<open>What the bits represent\<close>

definition BitMap_wf :: "BitMap \<Rightarrow> bool" where
  "BitMap_wf b \<longleftrightarrow> 0 \<le> numBits b \<and> numWords b = divRoundUp (numBits b) BitsInWord \<and>
     length (bmap b) = nat (numWords b)"

definition marked :: "BitMap \<Rightarrow> int set" where
  "marked b = {i. 0 \<le> i \<and> i < numBits b \<and> bit (bmap b ! nat (i div 32)) (nat (i mod 32))}"

lemma word_index_in_range:
  assumes "BitMap_wf b" and "0 \<le> i" and "i < numBits b"
  shows "nat (i div 32) < length (bmap b)"
proof -
  have "numBits b \<le> numWords b * 32"
    using divRoundUp_bounds(1) [of "numBits b" 32] assms(1) by (simp add: BitMap_wf_def)
  then have "i div 32 < numWords b" using assms(3) by (simp add: div_less_iff_less_mult)
  then show ?thesis using assms(1,2) by (simp add: BitMap_wf_def nat_less_eq_zless)
qed

lemma word_at_in_range:
  "BitMap_wf b \<Longrightarrow> 0 \<le> i \<Longrightarrow> i < numBits b \<Longrightarrow> word_at b (i div 32) = Inr (bmap b ! nat (i div 32))"
  using word_index_in_range [of b i] by (auto simp: word_at_def)

lemma Test_marked:
  assumes "BitMap_wf b" and "0 \<le> i" and "i < numBits b"
  shows "Test i b = Inr (i \<in> marked b)"
  using word_at_in_range [OF assms] assms
  by (simp add: Test_def marked_def push_bit_eq_mult and_exp_eq_0_iff_not_bit)

lemma nat_div_mod_eq:
  assumes "0 \<le> i" and "0 \<le> (j::int)"
  shows "nat (i div 32) = nat (j div 32) \<and> nat (i mod 32) = nat (j mod 32) \<longleftrightarrow> i = j"
proof
  assume "nat (i div 32) = nat (j div 32) \<and> nat (i mod 32) = nat (j mod 32)"
  then have "i div 32 = j div 32 \<and> i mod 32 = j mod 32"
    using assms by (simp add: eq_nat_nat_iff pos_imp_zdiv_nonneg_iff)
  then show "i = j" by (metis div_mult_mod_eq)
qed simp

lemma nat_mod_32 [simp]: "0 \<le> i \<Longrightarrow> nat (i mod 32) < 32"
  by (simp add: nat_less_iff)

lemma Mark_marked:
  assumes "BitMap_wf b" and "0 \<le> i" and "i < numBits b"
  shows "\<exists>b'. Mark i b = Inr b' \<and> marked b' = insert i (marked b) \<and> numBits b' = numBits b \<and> BitMap_wf b'"
proof -
  let ?b = "b\<lparr>bmap := (bmap b)[nat (i div 32) := (bmap b ! nat (i div 32)) OR push_bit (nat (i mod 32)) 1]\<rparr>"
  have "Mark i b = Inr ?b" using word_at_in_range [OF assms] assms by (simp add: Mark_def)
  moreover have "marked ?b = insert i (marked b)"
  proof (rule set_eqI)
    fix j
    show "j \<in> marked ?b \<longleftrightarrow> j \<in> insert i (marked b)"
      using assms word_index_in_range [OF assms] nat_div_mod_eq [of i j]
      by (cases "0 \<le> j")
        (auto simp: marked_def nth_list_update bit_or_iff bit_exp_iff)
  qed
  moreover have "BitMap_wf ?b" using assms(1) by (simp add: BitMap_wf_def)
  ultimately show ?thesis by simp
qed

lemma Clear_marked:
  assumes "BitMap_wf b" and "0 \<le> i" and "i < numBits b"
  shows "\<exists>b'. Clear i b = Inr b' \<and> marked b' = marked b - {i} \<and> numBits b' = numBits b \<and> BitMap_wf b'"
proof -
  let ?b = "b\<lparr>bmap := (bmap b)[nat (i div 32) :=
                (bmap b ! nat (i div 32)) AND NOT (push_bit (nat (i mod 32)) 1)]\<rparr>"
  have "Clear i b = Inr ?b" using word_at_in_range [OF assms] assms by (simp add: Clear_def)
  moreover have "marked ?b = marked b - {i}"
  proof (rule set_eqI)
    fix j
    show "j \<in> marked ?b \<longleftrightarrow> j \<in> marked b - {i}"
      using assms word_index_in_range [OF assms] nat_div_mod_eq [of i j]
      by (cases "0 \<le> j")
        (auto simp: marked_def nth_list_update bit_and_iff bit_not_iff bit_exp_iff)
  qed
  moreover have "BitMap_wf ?b" using assms(1) by (simp add: BitMap_wf_def)
  ultimately show ?thesis by simp
qed

lemmas bitmap_ops = Test_marked Mark_marked Clear_marked

lemma marked_bound: "marked b \<subseteq> {0..<numBits b}"
  by (auto simp: marked_def)

lemma Clear_loop_marked:
  assumes "BitMap_wf b" and "\<forall>i \<in> set is. 0 \<le> i \<and> i < numBits b"
  shows "\<exists>b'. Clear_loop is b = Inr b' \<and> marked b' = marked b - set is \<and> numBits b' = numBits b \<and> BitMap_wf b'"
  using assms
proof (induction "is" arbitrary: b)
  case Nil
  then show ?case by simp
next
  case (Cons i "is")
  obtain b1 where b1: "Clear i b = Inr b1" "marked b1 = marked b - {i}" "numBits b1 = numBits b" "BitMap_wf b1"
    using Clear_marked [of b i] Cons.prems by auto
  then obtain b2 where "Clear_loop is b1 = Inr b2" "marked b2 = marked b1 - set is"
    "numBits b2 = numBits b1" "BitMap_wf b2"
    using Cons.IH [of b1] Cons.prems by auto
  then show ?case using b1 by auto
qed

lemma BitMap_new_empty:
  assumes "0 \<le> n" and "divRoundUp n 32 \<le> int (length garbage)"
  shows "\<exists>b. BitMap_new garbage n = Inr b \<and> marked b = {} \<and> numBits b = n \<and> BitMap_wf b"
proof -
  let ?b = "\<lparr>numBits = n, numWords = divRoundUp n 32, bmap = take (nat (divRoundUp n 32)) garbage\<rparr>"
  have "BitMap_wf ?b" using assms divRoundUp_bounds(3) [of n 32] by (simp add: BitMap_wf_def)
  then obtain b where "Clear_loop [0..n - 1] ?b = Inr b" "marked b = marked ?b - set [0..n - 1]"
    "numBits b = n" "BitMap_wf b"
    using Clear_loop_marked [of ?b "[0..n - 1]"] by auto
  moreover have "marked ?b - set [0..n - 1] = {}" using marked_bound [of ?b] by auto
  ultimately show ?thesis by (simp add: BitMap_new_def)
qed

lemma Find_loop_full:
  "BitMap_wf b \<Longrightarrow> \<forall>i \<in> set is. 0 \<le> i \<and> i < numBits b \<and> i \<in> marked b \<Longrightarrow>
   Find_loop is b = Inr (- 1, b)"
  by (induction "is") (auto simp: Test_marked)

lemma Find_loop_free:
  "BitMap_wf b \<Longrightarrow> \<forall>i \<in> set is. 0 \<le> i \<and> i < numBits b \<and> i \<in> marked b \<Longrightarrow>
   0 \<le> j \<Longrightarrow> j < numBits b \<Longrightarrow> j \<notin> marked b \<Longrightarrow>
   Find_loop (is @ j # js) b = bindR (Mark j b) (\<lambda>b'. Inr (j, b'))"
  by (induction "is") (auto simp: Test_marked)

lemma Find_full:
  assumes "BitMap_wf b" and "marked b = {0..<numBits b}"
  shows "Find b = Inr (- 1, b)"
  unfolding Find_def using assms by (intro Find_loop_full) auto

lemma Find_free:
  assumes wf: "BitMap_wf b" and ne: "marked b \<noteq> {0..<numBits b}"
  shows "\<exists>i b'. Find b = Inr (i, b') \<and> i \<in> {0..<numBits b} - marked b \<and>
           (\<forall>j \<in> {0..<i}. j \<in> marked b) \<and> marked b' = insert i (marked b) \<and>
           numBits b' = numBits b \<and> BitMap_wf b'"
proof -
  let ?P = "\<lambda>i. i \<in> marked b"
  let ?l = "[0..numBits b - 1]"
  have "dropWhile ?P ?l \<noteq> []"
    using ne marked_bound [of b] by (auto simp: dropWhile_eq_Nil_conv)
  then obtain j js where d: "dropWhile ?P ?l = j # js" by (cases "dropWhile ?P ?l") auto
  have l: "?l = takeWhile ?P ?l @ j # js" and j: "j \<notin> marked b"
    using takeWhile_dropWhile_cons [OF d] by auto
  have jr: "0 \<le> j" "j < numBits b" using l by (metis atLeastAtMost_iff in_set_conv_decomp set_upto zle_diff1_eq)+
  have tw: "\<forall>i \<in> set (takeWhile ?P ?l). 0 \<le> i \<and> i < numBits b \<and> i \<in> marked b"
    using set_takeWhileD by fastforce
  have "sorted (takeWhile ?P ?l @ j # js)" using l by (metis sorted_upto)
  then have js: "\<forall>i \<in> set js. j \<le> i" by (simp add: sorted_append)
  have below: "i \<in> marked b" if "0 \<le> i" "i < j" for i
  proof -
    have "i \<in> set ?l" using that jr by simp
    then have "i \<in> set (takeWhile ?P ?l) \<union> insert j (set js)" by (subst (asm) l) simp
    then show ?thesis using tw js that by auto
  qed
  obtain b' where b': "Mark j b = Inr b'" "marked b' = insert j (marked b)" "numBits b' = numBits b" "BitMap_wf b'"
    using Mark_marked [OF wf jr] by blast
  have "Find b = Inr (j, b')"
    using Find_loop_free [OF wf tw jr j, of js] b' l unfolding Find_def by simp
  then show ?thesis using b' below jr j by auto
qed

lemma NumClear_loop_count:
  "BitMap_wf b \<Longrightarrow> \<forall>i \<in> set is. 0 \<le> i \<and> i < numBits b \<Longrightarrow>
   NumClear_loop is b c = Inr (c + int (length (filter (\<lambda>i. i \<notin> marked b) is)))"
  by (induction "is" arbitrary: c) (auto simp: Test_marked)

lemma NumClear_card:
  assumes "BitMap_wf b"
  shows "NumClear b = Inr (int (card ({0..<numBits b} - marked b)))"
proof -
  let ?l = "filter (\<lambda>i. i \<notin> marked b) [0..numBits b - 1]"
  have "set ?l = {0..<numBits b} - marked b" by auto
  then have "card ({0..<numBits b} - marked b) = length ?l"
    by (metis distinct_card distinct_filter distinct_upto)
  then show ?thesis unfolding NumClear_def using assms by (subst NumClear_loop_count) auto
qed

interpretation bitmap: allocator Find Clear numBits marked BitMap_wf
  using marked_bound Find_free Find_full Clear_marked by unfold_locales auto

section \<open>Properties\<close>

text \<open>
  C30. Find (\<^verbatim>\<open>code/userprog/bitmap.cc\<close>) on a bitmap of any size: if some bit is clear, it returns
  the lowest clear bit and marks exactly that bit; if none is clear, it returns -1 and changes
  nothing. It never fails an assertion and never reads outside the word array.
\<close>

theorem Find_lowest_clear:
  assumes "BitMap_wf b"
  shows "\<exists>i b'. Find b = Inr (i, b') \<and> BitMap_wf b' \<and> numBits b' = numBits b \<and>
    (if marked b = {0..<numBits b} then i = - 1 \<and> b' = b
     else 0 \<le> i \<and> i < numBits b \<and> i \<notin> marked b \<and> {0..<i} \<subseteq> marked b \<and> marked b' = insert i (marked b))"
proof (cases "marked b = {0..<numBits b}")
  case True
  then show ?thesis using Find_full [OF assms] assms by simp
next
  case False
  then show ?thesis using Find_free [OF assms False] by auto
qed

theorem Find_lowest_clear_witness:
  "\<exists>i b'. Find \<lparr>numBits = 3, numWords = 1, bmap = [5]\<rparr> = Inr (i, b') \<and> i = 1 \<and> marked b' = {0, 1, 2}"
proof -
  let ?b = "\<lparr>numBits = 3, numWords = 1, bmap = [5]\<rparr>"
  have wf: "BitMap_wf ?b" by (simp add: BitMap_wf_def divRoundUp_def)
  have bits: "i \<in> marked ?b \<longleftrightarrow> i = 0 \<or> i = 2" for i
  proof -
    have "i \<in> marked ?b \<longleftrightarrow> i \<in> {0, 1, 2} \<and> bit (5 :: 32 word) (nat i)"
      by (auto simp: marked_def)
    then show ?thesis by (auto simp: bit_numeral_rec)
  qed
  then have m: "marked ?b = {0, 2}" by blast
  have "1 \<in> {0..<3 :: int}" "1 \<notin> {0, 2 :: int}" by simp_all
  then have ne: "{0, 2 :: int} \<noteq> {0..<3}" by metis
  obtain i b' where "Find ?b = Inr (i, b')" "0 \<le> i" "i < 3" "i \<notin> {0, 2}" "marked b' = insert i {0, 2}"
    using Find_lowest_clear [OF wf] m ne by auto
  moreover from this have "i = 1" by auto
  ultimately show ?thesis by auto
qed

text \<open>
  A new bitmap (\<^verbatim>\<open>code/userprog/bitmap.cc\<close>) has every bit clear whatever the memory of the
  word array held before; NumClear counts the clear bits, so it returns the size for a new bitmap,
  and for every valid bit number Mark and Clear add it to and remove it from the marked bits and
  touch no other bit, which is what Test reads.
\<close>

lemma BitMap_operations:
  assumes "0 \<le> n" and "divRoundUp n 32 \<le> int (length garbage)" and "0 \<le> i" and "i < n"
  shows "\<exists>b bm bc. BitMap_new garbage n = Inr b \<and> NumClear b = Inr n \<and>
    Mark i b = Inr bm \<and> NumClear bm = Inr (n - 1) \<and> Clear i bm = Inr bc \<and> NumClear bc = Inr n \<and>
    (\<forall>j. 0 \<le> j \<and> j < n \<longrightarrow>
       Test j b = Inr False \<and> Test j bm = Inr (j = i) \<and> Test j bc = Inr False)"
proof -
  obtain b where b: "BitMap_new garbage n = Inr b" "marked b = {}" "numBits b = n" "BitMap_wf b"
    using BitMap_new_empty [OF assms(1,2)] by blast
  obtain bm where bm: "Mark i b = Inr bm" "marked bm = {i}" "numBits bm = n" "BitMap_wf bm"
    using Mark_marked [of b i] b assms by auto
  obtain bc where bc: "Clear i bm = Inr bc" "marked bc = {}" "numBits bc = n" "BitMap_wf bc"
    using Clear_marked [of bm i] bm assms by auto
  have "card ({0..<n} - {i}) = nat n - 1" using assms by (simp add: card_Diff_subset)
  then have "NumClear b = Inr n" "NumClear bm = Inr (n - 1)" "NumClear bc = Inr n"
    using NumClear_card [OF b(4)] NumClear_card [OF bm(4)] NumClear_card [OF bc(4)] b bm bc assms by auto
  moreover have "\<forall>j. 0 \<le> j \<and> j < n \<longrightarrow>
       Test j b = Inr False \<and> Test j bm = Inr (j = i) \<and> Test j bc = Inr False"
    using Test_marked b bm bc by auto
  ultimately show ?thesis using b bm bc by blast
qed

end
