(* ===== verification/Nachos_File.thy ===== *)
theory Nachos_File
  imports Nachos_Disk Nachos_BitMap
begin

text \<open>
  Files on the disk: the file headers of \<^verbatim>\<open>code/filesys/filehdr.cc\<close> and the open files of
  \<^verbatim>\<open>code/filesys/openfile.cc\<close>, over the sectors of the synchronous disk
  (\<^verbatim>\<open>code/filesys/synchdisk.cc\<close>). The file system is used by one thread at a time (its comments
  require it), so \<open>ReadSector\<close> and \<open>WriteSector\<close> are modelled by what they have done when they
  return; the waiting inside them is in the theories on the kernel.

  The locale \<open>sector_store\<close> is what open files rely on of the disk. Its lemmas, and the theorems
  drawn from them, show that a file is an array of bytes: ReadAt and WriteAt refine reading and
  overwriting a slice of it, whatever the alignment on sectors.
\<close>

section \<open>Sectors\<close>

definition ReadSector :: "int \<Rightarrow> Disk \<Rightarrow> 8 word list res" where
  "ReadSector sectorNumber d = ASSERT (sectorNumber \<ge> 0 \<and> sectorNumber < NumSectors) (transfer_in sectorNumber d)"

definition WriteSector :: "int \<Rightarrow> 8 word list \<Rightarrow> Disk \<Rightarrow> Disk res" where
  "WriteSector sectorNumber data d =
     ASSERT (sectorNumber \<ge> 0 \<and> sectorNumber < NumSectors) (Inr (transfer_out sectorNumber data d))"

section \<open>File headers\<close>

abbreviation (input) NumDirect :: nat where "NumDirect \<equiv> 30"
abbreviation (input) MaxFileSize :: nat where "MaxFileSize \<equiv> NumDirect * SectorSize"

record FileHeader =
  numBytes :: int
  numSectors :: int
  dataSectors :: "int list"

text \<open>An element of the array \<open>dataSectors\<close>.\<close>

definition data_sector :: "int \<Rightarrow> FileHeader \<Rightarrow> int res" where
  "data_sector i h = (if 0 \<le> i \<and> i < int (length (dataSectors h)) then Inr (dataSectors h ! nat i) else Inl OutOfBounds)"

fun Allocate_loop :: "int list \<Rightarrow> FileHeader \<Rightarrow> BitMap \<Rightarrow> (FileHeader \<times> BitMap) res" where
  "Allocate_loop [] h freeMap = Inr (h, freeMap)"
| "Allocate_loop (i # is) h freeMap =
     bindR (Find freeMap) (\<lambda>(s, freeMap1).
       if 0 \<le> i \<and> i < int (length (dataSectors h))
       then Allocate_loop is (h\<lparr>dataSectors := (dataSectors h)[nat i := s]\<rparr>) freeMap1
       else Inl OutOfBounds)"

definition Allocate :: "int \<Rightarrow> FileHeader \<Rightarrow> BitMap \<Rightarrow> (bool \<times> FileHeader \<times> BitMap) res" where
  "Allocate fileSize h0 freeMap =
     (let h = h0\<lparr>numBytes := fileSize, numSectors := divRoundUp fileSize (int SectorSize)\<rparr> in
      bindR (NumClear freeMap) (\<lambda>n.
        if n < numSectors h then Inr (False, h, freeMap)
        else bindR (Allocate_loop [0..numSectors h - 1] h freeMap) (\<lambda>(h1, freeMap1). Inr (True, h1, freeMap1))))"

fun Deallocate_loop :: "int list \<Rightarrow> FileHeader \<Rightarrow> BitMap \<Rightarrow> BitMap res" where
  "Deallocate_loop [] h freeMap = Inr freeMap"
| "Deallocate_loop (i # is) h freeMap =
     bindR (data_sector i h) (\<lambda>s.
       bindR (Test s freeMap) (\<lambda>marked.
         ASSERT marked (bindR (Clear s freeMap) (Deallocate_loop is h))))"

definition Deallocate :: "FileHeader \<Rightarrow> BitMap \<Rightarrow> BitMap res" where
  "Deallocate h freeMap = Deallocate_loop [0..numSectors h - 1] h freeMap"

text \<open>
  The header on disk: the 32 integers of the object, in the byte order of the host.
\<close>

fun ints_of_bytes :: "bool \<Rightarrow> nat \<Rightarrow> 8 word list \<Rightarrow> int list" where
  "ints_of_bytes big 0 bs = []"
| "ints_of_bytes big (Suc n) bs =
     sint (word_of_bytes (host_order big (take 4 bs)) :: 32 word) # ints_of_bytes big n (drop 4 bs)"

definition bytes_of_ints :: "bool \<Rightarrow> int list \<Rightarrow> 8 word list" where
  "bytes_of_ints big ns = concat (map (\<lambda>n. host_order big (bytes_of_word 4 (word_of_int n :: 32 word))) ns)"

definition FetchFrom :: "bool \<Rightarrow> int \<Rightarrow> Disk \<Rightarrow> FileHeader res" where
  "FetchFrom big sector d =
     bindR (ReadSector sector d) (\<lambda>bs.
       let ns = ints_of_bytes big (SectorSize div 4) bs in
       Inr \<lparr>numBytes = ns ! 0, numSectors = ns ! 1, dataSectors = drop 2 ns\<rparr>)"

definition WriteBack :: "bool \<Rightarrow> int \<Rightarrow> FileHeader \<Rightarrow> Disk \<Rightarrow> Disk res" where
  "WriteBack big sector h d =
     WriteSector sector (bytes_of_ints big (numBytes h # numSectors h # dataSectors h)) d"

definition ByteToSector :: "int \<Rightarrow> FileHeader \<Rightarrow> int res" where
  "ByteToSector offset h = data_sector (offset sdiv int SectorSize) h"

definition FileLength :: "FileHeader \<Rightarrow> int" where
  "FileLength h = numBytes h"

section \<open>Open files\<close>

record OpenFile =
  hdr :: FileHeader
  seekPosition :: int

definition OpenFile_new :: "bool \<Rightarrow> int \<Rightarrow> Disk \<Rightarrow> OpenFile res" where
  "OpenFile_new big sector d = bindR (FetchFrom big sector d) (\<lambda>h. Inr \<lparr>hdr = h, seekPosition = 0\<rparr>)"

definition Seek :: "int \<Rightarrow> OpenFile \<Rightarrow> OpenFile" where
  "Seek position f = f\<lparr>seekPosition := position\<rparr>"

definition Length :: "OpenFile \<Rightarrow> int" where
  "Length f = FileLength (hdr f)"

text \<open>The loops over the sectors of a request; \<open>rd\<close> and \<open>wr\<close> are the operations of the disk.\<close>

fun ReadAt_loop :: "(int \<Rightarrow> 's \<Rightarrow> 8 word list res) \<Rightarrow> FileHeader \<Rightarrow> int list \<Rightarrow> 's \<Rightarrow> 8 word list res" where
  "ReadAt_loop rd h [] d = Inr []"
| "ReadAt_loop rd h (i # is) d =
     bindR (ByteToSector (i * int SectorSize) h) (\<lambda>s.
       bindR (rd s d) (\<lambda>b. bindR (ReadAt_loop rd h is d) (\<lambda>bs. Inr (b @ bs))))"

fun WriteAt_loop :: "(int \<Rightarrow> 8 word list \<Rightarrow> 's \<Rightarrow> 's res) \<Rightarrow> FileHeader \<Rightarrow> int list \<Rightarrow> 8 word list \<Rightarrow> 's \<Rightarrow> 's res" where
  "WriteAt_loop wr h [] buf d = Inr d"
| "WriteAt_loop wr h (i # is) buf d =
     bindR (ByteToSector (i * int SectorSize) h) (\<lambda>s.
       bindR (wr s (take SectorSize buf) d) (WriteAt_loop wr h is (drop SectorSize buf)))"

text \<open>\<open>bcopy(from, &buf[off], n)\<close>.\<close>

definition overwrite :: "nat \<Rightarrow> 'a list \<Rightarrow> 'a list \<Rightarrow> 'a list" where
  "overwrite off bs buf = take off buf @ bs @ drop (off + length bs) buf"

text \<open>
  The sums and products of C integers that a request can make overflow are taken through \<open>to_int\<close>,
  which wraps around; \<^verbatim>\<open>new char[n]\<close> with a negative size throws. The bytes of \<^verbatim>\<open>buf\<close> that the loop has
  not read are not initialised: copying them to the caller is \<open>OutOfBounds\<close>, as is any copy that
  leaves the array.
\<close>

definition copy_into :: "int \<Rightarrow> 'a list \<Rightarrow> 'a list \<Rightarrow> 'a list res" where
  "copy_into off bs buf =
     (if 0 \<le> off \<and> off + int (length bs) \<le> int (length buf) then Inr (overwrite (nat off) bs buf) else Inl OutOfBounds)"

definition ReadAt :: "(int \<Rightarrow> 's \<Rightarrow> 8 word list res) \<Rightarrow> FileHeader \<Rightarrow> int \<Rightarrow> int \<Rightarrow> 's \<Rightarrow> 8 word list res" where
  "ReadAt rd h n position d =
     (let fileLength = FileLength h in
      if n \<le> 0 \<or> position \<ge> fileLength then Inr []
      else
        let n1 = (if to_int (position + n) > fileLength then to_int (fileLength - position) else n);
            firstSector = divRoundDown position (int SectorSize);
            lastSector = divRoundDown (to_int (position + n1 - 1)) (int SectorSize);
            ns = 1 + lastSector - firstSector;
            off = position - firstSector * int SectorSize
        in if to_int (ns * int SectorSize) < 0 then Inl BadAlloc
           else bindR (ReadAt_loop rd h [firstSector..lastSector] d) (\<lambda>buf.
             if 0 \<le> off \<and> off + n1 \<le> int (length buf) then Inr (take (nat n1) (drop (nat off) buf)) else Inl OutOfBounds))"

text \<open>
  \<open>data\<close> is the caller's buffer, \<open>garbage\<close> what the new array \<open>buf\<close> holds. The result is the number
  of bytes written and the new disk.
\<close>

definition WriteAt ::
  "(int \<Rightarrow> 's \<Rightarrow> 8 word list res) \<Rightarrow> (int \<Rightarrow> 8 word list \<Rightarrow> 's \<Rightarrow> 's res) \<Rightarrow> (nat \<Rightarrow> 8 word list) \<Rightarrow>
   FileHeader \<Rightarrow> 8 word list \<Rightarrow> int \<Rightarrow> 's \<Rightarrow> (int \<times> 's) res" where
  "WriteAt rd wr garbage h data position d =
     (let fileLength = FileLength h; n = int (length data) in
      if n \<le> 0 \<or> position \<ge> fileLength then Inr (0, d)
      else
        let n1 = (if to_int (position + n) > fileLength then to_int (fileLength - position) else n);
            firstSector = divRoundDown position (int SectorSize);
            lastSector = divRoundDown (to_int (position + n1 - 1)) (int SectorSize);
            ns = 1 + lastSector - firstSector;
            sz = to_int (ns * int SectorSize);
            buf = garbage (nat sz);
            firstAligned = (position = firstSector * int SectorSize);
            lastAligned = (to_int (position + n1) = to_int ((lastSector + 1) * int SectorSize))
        in if sz < 0 then Inl BadAlloc
           else
             bindR (if \<not> firstAligned
                    then bindR (ReadAt rd h (int SectorSize) (firstSector * int SectorSize) d) (\<lambda>bs. copy_into 0 bs buf)
                    else Inr buf) (\<lambda>buf1.
             bindR (if \<not> lastAligned \<and> (firstSector \<noteq> lastSector \<or> firstAligned)
                    then bindR (ReadAt rd h (int SectorSize) (lastSector * int SectorSize) d) (\<lambda>bs.
                           copy_into ((lastSector - firstSector) * int SectorSize) bs buf1)
                    else Inr buf1) (\<lambda>buf2.
             bindR (copy_into (position - firstSector * int SectorSize) (take (nat n1) data) buf2) (\<lambda>buf3.
             bindR (WriteAt_loop wr h [firstSector..lastSector] buf3 d) (\<lambda>d'. Inr (n1, d'))))))"

definition OpenFile_Read :: "int \<Rightarrow> OpenFile \<Rightarrow> Disk \<Rightarrow> (8 word list \<times> OpenFile) res" where
  "OpenFile_Read n f d =
     bindR (ReadAt ReadSector (hdr f) n (seekPosition f) d) (\<lambda>bs.
       Inr (bs, f\<lparr>seekPosition := seekPosition f + int (length bs)\<rparr>))"

definition OpenFile_Write :: "(nat \<Rightarrow> 8 word list) \<Rightarrow> 8 word list \<Rightarrow> OpenFile \<Rightarrow> Disk \<Rightarrow> (int \<times> OpenFile \<times> Disk) res" where
  "OpenFile_Write garbage data f d =
     bindR (WriteAt ReadSector WriteSector garbage (hdr f) data (seekPosition f) d) (\<lambda>(n, d').
       Inr (n, f\<lparr>seekPosition := seekPosition f + n\<rparr>, d'))"

section \<open>The abstract file\<close>

definition hdr_wf :: "FileHeader \<Rightarrow> bool" where
  "hdr_wf h \<longleftrightarrow> 0 \<le> numBytes h \<and> numSectors h = divRoundUp (numBytes h) (int SectorSize) \<and>
     numSectors h \<le> int NumDirect \<and> length (dataSectors h) = NumDirect \<and>
     distinct (take (nat (numSectors h)) (dataSectors h)) \<and>
     (\<forall>s \<in> set (take (nat (numSectors h)) (dataSectors h)). 0 \<le> s \<and> s < NumSectors)"

definition file_sectors :: "FileHeader \<Rightarrow> int list" where
  "file_sectors h = take (nat (numSectors h)) (dataSectors h)"

lemma length_overwrite [simp]: "off + length bs \<le> length buf \<Longrightarrow> length (overwrite off bs buf) = length buf"
  by (simp add: overwrite_def)

lemma nth_overwrite:
  "off + length bs \<le> length buf \<Longrightarrow> i < length buf \<Longrightarrow>
   overwrite off bs buf ! i = (if off \<le> i \<and> i < off + length bs then bs ! (i - off) else buf ! i)"
  by (auto simp: overwrite_def nth_append min_def)

text \<open>Slices of a concatenation of blocks of the same size.\<close>

lemma length_concat_blocks: "\<forall>b \<in> set bs. length b = n \<Longrightarrow> length (concat bs) = n * length bs"
  by (induction bs) auto

lemma drop_concat_blocks: "\<forall>b \<in> set bs. length b = n \<Longrightarrow> drop (n * k) (concat bs) = concat (drop k bs)"
proof (induction k arbitrary: bs)
  case (Suc k)
  then show ?case by (cases bs) (auto simp: drop_append)
qed simp

lemma take_concat_blocks: "\<forall>b \<in> set bs. length b = n \<Longrightarrow> take (n * k) (concat bs) = concat (take k bs)"
proof (induction k arbitrary: bs)
  case (Suc k)
  then show ?case by (cases bs) auto
qed simp

definition block :: "(int \<Rightarrow> 's \<Rightarrow> 8 word list res) \<Rightarrow> 's \<Rightarrow> int \<Rightarrow> 8 word list" where
  "block rd d s = (case rd s d of Inr b \<Rightarrow> b | Inl _ \<Rightarrow> [])"

definition file_data :: "(int \<Rightarrow> 's \<Rightarrow> 8 word list res) \<Rightarrow> FileHeader \<Rightarrow> 's \<Rightarrow> 8 word list" where
  "file_data rd h d = concat (map (block rd d) (file_sectors h))"

definition file_bytes :: "(int \<Rightarrow> 's \<Rightarrow> 8 word list res) \<Rightarrow> FileHeader \<Rightarrow> 's \<Rightarrow> 8 word list" where
  "file_bytes rd h d = take (nat (numBytes h)) (file_data rd h d)"

lemma overwrite_append:
  "off + length (xs @ ys) \<le> length buf \<Longrightarrow> overwrite (off + length xs) ys (overwrite off xs buf) = overwrite off (xs @ ys) buf"
  by (rule nth_equalityI) (auto simp: nth_overwrite nth_append)

lemma overwrite_Nil [simp]: "overwrite off [] buf = buf"
  by (simp add: overwrite_def)

lemma concat_update_block:
  assumes "\<forall>b \<in> set bs. length b = n" "k < length bs" "length b = n"
  shows "concat (bs[k := b]) = overwrite (n * k) b (concat bs)"
proof -
  have "overwrite (n * k) b (concat bs) = concat (take k bs) @ b @ drop (n * Suc k) (concat bs)"
    using take_concat_blocks [OF assms(1)] assms(3) by (simp add: overwrite_def add.commute)
  also have "\<dots> = concat (take k bs @ b # drop (Suc k) bs)"
    using drop_concat_blocks [OF assms(1), of "Suc k"] by simp
  finally show ?thesis using assms(2) by (simp add: upd_conv_take_nth_drop)
qed

lemma hdr_wf_sectors:
  assumes "hdr_wf h"
  shows "length (file_sectors h) = nat (numSectors h)" "distinct (file_sectors h)"
    "\<And>s. s \<in> set (file_sectors h) \<Longrightarrow> 0 \<le> s \<and> s < NumSectors"
    "numBytes h \<le> numSectors h * 128" "0 \<le> numSectors h" "0 \<le> numBytes h"
  using assms divRoundUp_bounds [of "numBytes h" 128] by (auto simp: hdr_wf_def file_sectors_def)

lemma ByteToSector_wf:
  assumes "hdr_wf h" "0 \<le> i" "i < numSectors h"
  shows "ByteToSector (i * int SectorSize) h = Inr (file_sectors h ! nat i)" "file_sectors h ! nat i \<in> set (file_sectors h)"
proof -
  have "nat i < length (file_sectors h)" using assms hdr_wf_sectors(1) by simp
  then show "file_sectors h ! nat i \<in> set (file_sectors h)" by (rule nth_mem)
  have "i < int NumDirect" "length (dataSectors h) = NumDirect" using assms by (auto simp: hdr_wf_def)
  then show "ByteToSector (i * int SectorSize) h = Inr (file_sectors h ! nat i)"
    using assms by (simp add: ByteToSector_def data_sector_def file_sectors_def)
qed

text \<open>
  The buffer of WriteAt: the old contents of the first and last sector where they are partially
  written, then the new data. Written over the sectors of the request, it changes just the bytes
  of the request among those of the file.
\<close>

lemma write_buffer:
  assumes F: "F = take B D" and D: "B \<le> length D" and P: "0 < n" "P + n \<le> B" "length data = n"
    and A: "A = P div 128" and E: "E = (P + n - 1) div 128" "128 * (E + 1) \<le> length D" and buf: "length buf = 128 * (E + 1 - A)"
    and buf1: "buf1 = (if P \<noteq> A * 128 then overwrite 0 (take 128 (drop (A * 128) F)) buf else buf)"
    and buf2: "buf2 = (if P + n \<noteq> (E + 1) * 128 \<and> (A \<noteq> E \<or> P = A * 128)
                 then overwrite ((E - A) * 128) (take 128 (drop (E * 128) F)) buf1 else buf1)"
  shows "length (overwrite (P - A * 128) data buf2) = 128 * (E + 1 - A)"
    "take B (overwrite (128 * A) (overwrite (P - A * 128) data buf2) D) = overwrite P data F"
proof -
  have AE: "A \<le> E" unfolding A E using P by (intro div_le_mono) simp
  have Ab: "128 * A \<le> P" "P < 128 * A + 128" unfolding A by simp_all
  have Eb: "128 * E \<le> P + n - 1" "P + n - 1 < 128 * E + 128" unfolding E(1) by simp_all
  have FB: "length F = B" using F D by simp
  have l1: "length buf1 = 128 * (E + 1 - A)" unfolding buf1 using buf AE by simp
  have l2: "length buf2 = 128 * (E + 1 - A)" unfolding buf2 using l1 AE by (auto simp: algebra_simps)
  have fit: "P - A * 128 + length data \<le> length buf2" unfolding l2 using Ab Eb P AE by simp
  show l3: "length (overwrite (P - A * 128) data buf2) = 128 * (E + 1 - A)" using fit l2 by simp
  let ?buf = "overwrite (P - A * 128) data buf2"
  have span: "128 * A + length ?buf = 128 * (E + 1)" unfolding l3 using AE by simp
  show "take B (overwrite (128 * A) ?buf D) = overwrite P data F"
  proof (rule nth_equalityI)
    show "length (take B (overwrite (128 * A) ?buf D)) = length (overwrite P data F)"
      using span E(2) D FB P by simp
    fix i
    assume "i < length (take B (overwrite (128 * A) ?buf D))"
    then have i: "i < B" by simp
    have Fi: "F ! i = D ! i" using F i by simp
    have rhs: "overwrite P data F ! i = (if P \<le> i \<and> i < P + n then data ! (i - P) else F ! i)"
      using nth_overwrite [of P data F i] P i FB by simp
    have lhs: "take B (overwrite (128 * A) ?buf D) ! i =
        (if 128 * A \<le> i \<and> i < 128 * (E + 1) then ?buf ! (i - 128 * A) else D ! i)"
      using nth_overwrite [of "128 * A" ?buf D i] span E(2) D i by simp
    show "take B (overwrite (128 * A) ?buf D) ! i = overwrite P data F ! i"
    proof (cases "128 * A \<le> i \<and> i < 128 * (E + 1)")
      case False
      then show ?thesis using lhs rhs Fi Ab Eb P by auto
    next
      case True
      have b3: "?buf ! (i - 128 * A) = (if P \<le> i \<and> i < P + n then data ! (i - P) else buf2 ! (i - 128 * A))"
        using nth_overwrite [OF fit, of "i - 128 * A"] True l2 span l3 Ab P by auto
      have b1: "buf1 ! (i - 128 * A) = F ! i" if "P \<noteq> A * 128" "i < 128 * A + 128"
      proof -
        have "i - 128 * A < 128" "i - 128 * A < B - A * 128" using that True i by arith+
        then show ?thesis unfolding buf1 using that True FB buf AE by (simp add: nth_overwrite)
      qed
      consider "P \<le> i" "i < P + n" | "i < P" | "P + n \<le> i" by linarith
      then show ?thesis
      proof cases
        case 1
        then show ?thesis using lhs rhs b3 True by simp
      next
        case 2
        then have "buf2 ! (i - 128 * A) = buf1 ! (i - 128 * A)"
          unfolding buf2 using True Ab AE l1 by (auto simp: nth_overwrite)
        then show ?thesis using lhs rhs b3 b1 2 True Ab by simp
      next
        case 3
        then have e: "128 * E \<le> i" "P + n \<noteq> (E + 1) * 128" using Eb True P by auto
        have "buf2 ! (i - 128 * A) = F ! i"
        proof (cases "A \<noteq> E \<or> P = A * 128")
          case t: True
          then have "buf2 = overwrite ((E - A) * 128) (take 128 (drop (E * 128) F)) buf1" unfolding buf2 using e by simp
          moreover have "(E - A) * 128 \<le> i - 128 * A" "i - 128 * A - (E - A) * 128 = i - 128 * E"
            using e AE by (simp_all add: algebra_simps)
          moreover have "i - 128 * E < 128" "i - 128 * E < B - E * 128" "i - 128 * A < length buf1"
            using e True i l1 AE by auto
          moreover have "(E - A) * 128 + length (take 128 (drop (E * 128) F)) \<le> length buf1"
            unfolding l1 using AE by (simp add: algebra_simps)
          moreover have "i - 128 * A < (E - A) * 128 + length (take 128 (drop (E * 128) F))"
            using e True i FB AE by (simp add: min_def algebra_simps, arith)
          moreover have "drop (E * 128) F ! (i - 128 * E) = F ! i" using e(1) i FB by (simp add: mult.commute)
          ultimately show ?thesis by (simp add: nth_overwrite del: length_take)
        next
          case f: False
          then have "buf2 = buf1" "P \<noteq> A * 128" "i < 128 * A + 128" unfolding buf2 using True by auto
          then show ?thesis using b1 by simp
        qed
        then show ?thesis using lhs rhs b3 3 True by simp
      qed
    qed
  qed
qed

text \<open>The integers of a request that does not overflow are those of the unbounded computation.\<close>

lemma hdr_wf_max: "hdr_wf h \<Longrightarrow> numBytes h \<le> int MaxFileSize"
  using hdr_wf_sectors(4) [of h] by (auto simp: hdr_wf_def)

lemma request_ints:
  assumes h: "hdr_wf h" and p: "0 \<le> position" "position < numBytes h" and n: "0 < n" "position + n < 2 ^ 31"
  defines "n1 \<equiv> min n (numBytes h - position)" and "a \<equiv> position div 128"
  defines "b \<equiv> (position + n1 - 1) div 128"
  shows "(if to_int (position + n) > numBytes h then to_int (numBytes h - position) else n) = n1"
    "divRoundDown position 128 = a" "divRoundDown (to_int (position + n1 - 1)) 128 = b"
    "to_int ((1 + b - a) * 128) = (1 + b - a) * 128" "to_int (position + n1) = position + n1"
    "to_int ((b + 1) * 128) = (b + 1) * 128" "0 < n1" "position + n1 \<le> numBytes h" "0 \<le> a" "a * 128 \<le> position" "a \<le> b"
    "b < numSectors h" "position + n1 \<le> (b + 1) * 128"
proof -
  have nb: "numBytes h \<le> 3840" using hdr_wf_max [OF h] by simp
  show n1: "0 < n1" "position + n1 \<le> numBytes h" using n p by (auto simp: n1_def)
  show "(if to_int (position + n) > numBytes h then to_int (numBytes h - position) else n) = n1"
    using n p nb to_int_id [of "position + n"] to_int_id [of "numBytes h - position"] by (auto simp: n1_def)
  have w: "to_int (position + n1 - 1) = position + n1 - 1" using n1 p nb by (intro to_int_id) simp_all
  show "divRoundDown position 128 = a" "divRoundDown (to_int (position + n1 - 1)) 128 = b"
    unfolding w using n1 p by (simp_all add: divRoundDown_def a_def b_def)
  show a: "0 \<le> a" "a * 128 \<le> position" and ab: "a \<le> b" and pb: "position + n1 \<le> (b + 1) * 128"
    using n1 p by (auto simp: a_def b_def intro: zdiv_mono1)
  show "b < numSectors h" using n1 hdr_wf_sectors(4) [OF h] by (auto simp: b_def)
  have "b \<le> 29" using n1 nb by (auto simp: b_def)
  then show "to_int ((1 + b - a) * 128) = (1 + b - a) * 128" "to_int (position + n1) = position + n1"
    "to_int ((b + 1) * 128) = (b + 1) * 128"
    using a ab n1 nb p by (auto intro!: to_int_id)
qed

text \<open>
  The other requests fail: a negative position, and a position and a length whose sum is not a C
  integer, in which case the length is not cut to that of the file.
\<close>

lemma bindR_fails: "(\<And>x. m = Inr x \<Longrightarrow> \<exists>e. f x = Inl e) \<Longrightarrow> \<exists>e. bindR m f = Inl e"
  by (cases m) auto

lemma if_fails: "\<exists>e. y = Inl e \<Longrightarrow> \<exists>e. (if c then Inl x else y) = Inl e"
  by auto

lemma sdiv_neg: "x < 0 \<Longrightarrow> 0 < b \<Longrightarrow> x sdiv b = - (- x div (b :: int))"
  by (simp add: signed_divide_int_def sgn_if)

lemma sdiv_mult: "i * 128 sdiv 128 = (i :: int)"
  by (cases "0 \<le> i") (simp_all add: sdiv_neg)

lemma to_int_wrap: "2 ^ 31 \<le> x \<Longrightarrow> x < 2 ^ 32 + 2 ^ 31 \<Longrightarrow> to_int x = x - 2 ^ 32"
proof -
  assume x: "2 ^ 31 \<le> x" "x < 2 ^ 32 + 2 ^ 31"
  have "(word_of_int (x - 2 ^ 32) :: 32 word) = word_of_int x" by (simp add: word_of_int_eq_iff take_bit_eq_mod)
  then have "to_int (x - 2 ^ 32) = to_int x" unfolding to_int_def by (rule arg_cong)
  then show ?thesis using to_int_id [of "x - 2 ^ 32"] x by simp
qed

lemma to_int_range: "- (2 ^ 31) \<le> to_int x" "to_int x < 2 ^ 31"
  using sint_greater_eq [of "word_of_int x :: 32 word"] sint_less [of "word_of_int x :: 32 word"] by (simp_all add: to_int_def)

lemma divRoundDown_int: "- (2 ^ 31) \<le> divRoundDown (to_int x) 128 * 128"
proof (cases "0 \<le> to_int x")
  case False
  then have "- (- to_int x div 128) * 128 \<ge> to_int x" by linarith
  then show ?thesis using False to_int_range(1) [of x] by (simp add: divRoundDown_def sdiv_neg)
qed (simp add: divRoundDown_def)

lemma ByteToSector_fails: "i < 0 \<or> int (length (dataSectors h)) \<le> i \<Longrightarrow> ByteToSector (i * 128) h = Inl OutOfBounds"
  by (auto simp: ByteToSector_def data_sector_def sdiv_mult)

lemma ReadAt_loop_fails:
  "i \<in> set is \<Longrightarrow> i < 0 \<or> int (length (dataSectors h)) \<le> i \<Longrightarrow> \<exists>e. ReadAt_loop rd h is d = Inl e"
proof (induction "is")
  case (Cons j js)
  show ?case
  proof (cases "i = j")
    case True
    then show ?thesis using ByteToSector_fails [OF Cons.prems(2)] by simp
  next
    case False
    then obtain e where "ReadAt_loop rd h js d = Inl e" using Cons by auto
    then show ?thesis by (auto intro!: bindR_fails)
  qed
qed simp

lemma WriteAt_loop_fails:
  "i \<in> set is \<Longrightarrow> i < 0 \<or> int (length (dataSectors h)) \<le> i \<Longrightarrow> \<exists>e. WriteAt_loop wr h is buf d = Inl e"
proof (induction "is" arbitrary: buf d)
  case (Cons j js)
  show ?case
  proof (cases "i = j")
    case True
    then show ?thesis using ByteToSector_fails [OF Cons.prems(2)] by simp
  next
    case False
    then show ?thesis using Cons by (auto intro!: bindR_fails)
  qed
qed simp

text \<open>The sectors that the integers of such a request give.\<close>

lemma overflow_ints:
  assumes h: "hdr_wf h" and p: "0 \<le> position" "position < numBytes h" and n: "n < 2 ^ 31" "2 ^ 31 \<le> position + n"
  defines "l \<equiv> divRoundDown (to_int (position + n - 1)) 128" and "f \<equiv> divRoundDown position 128"
  shows "(if to_int (position + n) > numBytes h then to_int (numBytes h - position) else n) = n"
    "30 \<in> set [f..l] \<or> l < 0 \<and> to_int (position + n) \<noteq> to_int ((l + 1) * 128)" "0 \<le> f"
proof -
  have nb: "numBytes h \<le> 3840" using hdr_wf_max [OF h] by simp
  have w: "to_int (position + n) = position + n - 2 ^ 32" using n p nb by (intro to_int_wrap) simp_all
  then show "(if to_int (position + n) > numBytes h then to_int (numBytes h - position) else n) = n"
    using p n nb by simp
  have f: "f = position div 128" using p by (simp add: f_def divRoundDown_def)
  show "0 \<le> f" using p by (simp add: f)
  show "30 \<in> set [f..l] \<or> l < 0 \<and> to_int (position + n) \<noteq> to_int ((l + 1) * 128)"
  proof (cases "position + n = 2 ^ 31")
    case True
    then have "to_int (position + n - 1) = 2 ^ 31 - 1" using to_int_id [of "2 ^ 31 - 1"] by simp
    then have "l = 16777215" by (simp add: l_def divRoundDown_def)
    moreover have "f \<le> 30" using p nb unfolding f by simp
    ultimately show ?thesis by simp
  next
    case False
    define x where "x = position + n - 1 - 2 ^ 32"
    have x: "x < - 128" "- (2 ^ 31) \<le> x" using False n p nb by (simp_all add: x_def)
    have "to_int (position + n - 1) = x" unfolding x_def using False n p nb by (intro to_int_wrap) simp_all
    then have l: "l = - (- x div 128)" using x by (simp add: l_def divRoundDown_def sdiv_neg)
    have lb: "l < 0" "x \<le> l * 128" using x unfolding l by linarith+
    then have "to_int ((l + 1) * 128) = (l + 1) * 128" using x by (intro to_int_id) simp_all
    then show ?thesis using lb w by (simp add: x_def)
  qed
qed

lemma ReadAt_negative:
  assumes h: "hdr_wf h" and p: "- (2 ^ 31) \<le> position" "position < 0" and n: "0 < n" "n < 2 ^ 31"
  shows "\<exists>e. ReadAt rd h n position d = Inl e"
proof -
  let ?n1 = "if to_int (position + n) > numBytes h then to_int (numBytes h - position) else n"
  let ?f = "divRoundDown position 128" and ?l = "divRoundDown (to_int (position + ?n1 - 1)) 128"
  have nb: "0 \<le> numBytes h" "numBytes h \<le> 3840" using hdr_wf_max [OF h] hdr_wf_sectors(6) [OF h] by simp_all
  have "to_int (position + n) = position + n" using p n by (intro to_int_id) simp_all
  then have n1: "0 < ?n1" using p n nb to_int_id [of "numBytes h - position"] by auto
  have f: "?f = - (- position div 128)" using p by (simp add: divRoundDown_def sdiv_neg)
  have off: "position - ?f * 128 \<le> 0" "?f = 0 \<Longrightarrow> position - ?f * 128 < 0" using p unfolding f by linarith+
  have "\<exists>e. bindR (ReadAt_loop rd h [?f..?l] d) (\<lambda>buf.
      if 0 \<le> position - ?f * 128 \<and> position - ?f * 128 + ?n1 \<le> int (length buf)
      then Inr (take (nat ?n1) (drop (nat (position - ?f * 128)) buf)) else Inl OutOfBounds) = Inl e"
  proof (cases "?f < 0 \<and> ?f \<le> ?l")
    case True
    then obtain e where "ReadAt_loop rd h [?f..?l] d = Inl e" using ReadAt_loop_fails [of ?f "[?f..?l]" h rd d] by auto
    then show ?thesis by simp
  next
    case False
    then consider "?l < ?f" | "?f = 0" using p unfolding f by (cases "?f < 0") auto
    then show ?thesis
    proof cases
      case 1
      then show ?thesis using n1 by simp
    next
      case 2
      then show ?thesis using off(2) by (intro bindR_fails) simp
    qed
  qed
  then show ?thesis using p n nb by (simp add: ReadAt_def FileLength_def Let_def)
qed

lemma ReadAt_overflow:
  assumes h: "hdr_wf h" and p: "0 \<le> position" "position < numBytes h" and n: "n < 2 ^ 31" "2 ^ 31 \<le> position + n"
  shows "\<exists>e. ReadAt rd h n position d = Inl e"
proof -
  let ?f = "divRoundDown position 128" and ?l = "divRoundDown (to_int (position + n - 1)) 128"
  note oi = overflow_ints [OF assms]
  have pos: "0 < n" using p n hdr_wf_max [OF h] by simp
  have "\<exists>e. bindR (ReadAt_loop rd h [?f..?l] d) (\<lambda>buf.
      if 0 \<le> position - ?f * 128 \<and> position - ?f * 128 + n \<le> int (length buf)
      then Inr (take (nat n) (drop (nat (position - ?f * 128)) buf)) else Inl OutOfBounds) = Inl e"
    using oi(2)
  proof
    assume "30 \<in> set [?f..?l]"
    then obtain e where "ReadAt_loop rd h [?f..?l] d = Inl e"
      using ReadAt_loop_fails [of 30 "[?f..?l]" h rd d] h by (auto simp: hdr_wf_def)
    then show ?thesis by simp
  next
    assume "?l < 0 \<and> to_int (position + n) \<noteq> to_int ((?l + 1) * 128)"
    then show ?thesis using oi(3) pos by simp
  qed
  then show ?thesis using p pos unfolding ReadAt_def FileLength_def Let_def of_nat_numeral oi(1) by simp
qed

text \<open>What makes the rest of a write fail, once its integers are computed.\<close>

lemma write_fails:
  assumes "(\<exists>i \<in> set is. i < 0 \<or> int (length (dataSectors h)) \<le> i) \<or> off < 0 \<or> c2 \<and> (\<exists>e. r2 = Inl e)"
  shows "\<exists>e. bindR (if c1 then bindR r1 k1 else Inr buf) (\<lambda>buf1.
      bindR (if c2 then bindR r2 (k2 buf1) else Inr buf1) (\<lambda>buf2.
      bindR (copy_into off bs buf2) (\<lambda>buf3. bindR (WriteAt_loop wr h is buf3 d) (\<lambda>d'. Inr (n, d'))))) = Inl e"
  using assms
proof (elim disjE)
  assume "\<exists>i \<in> set is. i < 0 \<or> int (length (dataSectors h)) \<le> i"
  then obtain i where "i \<in> set is" "i < 0 \<or> int (length (dataSectors h)) \<le> i" by blast
  from WriteAt_loop_fails [OF this] have "\<exists>e. WriteAt_loop wr h is b d = Inl e" for b .
  then have w: "WriteAt_loop wr h is b d \<noteq> Inr y" for b y by (metis sum.distinct(1))
  show ?thesis by (intro bindR_fails) (use w in auto)
next
  assume "off < 0"
  then show ?thesis by (intro bindR_fails) (simp add: copy_into_def)
next
  assume "c2 \<and> (\<exists>e. r2 = Inl e)"
  then show ?thesis by (intro bindR_fails) auto
qed

lemma WriteAt_overflow:
  fixes data :: "8 word list"
  assumes h: "hdr_wf h" and p: "0 \<le> position" "position < numBytes h"
    and n: "int (length data) < 2 ^ 31" "2 ^ 31 \<le> position + int (length data)"
  shows "\<exists>e. WriteAt rd wr garbage h data position d = Inl e"
proof -
  let ?n = "int (length data)"
  let ?f = "divRoundDown position 128" and ?l = "divRoundDown (to_int (position + ?n - 1)) 128"
  note oi = overflow_ints [OF assms]
  have pos: "0 < ?n" using p n hdr_wf_max [OF h] by (cases data) simp_all
  have "- (2 ^ 31) \<le> ?l * 128" by (rule divRoundDown_int)
  then have last: "\<exists>e. ReadAt rd h 128 (?l * 128) d = Inl e" if "?l < 0"
    using ReadAt_negative [OF h, of "?l * 128" 128] that by simp
  have bad: "(\<exists>i \<in> set [?f..?l]. i < 0 \<or> int (length (dataSectors h)) \<le> i) \<or> position - ?f * 128 < 0 \<or>
      (\<not> to_int (position + ?n) = to_int ((?l + 1) * 128) \<and> (?f \<noteq> ?l \<or> position = ?f * 128)) \<and>
      (\<exists>e. ReadAt rd h 128 (?l * 128) d = Inl e)"
    using oi(2,3) last h by (auto simp: hdr_wf_def)
  have c0: "(?n \<le> 0 \<or> numBytes h \<le> position) = False" using p pos by simp
  show ?thesis
    unfolding WriteAt_def FileLength_def Let_def of_nat_numeral oi(1) c0 if_False
    by (rule if_fails, rule write_fails [OF bad])
qed

lemma WriteAt_negative:
  fixes data :: "8 word list"
  assumes h: "hdr_wf h" and p: "- (2 ^ 31) \<le> position" "position < 0" and n: "data \<noteq> []" "int (length data) < 2 ^ 31"
  shows "\<exists>e. WriteAt rd wr garbage h data position d = Inl e"
proof -
  let ?n = "int (length data)"
  let ?n1 = "if to_int (position + ?n) > numBytes h then to_int (numBytes h - position) else ?n"
  let ?f = "divRoundDown position 128" and ?l = "divRoundDown (to_int (position + ?n1 - 1)) 128"
  have nb: "0 \<le> numBytes h" "numBytes h \<le> 3840" using hdr_wf_max [OF h] hdr_wf_sectors(6) [OF h] by simp_all
  have "0 < ?n" using n(1) by simp
  then have n1: "0 < ?n1" "position + ?n1 < 2 ^ 31"
    using p n(2) nb to_int_id [of "position + ?n"] to_int_id [of "numBytes h - position"] by auto
  have f: "?f = - (- position div 128)" using p by (simp add: divRoundDown_def sdiv_neg)
  have bad: "(\<exists>i \<in> set [?f..?l]. i < 0 \<or> int (length (dataSectors h)) \<le> i) \<or> position - ?f * 128 < 0 \<or>
      (\<not> to_int (position + ?n1) = to_int ((?l + 1) * 128) \<and> (?f \<noteq> ?l \<or> position = ?f * 128)) \<and>
      (\<exists>e. ReadAt rd h 128 (?l * 128) d = Inl e)"
  proof (cases "?f < 0")
    case True
    have x: "to_int (position + ?n1 - 1) = position + ?n1 - 1" using n1 p by (intro to_int_id) simp_all
    have "?f \<le> ?l"
    proof (cases "0 \<le> position + ?n1 - 1")
      case t: True
      then have "0 \<le> ?l" unfolding x divRoundDown_def by (simp add: pos_imp_zdiv_nonneg_iff)
      then show ?thesis using True by linarith
    next
      case False
      then have "?l = - (- (position + ?n1 - 1) div 128)" unfolding x divRoundDown_def by (simp add: sdiv_neg)
      moreover have "- (position + ?n1 - 1) div 128 \<le> - position div 128" using n1(1) by (intro zdiv_mono1) linarith+
      ultimately show ?thesis unfolding f by linarith
    qed
    then show ?thesis using True by auto
  next
    case False
    then have "?f = 0" using p unfolding f by linarith
    then show ?thesis using p by simp
  qed
  have c0: "(?n \<le> 0 \<or> numBytes h \<le> position) = False" using p n nb by simp
  show ?thesis
    unfolding WriteAt_def FileLength_def Let_def of_nat_numeral c0 if_False
    by (rule if_fails, rule write_fails [OF bad])
qed

section \<open>The sectors that files rely on\<close>

locale sector_store =
  fixes rd :: "int \<Rightarrow> 's \<Rightarrow> 8 word list res"
    and wr :: "int \<Rightarrow> 8 word list \<Rightarrow> 's \<Rightarrow> 's res"
    and ok :: "'s \<Rightarrow> bool"
  assumes rd_total: "ok d \<Longrightarrow> 0 \<le> s \<Longrightarrow> s < NumSectors \<Longrightarrow> \<exists>b. rd s d = Inr b \<and> length b = SectorSize"
    and wr_total: "ok d \<Longrightarrow> 0 \<le> s \<Longrightarrow> s < NumSectors \<Longrightarrow> length b = SectorSize \<Longrightarrow> \<exists>d'. wr s b d = Inr d' \<and> ok d'"
    and rd_wr: "ok d \<Longrightarrow> 0 \<le> s \<Longrightarrow> s < NumSectors \<Longrightarrow> length b = SectorSize \<Longrightarrow> wr s b d = Inr d' \<Longrightarrow>
      0 \<le> s' \<Longrightarrow> s' < NumSectors \<Longrightarrow> rd s' d' = (if s' = s then Inr b else rd s' d)"
begin

lemma rd_block: "ok d \<Longrightarrow> 0 \<le> s \<Longrightarrow> s < NumSectors \<Longrightarrow> rd s d = Inr (block rd d s) \<and> length (block rd d s) = SectorSize"
  using rd_total [of d s] by (auto simp: block_def)

lemma blocks_length: "ok d \<Longrightarrow> hdr_wf h \<Longrightarrow> \<forall>b \<in> set (map (block rd d) (file_sectors h)). length b = SectorSize"
  using rd_block hdr_wf_sectors(3) by auto

lemma length_file_data: "ok d \<Longrightarrow> hdr_wf h \<Longrightarrow> length (file_data rd h d) = SectorSize * nat (numSectors h)"
  using length_concat_blocks [OF blocks_length] hdr_wf_sectors(1) by (simp add: file_data_def)

lemma length_file_bytes: "ok d \<Longrightarrow> hdr_wf h \<Longrightarrow> length (file_bytes rd h d) = nat (numBytes h)"
  using length_file_data hdr_wf_sectors(4,5) by (fastforce simp: file_bytes_def)

lemma ReadAt_loop_blocks:
  assumes "ok d" "hdr_wf h" "0 \<le> a" "b < numSectors h"
  shows "ReadAt_loop rd h [a..b] d = Inr (concat (map (block rd d) (take (nat (b + 1 - a)) (drop (nat a) (file_sectors h)))))"
  using assms(3)
proof (induction "nat (b + 1 - a)" arbitrary: a)
  case 0
  then show ?case by simp
next
  case (Suc n)
  then have ab: "a \<le> b" by simp
  have n: "n = nat (b + 1 - (a + 1))" using Suc.hyps(2) by simp
  have len: "nat a < length (file_sectors h)" using ab assms(2,4) Suc.prems hdr_wf_sectors(1) by simp
  have "drop (nat a) (file_sectors h) = file_sectors h ! nat a # drop (nat (a + 1)) (file_sectors h)"
    using len Suc.prems by (simp add: Cons_nth_drop_Suc nat_add_distrib)
  moreover have "ByteToSector (a * int SectorSize) h = Inr (file_sectors h ! nat a)" "file_sectors h ! nat a \<in> set (file_sectors h)"
    using ByteToSector_wf [OF assms(2) Suc.prems] ab assms(4) by auto
  moreover have "rd (file_sectors h ! nat a) d = Inr (block rd d (file_sectors h ! nat a))"
    using rd_block [OF assms(1)] hdr_wf_sectors(3) [OF assms(2)] len by simp
  moreover have "nat (b + 1 - a) = Suc n" using Suc.hyps(2) by simp
  ultimately show ?case using Suc.hyps(1) [OF n] Suc.prems ab n by (simp add: upto_rec1)
qed

lemma ReadAt_loop_data:
  assumes "ok d" "hdr_wf h" "0 \<le> a" "b < numSectors h"
  shows "ReadAt_loop rd h [a..b] d = Inr (take (SectorSize * nat (b + 1 - a)) (drop (SectorSize * nat a) (file_data rd h d)))"
proof -
  note bl = blocks_length [OF assms(1,2)]
  have "take (SectorSize * nat (b + 1 - a)) (drop (SectorSize * nat a) (file_data rd h d)) =
      concat (take (nat (b + 1 - a)) (drop (nat a) (map (block rd d) (file_sectors h))))"
    unfolding file_data_def drop_concat_blocks [OF bl]
    by (rule take_concat_blocks) (use bl in_set_dropD in fastforce)
  then show ?thesis using ReadAt_loop_blocks [OF assms] by (simp add: take_map drop_map)
qed

lemma WriteAt_loop_data:
  assumes "hdr_wf h" "b < numSectors h"
  shows "ok d \<Longrightarrow> 0 \<le> a \<Longrightarrow> a \<le> b + 1 \<Longrightarrow> length buf = SectorSize * nat (b + 1 - a) \<Longrightarrow>
    \<exists>d'. WriteAt_loop wr h [a..b] buf d = Inr d' \<and> ok d' \<and>
      file_data rd h d' = overwrite (SectorSize * nat a) buf (file_data rd h d) \<and>
      (\<forall>s. 0 \<le> s \<and> s < NumSectors \<and> s \<notin> set (file_sectors h) \<longrightarrow> rd s d' = rd s d)"
proof (induction "nat (b + 1 - a)" arbitrary: a buf d)
  case 0
  then show ?case by simp
next
  case (Suc n)
  then have ab: "a \<le> b" by simp
  have n: "n = nat (b + 1 - (a + 1))" using Suc.hyps(2) by simp
  let ?s = "file_sectors h ! nat a"
  have bs: "ByteToSector (a * int SectorSize) h = Inr ?s" "?s \<in> set (file_sectors h)"
    using ByteToSector_wf [OF assms(1) Suc.prems(2)] ab assms(2) by auto
  have s: "0 \<le> ?s" "?s < NumSectors" using hdr_wf_sectors(3) [OF assms(1) bs(2)] by auto
  have lb: "length (take SectorSize buf) = SectorSize" "length (drop SectorSize buf) = SectorSize * nat (b + 1 - (a + 1))"
    using Suc.prems(4) Suc.hyps(2) n by auto
  obtain d1 where d1: "wr ?s (take SectorSize buf) d = Inr d1" "ok d1"
    using wr_total [OF Suc.prems(1) s lb(1)] by blast
  note rw = rd_wr [OF Suc.prems(1) s lb(1) d1(1)]
  have len: "nat a < length (file_sectors h)" using ab assms Suc.prems(2) hdr_wf_sectors(1) by simp
  have fd1: "file_data rd h d1 = overwrite (SectorSize * nat a) (take SectorSize buf) (file_data rd h d)"
  proof -
    have "map (block rd d1) (file_sectors h) = (map (block rd d) (file_sectors h))[nat a := take SectorSize buf]"
    proof (rule nth_equalityI)
      fix i
      assume "i < length (map (block rd d1) (file_sectors h))"
      then have i: "i < length (file_sectors h)" by simp
      then have v: "0 \<le> file_sectors h ! i" "file_sectors h ! i < NumSectors" using hdr_wf_sectors(3) [OF assms(1)] by simp_all
      have "file_sectors h ! i = ?s \<longleftrightarrow> i = nat a" using hdr_wf_sectors(2) [OF assms(1)] i len nth_eq_iff_index_eq by blast
      then show "map (block rd d1) (file_sectors h) ! i = (map (block rd d) (file_sectors h))[nat a := take SectorSize buf] ! i"
        using rw [OF v] i len by (auto simp: block_def nth_list_update)
    qed simp
    then show ?thesis unfolding file_data_def
      using concat_update_block [OF blocks_length [OF Suc.prems(1) assms(1)] _ lb(1)] len by simp
  qed
  obtain d' where d': "WriteAt_loop wr h [a + 1..b] (drop SectorSize buf) d1 = Inr d'" "ok d'"
      "file_data rd h d' = overwrite (SectorSize * nat (a + 1)) (drop SectorSize buf) (file_data rd h d1)"
      "\<forall>s. 0 \<le> s \<and> s < NumSectors \<and> s \<notin> set (file_sectors h) \<longrightarrow> rd s d' = rd s d1"
    using Suc.hyps(1) [OF n d1(2) _ _ lb(2)] Suc.prems(2) ab by auto
  have "nat (b + 1 - a) + nat a = nat (b + 1)" using ab Suc.prems(2) by simp
  then have "SectorSize * nat a + length buf \<le> length (file_data rd h d)"
    using length_file_data [OF Suc.prems(1) assms(1)] assms(2) Suc.prems(4) by simp
  then have "file_data rd h d' = overwrite (SectorSize * nat a) buf (file_data rd h d)"
    using overwrite_append [of "SectorSize * nat a" "take SectorSize buf" "drop SectorSize buf" "file_data rd h d"]
      d'(3) fd1 lb(1) Suc.prems(2) by (simp add: nat_add_distrib algebra_simps)
  moreover have "\<forall>s. 0 \<le> s \<and> s < NumSectors \<and> s \<notin> set (file_sectors h) \<longrightarrow> rd s d' = rd s d"
    using d'(4) rw bs(2) by auto
  ultimately show ?case using d' bs d1 ab by (simp add: upto_rec1)
qed

lemma ReadAt_bytes:
  assumes "ok d" "hdr_wf h" "0 \<le> position" "numBytes h \<le> position \<or> position + n < 2 ^ 31"
  shows "ReadAt rd h n position d = Inr (take (nat n) (drop (nat position) (file_bytes rd h d)))"
proof (cases "n \<le> 0 \<or> position \<ge> numBytes h")
  case True
  then show ?thesis using length_file_bytes [OF assms(1,2)] by (auto simp: ReadAt_def FileLength_def)
next
  case False
  define n1 where "n1 = min n (numBytes h - position)"
  define a where "a = position div 128"
  define b where "b = (position + n1 - 1) div 128"
  have pos: "position < numBytes h" "0 < n" "position + n < 2 ^ 31" using False assms(4) by auto
  note ri = request_ints [OF assms(2,3) pos, folded n1_def a_def, folded b_def]
  let ?D = "file_data rd h d"
  let ?buf = "take (128 * nat (b + 1 - a)) (drop (128 * nat a) ?D)"
  have c0: "(n \<le> 0 \<or> numBytes h \<le> position) = False" using False by simp
  have loop: "ReadAt_loop rd h [a..b] d = Inr ?buf" using ReadAt_loop_data [OF assms(1,2) ri(9,12)] by simp
  have off: "nat (position - a * 128) + 128 * nat a = nat position" using ri(9,10) by (simp add: nat_diff_distrib nat_mult_distrib)
  have fit: "nat n1 + nat (position - a * 128) \<le> 128 * nat (b + 1 - a)" using ri by (simp add: nat_le_iff)
  have "length ?buf = 128 * nat (b + 1 - a)"
    using length_file_data [OF assms(1,2)] ri(9,11,12) by (simp add: nat_le_iff algebra_simps)
  then have room: "(0 \<le> position - a * 128 \<and> position - a * 128 + n1 \<le> int (length ?buf)) = True"
    using ri(7,9-11) fit by simp
  have sz: "((1 + b - a) * 128 < 0) = False" using ri(11) by simp
  have eq: "ReadAt rd h n position d = Inr (take (nat n1) (drop (nat (position - a * 128)) ?buf))"
    unfolding ReadAt_def FileLength_def Let_def of_nat_numeral c0 if_False ri(1-4) sz loop bindR.simps room if_True ..
  from fit have "nat n1 \<le> 128 * nat (b + 1 - a) - nat (position - a * 128)" by linarith
  then have "take (nat n1) (drop (nat (position - a * 128)) ?buf) = take (nat n1) (drop (nat position) ?D)"
    using off by (simp add: drop_take min_absorb1)
  also have "\<dots> = take (nat n) (drop (nat position) (file_bytes rd h d))"
  proof -
    have "nat n1 = min (nat n) (nat (numBytes h) - nat position)" using assms(3) False by (auto simp: n1_def)
    then show ?thesis by (simp add: file_bytes_def drop_take)
  qed
  finally show ?thesis using eq by simp
qed

lemma WriteAt_bytes:
  fixes data :: "8 word list"
  assumes d: "ok d" and h: "hdr_wf h" and p: "0 \<le> position" "numBytes h \<le> position \<or> position + int (length data) < 2 ^ 31" and g: "\<And>n. length (garbage n) = n"
  defines "m \<equiv> min (length data) (nat (numBytes h) - nat position)"
  shows "\<exists>d'. WriteAt rd wr garbage h data position d = Inr (int m, d') \<and> ok d' \<and>
     file_bytes rd h d' = overwrite (nat position) (take m data) (file_bytes rd h d) \<and>
     (\<forall>s. 0 \<le> s \<and> s < NumSectors \<and> s \<notin> set (file_sectors h) \<longrightarrow> rd s d' = rd s d)"
proof (cases "data = [] \<or> position \<ge> numBytes h")
  case True
  then have "m = 0" by (auto simp: m_def)
  then show ?thesis using True d by (auto simp: WriteAt_def FileLength_def)
next
  case False
  have pl: "position < numBytes h" "0 < int (length data)" "position + int (length data) < 2 ^ 31" using False p(2) by auto
  note ri = request_ints [OF h p(1) pl]
  define P where "P = nat position"
  have pos: "position = int P" using p(1) by (simp add: P_def)
  define A where "A = P div 128"
  define E where "E = (P + m - 1) div 128"
  have m: "0 < m" "P + m \<le> nat (numBytes h)" using False pos by (auto simp: m_def)
  have n1: "min (int (length data)) (numBytes h - position) = int m" using False pos by (auto simp: m_def)
  have a: "position div 128 = int A" by (simp add: pos A_def zdiv_int)
  have "position + int m - 1 = int (P + m - 1)" using pos m by simp
  then have b: "(position + int m - 1) div 128 = int E" by (simp add: E_def zdiv_int)
  note ri' = ri [unfolded n1 a b]
  have AE: "A \<le> E" using ri'(11) by simp
  have sec: "numBytes h \<le> numSectors h * 128" using hdr_wf_sectors(4) [OF h] .
  have E: "int E < numSectors h" by (rule ri'(12))
  then have E30: "E < 30" using h by (simp add: hdr_wf_def)
  let ?F = "file_bytes rd h d" and ?D = "file_data rd h d"
  define buf where "buf = garbage (128 * (E + 1 - A))"
  have g': "garbage (nat ((1 + int E - int A) * 128)) = buf"
    using AE unfolding buf_def by (simp add: nat_mult_distrib of_nat_diff algebra_simps nat_diff_distrib flip: of_nat_Suc)
  have rA: "ReadAt rd h 128 (int A * 128) d = Inr (take 128 (drop (A * 128) ?F))"
    and rE: "ReadAt rd h 128 (int E * 128) d = Inr (take 128 (drop (E * 128) ?F))"
    using ReadAt_bytes [OF d h, of "int A * 128" 128] ReadAt_bytes [OF d h, of "int E * 128" 128] E30 AE
    by (simp_all add: nat_mult_distrib)
  define buf1 where "buf1 = (if P \<noteq> A * 128 then overwrite 0 (take 128 (drop (A * 128) ?F)) buf else buf)"
  define buf2 where "buf2 = (if P + m \<noteq> (E + 1) * 128 \<and> (A \<noteq> E \<or> P = A * 128)
       then overwrite ((E - A) * 128) (take 128 (drop (E * 128) ?F)) buf1 else buf1)"
  let ?buf = "overwrite (P - A * 128) (take m data) buf2"
  have len: "length ?D = 128 * nat (numSectors h)" by (rule length_file_data [OF d h])
  have DB: "nat (numBytes h) \<le> length ?D" "128 * (E + 1) \<le> length ?D" unfolding len using sec E by auto
  note wb = write_buffer [OF file_bytes_def [of rd h d] DB(1) m(1,2) _ A_def E_def DB(2) _ buf1_def buf2_def, of "take m data"]
  have lb: "length ?buf = 128 * (E + 1 - A)" "take (nat (numBytes h)) (overwrite (128 * A) ?buf ?D) = overwrite P (take m data) ?F"
    by (rule wb; simp add: m_def buf_def g)+
  obtain d' where d': "WriteAt_loop wr h [int A..int E] ?buf d = Inr d'" "ok d'"
      "file_data rd h d' = overwrite (128 * A) ?buf ?D"
      "\<forall>s. 0 \<le> s \<and> s < NumSectors \<and> s \<notin> set (file_sectors h) \<longrightarrow> rd s d' = rd s d"
  proof -
    have "nat (int E + 1 - int A) = E + 1 - A" using AE by arith
    then show ?thesis using WriteAt_loop_data [OF h E d, of "int A" ?buf] AE lb(1) by (auto intro: that)
  qed
  have c1: "(position = int A * 128) = (P = A * 128)" "(position + int m = (int E + 1) * 128) = (P + m = (E + 1) * 128)"
    unfolding pos by presburger+
  have lb0: "length buf = 128 * (E + 1 - A)" by (simp add: buf_def g)
  have lF: "length (take 128 (drop (x * 128) ?F)) \<le> 128" for x by simp
  have p1: "copy_into 0 (take 128 (drop (A * 128) ?F)) buf = Inr (overwrite 0 (take 128 (drop (A * 128) ?F)) buf)"
    using lb0 AE lF [of A] by (simp add: copy_into_def del: length_take)
  have lb1: "length buf1 = length buf" unfolding buf1_def using lb0 AE lF [of A] by (simp del: length_take)
  have cE: "(int E - int A) * 128 = int ((E - A) * 128)" using AE by (simp add: of_nat_diff)
  have "(E - A) * 128 + length (take 128 (drop (E * 128) ?F)) \<le> length buf1"
    unfolding lb1 lb0 using lF [of E] AE by (simp add: algebra_simps del: length_take)
  then have p2: "copy_into ((int E - int A) * 128) (take 128 (drop (E * 128) ?F)) buf1 =
      Inr (overwrite ((E - A) * 128) (take 128 (drop (E * 128) ?F)) buf1)"
    and lb2: "length buf2 = length buf1"
    unfolding copy_into_def cE buf2_def nat_int of_nat_add [symmetric] by (simp_all del: length_take of_nat_mult of_nat_add)
  have cA: "position - int A * 128 = int (P - A * 128)" unfolding pos A_def by (simp add: of_nat_diff)
  have "P - A * 128 + length (take m data) \<le> length buf2"
    unfolding lb2 lb1 lb0 using ri'(10,13) AE unfolding pos by simp
  then have p3: "copy_into (position - int A * 128) (take m data) buf2 = Inr ?buf"
    unfolding copy_into_def cA nat_int of_nat_add [symmetric] by (simp del: length_take of_nat_add)
  have sz: "((1 + int E - int A) * 128 < 0) = False" using AE by simp
  have "WriteAt rd wr garbage h data position d = Inr (int m, d')"
  proof -
    have c0: "(int (length data) \<le> 0 \<or> numBytes h \<le> position) = False" using False by simp
    have s1: "(if \<not> position = int A * 128 then bindR (ReadAt rd h 128 (int A * 128) d) (\<lambda>bs. copy_into 0 bs buf)
        else Inr buf) = Inr buf1"
      unfolding c1 buf1_def rA by (simp add: p1)
    have s2: "(if \<not> position + int m = (int E + 1) * 128 \<and> (int A \<noteq> int E \<or> position = int A * 128)
        then bindR (ReadAt rd h 128 (int E * 128) d) (\<lambda>bs. copy_into ((int E - int A) * 128) bs buf1)
        else Inr buf1) = Inr buf2"
      unfolding c1 buf2_def rE bindR.simps p2 by simp
    show ?thesis
      unfolding WriteAt_def FileLength_def Let_def of_nat_numeral c0 if_False ri'(1-6) sz g' s1 bindR.simps s2 nat_int p3 d'(1) ..
  qed
  moreover have "file_bytes rd h d' = overwrite P (take m data) ?F"
    unfolding file_bytes_def [of rd h d'] d'(3) by (rule lb(2))
  ultimately show ?thesis using d' by (auto simp: P_def)
qed

end

interpretation disk: sector_store ReadSector WriteSector disk_inv
proof unfold_locales
  fix d s
  assume d: "disk_inv d" and s: "0 \<le> s" "s < NumSectors"
  show "\<exists>b. ReadSector s d = Inr b \<and> length b = SectorSize"
    using transfer_in_eq [OF d s] sector_offset_bounds [OF s] s d by (auto simp: ReadSector_def disk_inv_def min_def)
  fix b :: "8 word list"
  assume b: "length b = SectorSize"
  show "\<exists>d'. WriteSector s b d = Inr d' \<and> disk_inv d'"
    using transfer_out_inv [OF d] s by (simp add: WriteSector_def)
  fix d' s'
  assume "WriteSector s b d = Inr d'" and s': "0 \<le> s'" "s' < NumSectors"
  then have "d' = transfer_out s b d" by (simp add: WriteSector_def s)
  then show "ReadSector s' d' = (if s' = s then Inr b else ReadSector s' d)"
    using disk_read_write [OF d s b s'] s s' by (simp add: ReadSector_def)
qed

section \<open>Headers on disk\<close>

definition fits_int :: "int \<Rightarrow> bool" where
  "fits_int n \<longleftrightarrow> - (2 ^ 31) \<le> n \<and> n < 2 ^ 31"

lemma int_bytes_roundtrip:
  "fits_int n \<Longrightarrow> sint (word_of_bytes (host_order big (host_order big (bytes_of_word 4 (word_of_int n :: 32 word)))) :: 32 word) = n"
  using to_int_id [of n] by (simp add: host_order_def word_of_bytes_of_word to_int_def fits_int_def)

lemma length_int_bytes: "length (host_order big (bytes_of_word 4 (w :: 32 word))) = 4"
  by (simp add: host_order_def bytes_of_word_def)

lemma length_bytes_of_ints [simp]: "length (bytes_of_ints big ns) = 4 * length ns"
  unfolding bytes_of_ints_def by (induction ns) (simp_all add: length_int_bytes)

lemma ints_of_bytes_of_ints:
  "\<forall>n \<in> set ns. fits_int n \<Longrightarrow> ints_of_bytes big (length ns) (bytes_of_ints big ns) = ns"
proof (induction ns)
  case (Cons n ns)
  have "bytes_of_ints big (n # ns) = host_order big (bytes_of_word 4 (word_of_int n :: 32 word)) @ bytes_of_ints big ns"
    by (simp add: bytes_of_ints_def)
  then show ?case using Cons by (simp add: length_int_bytes int_bytes_roundtrip)
qed simp

definition hdr_storable :: "FileHeader \<Rightarrow> bool" where
  "hdr_storable h \<longleftrightarrow> length (dataSectors h) = NumDirect \<and> fits_int (numBytes h) \<and> fits_int (numSectors h) \<and>
     (\<forall>s \<in> set (dataSectors h). fits_int s)"

lemma WriteBack_FetchFrom:
  assumes "disk_inv d" "0 \<le> sector" "sector < NumSectors" "hdr_storable h"
  shows "\<exists>d'. WriteBack big sector h d = Inr d' \<and> disk_inv d' \<and> FetchFrom big sector d' = Inr h \<and>
     (\<forall>s. 0 \<le> s \<and> s < NumSectors \<and> s \<noteq> sector \<longrightarrow> ReadSector s d' = ReadSector s d)"
proof -
  let ?ns = "numBytes h # numSectors h # dataSectors h"
  let ?b = "bytes_of_ints big ?ns"
  have len: "length ?ns = 32" "length ?b = SectorSize" using assms(4) by (simp_all add: hdr_storable_def)
  have fits: "\<forall>n \<in> set ?ns. fits_int n" using assms(4) by (simp add: hdr_storable_def)
  obtain d' where d': "WriteSector sector ?b d = Inr d'" "disk_inv d'"
    using disk.wr_total [OF assms(1-3) len(2)] by blast
  note rw = disk.rd_wr [OF assms(1-3) len(2) d'(1)]
  have "ints_of_bytes big 32 ?b = ?ns" using ints_of_bytes_of_ints [OF fits, of big] unfolding len(1) .
  then have "FetchFrom big sector d' = Inr h"
    using rw [OF assms(2,3)] by (simp add: FetchFrom_def)
  then show ?thesis using d' rw by (auto simp: WriteBack_def)
qed

section \<open>Allocation\<close>

text \<open>The loop of Allocate is the allocation loop of the allocator interface.\<close>

lemma Allocate_loop_eq:
  assumes "alloc_loop Find n m = Inr (js, m')" "length (dataSectors h) = NumDirect" "k + n \<le> NumDirect"
  shows "Allocate_loop [int k..int k + int n - 1] h m = Inr (h\<lparr>dataSectors := overwrite k js (dataSectors h)\<rparr>, m')"
  using assms
proof (induction n arbitrary: k h m js)
  case 0
  then show ?case by simp
next
  case (Suc n)
  obtain s m1 rest where s: "Find m = Inr (s, m1)" "alloc_loop Find n m1 = Inr (rest, m')" "js = s # rest"
    using Suc.prems(1) by (auto simp: res_simps)
  have len: "length rest = n" using s(2)
  proof (induction n arbitrary: m1 rest)
    case (Suc n)
    then show ?case by (auto simp: res_simps)
  qed simp
  let ?h = "h\<lparr>dataSectors := (dataSectors h)[k := s]\<rparr>"
  have up: "[int k..int k + int (Suc n) - 1] = int k # [int (Suc k)..int (Suc k) + int n - 1]"
    by (subst upto_rec1) (simp_all add: algebra_simps)
  have ow: "(dataSectors h)[k := s] = overwrite k [s] (dataSectors h)"
    using Suc.prems by (simp add: overwrite_def upd_conv_take_nth_drop)
  have "overwrite (Suc k) rest (overwrite k [s] (dataSectors h)) = overwrite k js (dataSectors h)"
    using overwrite_append [of k "[s]" rest "dataSectors h"] Suc.prems len s(3) by simp
  then show ?case
    unfolding up using s Suc.IH [OF s(2), of ?h "Suc k"] Suc.prems by (simp add: ow)
qed

lemma fileSize_sectors:
  assumes "0 \<le> fileSize"
  shows "divRoundUp fileSize 128 \<le> 30 \<longleftrightarrow> fileSize \<le> int MaxFileSize"
proof -
  have "fileSize \<le> divRoundUp fileSize 128 * 128" "divRoundUp fileSize 128 * 128 < fileSize + 128"
    using divRoundUp_bounds [OF assms, of 128] by simp_all
  then have "divRoundUp fileSize 128 \<le> 30 \<longleftrightarrow> fileSize \<le> 3840" by (intro iffI) linarith+
  then show ?thesis by simp
qed

lemma Allocate_spec:
  assumes m: "BitMap_wf m" "numBits m \<le> NumSectors" and size: "0 \<le> fileSize" "fileSize \<le> int MaxFileSize"
    and h: "length (dataSectors h) = NumDirect"
  shows "if divRoundUp fileSize (int SectorSize) \<le> int (card ({0..<numBits m} - marked m))
     then \<exists>h' m'. Allocate fileSize h m = Inr (True, h', m') \<and> hdr_wf h' \<and> numBytes h' = fileSize \<and>
            set (file_sectors h') \<subseteq> {0..<numBits m} - marked m \<and>
            set (dataSectors h') \<subseteq> set (file_sectors h') \<union> set (dataSectors h) \<and>
            BitMap_wf m' \<and> numBits m' = numBits m \<and> marked m' = marked m \<union> set (file_sectors h')
     else \<exists>h'. Allocate fileSize h m = Inr (False, h', m)"
proof (cases "divRoundUp fileSize 128 \<le> int (card ({0..<numBits m} - marked m))")
  case True
  define n where "n = nat (divRoundUp fileSize 128)"
  have n: "int n = divRoundUp fileSize 128" "n \<le> NumDirect"
    using divRoundUp_bounds(3) [OF size(1), of 128] fileSize_sectors [OF size(1)] size(2) by (auto simp: n_def)
  obtain js m' where js: "alloc_loop Find n m = Inr (js, m')" "length js = n" "distinct js"
      "set js \<subseteq> {0..<numBits m} - marked m" "marked m' = marked m \<union> set js" "numBits m' = numBits m" "BitMap_wf m'"
    using bitmap.alloc_loop_fresh [OF m(1), of n] True n by auto
  let ?h = "h\<lparr>numBytes := fileSize, numSectors := divRoundUp fileSize 128\<rparr>"
  let ?h' = "?h\<lparr>dataSectors := overwrite 0 js (dataSectors h)\<rparr>"
  have loop: "Allocate_loop [0..divRoundUp fileSize 128 - 1] ?h m = Inr (?h', m')"
    using Allocate_loop_eq [OF js(1), of ?h 0] h n by simp
  have "Allocate fileSize h m = Inr (True, ?h', m')"
    using True loop NumClear_card [OF m(1)] by (simp add: Allocate_def Let_def)
  moreover have fs: "file_sectors ?h' = js" using js(2) n by (simp add: file_sectors_def overwrite_def n_def)
  moreover have "hdr_wf ?h'"
    using js(2,3,4) n size h m(2) fs by (auto simp: hdr_wf_def file_sectors_def overwrite_def)
  moreover have "set (dataSectors ?h') \<subseteq> set js \<union> set (dataSectors h)" by (auto simp: overwrite_def dest: in_set_dropD)
  ultimately show ?thesis using True js by auto
next
  case False
  then show ?thesis using NumClear_card [OF m(1)] by (simp add: Allocate_def Let_def)
qed

text \<open>A file that does not fit in a header, on a disk with room for it.\<close>

lemma Allocate_past_end:
  assumes "BitMap_wf m" "int MaxFileSize < fileSize" "length (dataSectors h) = NumDirect"
    and "divRoundUp fileSize (int SectorSize) \<le> int (card ({0..<numBits m} - marked m))"
  shows "Allocate fileSize h m = Inl OutOfBounds"
proof -
  let ?h = "h\<lparr>numBytes := fileSize, numSectors := divRoundUp fileSize 128\<rparr>"
  have n: "30 < divRoundUp fileSize 128" using fileSize_sectors [of fileSize] assms(2) by simp
  then obtain js m' where js: "alloc_loop Find NumDirect m = Inr (js, m')" "marked m' = marked m \<union> set js" "length js = 30"
      "numBits m' = numBits m" "BitMap_wf m'"
    using bitmap.alloc_loop_fresh [OF assms(1), of NumDirect] assms(4) by auto
  have "card (marked m') < card {0..<numBits m}"
  proof -
    have "card {0..<numBits m} = card ({0..<numBits m} - marked m) + card (marked m)"
      using card_Diff_subset [OF bitmap.finite_used [OF assms(1)] marked_bound [of m]] card_mono [OF _ marked_bound [of m]]
      by simp
    moreover have "card (marked m') \<le> card (marked m) + 30"
      unfolding js(2) using card_Un_le [of "marked m" "set js"] card_length [of js] js(3) by linarith
    ultimately show ?thesis using n assms(4) by simp
  qed
  then have "marked m' \<noteq> {0..<numBits m'}" using js(4) by auto
  then obtain s m1 where f: "Find m' = Inr (s, m1)" using Find_free [OF js(5)] by blast
  have up: "[0..divRoundUp fileSize 128 - 1] = [0..29] @ 30 # [31..divRoundUp fileSize 128 - 1]"
    using upto_split2 [of 0 29 "divRoundUp fileSize 128 - 1"] upto_rec1 [of 30 "divRoundUp fileSize 128 - 1"] n by simp
  have app: "Allocate_loop (xs @ ys) h0 m0 = bindR (Allocate_loop xs h0 m0) (\<lambda>(h1, m1). Allocate_loop ys h1 m1)" for xs ys h0 m0
  proof (induction xs arbitrary: h0 m0)
    case (Cons x xs)
    then show ?case by (cases "Find m0") auto
  qed simp
  have l1: "Allocate_loop [0..29] ?h m = Inr (?h\<lparr>dataSectors := overwrite 0 js (dataSectors ?h)\<rparr>, m')"
    using Allocate_loop_eq [OF js(1), of ?h 0] assms(3) by simp
  have "length (overwrite 0 js (dataSectors h)) = 30" using js(3) assms(3) by simp
  then have "Allocate_loop [0..divRoundUp fileSize 128 - 1] ?h m = Inl OutOfBounds"
    unfolding up app l1 using f by simp
  then show ?thesis using NumClear_card [OF assms(1)] assms(4) by (simp add: Allocate_def Let_def)
qed

lemma Deallocate_loop_marked:
  assumes "hdr_wf h" "b < numSectors h"
  shows "BitMap_wf m \<Longrightarrow> 0 \<le> a \<Longrightarrow> set (drop (nat a) (take (nat (b + 1)) (file_sectors h))) \<subseteq> marked m \<Longrightarrow>
    \<exists>m'. Deallocate_loop [a..b] h m = Inr m' \<and> BitMap_wf m' \<and> numBits m' = numBits m \<and>
       marked m' = marked m - set (drop (nat a) (take (nat (b + 1)) (file_sectors h)))"
proof (induction "nat (b + 1 - a)" arbitrary: a m)
  case 0
  then have "nat (b + 1) \<le> nat a" by simp
  then have "drop (nat a) (take (nat (b + 1)) (file_sectors h)) = []" by simp
  then show ?case using 0 by auto
next
  case (Suc n)
  then have ab: "a \<le> b" by simp
  let ?s = "file_sectors h ! nat a" and ?t = "take (nat (b + 1)) (file_sectors h)"
  have len: "nat a < length ?t" using ab assms Suc.prems(2) hdr_wf_sectors(1) by simp
  have split: "drop (nat a) ?t = ?s # drop (nat (a + 1)) ?t"
    using Cons_nth_drop_Suc [OF len] Suc.prems(2) ab by (simp add: nat_add_distrib)
  have "data_sector a h = Inr ?s"
    using ByteToSector_wf(1) [OF assms(1) Suc.prems(2)] ab assms(2) Suc.prems(2) by (simp add: ByteToSector_def)
  moreover have s: "?s \<in> marked m" "0 \<le> ?s" "?s < numBits m" using Suc.prems(3) split by (auto simp: marked_def)
  moreover have "Test ?s m = Inr True" using Test_marked [OF Suc.prems(1) s(2,3)] s(1) by simp
  moreover obtain m1 where m1: "Clear ?s m = Inr m1" "marked m1 = marked m - {?s}" "numBits m1 = numBits m" "BitMap_wf m1"
    using Clear_marked [OF Suc.prems(1) s(2,3)] by blast
  moreover have "\<exists>m'. Deallocate_loop [a + 1..b] h m1 = Inr m' \<and> BitMap_wf m' \<and>
      numBits m' = numBits m1 \<and> marked m' = marked m1 - set (drop (nat (a + 1)) ?t)"
  proof (rule Suc.hyps(1) [OF _ m1(4)])
    show "n = nat (b + 1 - (a + 1))" using Suc.hyps(2) by simp
    show "0 \<le> a + 1" using Suc.prems(2) by simp
    have "distinct (drop (nat a) ?t)" using hdr_wf_sectors(2) [OF assms(1)] by simp
    then show "set (drop (nat (a + 1)) ?t) \<subseteq> marked m1" using Suc.prems(3) unfolding split m1(2) by auto
  qed
  moreover have "marked m - {?s} - set (drop (nat (a + 1)) ?t) = marked m - set (drop (nat a) ?t)" unfolding split by auto
  ultimately show ?case using ab by (simp add: upto_rec1)
qed

lemma Deallocate_spec:
  assumes "hdr_wf h" "BitMap_wf m" "set (file_sectors h) \<subseteq> marked m"
  shows "\<exists>m'. Deallocate h m = Inr m' \<and> BitMap_wf m' \<and> numBits m' = numBits m \<and> marked m' = marked m - set (file_sectors h)"
  using Deallocate_loop_marked [OF assms(1), of "numSectors h - 1" m 0] assms hdr_wf_sectors(1) [OF assms(1)]
  by (simp add: Deallocate_def)

section \<open>Properties\<close>

text \<open>A file of 300 bytes in three sectors that are not consecutive.\<close>

definition example_header :: FileHeader where
  "example_header = \<lparr>numBytes = 300, numSectors = 3, dataSectors = [7, 3, 900] @ replicate 27 0\<rparr>"

definition example_disk :: Disk where
  "example_disk = \<lparr>diskFile = replicate DiskSize 0, active = False, lastSector = 0, bufferInit = 0\<rparr>"

lemma example_header_wf: "hdr_wf example_header"
  by (simp add: hdr_wf_def example_header_def divRoundUp_def)

lemma example_disk_inv: "disk_inv example_disk"
  by (simp add: disk_inv_def example_disk_def)

text \<open>
  C26. ReadAt on an open file is reading a slice of an array of bytes, on every position and every
  number of bytes that are C integers, aligned on sectors or not: it returns exactly the bytes of
  the file from that position, as many as were asked for and as the file has. The exceptions are the
  requests for at least one byte of the file's range that have a negative position, or whose end
  \<^verbatim>\<open>position + numBytes\<close> overflows the C integer, so that it is not cut to the end of the file: they
  fail (an allocation of negative size, an index outside of an array, or a failed assertion).
\<close>

theorem ReadAt_refines:
  assumes "disk_inv d" and "hdr_wf h" and "- (2 ^ 31) \<le> position" and "position < 2 ^ 31" and "n < 2 ^ 31"
  shows "if 0 < n \<and> position < numBytes h \<and> (position < 0 \<or> 2 ^ 31 \<le> position + n)
     then \<exists>e. ReadAt ReadSector h n position d = Inl e
     else ReadAt ReadSector h n position d = Inr (take (nat n) (drop (nat position) (file_bytes ReadSector h d)))"
proof (cases "0 < n \<and> position < numBytes h \<and> (position < 0 \<or> 2 ^ 31 \<le> position + n)")
  case True
  show ?thesis
    unfolding if_P [OF True] using True ReadAt_negative [OF assms(2,3) _ _ assms(5)]
      ReadAt_overflow [OF assms(2) _ _ assms(5), of position ReadSector d]
    by (cases "position < 0") auto
next
  case False
  consider "n \<le> 0" | "0 \<le> position" "numBytes h \<le> position \<or> position + n < 2 ^ 31"
    using False hdr_wf_sectors(6) [OF assms(2)] by linarith
  then have "ReadAt ReadSector h n position d = Inr (take (nat n) (drop (nat position) (file_bytes ReadSector h d)))"
  proof cases
    case 2
    then show ?thesis by (rule disk.ReadAt_bytes [OF assms(1,2)])
  qed (simp add: ReadAt_def)
  then show ?thesis unfolding if_not_P [OF False] .
qed

lemma ReadAt_refines_witness:
  "ReadAt ReadSector example_header 10 295 example_disk =
     Inr (take 10 (drop 295 (file_bytes ReadSector example_header example_disk))) \<and>
   (\<exists>e. ReadAt ReadSector example_header (2 ^ 31 - 1) 1 example_disk = Inl e)"
  using ReadAt_refines [OF example_disk_inv example_header_wf, of 295 10]
    ReadAt_refines [OF example_disk_inv example_header_wf, of 1 "2 ^ 31 - 1"] by (simp add: example_header_def)

text \<open>
  C4. WriteAt on an open file is overwriting a slice of an array of bytes: for every non-negative
  position and every amount of data whose end \<^verbatim>\<open>position + numBytes\<close> is a C integer, aligned on sectors
  or not, and for every position past the end of the file, it writes the bytes that fit in the file,
  changes no other byte of the file (the sectors it writes partially are read first), and touches
  no sector of the disk outside of the file; the result counts the bytes written. The other requests
  for at least one byte, with a negative position or an end that overflows, fail.
\<close>

theorem WriteAt_refines:
  assumes "disk_inv d" and "hdr_wf h" and "- (2 ^ 31) \<le> position" and "int (length data) < 2 ^ 31"
    and "\<forall>n. length (garbage n) = n"
  shows "if data \<noteq> [] \<and> position < numBytes h \<and> (position < 0 \<or> 2 ^ 31 \<le> position + int (length data))
     then \<exists>e. WriteAt ReadSector WriteSector garbage h data position d = Inl e
     else \<exists>d'. WriteAt ReadSector WriteSector garbage h data position d =
         Inr (int (min (length data) (nat (numBytes h) - nat position)), d') \<and> disk_inv d' \<and>
       file_bytes ReadSector h d' =
         overwrite (nat position) (take (min (length data) (nat (numBytes h) - nat position)) data) (file_bytes ReadSector h d) \<and>
       (\<forall>s. 0 \<le> s \<and> s < NumSectors \<and> s \<notin> set (file_sectors h) \<longrightarrow> ReadSector s d' = ReadSector s d)"
proof (cases "data \<noteq> [] \<and> position < numBytes h \<and> (position < 0 \<or> 2 ^ 31 \<le> position + int (length data))")
  case True
  show ?thesis
    unfolding if_P [OF True] using True WriteAt_negative [OF assms(2,3) _ _ assms(4)]
      WriteAt_overflow [OF assms(2) _ _ assms(4), of position ReadSector WriteSector garbage d]
    by (cases "position < 0") auto
next
  case False
  consider "data = []" | "0 \<le> position" "numBytes h \<le> position \<or> position + int (length data) < 2 ^ 31"
    using False hdr_wf_sectors(6) [OF assms(2)] by linarith
  then show ?thesis
  proof cases
    case 1
    then show ?thesis unfolding if_not_P [OF False] using assms(1) by (simp add: WriteAt_def)
  next
    case 2
    then show ?thesis unfolding if_not_P [OF False] using disk.WriteAt_bytes [OF assms(1,2) 2, of garbage] assms(5) by blast
  qed
qed

lemma WriteAt_refines_witness:
  "\<exists>d'. WriteAt ReadSector WriteSector (\<lambda>n. replicate n 0xfe) example_header [1, 2, 3] 298 example_disk = Inr (2, d') \<and>
     file_bytes ReadSector example_header d' = overwrite 298 [1, 2] (file_bytes ReadSector example_header example_disk)"
  using WriteAt_refines [OF example_disk_inv example_header_wf, of 298 "[1, 2, 3]" "\<lambda>n. replicate n 0xfe"]
  by (auto simp: example_header_def)

text \<open>
  A file header written to a sector is fetched back from it unchanged, in either byte order of the
  host, and no other sector is touched.
\<close>

lemma header_roundtrip:
  assumes "disk_inv d" "0 \<le> sector" "sector < NumSectors" "hdr_storable h"
  shows "\<exists>d'. WriteBack big sector h d = Inr d' \<and> disk_inv d' \<and> FetchFrom big sector d' = Inr h \<and>
     (\<forall>s. 0 \<le> s \<and> s < NumSectors \<and> s \<noteq> sector \<longrightarrow> ReadSector s d' = ReadSector s d)"
  using assms by (rule WriteBack_FetchFrom)

text \<open>
  Allocate, on a file that fits in a header, takes exactly the sectors it needs, all free, all
  different, when there are enough, and otherwise reports failure and leaves the free map alone;
  Deallocate then gives back exactly those sectors.
\<close>

lemma Allocate_Deallocate:
  assumes "BitMap_wf m" "numBits m \<le> NumSectors" "0 \<le> fileSize" "fileSize \<le> int MaxFileSize"
    "length (dataSectors h) = NumDirect"
  shows "if divRoundUp fileSize (int SectorSize) \<le> int (card ({0..<numBits m} - marked m))
     then \<exists>h' m' m''. Allocate fileSize h m = Inr (True, h', m') \<and> hdr_wf h' \<and> numBytes h' = fileSize \<and>
            set (file_sectors h') \<inter> marked m = {} \<and> marked m' = marked m \<union> set (file_sectors h') \<and>
            Deallocate h' m' = Inr m'' \<and> marked m'' = marked m
     else \<exists>h'. Allocate fileSize h m = Inr (False, h', m)"
proof (cases "divRoundUp fileSize (int SectorSize) \<le> int (card ({0..<numBits m} - marked m))")
  case True
  then obtain h' m' where a: "Allocate fileSize h m = Inr (True, h', m')" "hdr_wf h'" "numBytes h' = fileSize"
      "set (file_sectors h') \<subseteq> {0..<numBits m} - marked m" "BitMap_wf m'" "marked m' = marked m \<union> set (file_sectors h')"
    using Allocate_spec [OF assms] by auto
  then obtain m'' where "Deallocate h' m' = Inr m''" "marked m'' = marked m' - set (file_sectors h')"
    using Deallocate_spec [OF a(2,5)] by auto
  then show ?thesis using True a by auto
next
  case False
  then show ?thesis using Allocate_spec [OF assms] by simp
qed

text \<open>
  C40. Allocate does not check that the file fits in its header: for every size above 3840 bytes, when
  the disk has room, it stores sector numbers past the end of the array \<^verbatim>\<open>dataSectors\<close>.
\<close>

theorem Allocate_overflow:
  assumes "BitMap_wf m" "int MaxFileSize < fileSize" "length (dataSectors h) = NumDirect"
    and "divRoundUp fileSize (int SectorSize) \<le> int (card ({0..<numBits m} - marked m))"
  shows "Allocate fileSize h m = Inl OutOfBounds"
  using assms by (rule Allocate_past_end)

lemma Allocate_overflow_witness:
  "Allocate 3841 example_header \<lparr>numBits = 1024, numWords = 32, bmap = replicate 32 0\<rparr> = Inl OutOfBounds"
proof -
  let ?m = "\<lparr>numBits = 1024, numWords = 32, bmap = replicate 32 0\<rparr>"
  have "marked ?m = {}" by (auto simp: marked_def)
  then show ?thesis
    using Allocate_overflow [of ?m 3841 example_header]
    by (simp add: BitMap_wf_def divRoundUp_def example_header_def)
qed

end
