(* ===== verification/Nachos_FileSys.thy ===== *)
theory Nachos_FileSys
  imports Nachos_File
begin

text \<open>
  The file system: directories (\<^verbatim>\<open>code/filesys/directory.cc\<close>) and the operations of
  \<^verbatim>\<open>code/filesys/filesys.cc\<close>, with the free map stored in a file (\<^verbatim>\<open>BitMap::FetchFrom\<close> and
  \<^verbatim>\<open>WriteBack\<close> of \<^verbatim>\<open>code/userprog/bitmap.cc\<close>).

  Names are C strings, here lists of non-zero bytes; only their first nine bytes count. A directory
  is an array of entries; its bytes in memory and on disk are those of the 20-byte layout of the
  class DirectoryEntry (flag, padding, sector number, ten bytes of name, padding).
  Uninitialised memory is an argument: the record \<open>Garbage\<close>.
\<close>

section \<open>Directories\<close>

abbreviation (input) FileNameMaxLen :: nat where "FileNameMaxLen \<equiv> 9"

record DirectoryEntry =
  inUse :: bool
  esector :: int
  ename :: "8 word list"

type_synonym Directory = "DirectoryEntry list"

text \<open>\<^verbatim>\<open>!strncmp(a, b, n)\<close> and \<^verbatim>\<open>strncpy(dest, src, n)\<close> of the C library, on arrays of bytes.\<close>

fun strncmp_eq :: "nat \<Rightarrow> 8 word list \<Rightarrow> 8 word list \<Rightarrow> bool" where
  "strncmp_eq (Suc n) (x # xs) (y # ys) = (x = y \<and> (x = 0 \<or> strncmp_eq n xs ys))"
| "strncmp_eq 0 xs ys = True"
| "strncmp_eq (Suc n) xs ys = False"

definition strncpy :: "nat \<Rightarrow> 8 word list \<Rightarrow> 8 word list \<Rightarrow> 8 word list" where
  "strncpy n src dest = take n (takeWhile (\<lambda>c. c \<noteq> 0) src @ replicate n 0) @ drop n dest"

definition Directory_new :: "DirectoryEntry list \<Rightarrow> nat \<Rightarrow> Directory" where
  "Directory_new garbage tableSize = map (\<lambda>e. e\<lparr>inUse := False\<rparr>) (take tableSize garbage)"

fun FindIndex_loop :: "8 word list \<Rightarrow> int \<Rightarrow> Directory \<Rightarrow> int" where
  "FindIndex_loop name i [] = - 1"
| "FindIndex_loop name i (e # es) =
     (if inUse e \<and> strncmp_eq FileNameMaxLen (ename e) (name @ [0]) then i else FindIndex_loop name (i + 1) es)"

definition FindIndex :: "8 word list \<Rightarrow> Directory \<Rightarrow> int" where
  "FindIndex name table = FindIndex_loop name 0 table"

definition Directory_Find :: "8 word list \<Rightarrow> Directory \<Rightarrow> int" where
  "Directory_Find name table =
     (let i = FindIndex name table in if i \<noteq> - 1 then esector (table ! nat i) else - 1)"

fun Add_loop :: "8 word list \<Rightarrow> int \<Rightarrow> Directory \<Rightarrow> bool \<times> Directory" where
  "Add_loop name newSector [] = (False, [])"
| "Add_loop name newSector (e # es) =
     (if \<not> inUse e
      then (True, e\<lparr>inUse := True, esector := newSector, ename := strncpy FileNameMaxLen (name @ [0]) (ename e)\<rparr> # es)
      else let (r, es') = Add_loop name newSector es in (r, e # es'))"

definition Add :: "8 word list \<Rightarrow> int \<Rightarrow> Directory \<Rightarrow> bool \<times> Directory" where
  "Add name newSector table =
     (if FindIndex name table \<noteq> - 1 then (False, table) else Add_loop name newSector table)"

definition Directory_Remove :: "8 word list \<Rightarrow> Directory \<Rightarrow> bool \<times> Directory" where
  "Directory_Remove name table =
     (let i = FindIndex name table in
      if i = - 1 then (False, table) else (True, table[nat i := (table ! nat i)\<lparr>inUse := False\<rparr>]))"

text \<open>\<^verbatim>\<open>printf\<close> of a name with no terminator in its ten bytes leaves the entry.\<close>

definition Directory_List :: "Directory \<Rightarrow> 8 word list list res" where
  "Directory_List table =
     (if \<forall>e \<in> set table. inUse e \<longrightarrow> 0 \<in> set (ename e)
      then Inr (map (\<lambda>e. takeWhile (\<lambda>c. c \<noteq> 0) (ename e)) (filter inUse table)) else Inl OutOfBounds)"

section \<open>A directory is a finite map\<close>

definition key :: "8 word list \<Rightarrow> 8 word list" where
  "key name = takeWhile (\<lambda>c. c \<noteq> 0) (take FileNameMaxLen name)"

definition dir_abs :: "Directory \<Rightarrow> (8 word list \<rightharpoonup> int)" where
  "dir_abs table = map_of (map (\<lambda>e. (key (ename e), esector e)) (filter inUse table))"

definition dir_inv :: "Directory \<Rightarrow> bool" where
  "dir_inv table \<longleftrightarrow> (\<forall>e \<in> set table. length (ename e) = FileNameMaxLen + 1) \<and>
     (\<forall>i < length table. \<forall>j < length table.
        inUse (table ! i) \<and> inUse (table ! j) \<and> key (ename (table ! i)) = key (ename (table ! j)) \<longrightarrow> i = j)"

lemma strncmp_takeWhile:
  "n \<le> length a \<Longrightarrow> 0 \<notin> set b \<Longrightarrow>
   strncmp_eq n a (b @ [0]) \<longleftrightarrow> takeWhile (\<lambda>c. c \<noteq> 0) (take n a) = take n b"
proof (induction n arbitrary: a b)
  case (Suc n)
  then obtain x xs where a: "a = x # xs" by (cases a) auto
  show ?case
  proof (cases b)
    case Nil
    then show ?thesis using a Suc.prems by auto
  next
    case (Cons y ys)
    then show ?thesis using a Suc by auto
  qed
qed simp

lemma key_no_nul: "0 \<notin> set name \<Longrightarrow> key name = take FileNameMaxLen name"
  unfolding key_def by (rule takeWhile_eq_all_conv [THEN iffD2]) (auto dest: in_set_takeD)

lemma strncmp_key:
  "length (ename e) = FileNameMaxLen + 1 \<Longrightarrow> 0 \<notin> set name \<Longrightarrow>
   strncmp_eq FileNameMaxLen (ename e) (name @ [0]) \<longleftrightarrow> key (ename e) = key name"
  using strncmp_takeWhile [of FileNameMaxLen "ename e" name] by (simp add: key_no_nul) (simp add: key_def)

lemma key_strncpy:
  assumes "0 \<notin> set name" "length dest = FileNameMaxLen + 1"
  shows "key (strncpy FileNameMaxLen (name @ [0]) dest) = key name" "length (strncpy FileNameMaxLen (name @ [0]) dest) = FileNameMaxLen + 1"
proof -
  have tw: "takeWhile (\<lambda>c. c \<noteq> 0) (name @ [0]) = name" using assms(1) by (simp add: takeWhile_append)
  have z: "takeWhile (\<lambda>c. c \<noteq> (0 :: 8 word)) (xs @ replicate k 0) = xs" if "0 \<notin> set xs" for xs k
    using that by (cases k) (auto simp: takeWhile_append)
  have nz: "0 \<notin> set (take FileNameMaxLen name)" using assms(1) by (auto dest: in_set_takeD)
  have eq: "take FileNameMaxLen (strncpy FileNameMaxLen (name @ [0]) dest) = take FileNameMaxLen name @ replicate (9 - length name) 0"
    by (simp add: strncpy_def tw)
  show "key (strncpy FileNameMaxLen (name @ [0]) dest) = key name"
    unfolding key_no_nul [OF assms(1)] unfolding key_def eq by (rule z [OF nz])
  show "length (strncpy FileNameMaxLen (name @ [0]) dest) = FileNameMaxLen + 1" using assms(2) by (simp add: strncpy_def)
qed

lemma FindIndex_loop_spec:
  assumes "\<forall>e \<in> set t. length (ename e) = FileNameMaxLen + 1" "0 \<notin> set name" "0 \<le> i"
  shows "(FindIndex_loop name i t = - 1 \<and> (\<forall>e \<in> set t. inUse e \<longrightarrow> key (ename e) \<noteq> key name)) \<or>
     (\<exists>j < length t. FindIndex_loop name i t = i + int j \<and> inUse (t ! j) \<and> key (ename (t ! j)) = key name)"
  using assms(1,3)
proof (induction t arbitrary: i)
  case (Cons e t)
  show ?case
  proof (cases "inUse e \<and> key (ename e) = key name")
    case True
    then show ?thesis using Cons.prems strncmp_key [of e name] assms(2) by auto
  next
    case False
    then have "FindIndex_loop name i (e # t) = FindIndex_loop name (i + 1) t"
      using Cons.prems strncmp_key [of e name] assms(2) by auto
    moreover from Cons.IH [of "i + 1"] Cons.prems
    consider "FindIndex_loop name (i + 1) t = - 1" "\<forall>e \<in> set t. inUse e \<longrightarrow> key (ename e) \<noteq> key name"
      | j where "j < length t" "FindIndex_loop name (i + 1) t = i + 1 + int j" "inUse (t ! j)" "key (ename (t ! j)) = key name"
      by auto
    then have "(FindIndex_loop name (i + 1) t = - 1 \<and> (\<forall>e \<in> set (e # t). inUse e \<longrightarrow> key (ename e) \<noteq> key name)) \<or>
       (\<exists>j < length (e # t). FindIndex_loop name (i + 1) t = i + int j \<and> inUse ((e # t) ! j) \<and> key (ename ((e # t) ! j)) = key name)"
    proof cases
      case 1
      then show ?thesis using False by auto
    next
      case (2 j)
      then show ?thesis by (intro disjI2 exI [of _ "Suc j"]) simp
    qed
    ultimately show ?thesis by simp
  qed
qed simp

lemma option_eqI: "(\<And>v. a = Some v \<longleftrightarrow> b = Some v) \<Longrightarrow> a = b"
  by (cases a; cases b) auto

lemma distinct_map_filter:
  "(\<And>i j. i < length t \<Longrightarrow> j < length t \<Longrightarrow> P (t ! i) \<Longrightarrow> P (t ! j) \<Longrightarrow> f (t ! i) = f (t ! j) \<Longrightarrow> i = j) \<Longrightarrow>
   distinct (map f (filter P t))"
proof (induction t)
  case (Cons e t)
  have IH: "distinct (map f (filter P t))"
  proof (rule Cons.IH)
    fix i j
    assume "i < length t" "j < length t" "P (t ! i)" "P (t ! j)" "f (t ! i) = f (t ! j)"
    then show "i = j" using Cons.prems [of "Suc i" "Suc j"] by simp
  qed
  have "f e \<noteq> f x" if a: "P e" "x \<in> set t" "P x" for x
  proof
    assume f: "f e = f x"
    obtain j where "j < length t" "t ! j = x" using a(2) by (auto simp: in_set_conv_nth)
    then show False using Cons.prems [of 0 "Suc j"] a f by simp
  qed
  then show ?case using IH by auto
qed simp

lemma dir_abs_Some:
  assumes "dir_inv t"
  shows "dir_abs t k = Some s \<longleftrightarrow> (\<exists>j < length t. inUse (t ! j) \<and> key (ename (t ! j)) = k \<and> esector (t ! j) = s)"
proof -
  have "distinct (map (\<lambda>e. key (ename e)) (filter inUse t))"
    by (rule distinct_map_filter) (use assms in \<open>auto simp: dir_inv_def\<close>)
  then have "distinct (map fst (map (\<lambda>e. (key (ename e), esector e)) (filter inUse t)))" by (simp add: comp_def)
  then have "dir_abs t k = Some s \<longleftrightarrow> (k, s) \<in> set (map (\<lambda>e. (key (ename e), esector e)) (filter inUse t))"
    unfolding dir_abs_def by (rule map_of_eq_Some_iff)
  then show ?thesis by (auto simp: in_set_conv_nth)
qed

lemma dir_abs_None: "dir_abs t k = None \<longleftrightarrow> (\<forall>e \<in> set t. inUse e \<longrightarrow> key (ename e) \<noteq> k)"
  by (force simp: dir_abs_def map_of_eq_None_iff image_image)

lemma FindIndex_spec:
  assumes "dir_inv t" "0 \<notin> set name"
  shows "if dir_abs t (key name) = None then FindIndex name t = - 1
     else \<exists>j < length t. FindIndex name t = int j \<and> inUse (t ! j) \<and> key (ename (t ! j)) = key name"
  using FindIndex_loop_spec [of t name 0] assms
  by (auto simp: FindIndex_def dir_abs_None dir_inv_def)

lemma Add_loop_spec:
  "(Add_loop name s t = (False, t) \<and> (\<forall>e \<in> set t. inUse e)) \<or>
   (\<exists>j < length t. \<not> inUse (t ! j) \<and> Add_loop name s t =
       (True, t[j := (t ! j)\<lparr>inUse := True, esector := s, ename := strncpy FileNameMaxLen (name @ [0]) (ename (t ! j))\<rparr>]))"
proof (induction t)
  case (Cons e t)
  show ?case
  proof (cases "inUse e")
    case False
    then show ?thesis by (intro disjI2 exI [of _ 0]) simp
  next
    case True
    from Cons consider "Add_loop name s t = (False, t)" "\<forall>e \<in> set t. inUse e"
      | j where "j < length t" "\<not> inUse (t ! j)" "Add_loop name s t =
       (True, t[j := (t ! j)\<lparr>inUse := True, esector := s, ename := strncpy FileNameMaxLen (name @ [0]) (ename (t ! j))\<rparr>])"
      by blast
    then show ?thesis
    proof cases
      case 1
      then show ?thesis using True by simp
    next
      case (2 j)
      then show ?thesis using True by (intro disjI2 exI [of _ "Suc j"]) simp
    qed
  qed
qed simp

lemma Add_spec:
  assumes inv: "dir_inv t" and name: "0 \<notin> set name"
  shows "if dir_abs t (key name) \<noteq> None \<or> (\<forall>e \<in> set t. inUse e) then Add name s t = (False, t)
     else \<exists>t'. Add name s t = (True, t') \<and> dir_inv t' \<and> length t' = length t \<and> dir_abs t' = (dir_abs t)(key name \<mapsto> s)"
proof (cases "dir_abs t (key name) \<noteq> None \<or> (\<forall>e \<in> set t. inUse e)")
  case True
  then show ?thesis using FindIndex_spec [OF inv name] Add_loop_spec [of name s t]
    by (auto simp: Add_def split: if_splits)
next
  case False
  then have none: "dir_abs t (key name) = None" by simp
  obtain j where j: "j < length t" "\<not> inUse (t ! j)" and al: "Add_loop name s t =
       (True, t[j := (t ! j)\<lparr>inUse := True, esector := s, ename := strncpy FileNameMaxLen (name @ [0]) (ename (t ! j))\<rparr>])"
    using Add_loop_spec [of name s t] False by blast
  let ?e = "(t ! j)\<lparr>inUse := True, esector := s, ename := strncpy FileNameMaxLen (name @ [0]) (ename (t ! j))\<rparr>"
  let ?t = "t[j := ?e]"
  have len: "length (ename (t ! j)) = FileNameMaxLen + 1" using inv j by (simp add: dir_inv_def)
  note k = key_strncpy [OF name len]
  have fresh: "key (ename (t ! i)) \<noteq> key name" if "i < length t" "inUse (t ! i)" for i
    using none that by (auto simp: dir_abs_None)
  have inv': "dir_inv ?t"
    unfolding dir_inv_def
  proof (intro conjI)
    show "\<forall>e \<in> set ?t. length (ename e) = FileNameMaxLen + 1"
      using inv j k(2) by (simp add: dir_inv_def all_set_conv_all_nth nth_list_update)
    show "\<forall>i < length ?t. \<forall>i' < length ?t. inUse (?t ! i) \<and> inUse (?t ! i') \<and> key (ename (?t ! i)) = key (ename (?t ! i')) \<longrightarrow> i = i'"
    proof (intro allI impI)
      fix i i'
      assume "i < length ?t" "i' < length ?t"
        and a: "inUse (?t ! i) \<and> inUse (?t ! i') \<and> key (ename (?t ! i)) = key (ename (?t ! i'))"
      then have l: "i < length t" "i' < length t" by simp_all
      show "i = i'"
        using a l fresh [of i] fresh [of i'] k(1) inv unfolding dir_inv_def
        by (cases "i = j"; cases "i' = j") auto
    qed
  qed
  have "dir_abs ?t = (dir_abs t)(key name \<mapsto> s)"
  proof (rule ext)
    fix x
    have iff: "dir_abs ?t x = Some v \<longleftrightarrow> ((dir_abs t)(key name \<mapsto> s)) x = Some v" for v
      using dir_abs_Some [OF inv', of x v] dir_abs_Some [OF inv, of x v] k(1) j fresh
      by (auto simp: nth_list_update)
    show "dir_abs ?t x = ((dir_abs t)(key name \<mapsto> s)) x" by (rule option_eqI) (rule iff)
  qed
  moreover have "FindIndex name t = - 1" using FindIndex_spec [OF inv name] none by simp
  ultimately show ?thesis using False al inv' by (auto simp: Add_def)
qed

lemma Directory_Find_spec:
  assumes "dir_inv t" "0 \<notin> set name"
  shows "Directory_Find name t = (case dir_abs t (key name) of None \<Rightarrow> - 1 | Some s \<Rightarrow> s)"
proof (cases "dir_abs t (key name)")
  case None
  then show ?thesis using FindIndex_spec [OF assms] by (simp add: Directory_Find_def)
next
  case (Some s)
  then obtain j where j: "j < length t" "FindIndex name t = int j" "inUse (t ! j)" "key (ename (t ! j)) = key name"
    using FindIndex_spec [OF assms] by auto
  then have "dir_abs t (key name) = Some (esector (t ! j))" using dir_abs_Some [OF assms(1)] by blast
  then show ?thesis using j Some by (simp add: Directory_Find_def)
qed

lemma Directory_Remove_spec:
  assumes inv: "dir_inv t" and name: "0 \<notin> set name"
  shows "if dir_abs t (key name) = None then Directory_Remove name t = (False, t)
     else \<exists>t'. Directory_Remove name t = (True, t') \<and> dir_inv t' \<and> length t' = length t \<and> dir_abs t' = (dir_abs t)(key name := None)"
proof (cases "dir_abs t (key name) = None")
  case True
  then show ?thesis using FindIndex_spec [OF inv name] by (simp add: Directory_Remove_def)
next
  case False
  then obtain j where j: "j < length t" "FindIndex name t = int j" "inUse (t ! j)" "key (ename (t ! j)) = key name"
    using FindIndex_spec [OF inv name] by auto
  let ?t = "t[j := (t ! j)\<lparr>inUse := False\<rparr>]"
  have only: "i = j" if "i < length t" "inUse (t ! i)" "key (ename (t ! i)) = key name" for i
    using that j inv by (auto simp: dir_inv_def)
  have inv': "dir_inv ?t"
    unfolding dir_inv_def
  proof (intro conjI)
    show "\<forall>e \<in> set ?t. length (ename e) = FileNameMaxLen + 1"
      using inv j by (simp add: dir_inv_def all_set_conv_all_nth nth_list_update)
    show "\<forall>i < length ?t. \<forall>i' < length ?t. inUse (?t ! i) \<and> inUse (?t ! i') \<and> key (ename (?t ! i)) = key (ename (?t ! i')) \<longrightarrow> i = i'"
      using inv j by (auto simp: dir_inv_def nth_list_update)
  qed
  have "dir_abs ?t = (dir_abs t)(key name := None)"
  proof (rule ext)
    fix x
    have iff: "dir_abs ?t x = Some v \<longleftrightarrow> ((dir_abs t)(key name := None)) x = Some v" for v
    proof -
      have nth: "inUse (?t ! i) \<longleftrightarrow> i \<noteq> j \<and> inUse (t ! i)" "ename (?t ! i) = ename (t ! i)" "esector (?t ! i) = esector (t ! i)"
        if "i < length t" for i
        using that j by (auto simp: nth_list_update)
      have "dir_abs ?t x = Some v \<longleftrightarrow> (\<exists>i < length t. i \<noteq> j \<and> inUse (t ! i) \<and> key (ename (t ! i)) = x \<and> esector (t ! i) = v)"
        using dir_abs_Some [OF inv', of x v] nth by auto
      moreover have "(\<exists>i < length t. i \<noteq> j \<and> inUse (t ! i) \<and> key (ename (t ! i)) = x \<and> esector (t ! i) = v) \<longleftrightarrow>
          x \<noteq> key name \<and> (\<exists>i < length t. inUse (t ! i) \<and> key (ename (t ! i)) = x \<and> esector (t ! i) = v)"
        using only j(4) by blast
      ultimately show ?thesis using dir_abs_Some [OF inv, of x v] by simp
    qed
    show "dir_abs ?t x = ((dir_abs t)(key name := None)) x" by (rule option_eqI) (rule iff)
  qed
  then show ?thesis using False j inv' by (auto simp: Directory_Remove_def)
qed

section \<open>The interface of a directory\<close>

text \<open>
  What the file system relies on: a table of names is a finite map from the part of the name that
  counts to sector numbers, of bounded size; -1 stands for a name that is not in it.
\<close>

locale name_table =
  fixes find :: "'n \<Rightarrow> 't \<Rightarrow> int"
    and add :: "'n \<Rightarrow> int \<Rightarrow> 't \<Rightarrow> bool \<times> 't"
    and remove :: "'n \<Rightarrow> 't \<Rightarrow> bool \<times> 't"
    and contents :: "'t \<Rightarrow> 'k \<rightharpoonup> int"
    and id_of :: "'n \<Rightarrow> 'k"
    and valid :: "'n \<Rightarrow> bool"
    and inv :: "'t \<Rightarrow> bool"
    and full :: "'t \<Rightarrow> bool"
  assumes find_contents: "inv t \<Longrightarrow> valid n \<Longrightarrow> find n t = (case contents t (id_of n) of None \<Rightarrow> - 1 | Some s \<Rightarrow> s)"
    and add_contents: "inv t \<Longrightarrow> valid n \<Longrightarrow>
      \<exists>t'. add n s t = (contents t (id_of n) = None \<and> \<not> full t, t') \<and> inv t' \<and>
         contents t' = (if contents t (id_of n) = None \<and> \<not> full t then (contents t)(id_of n \<mapsto> s) else contents t)"
    and remove_contents: "inv t \<Longrightarrow> valid n \<Longrightarrow>
      \<exists>t'. remove n t = (contents t (id_of n) \<noteq> None, t') \<and> inv t' \<and> contents t' = (contents t)(id_of n := None)"
begin

lemma find_after_add:
  assumes "inv t" "valid n" "valid n'" "add n s t = (True, t')"
  shows "find n' t' = (if id_of n' = id_of n then s else find n' t)"
proof -
  have "inv t'" "contents t' = (contents t)(id_of n \<mapsto> s)" using add_contents [OF assms(1,2), of s] assms(4) by auto
  then show ?thesis using find_contents assms(1,3) by simp
qed

lemma find_after_remove:
  assumes "inv t" "valid n" "valid n'" "remove n t = (r, t')"
  shows "find n' t' = (if id_of n' = id_of n then - 1 else find n' t)"
proof -
  have "inv t'" "contents t' = (contents t)(id_of n := None)" using remove_contents [OF assms(1,2)] assms(4) by auto
  then show ?thesis using find_contents assms(1,3) by simp
qed

lemma add_remove_contents:
  assumes "inv t" "valid n" "add n s t = (True, t')"
  shows "\<exists>t''. remove n t' = (True, t'') \<and> inv t'' \<and> contents t'' = contents t"
proof -
  have t': "inv t'" "contents t' = (contents t)(id_of n \<mapsto> s)" "contents t (id_of n) = None"
    using add_contents [OF assms(1,2), of s] assms(3) by auto
  then have "(contents t')(id_of n := None) = contents t" by (auto simp: fun_eq_iff)
  then show ?thesis using remove_contents [OF t'(1) assms(2)] t'(2) by auto
qed

end

interpretation dirtab: name_table Directory_Find Add Directory_Remove dir_abs key "\<lambda>n. 0 \<notin> set n" dir_inv "\<lambda>t. \<forall>e \<in> set t. inUse e"
proof unfold_locales
  fix t and n :: "8 word list"
  assume a: "dir_inv t" "0 \<notin> set n"
  show "Directory_Find n t = (case dir_abs t (key n) of None \<Rightarrow> - 1 | Some s \<Rightarrow> s)"
    by (rule Directory_Find_spec [OF a])
  show "\<exists>t'. Directory_Remove n t = (dir_abs t (key n) \<noteq> None, t') \<and> dir_inv t' \<and> dir_abs t' = (dir_abs t)(key n := None)"
    using Directory_Remove_spec [OF a] a(1) by (auto simp: fun_eq_iff split: if_splits)
  fix s
  show "\<exists>t'. Add n s t = (dir_abs t (key n) = None \<and> \<not> (\<forall>e \<in> set t. inUse e), t') \<and> dir_inv t' \<and>
     dir_abs t' = (if dir_abs t (key n) = None \<and> \<not> (\<forall>e \<in> set t. inUse e) then (dir_abs t)(key n \<mapsto> s) else dir_abs t)"
  proof (cases "dir_abs t (key n) \<noteq> None \<or> (\<forall>e \<in> set t. inUse e)")
    case True
    then have f: "(dir_abs t (key n) = None \<and> \<not> (\<forall>e \<in> set t. inUse e)) = False" by blast
    show ?thesis unfolding f using Add_spec [OF a, of s, unfolded if_P [OF True]] a(1) by simp
  next
    case False
    then have f: "(dir_abs t (key n) = None \<and> \<not> (\<forall>e \<in> set t. inUse e)) = True" by blast
    show ?thesis unfolding f using Add_spec [OF a, of s, unfolded if_not_P [OF False]] by simp blast
  qed
qed

section \<open>Directories and bitmaps in files\<close>

definition encode_entry :: "bool \<Rightarrow> DirectoryEntry \<Rightarrow> 8 word list" where
  "encode_entry big e =
     [if inUse e then 1 else 0, 0, 0, 0] @ host_order big (bytes_of_word 4 (word_of_int (esector e) :: 32 word)) @ ename e @ [0, 0]"

definition decode_entry :: "bool \<Rightarrow> 8 word list \<Rightarrow> DirectoryEntry" where
  "decode_entry big bs =
     \<lparr>inUse = (bs ! 0 \<noteq> 0), esector = sint (word_of_bytes (host_order big (take 4 (drop 4 bs))) :: 32 word),
      ename = take 10 (drop 8 bs)\<rparr>"

fun decode_table :: "bool \<Rightarrow> nat \<Rightarrow> 8 word list \<Rightarrow> Directory" where
  "decode_table big 0 bs = []"
| "decode_table big (Suc n) bs = decode_entry big (take 20 bs) # decode_table big n (drop 20 bs)"

definition encode_table :: "bool \<Rightarrow> Directory \<Rightarrow> 8 word list" where
  "encode_table big table = concat (map (encode_entry big) table)"

text \<open>Reading into the memory of the table, of which only the bytes read are changed.\<close>

definition Directory_FetchFrom :: "bool \<Rightarrow> OpenFile \<Rightarrow> Disk \<Rightarrow> Directory \<Rightarrow> Directory res" where
  "Directory_FetchFrom big f d table =
     bindR (ReadAt ReadSector (hdr f) (int (length table) * 20) 0 d) (\<lambda>bs.
       Inr (decode_table big (length table) (overwrite 0 bs (encode_table big table))))"

definition Directory_WriteBack :: "bool \<Rightarrow> (nat \<Rightarrow> 8 word list) \<Rightarrow> OpenFile \<Rightarrow> Directory \<Rightarrow> Disk \<Rightarrow> Disk res" where
  "Directory_WriteBack big gb f table d =
     bindR (WriteAt ReadSector WriteSector gb (hdr f) (encode_table big table) 0 d) (\<lambda>(n, d'). Inr d')"

fun words_of_bytes :: "bool \<Rightarrow> nat \<Rightarrow> 8 word list \<Rightarrow> 32 word list" where
  "words_of_bytes big 0 bs = []"
| "words_of_bytes big (Suc n) bs = word_of_bytes (host_order big (take 4 bs)) # words_of_bytes big n (drop 4 bs)"

lemma length_words_of_bytes [simp]: "length (words_of_bytes big n bs) = n"
  by (induction n arbitrary: bs) simp_all

definition bytes_of_words :: "bool \<Rightarrow> 32 word list \<Rightarrow> 8 word list" where
  "bytes_of_words big ws = concat (map (\<lambda>w. host_order big (bytes_of_word 4 w)) ws)"

lemma length_bytes_of_words [simp]: "length (bytes_of_words big ws) = 4 * length ws"
  unfolding bytes_of_words_def by (induction ws) (simp_all add: length_int_bytes)

lemma words_of_bytes_of_words: "words_of_bytes big (length ws) (bytes_of_words big ws) = ws"
proof (induction ws)
  case (Cons w ws)
  have "bytes_of_words big (w # ws) = host_order big (bytes_of_word 4 w) @ bytes_of_words big ws"
    by (simp add: bytes_of_words_def)
  moreover have "word_of_bytes (host_order big (host_order big (bytes_of_word 4 w))) = w"
    by (simp add: host_order_def word_of_bytes_of_word)
  ultimately show ?case using Cons by (simp add: length_int_bytes)
qed simp

definition BitMap_FetchFrom :: "bool \<Rightarrow> OpenFile \<Rightarrow> Disk \<Rightarrow> BitMap \<Rightarrow> BitMap res" where
  "BitMap_FetchFrom big f d m =
     bindR (ReadAt ReadSector (hdr f) (numWords m * 4) 0 d) (\<lambda>bs.
       Inr (m\<lparr>bmap := words_of_bytes big (length (bmap m)) (overwrite 0 bs (bytes_of_words big (bmap m)))\<rparr>))"

definition BitMap_WriteBack :: "bool \<Rightarrow> (nat \<Rightarrow> 8 word list) \<Rightarrow> OpenFile \<Rightarrow> BitMap \<Rightarrow> Disk \<Rightarrow> Disk res" where
  "BitMap_WriteBack big gb f m d =
     bindR (WriteAt ReadSector WriteSector gb (hdr f) (bytes_of_words big (bmap m)) 0 d) (\<lambda>(n, d'). Inr d')"

section \<open>The file system\<close>

abbreviation (input) FreeMapSector :: int where "FreeMapSector \<equiv> 0"
abbreviation (input) DirectorySector :: int where "DirectorySector \<equiv> 1"
abbreviation (input) FreeMapFileSize :: int where "FreeMapFileSize \<equiv> 128"
abbreviation (input) NumDirEntries :: nat where "NumDirEntries \<equiv> 10"
abbreviation (input) DirectoryFileSize :: int where "DirectoryFileSize \<equiv> 200"

record FileSystem =
  freeMapFile :: OpenFile
  directoryFile :: OpenFile

text \<open>What new objects hold before they are initialised: words of a bitmap, a file header, directory entries, buffers.\<close>

record Garbage =
  gwords :: "32 word list"
  gheader :: FileHeader
  gentries :: "DirectoryEntry list"
  gbytes :: "nat \<Rightarrow> 8 word list"

definition FileSystem_new :: "bool \<Rightarrow> Garbage \<Rightarrow> bool \<Rightarrow> Disk \<Rightarrow> (FileSystem \<times> Disk) res" where
  "FileSystem_new big g format d =
     (if format then
        bindR (BitMap_new (gwords g) NumSectors) (\<lambda>freeMap0.
        let directory = Directory_new (gentries g) NumDirEntries in
        bindR (Mark FreeMapSector freeMap0) (\<lambda>freeMap1.
        bindR (Mark DirectorySector freeMap1) (\<lambda>freeMap2.
        bindR (Allocate FreeMapFileSize (gheader g) freeMap2) (\<lambda>(ok1, mapHdr, freeMap3).
        ASSERT ok1 (
        bindR (Allocate DirectoryFileSize (gheader g) freeMap3) (\<lambda>(ok2, dirHdr, freeMap4).
        ASSERT ok2 (
        bindR (WriteBack big FreeMapSector mapHdr d) (\<lambda>d1.
        bindR (WriteBack big DirectorySector dirHdr d1) (\<lambda>d2.
        bindR (OpenFile_new big FreeMapSector d2) (\<lambda>mapFile.
        bindR (OpenFile_new big DirectorySector d2) (\<lambda>dirFile.
        bindR (BitMap_WriteBack big (gbytes g) mapFile freeMap4 d2) (\<lambda>d3.
        bindR (Directory_WriteBack big (gbytes g) dirFile directory d3) (\<lambda>d4.
        Inr (\<lparr>freeMapFile = mapFile, directoryFile = dirFile\<rparr>, d4))))))))))))))
      else
        bindR (OpenFile_new big FreeMapSector d) (\<lambda>mapFile.
        bindR (OpenFile_new big DirectorySector d) (\<lambda>dirFile.
        Inr (\<lparr>freeMapFile = mapFile, directoryFile = dirFile\<rparr>, d))))"

definition Create :: "bool \<Rightarrow> Garbage \<Rightarrow> FileSystem \<Rightarrow> 8 word list \<Rightarrow> int \<Rightarrow> Disk \<Rightarrow> (bool \<times> Disk) res" where
  "Create big g fs name initialSize d =
     bindR (Directory_FetchFrom big (directoryFile fs) d (Directory_new (gentries g) NumDirEntries)) (\<lambda>directory.
       if Directory_Find name directory \<noteq> - 1 then Inr (False, d)
       else
         bindR (BitMap_new (gwords g) NumSectors) (\<lambda>freeMap0.
         bindR (BitMap_FetchFrom big (freeMapFile fs) d freeMap0) (\<lambda>freeMap1.
         bindR (Find freeMap1) (\<lambda>(sector, freeMap2).
           if sector = - 1 then Inr (False, d)
           else
             let (added, directory1) = Add name sector directory in
             if \<not> added then Inr (False, d)
             else
               bindR (Allocate initialSize (gheader g) freeMap2) (\<lambda>(allocated, h, freeMap3).
                 if \<not> allocated then Inr (False, d)
                 else
                   bindR (WriteBack big sector h d) (\<lambda>d1.
                   bindR (Directory_WriteBack big (gbytes g) (directoryFile fs) directory1 d1) (\<lambda>d2.
                   bindR (BitMap_WriteBack big (gbytes g) (freeMapFile fs) freeMap3 d2) (\<lambda>d3.
                   Inr (True, d3)))))))))"

definition Open :: "bool \<Rightarrow> Garbage \<Rightarrow> FileSystem \<Rightarrow> 8 word list \<Rightarrow> Disk \<Rightarrow> OpenFile option res" where
  "Open big g fs name d =
     bindR (Directory_FetchFrom big (directoryFile fs) d (Directory_new (gentries g) NumDirEntries)) (\<lambda>directory.
       let sector = Directory_Find name directory in
       if sector \<ge> 0 then bindR (OpenFile_new big sector d) (\<lambda>f. Inr (Some f)) else Inr None)"

definition FileSystem_Remove :: "bool \<Rightarrow> Garbage \<Rightarrow> FileSystem \<Rightarrow> 8 word list \<Rightarrow> Disk \<Rightarrow> (bool \<times> Disk) res" where
  "FileSystem_Remove big g fs name d =
     bindR (Directory_FetchFrom big (directoryFile fs) d (Directory_new (gentries g) NumDirEntries)) (\<lambda>directory.
       let sector = Directory_Find name directory in
       if sector = - 1 then Inr (False, d)
       else
         bindR (FetchFrom big sector d) (\<lambda>fileHdr.
         bindR (BitMap_new (gwords g) NumSectors) (\<lambda>freeMap0.
         bindR (BitMap_FetchFrom big (freeMapFile fs) d freeMap0) (\<lambda>freeMap1.
         bindR (Deallocate fileHdr freeMap1) (\<lambda>freeMap2.
         bindR (Clear sector freeMap2) (\<lambda>freeMap3.
         let (_, directory1) = Directory_Remove name directory in
         bindR (BitMap_WriteBack big (gbytes g) (freeMapFile fs) freeMap3 d) (\<lambda>d1.
         bindR (Directory_WriteBack big (gbytes g) (directoryFile fs) directory1 d1) (\<lambda>d2.
         Inr (True, d2)))))))))"

definition FileSystem_List :: "bool \<Rightarrow> Garbage \<Rightarrow> FileSystem \<Rightarrow> Disk \<Rightarrow> 8 word list list res" where
  "FileSystem_List big g fs d =
     bindR (Directory_FetchFrom big (directoryFile fs) d (Directory_new (gentries g) NumDirEntries)) (\<lambda>directory.
       Directory_List directory)"

section \<open>Properties\<close>

text \<open>
  C27. A directory is a finite map from names (their first nine bytes) to sectors. Find looks a name
  up. Add enters a name that is not there when an entry is free, and otherwise reports failure and
  changes nothing; afterwards the new name is found with its sector and every other name as before.
  Remove deletes exactly the name given, and reports failure when it is not there; removing what was
  added gives the directory back.
\<close>

theorem directory_refines:
  assumes "dir_inv t" and "0 \<notin> set name" and "0 \<notin> set name'"
  shows "Directory_Find name t = (case dir_abs t (key name) of None \<Rightarrow> - 1 | Some s \<Rightarrow> s) \<and>
     (if dir_abs t (key name) \<noteq> None \<or> (\<forall>e \<in> set t. inUse e) then Add name s t = (False, t)
      else \<exists>t1 t2. Add name s t = (True, t1) \<and> dir_inv t1 \<and> dir_abs t1 = (dir_abs t)(key name \<mapsto> s) \<and>
         Directory_Find name' t1 = (if key name' = key name then s else Directory_Find name' t) \<and>
         Directory_Remove name t1 = (True, t2) \<and> dir_abs t2 = dir_abs t) \<and>
     (\<exists>t1. Directory_Remove name t = (dir_abs t (key name) \<noteq> None, t1) \<and> dir_inv t1 \<and>
         dir_abs t1 = (dir_abs t)(key name := None) \<and>
         Directory_Find name' t1 = (if key name' = key name then - 1 else Directory_Find name' t))"
proof (intro conjI)
  show "Directory_Find name t = (case dir_abs t (key name) of None \<Rightarrow> - 1 | Some s \<Rightarrow> s)"
    by (rule dirtab.find_contents [OF assms(1,2)])
  show "\<exists>t1. Directory_Remove name t = (dir_abs t (key name) \<noteq> None, t1) \<and> dir_inv t1 \<and>
         dir_abs t1 = (dir_abs t)(key name := None) \<and>
         Directory_Find name' t1 = (if key name' = key name then - 1 else Directory_Find name' t)"
    using dirtab.remove_contents [OF assms(1,2)] dirtab.find_after_remove [OF assms] by blast
  show "if dir_abs t (key name) \<noteq> None \<or> (\<forall>e \<in> set t. inUse e) then Add name s t = (False, t)
      else \<exists>t1 t2. Add name s t = (True, t1) \<and> dir_inv t1 \<and> dir_abs t1 = (dir_abs t)(key name \<mapsto> s) \<and>
         Directory_Find name' t1 = (if key name' = key name then s else Directory_Find name' t) \<and>
         Directory_Remove name t1 = (True, t2) \<and> dir_abs t2 = dir_abs t"
  proof (cases "dir_abs t (key name) \<noteq> None \<or> (\<forall>e \<in> set t. inUse e)")
    case False
    then obtain t1 where t1: "Add name s t = (True, t1)" "dir_inv t1" "dir_abs t1 = (dir_abs t)(key name \<mapsto> s)"
      using Add_spec [OF assms(1,2), of s, unfolded if_not_P [OF False]] by blast
    then show ?thesis
      unfolding if_not_P [OF False] using dirtab.find_after_add [OF assms t1(1)] dirtab.add_remove_contents [OF assms(1,2) t1(1)] by auto
  qed (use Add_spec [OF assms(1,2), of s] in simp)
qed

text \<open>A directory with one file, named a, in its second entry.\<close>

definition example_directory :: Directory where
  "example_directory =
     [\<lparr>inUse = False, esector = 5, ename = replicate 10 7\<rparr>, \<lparr>inUse = True, esector = 6, ename = 97 # replicate 9 0\<rparr>]"

lemma directory_refines_witness:
  "\<exists>t1 t2. Add [98, 99] 8 example_directory = (True, t1) \<and> Directory_Find [97] t1 = 6 \<and>
     Directory_Remove [98, 99] t1 = (True, t2) \<and> dir_abs t2 = dir_abs example_directory"
proof -
  have inv: "dir_inv example_directory"
    by (auto simp: dir_inv_def example_directory_def less_Suc_eq_0_disj nth_Cons')
  have "dir_abs example_directory (key [98, 99]) = None" "key [97 :: 8 word] \<noteq> key [98, 99]" "dir_abs example_directory (key [97]) = Some 6"
    by (simp_all add: dir_abs_def example_directory_def key_def)
  then have "dir_abs example_directory (key [98, 99]) = None" "key [97 :: 8 word] \<noteq> key [98, 99]" "Directory_Find [97] example_directory = 6"
    using Directory_Find_spec [OF inv, of "[97]"] by simp_all
  moreover have f: "(\<forall>e \<in> set example_directory. inUse e) = False" by (simp add: example_directory_def)
  ultimately show ?thesis
    using directory_refines [OF inv, of "[98, 99]" "[97]" 8] unfolding f by auto
qed

end
