(* ===== verification/Nachos_FSRefine.thy ===== *)
theory Nachos_FSRefine
  imports Nachos_FileSys
begin

text \<open>
  The file system refines a finite map from names to arrays of bytes. The invariant says what is on
  a formatted disk: the free map marks exactly the sectors of the headers and of the data of the
  files, no sector belongs to two files, and the directory names each file once.
\<close>

section \<open>Round trips through files\<close>

definition entry_ok :: "DirectoryEntry \<Rightarrow> bool" where
  "entry_ok e \<longleftrightarrow> length (ename e) = FileNameMaxLen + 1 \<and> fits_int (esector e)"

lemma length_encode_entry: "entry_ok e \<Longrightarrow> length (encode_entry big e) = 20"
  by (simp add: encode_entry_def entry_ok_def length_int_bytes)

lemma decode_encode_entry: "entry_ok e \<Longrightarrow> decode_entry big (encode_entry big e) = e"
proof -
  assume e: "entry_ok e"
  let ?s = "host_order big (bytes_of_word 4 (word_of_int (esector e) :: 32 word))"
  let ?f = "if inUse e then 1 else 0 :: 8 word"
  have len: "length ?s = 4" by (rule length_int_bytes)
  have split: "encode_entry big e = ([?f, 0, 0, 0] @ ?s) @ ename e @ [0, 0]" by (simp add: encode_entry_def)
  have d4: "take 4 (drop 4 (encode_entry big e)) = ?s" using len by (simp add: encode_entry_def)
  have "length ([?f, 0, 0, 0] @ ?s) = 8" using len by simp
  then have "drop 8 (encode_entry big e) = ename e @ [0, 0]" unfolding split by (metis append_eq_conv_conj)
  then have "take 10 (drop 8 (encode_entry big e)) = ename e" using e by (simp add: entry_ok_def)
  moreover have "encode_entry big e ! 0 \<noteq> 0 \<longleftrightarrow> inUse e" by (simp add: encode_entry_def)
  moreover have "sint (word_of_bytes (host_order big ?s) :: 32 word) = esector e"
    using e by (intro int_bytes_roundtrip) (simp add: entry_ok_def)
  ultimately show "decode_entry big (encode_entry big e) = e" by (simp add: decode_entry_def d4)
qed

lemma length_encode_table: "\<forall>e \<in> set t. entry_ok e \<Longrightarrow> length (encode_table big t) = 20 * length t"
  unfolding encode_table_def by (induction t) (auto simp: length_encode_entry)

lemma decode_encode_table: "\<forall>e \<in> set t. entry_ok e \<Longrightarrow> decode_table big (length t) (encode_table big t) = t"
proof (induction t)
  case (Cons e t)
  have "encode_table big (e # t) = encode_entry big e @ encode_table big t" by (simp add: encode_table_def)
  then show ?case using Cons length_encode_entry [of e big] by (simp add: decode_encode_entry)
qed simp

lemma decode_table_ok: "length bs = 20 * n \<Longrightarrow> length (decode_table big n bs) = n \<and> (\<forall>e \<in> set (decode_table big n bs). entry_ok e)"
proof (induction n arbitrary: bs)
  case (Suc n)
  have "entry_ok (decode_entry big (take 20 bs))"
    using Suc.prems sint_greater_eq [of "word_of_bytes (host_order big (take 4 (drop 4 (take 20 bs)))) :: 32 word"]
      sint_less [of "word_of_bytes (host_order big (take 4 (drop 4 (take 20 bs)))) :: 32 word"]
    by (auto simp: entry_ok_def decode_entry_def fits_int_def)
  then show ?case using Suc.IH [of "drop 20 bs"] Suc.prems by simp
qed simp

section \<open>Reading and writing whole files\<close>

lemma overwrite_all: "length bs = length buf \<Longrightarrow> overwrite 0 bs buf = bs"
  by (simp add: overwrite_def)

lemma file_bytes_cong:
  "\<forall>s \<in> set (file_sectors h). ReadSector s d' = ReadSector s d \<Longrightarrow> file_bytes ReadSector h d' = file_bytes ReadSector h d"
  by (simp add: file_bytes_def file_data_def block_def cong: map_cong)

lemma read_file:
  assumes "disk_inv d" "hdr_wf h" "n = numBytes h"
  shows "ReadAt ReadSector h n 0 d = Inr (file_bytes ReadSector h d)"
  using disk.ReadAt_bytes [OF assms(1,2), of 0 n] disk.length_file_bytes [OF assms(1,2)] assms(3) hdr_wf_max [OF assms(2)] by simp

lemma write_file:
  assumes "disk_inv d" "hdr_wf h" "int (length data) = numBytes h" "\<forall>n. length (garbage n) = n"
  shows "\<exists>d'. WriteAt ReadSector WriteSector garbage h data 0 d = Inr (int (length data), d') \<and> disk_inv d' \<and>
     file_bytes ReadSector h d' = data \<and>
     (\<forall>s. 0 \<le> s \<and> s < NumSectors \<and> s \<notin> set (file_sectors h) \<longrightarrow> ReadSector s d' = ReadSector s d)"
proof -
  have len: "nat (numBytes h) = length data" using assms(3) by simp
  then show ?thesis
    using disk.WriteAt_bytes [OF assms(1,2), of 0 data garbage] assms(3,4) disk.length_file_bytes [OF assms(1,2)] hdr_wf_max [OF assms(2)]
    by (auto simp: overwrite_all)
qed

lemma Directory_FetchFrom_eq:
  assumes "disk_inv d" "hdr_wf (hdr f)" "numBytes (hdr f) = DirectoryFileSize" "length t = NumDirEntries" "\<forall>e \<in> set t. entry_ok e"
  shows "Directory_FetchFrom big f d t = Inr (decode_table big NumDirEntries (file_bytes ReadSector (hdr f) d))"
proof -
  have "length (file_bytes ReadSector (hdr f) d) = length (encode_table big t)"
    using disk.length_file_bytes [OF assms(1,2)] assms(3,4) length_encode_table [OF assms(5)] by simp
  then show ?thesis using read_file [OF assms(1,2), of 200] assms(3,4) by (simp add: Directory_FetchFrom_def overwrite_all)
qed

lemma Directory_WriteBack_eq:
  assumes "disk_inv d" "hdr_wf (hdr f)" "numBytes (hdr f) = DirectoryFileSize" "length t = NumDirEntries" "\<forall>e \<in> set t. entry_ok e"
    "\<forall>n. length (gb n) = n"
  shows "\<exists>d'. Directory_WriteBack big gb f t d = Inr d' \<and> disk_inv d' \<and>
     decode_table big NumDirEntries (file_bytes ReadSector (hdr f) d') = t \<and>
     (\<forall>s. 0 \<le> s \<and> s < NumSectors \<and> s \<notin> set (file_sectors (hdr f)) \<longrightarrow> ReadSector s d' = ReadSector s d)"
  using write_file [OF assms(1,2), of "encode_table big t" gb] length_encode_table [OF assms(5), of big] assms(3,4,6)
    decode_encode_table [OF assms(5), of big]
  by (auto simp: Directory_WriteBack_def)

lemma BitMap_FetchFrom_eq:
  assumes "disk_inv d" "hdr_wf (hdr f)" "numBytes (hdr f) = FreeMapFileSize" "numBits m = NumSectors" "BitMap_wf m"
  shows "BitMap_FetchFrom big f d m =
     Inr \<lparr>numBits = NumSectors, numWords = 32, bmap = words_of_bytes big 32 (file_bytes ReadSector (hdr f) d)\<rparr>"
proof -
  have m: "numWords m = 32" "length (bmap m) = 32" using assms(4,5) by (simp_all add: BitMap_wf_def divRoundUp_def)
  have "length (file_bytes ReadSector (hdr f) d) = length (bytes_of_words big (bmap m))"
    using disk.length_file_bytes [OF assms(1,2)] assms(3) m by simp
  then show ?thesis
    using read_file [OF assms(1,2), of 128] assms(3,4) m by (cases m) (simp add: BitMap_FetchFrom_def overwrite_all)
qed

lemma BitMap_WriteBack_eq:
  assumes "disk_inv d" "hdr_wf (hdr f)" "numBytes (hdr f) = FreeMapFileSize" "numBits m = NumSectors" "BitMap_wf m"
    "\<forall>n. length (gb n) = n"
  shows "\<exists>d'. BitMap_WriteBack big gb f m d = Inr d' \<and> disk_inv d' \<and>
     \<lparr>numBits = NumSectors, numWords = 32, bmap = words_of_bytes big 32 (file_bytes ReadSector (hdr f) d')\<rparr> = m \<and>
     (\<forall>s. 0 \<le> s \<and> s < NumSectors \<and> s \<notin> set (file_sectors (hdr f)) \<longrightarrow> ReadSector s d' = ReadSector s d)"
proof -
  have m: "numWords m = 32" "length (bmap m) = 32" using assms(4,5) by (simp_all add: BitMap_wf_def divRoundUp_def)
  obtain d' where d': "WriteAt ReadSector WriteSector gb (hdr f) (bytes_of_words big (bmap m)) 0 d = Inr (128, d')" "disk_inv d'"
      "file_bytes ReadSector (hdr f) d' = bytes_of_words big (bmap m)"
      "\<forall>s. 0 \<le> s \<and> s < NumSectors \<and> s \<notin> set (file_sectors (hdr f)) \<longrightarrow> ReadSector s d' = ReadSector s d"
    using write_file [OF assms(1,2), of "bytes_of_words big (bmap m)" gb] assms(3,6) m by auto
  then show ?thesis using m assms(4) words_of_bytes_of_words [of big "bmap m"]
    by (cases m) (simp add: BitMap_WriteBack_def)
qed

section \<open>The invariant\<close>

definition header_at :: "bool \<Rightarrow> Disk \<Rightarrow> int \<Rightarrow> FileHeader" where
  "header_at big d s = (case FetchFrom big s d of Inr h \<Rightarrow> h | Inl _ \<Rightarrow> \<lparr>numBytes = 0, numSectors = 0, dataSectors = []\<rparr>)"

definition owned :: "(int \<Rightarrow> FileHeader) \<Rightarrow> int \<Rightarrow> int set" where
  "owned H s = insert s (set (file_sectors (H s)))"

definition sys_sectors :: "FileSystem \<Rightarrow> int set" where
  "sys_sectors fs = {FreeMapSector, DirectorySector} \<union> set (file_sectors (hdr (freeMapFile fs))) \<union> set (file_sectors (hdr (directoryFile fs)))"

definition fs_dir :: "bool \<Rightarrow> FileSystem \<Rightarrow> Disk \<Rightarrow> Directory" where
  "fs_dir big fs d = decode_table big NumDirEntries (file_bytes ReadSector (hdr (directoryFile fs)) d)"

definition fs_map :: "bool \<Rightarrow> FileSystem \<Rightarrow> Disk \<Rightarrow> BitMap" where
  "fs_map big fs d =
     \<lparr>numBits = NumSectors, numWords = 32, bmap = words_of_bytes big 32 (file_bytes ReadSector (hdr (freeMapFile fs)) d)\<rparr>"

text \<open>The layout of the disk: \<open>S\<close> the sectors of the system, \<open>D\<close> the directory, \<open>H\<close> the headers, \<open>M\<close> the sectors in use.\<close>

definition layout :: "int set \<Rightarrow> ('k \<rightharpoonup> int) \<Rightarrow> (int \<Rightarrow> FileHeader) \<Rightarrow> int set \<Rightarrow> bool" where
  "layout S D H M \<longleftrightarrow>
     (\<forall>k s. D k = Some s \<longrightarrow> 0 \<le> s \<and> s < NumSectors \<and> hdr_wf (H s) \<and> s \<notin> set (file_sectors (H s)) \<and> owned H s \<inter> S = {}) \<and>
     (\<forall>k k' s s'. D k = Some s \<and> D k' = Some s' \<and> k \<noteq> k' \<longrightarrow> owned H s \<inter> owned H s' = {}) \<and>
     M = S \<union> (\<Union>s \<in> ran D. owned H s)"

definition sys_ok :: "bool \<Rightarrow> FileSystem \<Rightarrow> Disk \<Rightarrow> bool" where
  "sys_ok big fs d \<longleftrightarrow>
     (let mh = hdr (freeMapFile fs); dh = hdr (directoryFile fs) in
      hdr_wf mh \<and> numBytes mh = FreeMapFileSize \<and> hdr_wf dh \<and> numBytes dh = DirectoryFileSize \<and>
      set (file_sectors mh) \<inter> set (file_sectors dh) = {} \<and>
      {FreeMapSector, DirectorySector} \<inter> (set (file_sectors mh) \<union> set (file_sectors dh)) = {} \<and>
      FetchFrom big FreeMapSector d = Inr mh \<and> FetchFrom big DirectorySector d = Inr dh)"

definition fs_inv :: "bool \<Rightarrow> FileSystem \<Rightarrow> Disk \<Rightarrow> bool" where
  "fs_inv big fs d \<longleftrightarrow> disk_inv d \<and> sys_ok big fs d \<and> dir_inv (fs_dir big fs d) \<and>
     layout (sys_sectors fs) (dir_abs (fs_dir big fs d)) (header_at big d) (marked (fs_map big fs d))"

text \<open>The abstract state: the files by name, each an array of bytes.\<close>

definition fs_abs :: "bool \<Rightarrow> FileSystem \<Rightarrow> Disk \<Rightarrow> (8 word list \<rightharpoonup> 8 word list)" where
  "fs_abs big fs d k =
     map_option (\<lambda>s. file_bytes ReadSector (header_at big d s) d) (dir_abs (fs_dir big fs d) k)"

definition garbage_ok :: "Garbage \<Rightarrow> bool" where
  "garbage_ok g \<longleftrightarrow> 32 \<le> length (gwords g) \<and> length (dataSectors (gheader g)) = NumDirect \<and>
     (\<forall>s \<in> set (dataSectors (gheader g)). fits_int s) \<and> NumDirEntries \<le> length (gentries g) \<and>
     (\<forall>e \<in> set (gentries g). entry_ok e) \<and> (\<forall>n. length (gbytes g n) = n)"

lemma gbytes_length: "garbage_ok g \<Longrightarrow> \<forall>n. length (gbytes g n) = n"
  by (simp add: garbage_ok_def)

lemma layoutD:
  assumes "layout S D H M"
  shows "D k = Some s \<Longrightarrow> 0 \<le> s \<and> s < NumSectors \<and> hdr_wf (H s) \<and> s \<notin> set (file_sectors (H s)) \<and> owned H s \<inter> S = {}"
    "D k = Some s \<Longrightarrow> D k' = Some s' \<Longrightarrow> k \<noteq> k' \<Longrightarrow> owned H s \<inter> owned H s' = {}"
    "M = S \<union> (\<Union>s \<in> ran D. owned H s)"
  using assms unfolding layout_def by blast+

lemma layout_cong: "layout S D H M \<Longrightarrow> (\<And>k s. D k = Some s \<Longrightarrow> H' s = H s) \<Longrightarrow> layout S D H' M"
proof -
  assume l: "layout S D H M" and H': "\<And>k s. D k = Some s \<Longrightarrow> H' s = H s"
  have o: "owned H' s = owned H s" if "D k = Some s" for k s using H' [OF that] by (simp add: owned_def)
  then have u: "(\<Union>s \<in> ran D. owned H' s) = (\<Union>s \<in> ran D. owned H s)" by (intro SUP_cong) (auto simp: ran_def)
  note d = layoutD [OF l]
  show "layout S D H' M"
    unfolding layout_def u using d(1) d(2) d(3) H' o by simp blast
qed

lemma layout_add:
  assumes l: "layout S D H M" and s: "s \<notin> M" "0 \<le> s" "s < NumSectors" and h: "hdr_wf h" "set (file_sectors h) \<inter> insert s M = {}"
    and H': "H' s = h" "\<And>k s'. D k = Some s' \<Longrightarrow> H' s' = H s'" and k: "D k = None"
  shows "layout S (D(k \<mapsto> s)) H' (insert s M \<union> set (file_sectors h))"
proof -
  have l': "layout S D H' M" using layout_cong [OF l H'(2)] .
  note d = layoutD [OF l']
  have o: "owned H' s = insert s (set (file_sectors h))" using H'(1) by (simp add: owned_def)
  have old: "owned H' s' \<subseteq> M" if "D k' = Some s'" for k' s' using that d(3) by (auto simp: ran_def)
  have fresh: "owned H' s \<inter> M = {}" using o s(1) h(2) by auto
  have r: "ran (D(k \<mapsto> s)) = insert s (ran D)" using k by simp
  show ?thesis
    unfolding layout_def
  proof (intro conjI allI impI)
    fix k' s'
    assume a: "(D(k \<mapsto> s)) k' = Some s'"
    show "0 \<le> s'" "s' < NumSectors" "hdr_wf (H' s')" "s' \<notin> set (file_sectors (H' s'))" "owned H' s' \<inter> S = {}"
      using a d(1) [of k' s'] d(3) s h H'(1) fresh by (auto split: if_splits)
  next
    fix k1 k2 s1 s2
    assume a: "(D(k \<mapsto> s)) k1 = Some s1 \<and> (D(k \<mapsto> s)) k2 = Some s2 \<and> k1 \<noteq> k2"
    show "owned H' s1 \<inter> owned H' s2 = {}"
      using a d(2) [of k1 s1 k2 s2] old [of k1 s1] old [of k2 s2] fresh by (auto split: if_splits)
  next
    show "insert s M \<union> set (file_sectors h) = S \<union> (\<Union>s \<in> ran (D(k \<mapsto> s)). owned H' s)"
      unfolding r using d(3) o by auto
  qed
qed

lemma layout_remove:
  assumes l: "layout S D H M" and s: "D k = Some s"
  shows "layout S (D(k := None)) H (M - owned H s)"
proof -
  note d = layoutD [OF l]
  have r: "ran (D(k := None)) = {s'. \<exists>k'. k' \<noteq> k \<and> D k' = Some s'}" by (auto simp: ran_def)
  have "M - owned H s = S \<union> (\<Union>s \<in> ran (D(k := None)). owned H s)"
    unfolding r d(3) using d(1) [OF s] d(2) [OF s] s by (auto simp: ran_def) (metis option.inject)+
  moreover have "owned H s1 \<inter> owned H s2 = {}"
    if "(D(k := None)) k1 = Some s1" "(D(k := None)) k2 = Some s2" "k1 \<noteq> k2" for k1 k2 s1 s2
    using that by (intro d(2)) (auto split: if_splits)
  moreover have "0 \<le> s1 \<and> s1 < NumSectors \<and> hdr_wf (H s1) \<and> s1 \<notin> set (file_sectors (H s1)) \<and> owned H s1 \<inter> S = {}"
    if "(D(k := None)) k1 = Some s1" for k1 s1
    using that by (intro d(1)) (auto split: if_splits)
  ultimately show ?thesis unfolding layout_def by blast
qed

section \<open>Writing the files of the system\<close>

lemma header_at_cong: "ReadSector s d' = ReadSector s d \<Longrightarrow> header_at big d' s = header_at big d s"
  by (simp add: header_at_def FetchFrom_def)

lemma FetchFrom_cong: "ReadSector s d' = ReadSector s d \<Longrightarrow> FetchFrom big s d' = FetchFrom big s d"
  by (simp add: FetchFrom_def)

lemma sys_okD:
  assumes "sys_ok big fs d"
  shows "hdr_wf (hdr (freeMapFile fs))" "numBytes (hdr (freeMapFile fs)) = FreeMapFileSize"
    "hdr_wf (hdr (directoryFile fs))" "numBytes (hdr (directoryFile fs)) = DirectoryFileSize"
    "set (file_sectors (hdr (freeMapFile fs))) \<inter> set (file_sectors (hdr (directoryFile fs))) = {}"
    "{FreeMapSector, DirectorySector} \<inter> (set (file_sectors (hdr (freeMapFile fs))) \<union> set (file_sectors (hdr (directoryFile fs)))) = {}"
    "FetchFrom big FreeMapSector d = Inr (hdr (freeMapFile fs))" "FetchFrom big DirectorySector d = Inr (hdr (directoryFile fs))"
  using assms by (simp_all add: sys_ok_def Let_def)

text \<open>Writing sectors outside of the system's keeps the system's files.\<close>

lemma sys_files_cong:
  assumes ok: "sys_ok big fs d" and same: "\<And>s. s \<in> sys_sectors fs \<Longrightarrow> ReadSector s d' = ReadSector s d"
  shows "sys_ok big fs d'" "fs_dir big fs d' = fs_dir big fs d" "fs_map big fs d' = fs_map big fs d"
proof -
  have "FetchFrom big FreeMapSector d' = FetchFrom big FreeMapSector d" "FetchFrom big DirectorySector d' = FetchFrom big DirectorySector d"
    by (rule FetchFrom_cong; rule same; simp add: sys_sectors_def)+
  then show "sys_ok big fs d'" using ok by (simp add: sys_ok_def Let_def)
  show "fs_dir big fs d' = fs_dir big fs d" "fs_map big fs d' = fs_map big fs d"
    unfolding fs_dir_def fs_map_def by (subst file_bytes_cong; use same in \<open>simp add: sys_sectors_def\<close>)+
qed

lemma write_dir:
  assumes d: "disk_inv d" and ok: "sys_ok big fs d" and t: "length t = NumDirEntries" "\<forall>e \<in> set t. entry_ok e"
    and gb: "\<forall>n. length (gb n) = n"
  shows "\<exists>d'. Directory_WriteBack big gb (directoryFile fs) t d = Inr d' \<and> disk_inv d' \<and> sys_ok big fs d' \<and>
     fs_dir big fs d' = t \<and> fs_map big fs d' = fs_map big fs d \<and>
     (\<forall>s. 0 \<le> s \<and> s < NumSectors \<and> s \<notin> sys_sectors fs \<longrightarrow> ReadSector s d' = ReadSector s d)"
proof -
  note sys = sys_okD [OF ok]
  obtain d' where d': "Directory_WriteBack big gb (directoryFile fs) t d = Inr d'" "disk_inv d'"
      "decode_table big NumDirEntries (file_bytes ReadSector (hdr (directoryFile fs)) d') = t"
    and same: "\<And>s. 0 \<le> s \<Longrightarrow> s < NumSectors \<Longrightarrow> s \<notin> set (file_sectors (hdr (directoryFile fs))) \<Longrightarrow> ReadSector s d' = ReadSector s d"
    using Directory_WriteBack_eq [OF d sys(3,4) t gb] by blast
  have hdrs: "FetchFrom big FreeMapSector d' = FetchFrom big FreeMapSector d" "FetchFrom big DirectorySector d' = FetchFrom big DirectorySector d"
    using sys(6) by (auto intro!: FetchFrom_cong same)
  have "file_bytes ReadSector (hdr (freeMapFile fs)) d' = file_bytes ReadSector (hdr (freeMapFile fs)) d"
    using sys(5) hdr_wf_sectors(3) [OF sys(1)] by (intro file_bytes_cong ballI same) auto
  moreover have "sys_ok big fs d'" using ok hdrs by (simp add: sys_ok_def Let_def)
  ultimately show ?thesis using d' same by (auto simp: fs_dir_def fs_map_def sys_sectors_def)
qed

lemma write_map:
  assumes d: "disk_inv d" and ok: "sys_ok big fs d" and m: "numBits m = NumSectors" "BitMap_wf m"
    and gb: "\<forall>n. length (gb n) = n"
  shows "\<exists>d'. BitMap_WriteBack big gb (freeMapFile fs) m d = Inr d' \<and> disk_inv d' \<and> sys_ok big fs d' \<and>
     fs_map big fs d' = m \<and> fs_dir big fs d' = fs_dir big fs d \<and>
     (\<forall>s. 0 \<le> s \<and> s < NumSectors \<and> s \<notin> sys_sectors fs \<longrightarrow> ReadSector s d' = ReadSector s d)"
proof -
  note sys = sys_okD [OF ok]
  obtain d' where d': "BitMap_WriteBack big gb (freeMapFile fs) m d = Inr d'" "disk_inv d'"
      "\<lparr>numBits = NumSectors, numWords = 32, bmap = words_of_bytes big 32 (file_bytes ReadSector (hdr (freeMapFile fs)) d')\<rparr> = m"
    and same: "\<And>s. 0 \<le> s \<Longrightarrow> s < NumSectors \<Longrightarrow> s \<notin> set (file_sectors (hdr (freeMapFile fs))) \<Longrightarrow> ReadSector s d' = ReadSector s d"
    using BitMap_WriteBack_eq [OF d sys(1,2) m gb] by blast
  have hdrs: "FetchFrom big FreeMapSector d' = FetchFrom big FreeMapSector d" "FetchFrom big DirectorySector d' = FetchFrom big DirectorySector d"
    using sys(6) by (auto intro!: FetchFrom_cong same)
  have "file_bytes ReadSector (hdr (directoryFile fs)) d' = file_bytes ReadSector (hdr (directoryFile fs)) d"
    using sys(5) hdr_wf_sectors(3) [OF sys(3)] by (intro file_bytes_cong ballI same) auto
  moreover have "sys_ok big fs d'" using ok hdrs by (simp add: sys_ok_def Let_def)
  ultimately show ?thesis using d' same by (auto simp: fs_dir_def fs_map_def sys_sectors_def)
qed

section \<open>Fetching the files of the system\<close>

lemma fs_invD:
  assumes "fs_inv big fs d"
  shows "disk_inv d" "sys_ok big fs d" "dir_inv (fs_dir big fs d)"
    "layout (sys_sectors fs) (dir_abs (fs_dir big fs d)) (header_at big d) (marked (fs_map big fs d))"
    "BitMap_wf (fs_map big fs d)" "numBits (fs_map big fs d) = NumSectors"
    "length (fs_dir big fs d) = NumDirEntries" "\<forall>e \<in> set (fs_dir big fs d). entry_ok e"
proof -
  show d: "disk_inv d" and ok: "sys_ok big fs d" and "dir_inv (fs_dir big fs d)"
    and "layout (sys_sectors fs) (dir_abs (fs_dir big fs d)) (header_at big d) (marked (fs_map big fs d))"
    using assms by (simp_all add: fs_inv_def)
  show "BitMap_wf (fs_map big fs d)" "numBits (fs_map big fs d) = NumSectors" by (simp_all add: fs_map_def BitMap_wf_def divRoundUp_def)
  have "length (file_bytes ReadSector (hdr (directoryFile fs)) d) = 20 * NumDirEntries"
    using disk.length_file_bytes [OF d sys_okD(3) [OF ok]] sys_okD(4) [OF ok] by simp
  then show "length (fs_dir big fs d) = NumDirEntries" "\<forall>e \<in> set (fs_dir big fs d). entry_ok e"
    using decode_table_ok [of _ NumDirEntries big] unfolding fs_dir_def by blast+
qed

lemma new_directory:
  assumes "garbage_ok g"
  shows "length (Directory_new (gentries g) NumDirEntries) = NumDirEntries" "\<forall>e \<in> set (Directory_new (gentries g) NumDirEntries). entry_ok e"
  using assms by (auto simp: Directory_new_def garbage_ok_def entry_ok_def dest!: in_set_takeD)

lemma fetch_dir:
  assumes "fs_inv big fs d" "garbage_ok g"
  shows "Directory_FetchFrom big (directoryFile fs) d (Directory_new (gentries g) NumDirEntries) = Inr (fs_dir big fs d)"
  unfolding fs_dir_def
  using fs_invD(1,2) [OF assms(1)] new_directory [OF assms(2)] by (intro Directory_FetchFrom_eq) (auto dest: sys_okD)

lemma fetch_map:
  assumes "fs_inv big fs d" "garbage_ok g"
  shows "\<exists>m0. BitMap_new (gwords g) NumSectors = Inr m0 \<and> BitMap_FetchFrom big (freeMapFile fs) d m0 = Inr (fs_map big fs d)"
proof -
  obtain m0 where "BitMap_new (gwords g) NumSectors = Inr m0" "numBits m0 = NumSectors" "BitMap_wf m0"
    using BitMap_new_empty [of NumSectors "gwords g"] assms(2) by (auto simp: garbage_ok_def divRoundUp_def)
  then show ?thesis
    using BitMap_FetchFrom_eq [of d "freeMapFile fs" m0 big] fs_invD(1,2) [OF assms(1)] sys_okD(1,2)
    by (auto simp: fs_map_def)
qed

lemma directory_full:
  assumes "dir_inv t"
  shows "(\<forall>e \<in> set t. inUse e) \<longleftrightarrow> card (dom (dir_abs t)) = length t"
proof -
  have "distinct (map (\<lambda>e. key (ename e)) (filter inUse t))"
    by (rule distinct_map_filter) (use assms in \<open>auto simp: dir_inv_def\<close>)
  moreover have "dom (dir_abs t) = set (map (\<lambda>e. key (ename e)) (filter inUse t))"
    by (simp add: dir_abs_def dom_map_of_conv_image_fst image_image)
  ultimately have "card (dom (dir_abs t)) = length (filter inUse t)" using distinct_card by fastforce
  moreover have "length (filter inUse t) = length t \<longleftrightarrow> (\<forall>e \<in> set t. inUse e)"
    by (metis filter_id_conv length_filter_less less_irrefl)
  ultimately show ?thesis by simp
qed

section \<open>Operations\<close>

text \<open>
  An open file designates the file of name \<open>k\<close>: its object holds the header that is on the disk. A
  change of the disk that keeps the entries and the headers of the files keeps every open file
  valid, except those of the names in \<open>K\<close>.
\<close>

definition opened :: "bool \<Rightarrow> FileSystem \<Rightarrow> Disk \<Rightarrow> 8 word list \<Rightarrow> OpenFile \<Rightarrow> bool" where
  "opened big fs d k f \<longleftrightarrow> dir_abs (fs_dir big fs d) k \<noteq> None \<and> hdr f = header_at big d (the (dir_abs (fs_dir big fs d) k))"

definition kept :: "bool \<Rightarrow> FileSystem \<Rightarrow> 8 word list set \<Rightarrow> Disk \<Rightarrow> Disk \<Rightarrow> bool" where
  "kept big fs K d d' \<longleftrightarrow>
     (\<forall>k s. k \<notin> K \<and> dir_abs (fs_dir big fs d) k = Some s \<longrightarrow>
        dir_abs (fs_dir big fs d') k = Some s \<and> header_at big d' s = header_at big d s)"

lemma openedE:
  assumes "opened big fs d k f"
  obtains s where "dir_abs (fs_dir big fs d) k = Some s" "hdr f = header_at big d s"
  using assms by (auto simp: opened_def)

lemma opened_kept: "opened big fs d k f \<Longrightarrow> kept big fs K d d' \<Longrightarrow> k \<notin> K \<Longrightarrow> opened big fs d' k f"
  by (auto simp: opened_def kept_def)

lemma kept_refl: "kept big fs K d d"
  by (simp add: kept_def)

lemma fs_abs_dom: "dom (fs_abs big fs d) = dom (dir_abs (fs_dir big fs d))"
  by (auto simp: fs_abs_def)

lemma fs_abs_None: "fs_abs big fs d k = None \<longleftrightarrow> dir_abs (fs_dir big fs d) k = None"
  by (simp add: fs_abs_def)

text \<open>What a change of the disk keeps of the files: those whose sectors it does not touch.\<close>

lemma file_unchanged:
  assumes l: "layout S D (header_at big d) M" and k: "D k = Some s"
    and same: "\<And>s'. 0 \<le> s' \<Longrightarrow> s' < NumSectors \<Longrightarrow> s' \<in> owned (header_at big d) s \<Longrightarrow> ReadSector s' d' = ReadSector s' d"
  shows "header_at big d' s = header_at big d s"
    "file_bytes ReadSector (header_at big d' s) d' = file_bytes ReadSector (header_at big d s) d"
proof -
  note f = layoutD(1) [OF l k]
  show h: "header_at big d' s = header_at big d s"
    using f by (intro header_at_cong same) (auto simp: owned_def)
  have "ReadSector s' d' = ReadSector s' d" if "s' \<in> set (file_sectors (header_at big d s))" for s'
    using that f hdr_wf_sectors(3) [of "header_at big d s" s'] by (intro same) (auto simp: owned_def)
  then show "file_bytes ReadSector (header_at big d' s) d' = file_bytes ReadSector (header_at big d s) d"
    unfolding h by (intro file_bytes_cong) blast
qed

lemma storable:
  assumes "hdr_wf h" "set (dataSectors h) \<subseteq> set (file_sectors h) \<union> G" "\<forall>s \<in> G. fits_int s"
  shows "hdr_storable h"
proof -
  have "numSectors h \<le> 30" "numBytes h \<le> 30 * 128" "length (dataSectors h) = NumDirect"
    using assms(1) hdr_wf_sectors(4,5) [OF assms(1)] by (auto simp: hdr_wf_def)
  moreover have "fits_int s" if "s \<in> set (dataSectors h)" for s
    using that assms(2,3) hdr_wf_sectors(3) [OF assms(1), of s] by (fastforce simp: fits_int_def)
  ultimately show ?thesis using hdr_wf_sectors(5,6) [OF assms(1)] by (simp add: hdr_storable_def fits_int_def)
qed

text \<open>The sector that Create takes for the header.\<close>

lemma fs_Find:
  assumes inv: "fs_inv big fs d" and free: "0 < card ({0..<NumSectors} - marked (fs_map big fs d))"
  obtains s m1 where "Find (fs_map big fs d) = Inr (s, m1)" "s \<in> {0..<NumSectors} - marked (fs_map big fs d)"
    "marked m1 = insert s (marked (fs_map big fs d))" "numBits m1 = NumSectors" "BitMap_wf m1"
    "card ({0..<NumSectors} - marked (fs_map big fs d)) = Suc (card ({0..<NumSectors} - marked m1))"
proof -
  let ?m = "fs_map big fs d"
  note i = fs_invD(5,6) [OF inv]
  have "marked ?m \<noteq> {0..<numBits ?m}" using free i(2) by (metis Diff_cancel card.empty less_irrefl)
  then obtain s m1 where s: "Find ?m = Inr (s, m1)" "s \<in> {0..<NumSectors} - marked ?m" "marked m1 = insert s (marked ?m)"
      "numBits m1 = NumSectors" "BitMap_wf m1"
    using Find_free [OF i(1)] i(2) by auto
  have eq: "{0..<NumSectors} - marked ?m = insert s ({0..<NumSectors} - marked m1)" using s(2,3) by auto
  have "card ({0..<NumSectors} - marked ?m) = Suc (card ({0..<NumSectors} - marked m1))"
    unfolding eq by (rule card_insert_disjoint) (use s(3) in auto)
  with s show thesis by (rule that)
qed

lemma Allocate_few:
  assumes "BitMap_wf m" "\<not> divRoundUp n (int SectorSize) \<le> int (card ({0..<numBits m} - marked m))"
  shows "\<exists>h'. Allocate n h m = Inr (False, h', m)"
  using NumClear_card [OF assms(1)] assms(2) by (simp add: Allocate_def Let_def)

lemma Create_fails:
  assumes inv: "fs_inv big fs d" and g: "garbage_ok g" and name: "0 \<notin> set name"
    and no: "fs_abs big fs d (key name) \<noteq> None \<or> card (dom (fs_abs big fs d)) = NumDirEntries \<or>
      int (card ({0..<NumSectors} - marked (fs_map big fs d))) < 1 + divRoundUp n 128"
  shows "Create big g fs name n d = Inr (False, d)"
proof -
  let ?t = "fs_dir big fs d" and ?m = "fs_map big fs d"
  note i = fs_invD [OF inv]
  obtain m0 where m0: "BitMap_new (gwords g) NumSectors = Inr m0" "BitMap_FetchFrom big (freeMapFile fs) d m0 = Inr ?m"
    using fetch_map [OF inv g] by blast
  note fetch = fetch_dir [OF inv g] m0
  have find: "Directory_Find name ?t = (case dir_abs ?t (key name) of None \<Rightarrow> - 1 | Some s \<Rightarrow> s)"
    by (rule Directory_Find_spec [OF i(3) name])
  show ?thesis
  proof (cases "dir_abs ?t (key name)")
    case (Some s)
    then show ?thesis using find layoutD(1) [OF i(4) Some] by (simp add: Create_def fetch)
  next
    case None
    show ?thesis
    proof (cases "card ({0..<NumSectors} - marked ?m) = 0")
      case True
      then have "marked ?m = {0..<numBits ?m}" using marked_bound [of ?m] i(6) by auto
      then show ?thesis using find None Find_full [OF i(5)] by (simp add: Create_def fetch)
    next
      case False
      then have "0 < card ({0..<NumSectors} - marked ?m)" unfolding neq0_conv .
      then obtain s m1 where s: "Find ?m = Inr (s, m1)" "s \<in> {0..<NumSectors} - marked ?m" "marked m1 = insert s (marked ?m)"
          "numBits m1 = NumSectors" "BitMap_wf m1"
        and c: "card ({0..<NumSectors} - marked ?m) = Suc (card ({0..<NumSectors} - marked m1))"
        by (rule fs_Find [OF inv])
      show ?thesis
      proof (cases "\<forall>e \<in> set ?t. inUse e")
        case True
        then have "Add name s ?t = (False, ?t)" using Add_spec [OF i(3) name, of s] by simp
        then show ?thesis using find None s by (simp add: Create_def fetch)
      next
        case False
        then have "card (dom (fs_abs big fs d)) \<noteq> NumDirEntries"
          unfolding directory_full [OF i(3)] fs_abs_dom i(7) .
        then have few: "\<not> divRoundUp n (int SectorSize) \<le> int (card ({0..<numBits m1} - marked m1))"
          using no None c s(4) by (simp add: fs_abs_None)
        obtain h where "Allocate n (gheader g) m1 = Inr (False, h, m1)"
          using Allocate_few [OF s(5) few, of "gheader g"] by blast
        moreover have "fst (Add name s ?t)" using Add_spec [OF i(3) name, of s] False None by auto
        ultimately show ?thesis using find None s by (auto simp: Create_def fetch split: prod.splits)
      qed
    qed
  qed
qed

text \<open>A file too large for a header, where nothing else makes Create fail.\<close>

lemma Create_overruns:
  assumes inv: "fs_inv big fs d" and g: "garbage_ok g" and name: "0 \<notin> set name" and size: "int MaxFileSize < n"
    and new: "fs_abs big fs d (key name) = None" and free: "card (dom (fs_abs big fs d)) \<noteq> NumDirEntries"
    and room: "1 + divRoundUp n 128 \<le> int (card ({0..<NumSectors} - marked (fs_map big fs d)))"
  shows "Create big g fs name n d = Inl OutOfBounds"
proof -
  let ?t = "fs_dir big fs d" and ?m = "fs_map big fs d"
  note i = fs_invD [OF inv]
  obtain m0 where m0: "BitMap_new (gwords g) NumSectors = Inr m0" "BitMap_FetchFrom big (freeMapFile fs) d m0 = Inr ?m"
    using fetch_map [OF inv g] by blast
  have none: "dir_abs ?t (key name) = None" using new by (simp add: fs_abs_None)
  have nf: "\<not> (\<forall>e \<in> set ?t. inUse e)" using free unfolding directory_full [OF i(3)] fs_abs_dom i(7) .
  have "0 < card ({0..<NumSectors} - marked ?m)" using room divRoundUp_bounds(3) [of n 128] size by simp
  then obtain s m1 where s: "Find ?m = Inr (s, m1)" "s \<in> {0..<NumSectors} - marked ?m" "numBits m1 = NumSectors" "BitMap_wf m1"
      "card ({0..<NumSectors} - marked ?m) = Suc (card ({0..<NumSectors} - marked m1))"
    by (rule fs_Find [OF inv])
  have "Allocate n (gheader g) m1 = Inl OutOfBounds"
    by (rule Allocate_past_end) (use s room size g in \<open>auto simp: garbage_ok_def\<close>)
  moreover obtain t' where "Add name s ?t = (True, t')" using Add_spec [OF i(3) name, of s] none nf by auto
  ultimately show ?thesis
    using Directory_Find_spec [OF i(3) name] none s(1,2) by (auto simp: Create_def fetch_dir [OF inv g] m0)
qed

lemma sys_sectors_range:
  assumes "sys_ok big fs d" "s \<in> sys_sectors fs"
  shows "0 \<le> s \<and> s < NumSectors"
  using assms hdr_wf_sectors(3) [OF sys_okD(1) [OF assms(1)]] hdr_wf_sectors(3) [OF sys_okD(3) [OF assms(1)]]
  by (auto simp: sys_sectors_def)

lemma Add_entries:
  assumes "dir_inv t" "0 \<notin> set name" "Add name s t = (r, t')" "\<forall>e \<in> set t. entry_ok e" "fits_int s"
  shows "\<forall>e \<in> set t'. entry_ok e"
proof -
  have "t' = t \<or> (\<exists>j < length t. t' = t[j := (t ! j)\<lparr>inUse := True, esector := s, ename := strncpy FileNameMaxLen (name @ [0]) (ename (t ! j))\<rparr>])"
    using Add_loop_spec [of name s t] assms(3) by (auto simp: Add_def split: if_splits)
  then show ?thesis
  proof
    assume "\<exists>j < length t. t' = t[j := (t ! j)\<lparr>inUse := True, esector := s, ename := strncpy FileNameMaxLen (name @ [0]) (ename (t ! j))\<rparr>]"
    then obtain j where j: "j < length t" "t' = t[j := (t ! j)\<lparr>inUse := True, esector := s, ename := strncpy FileNameMaxLen (name @ [0]) (ename (t ! j))\<rparr>]"
      by blast
    have "length (ename (t ! j)) = FileNameMaxLen + 1" using assms(4) j(1) by (simp add: entry_ok_def)
    then show ?thesis using assms(4,5) key_strncpy(2) [OF assms(2)] set_update_subset_insert [of t j] unfolding j(2)
      by (fastforce simp: entry_ok_def)
  qed (use assms(4) in simp)
qed

text \<open>The new sectors that Create takes: one for the header and those of the data.\<close>

lemma Create_allocates:
  assumes inv: "fs_inv big fs d" and g: "garbage_ok g" and size: "0 \<le> n" "n \<le> int MaxFileSize"
    and room: "1 + divRoundUp n 128 \<le> int (card ({0..<NumSectors} - marked (fs_map big fs d)))"
  shows "\<exists>s m1 h m2. Find (fs_map big fs d) = Inr (s, m1) \<and> 0 \<le> s \<and> s < NumSectors \<and> s \<notin> marked (fs_map big fs d) \<and>
     Allocate n (gheader g) m1 = Inr (True, h, m2) \<and> hdr_wf h \<and> hdr_storable h \<and> numBytes h = n \<and>
     set (file_sectors h) \<inter> insert s (marked (fs_map big fs d)) = {} \<and>
     BitMap_wf m2 \<and> numBits m2 = NumSectors \<and> marked m2 = insert s (marked (fs_map big fs d)) \<union> set (file_sectors h)"
proof -
  let ?m = "fs_map big fs d"
  note i = fs_invD(5,6) [OF inv]
  have "0 < card ({0..<NumSectors} - marked ?m)" using room divRoundUp_bounds(3) [OF size(1), of 128] by linarith
  then obtain s m1 where s: "Find ?m = Inr (s, m1)" "s \<in> {0..<NumSectors} - marked ?m" "marked m1 = insert s (marked ?m)"
      "numBits m1 = NumSectors" "BitMap_wf m1"
    and "card ({0..<NumSectors} - marked ?m) = Suc (card ({0..<NumSectors} - marked m1))"
    by (rule fs_Find [OF inv])
  then have enough: "divRoundUp n (int SectorSize) \<le> int (card ({0..<numBits m1} - marked m1))"
    using room s(4) by simp
  obtain h m2 where h: "Allocate n (gheader g) m1 = Inr (True, h, m2)" "hdr_wf h" "numBytes h = n"
      "set (file_sectors h) \<subseteq> {0..<numBits m1} - marked m1" "set (dataSectors h) \<subseteq> set (file_sectors h) \<union> set (dataSectors (gheader g))"
      "BitMap_wf m2" "numBits m2 = numBits m1" "marked m2 = marked m1 \<union> set (file_sectors h)"
    using Allocate_spec [OF s(5) _ size, of "gheader g", unfolded if_P [OF enough]] s(4) g by (auto simp: garbage_ok_def)
  have "hdr_storable h" using storable [OF h(2,5)] g by (simp add: garbage_ok_def)
  then show ?thesis using s h by auto
qed

text \<open>Writing the directory and the free map back, in either order, and the header of a new file.\<close>

definition committed :: "bool \<Rightarrow> FileSystem \<Rightarrow> Disk \<Rightarrow> Directory \<Rightarrow> BitMap \<Rightarrow> Disk \<Rightarrow> bool" where
  "committed big fs d t m d' \<longleftrightarrow> disk_inv d' \<and> sys_ok big fs d' \<and> fs_dir big fs d' = t \<and> fs_map big fs d' = m \<and>
     (\<forall>s. 0 \<le> s \<and> s < NumSectors \<and> s \<notin> sys_sectors fs \<longrightarrow> ReadSector s d' = ReadSector s d)"

lemma commit:
  assumes "disk_inv d" "sys_ok big fs d" "length t = NumDirEntries" "\<forall>e \<in> set t. entry_ok e" "numBits m = NumSectors" "BitMap_wf m"
    "\<forall>n. length (gb n) = n"
  shows "\<exists>d1 d2. Directory_WriteBack big gb (directoryFile fs) t d = Inr d1 \<and> BitMap_WriteBack big gb (freeMapFile fs) m d1 = Inr d2 \<and>
       committed big fs d t m d2"
    "\<exists>d1 d2. BitMap_WriteBack big gb (freeMapFile fs) m d = Inr d1 \<and> Directory_WriteBack big gb (directoryFile fs) t d1 = Inr d2 \<and>
       committed big fs d t m d2"
proof -
  obtain d1 where d1: "Directory_WriteBack big gb (directoryFile fs) t d = Inr d1" "disk_inv d1" "sys_ok big fs d1" "fs_dir big fs d1 = t"
      "\<forall>s. 0 \<le> s \<and> s < NumSectors \<and> s \<notin> sys_sectors fs \<longrightarrow> ReadSector s d1 = ReadSector s d"
    using write_dir [OF assms(1-4,7)] by blast
  then show "\<exists>d1 d2. Directory_WriteBack big gb (directoryFile fs) t d = Inr d1 \<and> BitMap_WriteBack big gb (freeMapFile fs) m d1 = Inr d2 \<and>
       committed big fs d t m d2"
    using write_map [OF d1(2,3) assms(5-7)] by (auto simp: committed_def)
  obtain d1 where d1: "BitMap_WriteBack big gb (freeMapFile fs) m d = Inr d1" "disk_inv d1" "sys_ok big fs d1" "fs_map big fs d1 = m"
      "\<forall>s. 0 \<le> s \<and> s < NumSectors \<and> s \<notin> sys_sectors fs \<longrightarrow> ReadSector s d1 = ReadSector s d"
    using write_map [OF assms(1,2,5-7)] by blast
  then show "\<exists>d1 d2. BitMap_WriteBack big gb (freeMapFile fs) m d = Inr d1 \<and> Directory_WriteBack big gb (directoryFile fs) t d1 = Inr d2 \<and>
       committed big fs d t m d2"
    using write_dir [OF d1(2,3) assms(3,4,7)] by (auto simp: committed_def)
qed

lemma committed_files:
  assumes "committed big fs d t m d'" "layout (sys_sectors fs) D (header_at big d) M" "D k = Some s"
  shows "header_at big d' s = header_at big d s"
    "file_bytes ReadSector (header_at big d' s) d' = file_bytes ReadSector (header_at big d s) d"
proof -
  have "ReadSector s' d' = ReadSector s' d" if "0 \<le> s'" "s' < NumSectors" "s' \<in> owned (header_at big d) s" for s'
    using that assms(1) layoutD(1) [OF assms(2,3)] by (auto simp: committed_def)
  then show "header_at big d' s = header_at big d s"
    "file_bytes ReadSector (header_at big d' s) d' = file_bytes ReadSector (header_at big d s) d"
    using file_unchanged [OF assms(2,3)] by blast+
qed

lemma write_header:
  assumes inv: "fs_inv big fs d" and s: "0 \<le> s" "s < NumSectors" "s \<notin> marked (fs_map big fs d)" and h: "hdr_storable h"
  shows "\<exists>d'. WriteBack big s h d = Inr d' \<and> header_at big d' s = h \<and> fs_inv big fs d' \<and> fs_dir big fs d' = fs_dir big fs d \<and>
     fs_map big fs d' = fs_map big fs d \<and> fs_abs big fs d' = fs_abs big fs d \<and> kept big fs {} d d'"
proof -
  let ?D = "dir_abs (fs_dir big fs d)" and ?H = "header_at big d"
  note i = fs_invD [OF inv]
  note lay = layoutD [OF i(4)]
  obtain d' where d': "WriteBack big s h d = Inr d'" "disk_inv d'" "FetchFrom big s d' = Inr h"
    and same: "\<And>s'. 0 \<le> s' \<Longrightarrow> s' < NumSectors \<Longrightarrow> s' \<noteq> s \<Longrightarrow> ReadSector s' d' = ReadSector s' d"
    using WriteBack_FetchFrom [OF i(1) s(1,2) h, of big] by blast
  have "ReadSector s' d' = ReadSector s' d" if "s' \<in> sys_sectors fs" for s'
    using that s(3) lay(3) sys_sectors_range [OF i(2) that] by (intro same) auto
  note sys = sys_files_cong [OF i(2) this]
  have old: "header_at big d' s' = ?H s'" "file_bytes ReadSector (header_at big d' s') d' = file_bytes ReadSector (?H s') d"
    if k: "?D k = Some s'" for k s'
  proof -
    have "s'' \<noteq> s" if "s'' \<in> owned ?H s'" for s'' using that k lay(3) s(3) by (auto simp: ran_def)
    then show "header_at big d' s' = ?H s'" "file_bytes ReadSector (header_at big d' s') d' = file_bytes ReadSector (?H s') d"
      using file_unchanged [OF i(4) k, of d'] same by blast+
  qed
  have "fs_abs big fs d' k = fs_abs big fs d k" for k
    using old(2) [of k] by (cases "?D k") (auto simp: fs_abs_def sys(2))
  moreover have "fs_inv big fs d'" using layout_cong [OF i(4) old(1)] d'(2) sys i(3) by (simp add: fs_inv_def)
  moreover have "kept big fs {} d d'" using old(1) by (simp add: kept_def sys(2))
  ultimately show ?thesis using d' sys by (auto simp: header_at_def)
qed

lemma Create_succeeds:
  assumes inv: "fs_inv big fs d" and g: "garbage_ok g" and name: "0 \<notin> set name" and size: "0 \<le> n" "n \<le> int MaxFileSize"
    and new: "fs_abs big fs d (key name) = None" and free: "card (dom (fs_abs big fs d)) \<noteq> NumDirEntries"
    and room: "1 + divRoundUp n 128 \<le> int (card ({0..<NumSectors} - marked (fs_map big fs d)))"
  shows "\<exists>d' bs. Create big g fs name n d = Inr (True, d') \<and> fs_inv big fs d' \<and> int (length bs) = n \<and>
     fs_abs big fs d' = (fs_abs big fs d)(key name \<mapsto> bs) \<and> kept big fs {} d d'"
proof -
  let ?t = "fs_dir big fs d" and ?m = "fs_map big fs d" and ?D = "dir_abs (fs_dir big fs d)"
  note i = fs_invD [OF inv]
  obtain m0 where m0: "BitMap_new (gwords g) NumSectors = Inr m0" "BitMap_FetchFrom big (freeMapFile fs) d m0 = Inr ?m"
    using fetch_map [OF inv g] by blast
  obtain s m1 h m2 where s: "Find ?m = Inr (s, m1)" "0 \<le> s" "s < NumSectors" "s \<notin> marked ?m"
    and h: "Allocate n (gheader g) m1 = Inr (True, h, m2)" "hdr_wf h" "hdr_storable h" "numBytes h = n"
      "set (file_sectors h) \<inter> insert s (marked ?m) = {}"
    and m2: "BitMap_wf m2" "numBits m2 = NumSectors" "marked m2 = insert s (marked ?m) \<union> set (file_sectors h)"
    using Create_allocates [OF inv g size room] by blast
  have none: "?D (key name) = None" using new by (simp add: fs_abs_None)
  have nf: "\<not> (\<forall>e \<in> set ?t. inUse e)" using free unfolding directory_full [OF i(3)] fs_abs_dom i(7) .
  obtain t' where t': "Add name s ?t = (True, t')" "dir_inv t'" "length t' = NumDirEntries" "dir_abs t' = ?D(key name \<mapsto> s)"
    using Add_spec [OF i(3) name, of s] none nf i(7) by auto
  have entries: "\<forall>e \<in> set t'. entry_ok e" by (rule Add_entries [OF i(3) name t'(1) i(8)]) (use s in \<open>simp add: fits_int_def\<close>)
  obtain d1 where d1: "WriteBack big s h d = Inr d1" "header_at big d1 s = h" "fs_inv big fs d1" "fs_dir big fs d1 = ?t"
      "fs_map big fs d1 = ?m" "fs_abs big fs d1 = fs_abs big fs d" "kept big fs {} d d1"
    using write_header [OF inv s(2-4) h(3)] by blast
  note i1 = fs_invD [OF d1(3)]
  obtain d2 d3 where d3: "Directory_WriteBack big (gbytes g) (directoryFile fs) t' d1 = Inr d2"
      "BitMap_WriteBack big (gbytes g) (freeMapFile fs) m2 d2 = Inr d3" "committed big fs d1 t' m2 d3"
    using commit(1) [OF i1(1,2) t'(3) entries m2(2,1) gbytes_length [OF g]] by blast
  have Hs: "header_at big d3 s = h"
    using d3(3) s(2-4) layoutD(3) [OF i(4)] header_at_cong [of s d3 d1 big] d1(2) by (auto simp: committed_def)
  note old = committed_files [OF d3(3) i1(4), unfolded d1(4)]
  have "layout (sys_sectors fs) (?D(key name \<mapsto> s)) (header_at big d3) (marked m2)"
    unfolding m2(3) by (rule layout_add [OF i1(4) [unfolded d1(4,5)] s(4,2,3) h(2,5) Hs old(1) none])
  then have "fs_inv big fs d3" using d3(3) t' by (simp add: fs_inv_def committed_def)
  moreover have "fs_abs big fs d3 = (fs_abs big fs d1)(key name \<mapsto> file_bytes ReadSector h d3)"
  proof (rule ext)
    fix k
    show "fs_abs big fs d3 k = ((fs_abs big fs d1)(key name \<mapsto> file_bytes ReadSector h d3)) k"
      using old(2) [of k] Hs d3(3) by (cases "?D k") (auto simp: fs_abs_def t'(4) d1(4) committed_def)
  qed
  moreover have "int (length (file_bytes ReadSector h d3)) = n"
    using disk.length_file_bytes [OF _ h(2), of d3] d3(3) h(4) size(1) by (simp add: committed_def)
  moreover have "Create big g fs name n d = Inr (True, d3)"
    using Directory_Find_spec [OF i(3) name] none s(1,2)
    by (simp add: Create_def fetch_dir [OF inv g] m0 t'(1) h(1) d1(1) d3(1,2))
  moreover have "kept big fs {} d d3"
    using d1(7) old(1) d3(3) none by (auto simp: kept_def committed_def t'(4) d1(4))
  ultimately show ?thesis unfolding d1(6) by blast
qed

lemma Remove_entries:
  assumes "Directory_Remove name t = (r, t')" "\<forall>e \<in> set t. entry_ok e" "dir_inv t" "0 \<notin> set name"
  shows "\<forall>e \<in> set t'. entry_ok e"
proof -
  have "t' = t \<or> (\<exists>j < length t. t' = t[j := (t ! j)\<lparr>inUse := False\<rparr>])"
    using FindIndex_spec [OF assms(3,4)] assms(1) by (auto simp: Directory_Remove_def Let_def split: if_splits)
  then show ?thesis
  proof
    assume "\<exists>j < length t. t' = t[j := (t ! j)\<lparr>inUse := False\<rparr>]"
    then obtain j where j: "j < length t" "t' = t[j := (t ! j)\<lparr>inUse := False\<rparr>]" by blast
    then show ?thesis using assms(2) set_update_subset_insert [of t j "(t ! j)\<lparr>inUse := False\<rparr>"] by (fastforce simp: entry_ok_def)
  qed (use assms(2) in simp)
qed

lemma FetchFrom_header_at:
  assumes "disk_inv d" "0 \<le> s" "s < NumSectors"
  shows "FetchFrom big s d = Inr (header_at big d s)"
  using disk.rd_total [OF assms] by (auto simp: header_at_def FetchFrom_def Let_def)

lemma Remove_removes:
  assumes inv: "fs_inv big fs d" and g: "garbage_ok g" and name: "0 \<notin> set name"
    and s: "dir_abs (fs_dir big fs d) (key name) = Some s"
  shows "\<exists>d'. FileSystem_Remove big g fs name d = Inr (True, d') \<and> fs_inv big fs d' \<and>
     fs_abs big fs d' = (fs_abs big fs d)(key name := None) \<and>
     marked (fs_map big fs d') = marked (fs_map big fs d) - owned (header_at big d) s \<and> kept big fs {key name} d d'"
proof -
  let ?t = "fs_dir big fs d" and ?m = "fs_map big fs d" and ?D = "dir_abs (fs_dir big fs d)" and ?h = "header_at big d s"
  note i = fs_invD [OF inv]
  note f = layoutD(1) [OF i(4) s]
  obtain m0 where m0: "BitMap_new (gwords g) NumSectors = Inr m0" "BitMap_FetchFrom big (freeMapFile fs) d m0 = Inr ?m"
    using fetch_map [OF inv g] by blast
  have own: "owned (header_at big d) s \<subseteq> marked ?m" using layoutD(3) [OF i(4)] s by (auto simp: ran_def)
  obtain m1 where m1: "Deallocate ?h ?m = Inr m1" "BitMap_wf m1" "numBits m1 = NumSectors" "marked m1 = marked ?m - set (file_sectors ?h)"
    using Deallocate_spec [of ?h ?m] f i(5,6) own by (auto simp: owned_def)
  obtain m2 where m2: "Clear s m1 = Inr m2" "BitMap_wf m2" "numBits m2 = NumSectors" "marked m2 = marked ?m - owned (header_at big d) s"
    using Clear_marked [OF m1(2), of s] f m1(3,4) by (auto simp: owned_def)
  obtain t' where t': "Directory_Remove name ?t = (True, t')" "dir_inv t'" "length t' = NumDirEntries" "dir_abs t' = ?D(key name := None)"
    using Directory_Remove_spec [OF i(3) name] s i(7) by auto
  obtain d1 d2 where d2: "BitMap_WriteBack big (gbytes g) (freeMapFile fs) m2 d = Inr d1"
      "Directory_WriteBack big (gbytes g) (directoryFile fs) t' d1 = Inr d2" "committed big fs d t' m2 d2"
    using commit(2) [OF i(1,2) t'(3) Remove_entries [OF t'(1) i(8,3) name] m2(3,2) gbytes_length [OF g]] by blast
  note old = committed_files [OF d2(3) i(4)]
  have "layout (sys_sectors fs) (?D(key name := None)) (header_at big d2) (marked m2)"
    unfolding m2(4) by (rule layout_cong [OF layout_remove [OF i(4) s]]) (use old(1) in \<open>auto split: if_splits\<close>)
  then have "fs_inv big fs d2" using d2(3) t' by (simp add: fs_inv_def committed_def)
  moreover have "fs_abs big fs d2 = (fs_abs big fs d)(key name := None)"
  proof (rule ext)
    fix k
    show "fs_abs big fs d2 k = ((fs_abs big fs d)(key name := None)) k"
      using old(2) [of k] d2(3) by (cases "?D k") (auto simp: fs_abs_def t'(4) committed_def)
  qed
  moreover have "FileSystem_Remove big g fs name d = Inr (True, d2)"
    using Directory_Find_spec [OF i(3) name] s f FetchFrom_header_at [OF i(1), of s big]
    by (simp add: FileSystem_Remove_def fetch_dir [OF inv g] m0 m1(1) m2(1) t'(1) d2(1,2))
  moreover have "kept big fs {key name} d d2"
    using old(1) d2(3) by (auto simp: kept_def committed_def t'(4))
  ultimately show ?thesis using d2(3) m2(4) by (auto simp: committed_def)
qed

lemma Open_opens:
  assumes inv: "fs_inv big fs d" and g: "garbage_ok g" and name: "0 \<notin> set name"
  shows "Open big g fs name d =
     Inr (map_option (\<lambda>s. \<lparr>hdr = header_at big d s, seekPosition = 0\<rparr>) (dir_abs (fs_dir big fs d) (key name)))"
proof (cases "dir_abs (fs_dir big fs d) (key name)")
  case None
  then show ?thesis using Directory_Find_spec [OF fs_invD(3) [OF inv] name] by (simp add: Open_def fetch_dir [OF inv g])
next
  case (Some s)
  then show ?thesis
    using Directory_Find_spec [OF fs_invD(3) [OF inv] name] layoutD(1) [OF fs_invD(4) [OF inv] Some]
      FetchFrom_header_at [OF fs_invD(1) [OF inv], of s big]
    by (simp add: Open_def fetch_dir [OF inv g] OpenFile_new_def)
qed

lemma write_open:
  assumes inv: "fs_inv big fs d" and s: "dir_abs (fs_dir big fs d) k = Some s" and gb: "\<forall>n. length (gb n) = n"
    and pos: "0 \<le> position" "numBytes (header_at big d s) \<le> position \<or> position + int (length data) < 2 ^ 31"
  shows "\<exists>d' n. WriteAt ReadSector WriteSector gb (header_at big d s) data position d = Inr (int n, d') \<and>
     n = min (length data) (nat (numBytes (header_at big d s)) - nat position) \<and> fs_inv big fs d' \<and>
     fs_abs big fs d' = (fs_abs big fs d)(k \<mapsto> overwrite (nat position) (take n data) (file_bytes ReadSector (header_at big d s) d)) \<and>
     kept big fs {} d d'"
proof -
  let ?D = "dir_abs (fs_dir big fs d)" and ?H = "header_at big d"
  note i = fs_invD [OF inv]
  note lay = layoutD [OF i(4)]
  note f = lay(1) [OF s]
  define n where "n = min (length data) (nat (numBytes (?H s)) - nat position)"
  obtain d' where d': "WriteAt ReadSector WriteSector gb (?H s) data position d = Inr (int n, d')" "disk_inv d'"
      "file_bytes ReadSector (?H s) d' = overwrite (nat position) (take n data) (file_bytes ReadSector (?H s) d)"
    and same: "\<And>s'. 0 \<le> s' \<Longrightarrow> s' < NumSectors \<Longrightarrow> s' \<notin> set (file_sectors (?H s)) \<Longrightarrow> ReadSector s' d' = ReadSector s' d"
    using disk.WriteAt_bytes [OF i(1) _ pos, of gb] f gb unfolding n_def by blast
  have "ReadSector s' d' = ReadSector s' d" if "s' \<in> sys_sectors fs" for s'
    using that f sys_sectors_range [OF i(2) that] by (intro same) (auto simp: owned_def)
  note sys = sys_files_cong [OF i(2) this]
  have hd: "header_at big d' s = ?H s" using f by (intro header_at_cong same) auto
  have old: "header_at big d' s' = ?H s'" "file_bytes ReadSector (header_at big d' s') d' = file_bytes ReadSector (?H s') d"
    if k': "?D k' = Some s'" "k' \<noteq> k" for k' s'
  proof -
    have "s'' \<notin> set (file_sectors (?H s))" if "s'' \<in> owned ?H s'" for s''
      using that lay(2) [OF k'(1) s k'(2)] by (auto simp: owned_def)
    then show "header_at big d' s' = ?H s'" "file_bytes ReadSector (header_at big d' s') d' = file_bytes ReadSector (?H s') d"
      using file_unchanged [OF i(4) k'(1), of d'] same by blast+
  qed
  have "layout (sys_sectors fs) ?D (header_at big d') (marked (fs_map big fs d))"
    by (rule layout_cong [OF i(4)]) (use hd old(1) s in \<open>metis option.inject\<close>)
  then have "fs_inv big fs d'" using d'(2) sys i(3) by (simp add: fs_inv_def)
  moreover have "fs_abs big fs d' = (fs_abs big fs d)(k \<mapsto> overwrite (nat position) (take n data) (file_bytes ReadSector (?H s) d))"
  proof (rule ext)
    fix k'
    show "fs_abs big fs d' k' = ((fs_abs big fs d)(k \<mapsto> overwrite (nat position) (take n data) (file_bytes ReadSector (?H s) d))) k'"
      using old(2) [of k'] hd s d'(3) by (cases "?D k'"; cases "k' = k") (auto simp: fs_abs_def sys(2))
  qed
  moreover have "kept big fs {} d d'"
    using hd old(1) s by (auto simp: kept_def sys(2)) (metis option.inject)
  ultimately show ?thesis using d'(1) n_def by blast
qed

section \<open>Formatting\<close>

lemma free_count:
  assumes "finite A" "A \<subseteq> {0..<NumSectors}" "card A \<le> c"
  shows "1024 - int c \<le> int (card ({0..<NumSectors} - A))"
proof -
  have "card ({0..<NumSectors} - A) = card {0..<NumSectors} - card A" by (rule card_Diff_subset [OF assms(1,2)])
  moreover have "card {0..<NumSectors} = 1024" by simp
  ultimately show ?thesis using assms(3) by linarith
qed

lemma format_allocates:
  assumes g: "garbage_ok g"
  obtains m0 m1 m2 mh m3 dh m4 where "BitMap_new (gwords g) NumSectors = Inr m0" "Mark FreeMapSector m0 = Inr m1"
    "Mark DirectorySector m1 = Inr m2" "Allocate FreeMapFileSize (gheader g) m2 = Inr (True, mh, m3)"
    "Allocate DirectoryFileSize (gheader g) m3 = Inr (True, dh, m4)"
    "hdr_wf mh" "hdr_storable mh" "numBytes mh = FreeMapFileSize" "hdr_wf dh" "hdr_storable dh" "numBytes dh = DirectoryFileSize"
    "set (file_sectors mh) \<inter> {FreeMapSector, DirectorySector} = {}"
    "set (file_sectors dh) \<inter> ({FreeMapSector, DirectorySector} \<union> set (file_sectors mh)) = {}"
    "BitMap_wf m4" "numBits m4 = NumSectors"
    "marked m4 = {FreeMapSector, DirectorySector} \<union> set (file_sectors mh) \<union> set (file_sectors dh)"
proof -
  have gh: "length (dataSectors (gheader g)) = NumDirect" "\<forall>s \<in> set (dataSectors (gheader g)). fits_int s"
    using g by (simp_all add: garbage_ok_def)
  obtain m0 where m0: "BitMap_new (gwords g) NumSectors = Inr m0" "marked m0 = {}" "numBits m0 = NumSectors" "BitMap_wf m0"
    using BitMap_new_empty [of NumSectors "gwords g"] g by (auto simp: garbage_ok_def divRoundUp_def)
  obtain m1 where m1: "Mark FreeMapSector m0 = Inr m1" "marked m1 = {0}" "numBits m1 = NumSectors" "BitMap_wf m1"
    using Mark_marked [OF m0(4), of 0] m0(2,3) by auto
  obtain m2 where m2: "Mark DirectorySector m1 = Inr m2" "marked m2 = {0, 1}" "numBits m2 = NumSectors" "BitMap_wf m2"
    using Mark_marked [OF m1(4), of 1] m1(2,3) by auto
  have e1: "divRoundUp 128 (int SectorSize) \<le> int (card ({0..<numBits m2} - marked m2))"
    unfolding m2(2,3) using free_count [of "{0, 1}" 2] by (simp add: divRoundUp_def)
  obtain mh m3 where mh: "Allocate FreeMapFileSize (gheader g) m2 = Inr (True, mh, m3)" "hdr_wf mh" "numBytes mh = 128"
      "set (file_sectors mh) \<subseteq> {0..<numBits m2} - marked m2" "set (dataSectors mh) \<subseteq> set (file_sectors mh) \<union> set (dataSectors (gheader g))"
      "BitMap_wf m3" "numBits m3 = numBits m2" "marked m3 = marked m2 \<union> set (file_sectors mh)"
    using Allocate_spec [OF m2(4) _ _ _ gh(1), of 128, unfolded if_P [OF e1]] m2(3) by auto
  have "numSectors mh = 1" using mh(2,3) by (simp add: hdr_wf_def divRoundUp_def)
  then have "card (set (file_sectors mh)) \<le> 1" using card_length [of "file_sectors mh"] hdr_wf_sectors(1) [OF mh(2)] by simp
  moreover have "card (marked m3) \<le> card {0, 1 :: int} + card (set (file_sectors mh))"
    unfolding mh(8) m2(2) by (rule card_Un_le)
  ultimately have "card (marked m3) \<le> 3" by simp
  then have e2: "divRoundUp 200 (int SectorSize) \<le> int (card ({0..<numBits m3} - marked m3))"
  proof -
    have "marked m3 \<subseteq> {0..<NumSectors}" using marked_bound [of m3] mh(7) m2(3) by simp
    from free_count [OF finite_subset [OF this] this] have "1024 - 3 \<le> int (card ({0..<NumSectors} - marked m3))"
      using \<open>card (marked m3) \<le> 3\<close> by fastforce
    then show ?thesis unfolding mh(7) m2(3) by (simp add: divRoundUp_def)
  qed
  obtain dh m4 where dh: "Allocate DirectoryFileSize (gheader g) m3 = Inr (True, dh, m4)" "hdr_wf dh" "numBytes dh = 200"
      "set (file_sectors dh) \<subseteq> {0..<numBits m3} - marked m3" "set (dataSectors dh) \<subseteq> set (file_sectors dh) \<union> set (dataSectors (gheader g))"
      "BitMap_wf m4" "numBits m4 = numBits m3" "marked m4 = marked m3 \<union> set (file_sectors dh)"
    using Allocate_spec [OF mh(6) _ _ _ gh(1), of 200, unfolded if_P [OF e2]] mh(7) m2(3) by auto
  have "hdr_storable mh" "hdr_storable dh" using storable mh(2,5) dh(2,5) gh(2) by blast+
  moreover have "set (file_sectors mh) \<inter> {0, 1} = {}" "set (file_sectors dh) \<inter> ({0, 1} \<union> set (file_sectors mh)) = {}"
    "marked m4 = {0, 1} \<union> set (file_sectors mh) \<union> set (file_sectors dh)" "numBits m4 = NumSectors"
    using m2(2,3) mh(4,7,8) dh(4,7,8) by auto
  ultimately show thesis by (intro that [OF m0(1) m1(1) m2(1) mh(1) dh(1) mh(2) _ mh(3) dh(2) _ dh(3) _ _ dh(6)])
qed

lemma empty_directory:
  "dir_abs (Directory_new es n) = Map.empty"
  by (simp add: dir_abs_def Directory_new_def filter_map comp_def)

lemma format_formats:
  assumes d: "disk_inv d" and g: "garbage_ok g"
  shows "\<exists>fs d'. FileSystem_new big g True d = Inr (fs, d') \<and> fs_inv big fs d' \<and> fs_abs big fs d' = Map.empty"
proof -
  obtain m0 m1 m2 mh m3 dh m4 where a: "BitMap_new (gwords g) NumSectors = Inr m0" "Mark FreeMapSector m0 = Inr m1"
      "Mark DirectorySector m1 = Inr m2" "Allocate FreeMapFileSize (gheader g) m2 = Inr (True, mh, m3)"
      "Allocate DirectoryFileSize (gheader g) m3 = Inr (True, dh, m4)"
    and mh: "hdr_wf mh" "hdr_storable mh" "numBytes mh = FreeMapFileSize" and dh: "hdr_wf dh" "hdr_storable dh" "numBytes dh = DirectoryFileSize"
    and dis: "set (file_sectors mh) \<inter> {FreeMapSector, DirectorySector} = {}"
      "set (file_sectors dh) \<inter> ({FreeMapSector, DirectorySector} \<union> set (file_sectors mh)) = {}"
    and m4: "BitMap_wf m4" "numBits m4 = NumSectors"
      "marked m4 = {FreeMapSector, DirectorySector} \<union> set (file_sectors mh) \<union> set (file_sectors dh)"
    by (rule format_allocates [OF g])
  let ?fs = "\<lparr>freeMapFile = \<lparr>hdr = mh, seekPosition = 0\<rparr>, directoryFile = \<lparr>hdr = dh, seekPosition = 0\<rparr>\<rparr>"
  let ?t = "Directory_new (gentries g) NumDirEntries"
  obtain d1 where d1: "WriteBack big FreeMapSector mh d = Inr d1" "disk_inv d1" "FetchFrom big FreeMapSector d1 = Inr mh"
    using WriteBack_FetchFrom [OF d, of FreeMapSector mh big] mh(2) by auto
  obtain d2 where d2: "WriteBack big DirectorySector dh d1 = Inr d2" "disk_inv d2" "FetchFrom big DirectorySector d2 = Inr dh"
      "ReadSector FreeMapSector d2 = ReadSector FreeMapSector d1"
    using WriteBack_FetchFrom [OF d1(2), of DirectorySector dh big] dh(2) by auto
  have f0: "FetchFrom big FreeMapSector d2 = Inr mh" using d1(3) FetchFrom_cong [OF d2(4), of big] by simp
  have ok: "sys_ok big ?fs d2" using mh dh dis f0 d2(3) by (auto simp: sys_ok_def Let_def)
  obtain d3 d4 where d4: "BitMap_WriteBack big (gbytes g) (freeMapFile ?fs) m4 d2 = Inr d3"
      "Directory_WriteBack big (gbytes g) (directoryFile ?fs) ?t d3 = Inr d4" "committed big ?fs d2 ?t m4 d4"
    using commit(2) [OF d2(2) ok new_directory [OF g] m4(2,1) gbytes_length [OF g]] by blast
  have "dir_inv ?t" using new_directory [OF g] by (auto simp: dir_inv_def entry_ok_def Directory_new_def)
  moreover have "layout (sys_sectors ?fs) (dir_abs ?t) (header_at big d4) (marked m4)"
    by (auto simp: layout_def empty_directory sys_sectors_def m4(3))
  ultimately have "fs_inv big ?fs d4" using d4(3) by (simp add: fs_inv_def committed_def)
  moreover have "fs_abs big ?fs d4 = Map.empty" using d4(3) by (auto simp: fs_abs_def committed_def empty_directory)
  moreover have "FileSystem_new big g True d = Inr (?fs, d4)"
    using d4(1,2) by (simp add: FileSystem_new_def a d1(1) d2(1,3) f0 OpenFile_new_def)
  ultimately show ?thesis by blast
qed

lemma mount_mounts:
  assumes "fs_inv big fs d"
  shows "\<exists>fs'. FileSystem_new big g False d = Inr (fs', d) \<and> fs_inv big fs' d \<and> fs_abs big fs' d = fs_abs big fs d"
proof -
  let ?fs = "\<lparr>freeMapFile = \<lparr>hdr = hdr (freeMapFile fs), seekPosition = 0\<rparr>, directoryFile = \<lparr>hdr = hdr (directoryFile fs), seekPosition = 0\<rparr>\<rparr>"
  have "fs_dir big ?fs d = fs_dir big fs d" "fs_map big ?fs d = fs_map big fs d" "sys_sectors ?fs = sys_sectors fs" "sys_ok big ?fs d = sys_ok big fs d"
    by (simp_all add: fs_dir_def fs_map_def sys_sectors_def sys_ok_def Let_def)
  then have "fs_inv big ?fs d" "fs_abs big ?fs d = fs_abs big fs d" using assms by (simp_all add: fs_inv_def fs_abs_def fun_eq_iff)
  moreover have "FileSystem_new big g False d = Inr (?fs, d)"
    using sys_okD(7,8) [OF fs_invD(2) [OF assms]] by (simp add: FileSystem_new_def OpenFile_new_def)
  ultimately show ?thesis by blast
qed

section \<open>Open files\<close>

text \<open>What Open returns, and what reads and writes through a valid open file do.\<close>

lemma Open_opened:
  assumes "fs_inv big fs d" "garbage_ok g" "0 \<notin> set name"
  shows "case fs_abs big fs d (key name) of None \<Rightarrow> Open big g fs name d = Inr None
     | Some bs \<Rightarrow> \<exists>f. Open big g fs name d = Inr (Some f) \<and> seekPosition f = 0 \<and> opened big fs d (key name) f"
  using Open_opens [OF assms] by (auto simp: fs_abs_def opened_def split: option.split)

lemma opened_file:
  assumes "fs_inv big fs d" "opened big fs d k f" "fs_abs big fs d k = Some bs"
  shows "hdr_wf (hdr f)" "bs = file_bytes ReadSector (hdr f) d" "int (length bs) = numBytes (hdr f)"
proof -
  obtain s where s: "dir_abs (fs_dir big fs d) k = Some s" "hdr f = header_at big d s" by (rule openedE [OF assms(2)])
  show wf: "hdr_wf (hdr f)" using layoutD(1) [OF fs_invD(4) [OF assms(1)] s(1)] s(2) by simp
  show bs: "bs = file_bytes ReadSector (hdr f) d" using assms(3) s by (simp add: fs_abs_def)
  show "int (length bs) = numBytes (hdr f)"
    unfolding bs using disk.length_file_bytes [OF fs_invD(1) [OF assms(1)] wf] hdr_wf_sectors(6) [OF wf] by simp
qed

lemma handle_read:
  assumes "fs_inv big fs d" "opened big fs d k f" "fs_abs big fs d k = Some bs"
    and "0 \<le> position" "int (length bs) \<le> position \<or> position + n < 2 ^ 31"
  shows "ReadAt ReadSector (hdr f) n position d = Inr (take (nat n) (drop (nat position) bs))"
  using disk.ReadAt_bytes [OF fs_invD(1) [OF assms(1)] opened_file(1) [OF assms(1-3)] assms(4)] opened_file(2,3) [OF assms(1-3)] assms(5)
  by simp

lemma handle_write:
  assumes "fs_inv big fs d" "opened big fs d k f" "fs_abs big fs d k = Some bs" "garbage_ok g"
    and "0 \<le> position" "int (length bs) \<le> position \<or> position + int (length data) < 2 ^ 31"
  shows "\<exists>n d'. n = min (length data) (length bs - nat position) \<and>
     WriteAt ReadSector WriteSector (gbytes g) (hdr f) data position d = Inr (int n, d') \<and> fs_inv big fs d' \<and>
     fs_abs big fs d' = (fs_abs big fs d)(k \<mapsto> overwrite (nat position) (take n data) bs) \<and> kept big fs {} d d'"
proof -
  obtain s where s: "dir_abs (fs_dir big fs d) k = Some s" "hdr f = header_at big d s" by (rule openedE [OF assms(2)])
  note f = opened_file [OF assms(1-3)]
  have len: "nat (numBytes (hdr f)) = length bs" unfolding f(3) [symmetric] by simp
  show ?thesis
    using write_open [OF assms(1) s(1) gbytes_length [OF assms(4)] assms(5), of data] assms(6) unfolding s(2) [symmetric] len f(3)
    by (auto simp: f(2))
qed

section \<open>Running the file system\<close>

text \<open>
  The states of a file system in use: the object, the disk, and the open files with the names they
  were opened under. Files are created, of any size that is not negative, removed, opened, closed, read and written
  through any open file, however long ago it was opened; Nachos is restarted on the disk (nothing is
  open then). One rule of use is assumed, which the code does not enforce: a file is not removed
  while it is open. An operation that fails ends the run.
\<close>

type_synonym fs_state = "FileSystem \<times> Disk \<times> (8 word list \<times> OpenFile) list"

inductive fs_step :: "bool \<Rightarrow> fs_state \<Rightarrow> fs_state \<Rightarrow> bool" for big where
  fs_restart: "FileSystem_new big g False d = Inr (fs', d') \<Longrightarrow> fs_step big (fs, d, fl) (fs', d', [])"
| fs_create: "garbage_ok g \<Longrightarrow> 0 \<notin> set name \<Longrightarrow> 0 \<le> n \<Longrightarrow> Create big g fs name n d = Inr (r, d') \<Longrightarrow>
    fs_step big (fs, d, fl) (fs, d', fl)"
| fs_remove: "garbage_ok g \<Longrightarrow> 0 \<notin> set name \<Longrightarrow> key name \<notin> fst ` set fl \<Longrightarrow>
    FileSystem_Remove big g fs name d = Inr (r, d') \<Longrightarrow> fs_step big (fs, d, fl) (fs, d', fl)"
| fs_open: "garbage_ok g \<Longrightarrow> 0 \<notin> set name \<Longrightarrow> Open big g fs name d = Inr (Some f) \<Longrightarrow>
    fs_step big (fs, d, fl) (fs, d, (key name, f) # fl)"
| fs_close: "fs_step big (fs, d, fl @ (k, f) # fl') (fs, d, fl @ fl')"
| fs_seek: "- (2 ^ 31) \<le> position \<Longrightarrow> fs_step big (fs, d, fl @ (k, f) # fl') (fs, d, fl @ (k, Seek position f) # fl')"
| fs_read: "OpenFile_Read n f d = Inr (bs, f') \<Longrightarrow> fs_step big (fs, d, fl @ (k, f) # fl') (fs, d, fl @ (k, f') # fl')"
| fs_write: "garbage_ok g \<Longrightarrow> int (length data) < 2 ^ 31 \<Longrightarrow> OpenFile_Write (gbytes g) data f d = Inr (m, f', d') \<Longrightarrow>
    fs_step big (fs, d, fl @ (k, f) # fl') (fs, d', fl @ (k, f') # fl')"

inductive fs_reach :: "bool \<Rightarrow> Disk \<Rightarrow> fs_state \<Rightarrow> bool" for big d0 where
  fs_format: "garbage_ok g \<Longrightarrow> FileSystem_new big g True d0 = Inr (fs, d) \<Longrightarrow> fs_reach big d0 (fs, d, [])"
| fs_next: "fs_reach big d0 st \<Longrightarrow> fs_step big st st' \<Longrightarrow> fs_reach big d0 st'"

definition fs_state_inv :: "bool \<Rightarrow> fs_state \<Rightarrow> bool" where
  "fs_state_inv big = (\<lambda>(fs, d, fl). fs_inv big fs d \<and> (\<forall>(k, f) \<in> set fl. opened big fs d k f \<and> - (2 ^ 31) \<le> seekPosition f))"

lemma fs_state_inv_kept:
  assumes "fs_state_inv big (fs, d, fl)" "fs_inv big fs d'" "kept big fs K d d'" "K \<inter> fst ` set fl = {}"
  shows "fs_state_inv big (fs, d', fl)"
proof -
  have "opened big fs d' k f" "- (2 ^ 31) \<le> seekPosition f" if kf: "(k, f) \<in> set fl" for k f
  proof -
    have "k \<in> fst ` set fl" using imageI [OF kf, of fst] by simp
    then have "k \<notin> K" using assms(4) by blast
    then show "opened big fs d' k f" using opened_kept [OF _ assms(3)] kf assms(1) by (auto simp: fs_state_inv_def)
    show "- (2 ^ 31) \<le> seekPosition f" using kf assms(1) by (auto simp: fs_state_inv_def)
  qed
  then show ?thesis using assms(2) by (auto simp: fs_state_inv_def)
qed

lemma Create_inv:
  assumes "fs_inv big fs d" "garbage_ok g" "0 \<notin> set name" "0 \<le> n"
  shows "(\<exists>r d'. Create big g fs name n d = Inr (r, d') \<and> fs_inv big fs d' \<and> kept big fs {} d d') \<or>
     int MaxFileSize < n \<and> Create big g fs name n d = Inl OutOfBounds"
proof (cases "fs_abs big fs d (key name) \<noteq> None \<or> card (dom (fs_abs big fs d)) = NumDirEntries \<or>
      int (card ({0..<NumSectors} - marked (fs_map big fs d))) < 1 + divRoundUp n 128")
  case True
  from Create_fails [OF assms(1-3) True] assms(1) kept_refl show ?thesis by blast
next
  case False
  then have f: "fs_abs big fs d (key name) = None" "card (dom (fs_abs big fs d)) \<noteq> NumDirEntries"
    "1 + divRoundUp n 128 \<le> int (card ({0..<NumSectors} - marked (fs_map big fs d)))" by (blast, blast, linarith)
  show ?thesis
  proof (cases "n \<le> int MaxFileSize")
    case True
    from Create_succeeds [OF assms True f] show ?thesis by blast
  next
    case False
    then show ?thesis using Create_overruns [OF assms(1-3) _ f] by linarith
  qed
qed

lemma Remove_inv:
  assumes "fs_inv big fs d" "garbage_ok g" "0 \<notin> set name"
  shows "\<exists>r d'. FileSystem_Remove big g fs name d = Inr (r, d') \<and> fs_inv big fs d' \<and> kept big fs {key name} d d'"
proof (cases "dir_abs (fs_dir big fs d) (key name)")
  case None
  then have "FileSystem_Remove big g fs name d = Inr (False, d)"
    using Directory_Find_spec [OF fs_invD(3) [OF assms(1)] assms(3)] by (simp add: FileSystem_Remove_def fetch_dir [OF assms(1,2)])
  then show ?thesis using assms(1) kept_refl by blast
next
  case (Some s)
  then show ?thesis using Remove_removes [OF assms] by blast
qed

lemma OpenFile_Write_inv:
  assumes inv: "fs_inv big fs d" and f: "opened big fs d k f" and g: "garbage_ok g"
    and pos: "- (2 ^ 31) \<le> seekPosition f" and len: "int (length data) < 2 ^ 31"
    and w: "OpenFile_Write (gbytes g) data f d = Inr (m, f', d')"
  shows "fs_inv big fs d' \<and> kept big fs {} d d' \<and> hdr f' = hdr f \<and> seekPosition f \<le> seekPosition f'"
proof -
  obtain bs where bs: "fs_abs big fs d k = Some bs" using f by (auto simp: fs_abs_def opened_def)
  note hf = opened_file [OF inv f bs]
  have w': "WriteAt ReadSector WriteSector (gbytes g) (hdr f) data (seekPosition f) d = Inr (m, d')"
    "f' = f\<lparr>seekPosition := seekPosition f + m\<rparr>"
    using w by (auto simp: OpenFile_Write_def res_simps split: prod.splits)
  have nn: "0 \<le> seekPosition f" if "data \<noteq> []"
    using WriteAt_negative [OF hf(1) pos _ that len] w'(1) by (metis linorder_not_less sum.distinct(1))
  have fit: "int (length bs) \<le> seekPosition f \<or> seekPosition f + int (length data) < 2 ^ 31" if "data \<noteq> []"
    using WriteAt_overflow [OF hf(1) nn [OF that] _ len] w'(1) hf(3) by (metis linorder_not_less sum.distinct(1))
  show ?thesis
  proof (cases "data = []")
    case True
    then show ?thesis using w' inv kept_refl by (auto simp: WriteAt_def)
  next
    case False
    then show ?thesis using handle_write [OF inv f bs g nn fit] w' by auto
  qed
qed

lemma OpenFile_Read_handle: "OpenFile_Read n f d = Inr (bs, f') \<Longrightarrow> hdr f' = hdr f \<and> seekPosition f \<le> seekPosition f'"
  by (auto simp: OpenFile_Read_def res_simps)

lemma fs_step_inv: "fs_step big st st' \<Longrightarrow> fs_state_inv big st \<Longrightarrow> fs_state_inv big st'"
proof (induction rule: fs_step.induct)
  case (fs_restart g d fs' d' fs fl)
  then show ?case using mount_mounts [of big fs d g] by (auto simp: fs_state_inv_def)
next
  case (fs_create g name n fs d r d' fl)
  then have "fs_inv big fs d' \<and> kept big fs {} d d'"
    using Create_inv [of big fs d g name n] by (auto simp: fs_state_inv_def)
  then show ?case using fs_state_inv_kept [OF fs_create.prems, of d' "{}"] by simp
next
  case (fs_remove g name fl fs d r d')
  then have "fs_inv big fs d' \<and> kept big fs {key name} d d'"
    using Remove_inv [of big fs d g name] by (auto simp: fs_state_inv_def)
  then show ?case using fs_state_inv_kept [OF fs_remove.prems, of d' "{key name}"] fs_remove.hyps(3) by simp
next
  case (fs_open g name fs d f fl)
  then have inv: "fs_inv big fs d" by (simp add: fs_state_inv_def)
  have "opened big fs d (key name) f \<and> seekPosition f = 0"
    using Open_opened [OF inv fs_open.hyps(1,2)] fs_open.hyps(3) by (auto split: option.splits)
  then show ?case using fs_open.prems by (simp add: fs_state_inv_def)
next
  case (fs_close fs d fl k f fl')
  then show ?case by (auto simp: fs_state_inv_def)
next
  case (fs_seek position fs d fl k f fl')
  then show ?case by (auto simp: fs_state_inv_def opened_def Seek_def)
next
  case (fs_read n f d bs f' fs fl k fl')
  then show ?case using OpenFile_Read_handle [OF fs_read.hyps] by (fastforce simp: fs_state_inv_def opened_def)
next
  case (fs_write g data f d m f' d' fs fl k fl')
  then have "fs_inv big fs d" "opened big fs d k f" "- (2 ^ 31) \<le> seekPosition f" by (auto simp: fs_state_inv_def)
  from OpenFile_Write_inv [OF this(1,2) fs_write.hyps(1) this(3) fs_write.hyps(2,3)]
  have w: "fs_inv big fs d'" "kept big fs {} d d'" "hdr f' = hdr f" "seekPosition f \<le> seekPosition f'" by auto
  then show ?case
    using fs_state_inv_kept [OF fs_write.prems w(1,2)] by (fastforce simp: fs_state_inv_def opened_def)
qed

lemma fs_reach_inv: "fs_reach big d0 st \<Longrightarrow> disk_inv d0 \<Longrightarrow> fs_state_inv big st"
proof (induction rule: fs_reach.induct)
  case (fs_format g fs d)
  then show ?case using format_formats [of d0 g big] by (auto simp: fs_state_inv_def)
next
  case (fs_next st st')
  then show ?case using fs_step_inv by blast
qed

section \<open>Properties\<close>

definition example_garbage :: Garbage where
  "example_garbage = \<lparr>gwords = replicate 32 0xfefefefe, gheader = \<lparr>numBytes = 0, numSectors = 0, dataSectors = replicate 30 0\<rparr>,
     gentries = replicate 10 \<lparr>inUse = False, esector = 0, ename = replicate 10 0xfe\<rparr>, gbytes = (\<lambda>n. replicate n 0xfe)\<rparr>"

lemma example_garbage_ok: "garbage_ok example_garbage"
  by (simp add: garbage_ok_def example_garbage_def entry_ok_def fits_int_def)

lemma example_format:
  obtains fs d where "FileSystem_new True example_garbage True example_disk = Inr (fs, d)" "fs_inv True fs d" "fs_abs True fs d = Map.empty"
  using format_formats [OF example_disk_inv example_garbage_ok, of True] by blast

text \<open>A disk with no file has room for a file of any size.\<close>

lemma empty_room:
  assumes inv: "fs_inv big fs d" and e: "fs_abs big fs d = Map.empty"
  shows "1000 \<le> int (card ({0..<NumSectors} - marked (fs_map big fs d)))"
proof -
  note i = fs_invD [OF inv]
  note sys = sys_okD [OF i(2)]
  have "dir_abs (fs_dir big fs d) = Map.empty" using e by (auto simp: fun_eq_iff fs_abs_None [symmetric])
  then have m: "marked (fs_map big fs d) = sys_sectors fs" using layoutD(3) [OF i(4)] by simp
  have c: "card (set (file_sectors h)) \<le> 2" if "hdr_wf h" "numBytes h \<le> 256" for h
  proof -
    have "numSectors h \<le> 2" using that divRoundUp_bounds [of "numBytes h" 128] by (auto simp: hdr_wf_def)
    then show ?thesis using card_length [of "file_sectors h"] hdr_wf_sectors(1) [OF that(1)] by linarith
  qed
  have "card (sys_sectors fs) \<le> card {0, 1 :: int} + card (set (file_sectors (hdr (freeMapFile fs)))) + card (set (file_sectors (hdr (directoryFile fs))))"
    unfolding sys_sectors_def by (meson card_Un_le add_right_mono le_trans)
  also have "\<dots> \<le> 6" using c [OF sys(1)] c [OF sys(3)] sys(2,4) by simp
  finally have "card (sys_sectors fs) \<le> 6" .
  from free_count [OF _ _ this] show ?thesis
    unfolding m using sys_sectors_range [OF i(2)] by (fastforce simp: sys_sectors_def)
qed

text \<open>
  C14. Formatting any disk yields a file system with no files, in which the free map marks exactly
  the sectors of the free map and of the directory; mounting a disk without formatting it finds the
  files that are on it and leaves it alone.
\<close>

theorem format_and_mount:
  assumes "garbage_ok g"
  shows "(disk_inv d0 \<longrightarrow> (\<exists>fs d. FileSystem_new big g True d0 = Inr (fs, d) \<and> fs_inv big fs d \<and> fs_abs big fs d = Map.empty)) \<and>
     (fs_inv big fs d \<longrightarrow> (\<exists>fs'. FileSystem_new big g False d = Inr (fs', d) \<and> fs_inv big fs' d \<and> fs_abs big fs' d = fs_abs big fs d))"
  using format_formats [OF _ assms] mount_mounts [of big fs d g] by simp

lemma format_and_mount_witness:
  "\<exists>fs d fs'. FileSystem_new True example_garbage True example_disk = Inr (fs, d) \<and>
     FileSystem_new True example_garbage False d = Inr (fs', d) \<and> fs_abs True fs' d = Map.empty"
proof -
  obtain fs d where f: "FileSystem_new True example_garbage True example_disk = Inr (fs, d)" "fs_inv True fs d" "fs_abs True fs d = Map.empty"
    using format_and_mount [OF example_garbage_ok, of example_disk True] example_disk_inv by blast
  then show ?thesis using format_and_mount [OF example_garbage_ok, of example_disk True fs d] by metis
qed

text \<open>
  C3. Create, with any size that is not negative. It reports failure, and does not touch the disk,
  exactly when the name exists, when the directory has no free entry, or when there are not enough
  free sectors. Otherwise, up to the 3840 bytes that fit in a header, it adds a file of the size asked
  for, changes no other file and keeps every open file valid: it takes one free sector for the header
  and free sectors for the data, and enters them in the free map. Above 3840 bytes it writes past the
  end of the header's table of sectors.
\<close>

theorem Create_refines:
  assumes "fs_inv big fs d" "garbage_ok g" "0 \<notin> set name" "0 \<le> n"
  shows "if fs_abs big fs d (key name) \<noteq> None \<or> card (dom (fs_abs big fs d)) = NumDirEntries \<or>
          int (card ({0..<NumSectors} - marked (fs_map big fs d))) < 1 + divRoundUp n 128
     then Create big g fs name n d = Inr (False, d)
     else if n \<le> int MaxFileSize
     then \<exists>d' bs. Create big g fs name n d = Inr (True, d') \<and> fs_inv big fs d' \<and> int (length bs) = n \<and>
        fs_abs big fs d' = (fs_abs big fs d)(key name \<mapsto> bs) \<and> (\<forall>k f. opened big fs d k f \<longrightarrow> opened big fs d' k f)
     else Create big g fs name n d = Inl OutOfBounds"
proof (cases "fs_abs big fs d (key name) \<noteq> None \<or> card (dom (fs_abs big fs d)) = NumDirEntries \<or>
      int (card ({0..<NumSectors} - marked (fs_map big fs d))) < 1 + divRoundUp n 128")
  case True
  show ?thesis unfolding if_P [OF True] by (rule Create_fails [OF assms(1-3) True])
next
  case no: False
  then have f: "fs_abs big fs d (key name) = None" "card (dom (fs_abs big fs d)) \<noteq> NumDirEntries"
    "1 + divRoundUp n 128 \<le> int (card ({0..<NumSectors} - marked (fs_map big fs d)))" by (blast, blast, linarith)
  show ?thesis
  proof (cases "n \<le> int MaxFileSize")
    case True
    obtain d' bs where c: "Create big g fs name n d = Inr (True, d')" "fs_inv big fs d'" "int (length bs) = n"
        "fs_abs big fs d' = (fs_abs big fs d)(key name \<mapsto> bs)" "kept big fs {} d d'"
      using Create_succeeds [OF assms True f] by blast
    show ?thesis unfolding if_not_P [OF no] if_P [OF True] using c(1-4) opened_kept [OF _ c(5)] by blast
  next
    case False
    then show ?thesis unfolding if_not_P [OF no] using Create_overruns [OF assms(1-3) _ f] by simp
  qed
qed

lemma Create_refines_witness:
  "\<exists>fs d d' bs. FileSystem_new True example_garbage True example_disk = Inr (fs, d) \<and>
     Create True example_garbage fs [97] 300 d = Inr (True, d') \<and> int (length bs) = 300 \<and>
     fs_abs True fs d' = Map.empty([97] \<mapsto> bs)"
proof -
  obtain fs d where f: "FileSystem_new True example_garbage True example_disk = Inr (fs, d)" "fs_inv True fs d" "fs_abs True fs d = Map.empty"
    by (rule example_format)
  have room: "\<not> (fs_abs True fs d (key [97]) \<noteq> None \<or> card (dom (fs_abs True fs d)) = NumDirEntries \<or>
          int (card ({0..<NumSectors} - marked (fs_map True fs d))) < 1 + divRoundUp 300 128)"
    using empty_room [OF f(2,3)] by (simp add: f(3) divRoundUp_def)
  have "\<exists>d' bs. Create True example_garbage fs [97] 300 d = Inr (True, d') \<and> fs_inv True fs d' \<and> int (length bs) = 300 \<and>
        fs_abs True fs d' = (fs_abs True fs d)(key [97] \<mapsto> bs)"
    using Create_refines [OF f(2) example_garbage_ok, of "[97]" 300, unfolded if_not_P [OF room]] by auto
  moreover have "key [97] = [97 :: 8 word]" by (simp add: key_def)
  ultimately show ?thesis using f(1) unfolding f(3) by metis
qed

text \<open>A formatted disk with one file of 300 bytes.\<close>

lemma example_file:
  obtains fs d bs where "fs_reach True example_disk (fs, d, [])" "fs_inv True fs d" "fs_abs True fs d [97] = Some bs" "length bs = 300"
proof -
  obtain fs d where f: "FileSystem_new True example_garbage True example_disk = Inr (fs, d)" "fs_inv True fs d" "fs_abs True fs d = Map.empty"
    by (rule example_format)
  have k: "key [97] = [97 :: 8 word]" by (simp add: key_def)
  have room: "1 + divRoundUp 300 128 \<le> int (card ({0..<NumSectors} - marked (fs_map True fs d)))"
    using empty_room [OF f(2,3)] by (simp add: divRoundUp_def)
  obtain d' bs where c: "Create True example_garbage fs [97] 300 d = Inr (True, d')" "fs_inv True fs d'" "int (length bs) = 300"
      "fs_abs True fs d' = (fs_abs True fs d)(key [97] \<mapsto> bs)"
    using Create_succeeds [OF f(2) example_garbage_ok, of "[97]" 300] f(3) room by auto
  have "fs_reach True example_disk (fs, d, [])" by (rule fs_format [OF example_garbage_ok f(1)])
  moreover have "fs_step True (fs, d, []) (fs, d', [])"
    by (rule fs_create [OF example_garbage_ok _ _ c(1)]) simp_all
  ultimately have "fs_reach True example_disk (fs, d', [])" by (rule fs_next)
  then show thesis using c k by (intro that [of fs d' bs]) simp_all
qed

text \<open>
  C11. Remove deletes exactly the file named, frees exactly its header sector and its data sectors
  and keeps every other file; it reports failure, without touching the disk, when there is no such
  file.
\<close>

theorem Remove_refines:
  assumes "fs_inv big fs d" "garbage_ok g" "0 \<notin> set name"
  shows "case dir_abs (fs_dir big fs d) (key name) of
       None \<Rightarrow> FileSystem_Remove big g fs name d = Inr (False, d)
     | Some s \<Rightarrow> \<exists>d'. FileSystem_Remove big g fs name d = Inr (True, d') \<and> fs_inv big fs d' \<and>
          fs_abs big fs d' = (fs_abs big fs d)(key name := None) \<and>
          marked (fs_map big fs d') = marked (fs_map big fs d) - insert s (set (file_sectors (header_at big d s)))"
proof (cases "dir_abs (fs_dir big fs d) (key name)")
  case None
  then show ?thesis
    using Directory_Find_spec [OF fs_invD(3) [OF assms(1)] assms(3)] by (simp add: FileSystem_Remove_def fetch_dir [OF assms(1,2)])
next
  case (Some s)
  then show ?thesis using Remove_removes [OF assms Some] by (auto simp: owned_def)
qed

lemma Remove_refines_witness:
  "\<exists>fs d d'. fs_abs True fs d [97] \<noteq> None \<and> FileSystem_Remove True example_garbage fs [97] d = Inr (True, d') \<and>
     fs_abs True fs d' = (fs_abs True fs d)([97] := None)"
proof -
  obtain fs d bs where e: "fs_inv True fs d" "fs_abs True fs d [97] = Some bs" by (rule example_file)
  have k: "key [97] = [97 :: 8 word]" by (simp add: key_def)
  obtain s where "dir_abs (fs_dir True fs d) [97] = Some s" using e(2) by (auto simp: fs_abs_def)
  then show ?thesis using Remove_refines [OF e(1) example_garbage_ok, of "[97]"] k e(2) by auto
qed

text \<open>
  C13. Open finds a file by its name, and nothing under another name; what it returns designates that
  file. Through any open file that designates a file, not only one that was just opened, at any
  position that is not negative and for any length whose end is a C integer, a read returns a slice
  of the contents of that file, and a write overwrites a slice of it, keeps its length, changes no
  other file and nothing of the file system, and leaves every open file valid.
\<close>

theorem Open_refines:
  assumes "fs_inv big fs d" "garbage_ok g" "0 \<notin> set name"
  shows "(case fs_abs big fs d (key name) of None \<Rightarrow> Open big g fs name d = Inr None
      | Some bs \<Rightarrow> \<exists>f. Open big g fs name d = Inr (Some f) \<and> seekPosition f = 0 \<and> opened big fs d (key name) f) \<and>
    (\<forall>k f bs position n data. opened big fs d k f \<and> fs_abs big fs d k = Some bs \<and> 0 \<le> position \<and>
       position + n < 2 ^ 31 \<and> position + int (length data) < 2 ^ 31 \<longrightarrow>
       ReadAt ReadSector (hdr f) n position d = Inr (take (nat n) (drop (nat position) bs)) \<and>
       (\<exists>m d'. m = min (length data) (length bs - nat position) \<and>
          WriteAt ReadSector WriteSector (gbytes g) (hdr f) data position d = Inr (int m, d') \<and> fs_inv big fs d' \<and>
          fs_abs big fs d' = (fs_abs big fs d)(k \<mapsto> overwrite (nat position) (take m data) bs) \<and>
          (\<forall>k' f'. opened big fs d k' f' \<longrightarrow> opened big fs d' k' f')))"
proof (rule conjI [OF Open_opened [OF assms]], intro allI impI, elim conjE)
  fix k f bs position n and data :: "8 word list"
  assume f: "opened big fs d k f" "fs_abs big fs d k = Some bs" "0 \<le> position"
    and len: "position + n < 2 ^ 31" "position + int (length data) < 2 ^ 31"
  obtain m d' where w: "m = min (length data) (length bs - nat position)"
      "WriteAt ReadSector WriteSector (gbytes g) (hdr f) data position d = Inr (int m, d')" "fs_inv big fs d'"
      "fs_abs big fs d' = (fs_abs big fs d)(k \<mapsto> overwrite (nat position) (take m data) bs)" "kept big fs {} d d'"
    using handle_write [OF assms(1) f(1,2) assms(2) f(3) disjI2 [OF len(2)]] by blast
  have "\<forall>k' f'. opened big fs d k' f' \<longrightarrow> opened big fs d' k' f'" using opened_kept [OF _ w(5)] by blast
  moreover have "ReadAt ReadSector (hdr f) n position d = Inr (take (nat n) (drop (nat position) bs))"
    by (rule handle_read [OF assms(1) f disjI2 [OF len(1)]])
  ultimately show "ReadAt ReadSector (hdr f) n position d = Inr (take (nat n) (drop (nat position) bs)) \<and>
       (\<exists>m d'. m = min (length data) (length bs - nat position) \<and>
          WriteAt ReadSector WriteSector (gbytes g) (hdr f) data position d = Inr (int m, d') \<and> fs_inv big fs d' \<and>
          fs_abs big fs d' = (fs_abs big fs d)(k \<mapsto> overwrite (nat position) (take m data) bs) \<and>
          (\<forall>k' f'. opened big fs d k' f' \<longrightarrow> opened big fs d' k' f'))"
    using w(1-4) by blast
qed

lemma Open_refines_witness:
  "\<exists>fs d f bs d'. fs_abs True fs d [97] = Some bs \<and> length bs = 300 \<and> Open True example_garbage fs [97] d = Inr (Some f) \<and>
     WriteAt ReadSector WriteSector (gbytes example_garbage) (hdr f) [1, 2, 3] 298 d = Inr (2, d') \<and>
     fs_abs True fs d' [97] = Some (overwrite 298 [1, 2] bs) \<and>
     ReadAt ReadSector (hdr f) 10 290 d' = Inr (take 10 (drop 290 (overwrite 298 [1, 2] bs)))"
proof -
  obtain fs d bs where e: "fs_inv True fs d" "fs_abs True fs d [97] = Some bs" "length bs = 300" by (rule example_file)
  have k: "key [97] = [97 :: 8 word]" by (simp add: key_def)
  note o = Open_refines [OF e(1) example_garbage_ok, of "[97]"]
  obtain f where f: "Open True example_garbage fs [97] d = Inr (Some f)" "opened True fs d [97] f"
    using o e(2) k by auto
  obtain d' where d': "WriteAt ReadSector WriteSector (gbytes example_garbage) (hdr f) [1, 2, 3] 298 d = Inr (2, d')" "fs_inv True fs d'"
      "fs_abs True fs d' = (fs_abs True fs d)([97] \<mapsto> overwrite 298 [1, 2] bs)" "opened True fs d' [97] f"
    using conjunct2 [OF o, rule_format, of "[97]" f bs 298 0 "[1, 2, 3]"] f(2) e(2,3) by auto
  have read: "ReadAt ReadSector (hdr f) 10 290 d' = Inr (take 10 (drop 290 (overwrite 298 [1, 2] bs)))"
    using conjunct2 [OF Open_refines [OF d'(2) example_garbage_ok, of "[97]"], rule_format, of "[97]" f "overwrite 298 [1, 2] bs" 290 10 "[]"]
      d'(3,4) by simp
  have "fs_abs True fs d' [97] = Some (overwrite 298 [1, 2] bs)" using d'(3) by simp
  with e(2,3) f(1) d'(1) read show ?thesis by blast
qed

text \<open>
  C12. However a formatted disk is used by a program that removes no file while it has it open (files
  created, of sizes that are not negative, removed, opened, closed, and read and written through any of the open files; Nachos
  restarted): Create of a size up to 3840 bytes, Remove and Open do not fail an assertion or leave an
  array, nor do reads and writes through any of the open files, at positions that are not negative
  and with ends that are C integers; every open file still designates the file of the name it was
  opened under; no sector belongs to two files or to a file and the system, and every sector marked
  in the free map belongs to a file or to the system (none is leaked).
\<close>

theorem file_system_safe:
  assumes "disk_inv d0" and "fs_reach big d0 (fs, d, fl)" and "garbage_ok g" and "0 \<notin> set name" and "0 \<le> n" and "n \<le> int MaxFileSize"
  shows "(\<exists>r. Create big g fs name n d = Inr r) \<and> (\<exists>r. FileSystem_Remove big g fs name d = Inr r) \<and> (\<exists>r. Open big g fs name d = Inr r) \<and>
     (\<forall>(k, f) \<in> set fl. opened big fs d k f \<and> (\<forall>position m data. 0 \<le> position \<and> position + m < 2 ^ 31 \<and>
        position + int (length data) < 2 ^ 31 \<longrightarrow>
        (\<exists>r. ReadAt ReadSector (hdr f) m position d = Inr r) \<and>
        (\<exists>r. WriteAt ReadSector WriteSector (gbytes g) (hdr f) data position d = Inr r))) \<and>
     (\<forall>k s. dir_abs (fs_dir big fs d) k = Some s \<longrightarrow> owned (header_at big d) s \<inter> sys_sectors fs = {}) \<and>
     (\<forall>k k' s s'. dir_abs (fs_dir big fs d) k = Some s \<and> dir_abs (fs_dir big fs d) k' = Some s' \<and> k \<noteq> k' \<longrightarrow>
        owned (header_at big d) s \<inter> owned (header_at big d) s' = {}) \<and>
     marked (fs_map big fs d) = sys_sectors fs \<union> (\<Union>s \<in> ran (dir_abs (fs_dir big fs d)). owned (header_at big d) s)"
proof -
  have inv: "fs_inv big fs d" and fl: "\<And>k f. (k, f) \<in> set fl \<Longrightarrow> opened big fs d k f"
    using fs_reach_inv [OF assms(2,1)] by (auto simp: fs_state_inv_def)
  note lay = layoutD [OF fs_invD(4) [OF inv]]
  have io: "(\<exists>r. ReadAt ReadSector (hdr f) m position d = Inr r) \<and>
      (\<exists>r. WriteAt ReadSector WriteSector (gbytes g) (hdr f) data position d = Inr r)"
    if "(k, f) \<in> set fl" "0 \<le> position" "position + m < 2 ^ 31" "position + int (length data) < 2 ^ 31"
    for k f position m and data :: "8 word list"
  proof -
    note o = fl [OF that(1)]
    obtain bs where bs: "fs_abs big fs d k = Some bs" using o by (auto simp: fs_abs_def opened_def)
    show ?thesis
      using handle_read [OF inv o bs that(2) disjI2 [OF that(3)]] handle_write [OF inv o bs assms(3) that(2) disjI2 [OF that(4)]] by blast
  qed
  have "\<exists>r. Create big g fs name n d = Inr r" using Create_inv [OF inv assms(3-5)] assms(6) by auto
  moreover have "\<exists>r. FileSystem_Remove big g fs name d = Inr r" using Remove_inv [OF inv assms(3,4)] by blast
  moreover have "\<exists>r. Open big g fs name d = Inr r" using Open_opens [OF inv assms(3,4)] by blast
  moreover have "\<forall>(k, f) \<in> set fl. opened big fs d k f \<and> (\<forall>position m data. 0 \<le> position \<and> position + m < 2 ^ 31 \<and>
        position + int (length data) < 2 ^ 31 \<longrightarrow>
        (\<exists>r. ReadAt ReadSector (hdr f) m position d = Inr r) \<and>
        (\<exists>r. WriteAt ReadSector WriteSector (gbytes g) (hdr f) data position d = Inr r))"
    using fl io by fast
  ultimately show ?thesis using lay(1) lay(2) lay(3) by blast
qed

lemma file_system_safe_witness:
  "\<exists>fs d f. fs_reach True example_disk (fs, d, [([97], f)]) \<and> (\<exists>r. Create True example_garbage fs [98] 300 d = Inr r) \<and>
     (\<exists>r. WriteAt ReadSector WriteSector (gbytes example_garbage) (hdr f) [1, 2, 3] 298 d = Inr r)"
proof -
  obtain fs d bs where e: "fs_reach True example_disk (fs, d, [])" "fs_inv True fs d" "fs_abs True fs d [97] = Some bs" by (rule example_file)
  have k: "key [97] = [97 :: 8 word]" by (simp add: key_def)
  obtain f where f: "Open True example_garbage fs [97] d = Inr (Some f)"
    using Open_opened [OF e(2) example_garbage_ok, of "[97]"] e(3) k by auto
  have "fs_step True (fs, d, []) (fs, d, [(key [97], f)])" by (rule fs_open [OF example_garbage_ok _ f]) simp
  then have reach: "fs_reach True example_disk (fs, d, [([97], f)])" using fs_next [OF e(1)] k by simp
  have pre: "(0 :: 8 word) \<notin> set [98]" "(0 :: int) \<le> 300" "(300 :: int) \<le> int MaxFileSize" by simp_all
  note safe = file_system_safe [OF example_disk_inv reach example_garbage_ok pre]
  have "\<exists>r. Create True example_garbage fs [98] 300 d = Inr r" using safe by blast
  moreover have "\<exists>r. WriteAt ReadSector WriteSector (gbytes example_garbage) (hdr f) [1, 2, 3] 298 d = Inr r"
  proof -
    note fl = conjunct1 [OF conjunct2 [OF conjunct2 [OF conjunct2 [OF safe]]]]
    have "([97], f) \<in> set [([97], f)]" by simp
    from bspec [OF fl this, unfolded prod.case, THEN conjunct2, rule_format, of 298 0 "[1, 2, 3]"] show ?thesis by simp
  qed
  ultimately show ?thesis using reach by blast
qed

end
