(* ===== verification/Nachos_AddrSpace.thy ===== *)
theory Nachos_AddrSpace
  imports Nachos_Threads Nachos_FileSys
begin

text \<open>
  Loading a user program: \<^verbatim>\<open>code/userprog/addrspace.cc\<close>, the format of executables in \<^verbatim>\<open>code/bin/noff.h\<close>,
  and the part of StartProcess (\<^verbatim>\<open>code/userprog/progtest.cc\<close>) that prepares the processor. The executable is an
  open file, of the Nachos file system or, when Nachos is compiled with its stub, of the host.

  The C integers of the header are 32-bit words. Uninitialised memory (the header on the stack, the
  fields of the page table that the code does not set) is an argument.
\<close>

section \<open>Executables\<close>

record Segment =
  virtualAddr :: "32 word"
  inFileAddr :: "32 word"
  seg_size :: "32 word"

record NoffHeader =
  noffMagic :: "32 word"
  noff_code :: Segment
  initData :: Segment
  uninitData :: Segment

abbreviation (input) NOFFMAGIC :: "32 word" where "NOFFMAGIC \<equiv> 0xbadfad"
abbreviation (input) NoffSize :: nat where "NoffSize \<equiv> 40"
abbreviation (input) UserStacksAreaSize :: "32 word" where "UserStacksAreaSize \<equiv> 4096"
abbreviation (input) USER_START_ADDRESS :: reg_word where "USER_START_ADDRESS \<equiv> 0x80"

definition noff_of_words :: "32 word list \<Rightarrow> NoffHeader" where
  "noff_of_words ws =
     \<lparr>noffMagic = ws ! 0,
      noff_code = \<lparr>virtualAddr = ws ! 1, inFileAddr = ws ! 2, seg_size = ws ! 3\<rparr>,
      initData = \<lparr>virtualAddr = ws ! 4, inFileAddr = ws ! 5, seg_size = ws ! 6\<rparr>,
      uninitData = \<lparr>virtualAddr = ws ! 7, inFileAddr = ws ! 8, seg_size = ws ! 9\<rparr>\<rparr>"

text \<open>The header as the host reads it from memory.\<close>

definition decode_noff :: "bool \<Rightarrow> 8 word list \<Rightarrow> NoffHeader" where
  "decode_noff big bs = noff_of_words (words_of_bytes big 10 bs)"

definition swap_segment :: "bool \<Rightarrow> Segment \<Rightarrow> Segment" where
  "swap_segment big s =
     \<lparr>virtualAddr = WordToHost big (virtualAddr s), inFileAddr = WordToHost big (inFileAddr s),
      seg_size = WordToHost big (seg_size s)\<rparr>"

definition SwapHeader :: "bool \<Rightarrow> NoffHeader \<Rightarrow> NoffHeader" where
  "SwapHeader big h =
     \<lparr>noffMagic = WordToHost big (noffMagic h), noff_code = swap_segment big (noff_code h),
      initData = swap_segment big (initData h), uninitData = swap_segment big (uninitData h)\<rparr>"

text \<open>An open file: of the Nachos file system, or the bytes of a file of the host.\<close>

datatype Executable = Nachos_file FileHeader Disk | Unix_file "8 word list"

fun Executable_ReadAt :: "Executable \<Rightarrow> int \<Rightarrow> int \<Rightarrow> 8 word list res" where
  "Executable_ReadAt (Nachos_file h d) n position = ReadAt ReadSector h n position d"
| "Executable_ReadAt (Unix_file bytes) n position = ASSERT (position \<ge> 0) (Inr (take (nat n) (drop (nat position) bytes)))"

section \<open>The address space\<close>

text \<open>Reading a segment of the file into the memory of the machine.\<close>

definition load_segment :: "('f \<Rightarrow> int \<Rightarrow> int \<Rightarrow> 8 word list res) \<Rightarrow> 'f \<Rightarrow> Segment \<Rightarrow> machine \<Rightarrow> machine res" where
  "load_segment read_at executable s m =
     (if sint (seg_size s) > 0
      then bindR (read_at executable (sint (seg_size s)) (sint (inFileAddr s))) (\<lambda>bs.
        let a = sint (virtualAddr s) in
        if bs = [] \<or> (0 \<le> a \<and> a + int (length bs) \<le> int MemorySize)
        then Inr (m\<lparr>mainMemory := store_bytes (mainMemory m) (nat a) bs\<rparr>)
        else Inl OutOfBounds)
      else Inr m)"

definition page_entry :: "TranslationEntry list \<Rightarrow> nat \<Rightarrow> TranslationEntry" where
  "page_entry garbage i =
     (garbage ! i)\<lparr>physicalPage := i, valid := True, use := False, dirty := False, readOnly := False\<rparr>"

text \<open>
  \<open>p\<close> is the address of the new page table, \<open>hdr_garbage\<close> what the variable noffH holds before it
  is read, \<open>pt_garbage\<close> what the new page table holds.
\<close>

definition AddrSpace_new ::
  "('f \<Rightarrow> int \<Rightarrow> int \<Rightarrow> 8 word list res) \<Rightarrow> bool \<Rightarrow> 8 word list \<Rightarrow> TranslationEntry list \<Rightarrow> nat \<Rightarrow> 'f \<Rightarrow>
   machine \<Rightarrow> (AddrSpace \<times> machine) res" where
  "AddrSpace_new read_at big hdr_garbage pt_garbage p executable m =
     bindR (read_at executable (int NoffSize) 0) (\<lambda>bs.
       let noff0 = decode_noff big (overwrite 0 bs hdr_garbage);
           noffH = (if noffMagic noff0 \<noteq> NOFFMAGIC \<and> WordToHost big (noffMagic noff0) = NOFFMAGIC
                    then SwapHeader big noff0 else noff0)
       in ASSERT (noffMagic noffH = NOFFMAGIC)
         (let sz = seg_size (noff_code noffH) + seg_size (initData noffH) + seg_size (uninitData noffH) + UserStacksAreaSize;
              np = nat (divRoundUp (uint sz) (int PageSize))
          in if np > NumPhysPages then Inl BadAlloc
             else
               let pt = map (page_entry pt_garbage) [0..<np];
                   m1 = m\<lparr>ptables := (ptables m)(p \<mapsto> pt)\<rparr>
               in bindR (load_segment read_at executable (noff_code noffH) m1) (\<lambda>m2.
                  bindR (load_segment read_at executable (initData noffH) m2) (\<lambda>m3.
                    if np = 0 then Inl OutOfBounds
                    else Inr (\<lparr>asPageTable = p, numPages = np\<rparr>,
                              m3\<lparr>ptables := (ptables m3)(p \<mapsto> pt[0 := (pt ! 0)\<lparr>valid := False\<rparr>])\<rparr>)))))"

fun clear_registers :: "int list \<Rightarrow> machine \<Rightarrow> machine res" where
  "clear_registers [] m = Inr m"
| "clear_registers (i # is) m = bindR (WriteRegister i 0 m) (clear_registers is)"

definition InitRegisters :: "AddrSpace \<Rightarrow> machine \<Rightarrow> machine res" where
  "InitRegisters sp m =
     bindR (clear_registers [0..int NumTotalRegs - 1] m) (\<lambda>m1.
     bindR (WriteRegister (int PCReg) USER_START_ADDRESS m1) (\<lambda>m2.
     bindR (ReadRegister (int PCReg) m2) (\<lambda>pc.
     bindR (WriteRegister (int NextPCReg) (pc + 4) m2) (\<lambda>m3.
     WriteRegister (int StackReg) (of_nat (numPages sp * PageSize) - 16) m3))))"

text \<open>
  StartProcess up to the call of Machine::Run: the current thread gets the new address space \<open>a\<close>.
\<close>

definition StartProcess ::
  "bool \<Rightarrow> 8 word list \<Rightarrow> TranslationEntry list \<Rightarrow> nat \<Rightarrow> nat \<Rightarrow> Executable option \<Rightarrow>
   ('h, 'd) kernel_scheme \<Rightarrow> ('h, 'd) kernel_scheme res" where
  "StartProcess big hdr_garbage pt_garbage p a file k =
     (case file of
        None \<Rightarrow> Inr k
      | Some executable \<Rightarrow>
          (case cpu k of
             None \<Rightarrow> Inl NullDereference
           | Some m \<Rightarrow>
               bindR (AddrSpace_new Executable_ReadAt big hdr_garbage pt_garbage p executable m) (\<lambda>(sp, m1).
               bindR (upd_thread (currentThread k) (\<lambda>th. th\<lparr>space := Some a\<rparr>) (k\<lparr>spaces := (spaces k)(a \<mapsto> sp)\<rparr>)) (\<lambda>k1.
               bindR (InitRegisters sp m1) (\<lambda>m2.
               RestoreState a (k1\<lparr>cpu := Some m2\<rparr>))))))"

section \<open>Byte order of the header\<close>

lemma WordToHost_bytes:
  assumes "length bs = 4"
  shows "WordToHost big (word_of_bytes (host_order big bs)) = word_of_bytes bs"
proof -
  have "load_bytes (\<lambda>i. bs ! i) 0 4 = bs" using assms by (auto simp: load_bytes_def intro: nth_equalityI)
  then show ?thesis using WordToHost_load [of big "\<lambda>i. bs ! i" 0] by (simp add: host_load_def)
qed

lemma WordToHost_words:
  "4 * n \<le> length bs \<Longrightarrow> map (WordToHost big) (words_of_bytes big n bs) = words_of_bytes False n bs"
  by (induction n arbitrary: bs) (simp_all add: WordToHost_bytes host_order_def [of False])

lemma SwapHeader_words:
  "length ws = 10 \<Longrightarrow> SwapHeader big (noff_of_words ws) = noff_of_words (map (WordToHost big) ws)"
  by (simp add: SwapHeader_def noff_of_words_def swap_segment_def)

text \<open>A header in the byte order of the MIPS (little endian) is understood on both kinds of hosts.\<close>

lemma header_host_independent:
  assumes "40 \<le> length bs" "noffMagic (decode_noff False bs) = NOFFMAGIC"
  shows "(if noffMagic (decode_noff big bs) \<noteq> NOFFMAGIC \<and> WordToHost big (noffMagic (decode_noff big bs)) = NOFFMAGIC
          then SwapHeader big (decode_noff big bs) else decode_noff big bs) = decode_noff False bs"
proof (cases big)
  case True
  have w: "map (WordToHost True) (words_of_bytes True 10 bs) = words_of_bytes False 10 bs"
    using assms(1) by (intro WordToHost_words) simp
  have "noffMagic (SwapHeader True (decode_noff True bs)) = NOFFMAGIC"
    using assms(2) unfolding decode_noff_def by (subst SwapHeader_words) (simp_all add: w)
  then have m: "WordToHost True (noffMagic (decode_noff True bs)) = NOFFMAGIC" by (simp add: SwapHeader_def)
  moreover have "noffMagic (decode_noff True bs) \<noteq> NOFFMAGIC"
  proof
    assume "noffMagic (decode_noff True bs) = NOFFMAGIC"
    then have "WordToHost True NOFFMAGIC = NOFFMAGIC" using m by simp
    then show False by (simp add: WordToHost_def push_bit_eq_mult drop_bit_eq_div)
  qed
  moreover have "SwapHeader True (decode_noff True bs) = decode_noff False bs"
    unfolding decode_noff_def by (subst SwapHeader_words) (simp_all add: w)
  ultimately show ?thesis using True by simp
qed (simp add: assms(2))

lemma words_of_bytes_take: "4 * n \<le> k \<Longrightarrow> words_of_bytes big n (take k bs) = words_of_bytes big n bs"
  by (induction n arbitrary: k bs) (simp_all add: drop_take min_def)

section \<open>Well-formed programs\<close>

definition program_size :: "NoffHeader \<Rightarrow> int" where
  "program_size h = sint (seg_size (noff_code h)) + sint (seg_size (initData h)) + sint (seg_size (uninitData h)) + 4096"

definition program_pages :: "NoffHeader \<Rightarrow> nat" where
  "program_pages h = nat (divRoundUp (program_size h) (int PageSize))"

text \<open>An empty segment may have any addresses: the tools leave them uninitialised.\<close>

definition segment_ok :: "8 word list \<Rightarrow> NoffHeader \<Rightarrow> Segment \<Rightarrow> bool" where
  "segment_ok exe h s \<longleftrightarrow> 0 \<le> sint (seg_size s) \<and> (0 < sint (seg_size s) \<longrightarrow>
     0 \<le> sint (virtualAddr s) \<and> 0 \<le> sint (inFileAddr s) \<and>
     sint (virtualAddr s) + sint (seg_size s) \<le> int (program_pages h * PageSize) \<and>
     sint (inFileAddr s) + sint (seg_size s) \<le> int (length exe))"

definition segment_range :: "Segment \<Rightarrow> nat set" where
  "segment_range s = {nat (sint (virtualAddr s))..<nat (sint (virtualAddr s)) + nat (sint (seg_size s))}"

definition segment_bytes :: "8 word list \<Rightarrow> Segment \<Rightarrow> 8 word list" where
  "segment_bytes exe s = take (nat (sint (seg_size s))) (drop (nat (sint (inFileAddr s))) exe)"

definition program_ok :: "8 word list \<Rightarrow> NoffHeader \<Rightarrow> bool" where
  "program_ok exe h \<longleftrightarrow> NoffSize \<le> length exe \<and> decode_noff False exe = h \<and> noffMagic h = NOFFMAGIC \<and>
     program_size h \<le> int MemorySize \<and> 0 \<le> sint (seg_size (uninitData h)) \<and>
     segment_ok exe h (noff_code h) \<and> segment_ok exe h (initData h) \<and>
     segment_range (noff_code h) \<inter> segment_range (initData h) = {}"

definition space_table :: "TranslationEntry list \<Rightarrow> nat \<Rightarrow> TranslationEntry list" where
  "space_table garbage n = (map (page_entry garbage) [0..<n])[0 := (page_entry garbage 0)\<lparr>valid := False\<rparr>]"

lemma length_segment_bytes: "segment_ok exe h s \<Longrightarrow> length (segment_bytes exe s) = nat (sint (seg_size s))"
  by (auto simp: segment_ok_def segment_bytes_def)

lemma program_pages_bounds:
  assumes "program_ok exe h"
  shows "program_pages h \<le> NumPhysPages" "0 < program_pages h" "program_size h \<le> int (program_pages h * PageSize)"
    "int (program_pages h) = divRoundUp (program_size h) (int PageSize)"
proof -
  have s: "4096 \<le> program_size h" "program_size h \<le> 524288"
    using assms by (auto simp: program_ok_def program_size_def segment_ok_def)
  note d = divRoundUp_bounds [of "program_size h" "int PageSize"]
  show n: "int (program_pages h) = divRoundUp (program_size h) (int PageSize)"
    using d(3) s by (simp add: program_pages_def)
  then show "program_size h \<le> int (program_pages h * PageSize)" using d(1) s by simp
  have "int (program_pages h) * 128 < program_size h + 128" using n d(2) s by simp
  then show "program_pages h \<le> NumPhysPages" using s by simp
  show "0 < program_pages h" using n d(1) s by (cases "program_pages h") auto
qed

lemma program_size_word:
  assumes "program_ok exe h"
  shows "uint (seg_size (noff_code h) + seg_size (initData h) + seg_size (uninitData h) + UserStacksAreaSize) = program_size h"
proof -
  let ?w = "seg_size (noff_code h) + seg_size (initData h) + seg_size (uninitData h) + (4096 :: 32 word)"
  have b: "0 \<le> program_size h" "program_size h < 2 ^ 32"
    using assms by (auto simp: program_ok_def program_size_def segment_ok_def)
  have "word_of_int (program_size h) = ?w" by (simp add: program_size_def)
  then have "uint ?w = uint (word_of_int (program_size h) :: 32 word)" by (rule arg_cong [OF sym])
  also have "\<dots> = program_size h" using b by (simp add: uint_word_of_int)
  finally show ?thesis .
qed

section \<open>The interface of an executable\<close>

locale executable_file =
  fixes read_at :: "'f \<Rightarrow> int \<Rightarrow> int \<Rightarrow> 8 word list res"
    and contents :: "'f \<Rightarrow> 8 word list"
    and ok :: "'f \<Rightarrow> bool"
  assumes read_slice: "ok f \<Longrightarrow> 0 \<le> n \<Longrightarrow> 0 \<le> position \<Longrightarrow> position + n \<le> int (length (contents f)) \<Longrightarrow>
      read_at f n position = Inr (take (nat n) (drop (nat position) (contents f)))"
begin

lemma load_segment_eq:
  assumes f: "ok f" and s: "segment_ok (contents f) h s" and n: "program_pages h \<le> NumPhysPages"
  shows "load_segment read_at f s m =
     Inr (m\<lparr>mainMemory := store_bytes (mainMemory m) (nat (sint (virtualAddr s))) (segment_bytes (contents f) s)\<rparr>)"
proof -
  have len: "length (segment_bytes (contents f) s) = nat (sint (seg_size s))" by (rule length_segment_bytes [OF s])
  have n': "int (program_pages h * PageSize) \<le> int MemorySize" using n by simp
  show ?thesis
    using s len n' read_slice [OF f, of "sint (seg_size s)" "sint (inFileAddr s)"]
    by (auto simp: load_segment_def segment_bytes_def [symmetric] segment_ok_def Let_def)
qed

lemma AddrSpace_new_eq:
  assumes f: "ok f" and h: "program_ok (contents f) h" and hg: "length hdr_garbage = NoffSize"
  shows "AddrSpace_new read_at big hdr_garbage pt_garbage p f m =
     Inr (\<lparr>asPageTable = p, numPages = program_pages h\<rparr>,
       m\<lparr>mainMemory := store_bytes (store_bytes (mainMemory m) (nat (sint (virtualAddr (noff_code h)))) (segment_bytes (contents f) (noff_code h)))
             (nat (sint (virtualAddr (initData h)))) (segment_bytes (contents f) (initData h)),
          ptables := (ptables m)(p \<mapsto> space_table pt_garbage (program_pages h))\<rparr>)"
proof -
  let ?bs = "take NoffSize (contents f)"
  have hd: "NoffSize \<le> length (contents f)" "decode_noff False (contents f) = h" "noffMagic h = NOFFMAGIC"
    and seg: "segment_ok (contents f) h (noff_code h)" "segment_ok (contents f) h (initData h)"
    using h by (simp_all add: program_ok_def)
  have bs: "read_at f (int NoffSize) 0 = Inr ?bs" "overwrite 0 ?bs hdr_garbage = ?bs"
    using read_slice [OF f, of "int NoffSize" 0] hd(1) hg by (simp_all add: overwrite_def)
  have dec: "decode_noff False ?bs = h" using hd(2) words_of_bytes_take [of 10 NoffSize False] by (simp add: decode_noff_def)
  have eff: "(if noffMagic (decode_noff big ?bs) \<noteq> NOFFMAGIC \<and> WordToHost big (noffMagic (decode_noff big ?bs)) = NOFFMAGIC
          then SwapHeader big (decode_noff big ?bs) else decode_noff big ?bs) = h"
    using header_host_independent [of ?bs big] hd dec by simp
  note n = program_pages_bounds [OF h]
  have np: "nat (divRoundUp (uint (seg_size (noff_code h) + seg_size (initData h) + seg_size (uninitData h) + UserStacksAreaSize)) (int PageSize))
      = program_pages h"
    unfolding program_size_word [OF h] by (simp add: program_pages_def)
  have pt: "(map (page_entry pt_garbage) [0..<program_pages h])[0 := (map (page_entry pt_garbage) [0..<program_pages h] ! 0)\<lparr>valid := False\<rparr>]
      = space_table pt_garbage (program_pages h)"
    using n(2) by (simp add: space_table_def)
  show ?thesis
    unfolding AddrSpace_new_def bs bindR.simps Let_def eff np pt
    using n(1,2) hd(3) load_segment_eq [OF f seg(1) n(1)] load_segment_eq [OF f seg(2) n(1)] by simp
qed

end

fun exe_bytes :: "Executable \<Rightarrow> 8 word list" where
  "exe_bytes (Nachos_file h d) = file_bytes ReadSector h d"
| "exe_bytes (Unix_file bytes) = bytes"

fun exe_valid :: "Executable \<Rightarrow> bool" where
  "exe_valid (Nachos_file h d) = (disk_inv d \<and> hdr_wf h)"
| "exe_valid (Unix_file bytes) = True"

interpretation exe: executable_file Executable_ReadAt exe_bytes exe_valid
proof unfold_locales
  fix f and n position :: int
  assume a: "exe_valid f" "0 \<le> n" "0 \<le> position" "position + n \<le> int (length (exe_bytes f))"
  show "Executable_ReadAt f n position = Inr (take (nat n) (drop (nat position) (exe_bytes f)))"
  proof (cases f)
    case (Nachos_file h d)
    then have "disk_inv d" "hdr_wf h" using a(1) by simp_all
    then show ?thesis
      using disk.ReadAt_bytes [of d h position n] disk.length_file_bytes [of d h] hdr_wf_max [of h] a(3,4) Nachos_file
      by (simp split: if_splits)
  qed (use a(3) in simp)
qed

section \<open>The processor after loading\<close>

lemma clear_registers_eq:
  "length (registers m) = NumTotalRegs \<Longrightarrow> \<forall>i \<in> set is. 0 \<le> i \<and> i < int NumTotalRegs \<Longrightarrow>
   \<exists>rs. clear_registers is m = Inr (m\<lparr>registers := rs\<rparr>) \<and> length rs = NumTotalRegs \<and>
     (\<forall>j < NumTotalRegs. rs ! j = (if int j \<in> set is then 0 else registers m ! j))"
proof (induction "is" arbitrary: m)
  case Nil
  then show ?case by (intro exI [of _ "registers m"]) simp
next
  case (Cons i "is")
  let ?m = "m\<lparr>registers := (registers m)[nat i := 0]\<rparr>"
  have w: "WriteRegister i 0 m = Inr ?m" using Cons.prems by (simp add: WriteRegister_def)
  obtain rs where rs: "clear_registers is ?m = Inr (?m\<lparr>registers := rs\<rparr>)" "length rs = NumTotalRegs"
      "\<forall>j < NumTotalRegs. rs ! j = (if int j \<in> set is then 0 else registers ?m ! j)"
    using Cons.IH [of ?m] Cons.prems by auto
  then show ?case using w Cons.prems by (intro exI [of _ rs]) (auto simp: nth_list_update)
qed

definition initial_registers :: "nat \<Rightarrow> reg_word list" where
  "initial_registers n =
     (replicate NumTotalRegs 0)[PCReg := USER_START_ADDRESS, NextPCReg := 0x84, StackReg := of_nat (n * PageSize) - 16]"

lemma InitRegisters_eq:
  assumes "length (registers m) = NumTotalRegs"
  shows "InitRegisters sp m = Inr (m\<lparr>registers := initial_registers (numPages sp)\<rparr>)"
proof -
  obtain rs where rs: "clear_registers [0..39] m = Inr (m\<lparr>registers := rs\<rparr>)" "length rs = NumTotalRegs"
      "\<forall>j < NumTotalRegs. rs ! j = (if int j \<in> set [0..39] then 0 else registers m ! j)"
    using clear_registers_eq [OF assms, of "[0..39]"] unfolding set_upto atLeastAtMost_iff by auto
  have "rs = replicate NumTotalRegs 0"
    using rs(2,3) unfolding set_upto atLeastAtMost_iff by (intro nth_equalityI) auto
  then show ?thesis
    using rs(1) by (simp add: InitRegisters_def WriteRegister_def ReadRegister_def initial_registers_def)
qed

definition running :: "AddrSpace \<Rightarrow> machine \<Rightarrow> machine" where
  "running sp m = m\<lparr>pageTable := Some (asPageTable sp), pageTableSize := numPages sp\<rparr>"

lemma space_find_entry:
  assumes "tlb m = None" "ptables m p = Some (space_table g n)" "0 < n"
  shows "find_entry (running \<lparr>asPageTable = p, numPages = n\<rparr> m) vpn =
     Inr (if n \<le> vpn then Inl AddressErrorException else if vpn = 0 then Inl PageFaultException
          else Inr (In_PageTable p vpn, page_entry g vpn))"
proof (cases "vpn < n")
  case True
  then have "space_table g n ! vpn = (if vpn = 0 then (page_entry g 0)\<lparr>valid := False\<rparr> else page_entry g vpn)" "length (space_table g n) = n"
    using assms(3) by (auto simp: space_table_def nth_list_update)
  moreover have "valid (page_entry g vpn)" by (simp add: page_entry_def)
  ultimately show ?thesis using assms True by (simp add: find_entry_def running_def)
qed (use assms in \<open>simp add: find_entry_def running_def\<close>)

lemma space_Translate:
  assumes m: "tlb m = None" "ptables m p = Some (space_table g n)" and n: "0 < n" "n \<le> NumPhysPages"
    and sz: "sz \<in> {1, 2, 4}" and a: "aligned sz a"
  shows "\<exists>m'. Translate a sz writing (running \<lparr>asPageTable = p, numPages = n\<rparr> m) =
     Inr (if unat a < PageSize then Inl PageFaultException
          else if unat a < n * PageSize then Inr (unat a) else Inl AddressErrorException, m')"
proof -
  let ?m = "running \<lparr>asPageTable = p, numPages = n\<rparr> m" and ?v = "unat a div PageSize"
  have r: "translation_ready ?m" using m(1) by (simp add: translation_ready_def running_def)
  note e = space_find_entry [OF m n(1), of ?v]
  have v: "unat a < PageSize \<longleftrightarrow> ?v = 0" "unat a < n * PageSize \<longleftrightarrow> ?v < n" by (auto simp: div_less_iff_less_mult)
  show ?thesis
  proof (cases "?v = 0 \<or> n \<le> ?v")
    case True
    then show ?thesis using e Translate_not_found [OF r sz a] v n(1) by auto
  next
    case False
    then have f: "find_entry ?m ?v = Inr (Inr (In_PageTable p ?v, page_entry g ?v))" using e by simp
    have "physicalPage (page_entry g ?v) = ?v" "\<not> readOnly (page_entry g ?v)" by (simp_all add: page_entry_def)
    then show ?thesis using Translate_found [OF r sz a f, of writing] False v n(2) by (auto simp: div_mult_mod_eq)
  qed
qed

text \<open>The memory after a program has been loaded.\<close>

lemma loaded_memory:
  fixes mem :: "nat \<Rightarrow> 8 word"
  assumes "program_ok x h"
  defines "a \<equiv> \<lambda>s. nat (sint (virtualAddr s))"
  defines "mem' \<equiv> store_bytes (store_bytes mem (a (noff_code h)) (segment_bytes x (noff_code h))) (a (initData h)) (segment_bytes x (initData h))"
  shows "s \<in> {noff_code h, initData h} \<Longrightarrow> load_bytes mem' (a s) (nat (sint (seg_size s))) = segment_bytes x s"
    "k \<notin> segment_range (noff_code h) \<union> segment_range (initData h) \<Longrightarrow> mem' k = mem k"
proof -
  let ?c = "noff_code h" and ?i = "initData h"
  have seg: "segment_ok x h ?c" "segment_ok x h ?i" "segment_range ?c \<inter> segment_range ?i = {}"
    using assms(1) by (simp_all add: program_ok_def)
  have len: "length (segment_bytes x s) = nat (sint (seg_size s))" if "s \<in> {?c, ?i}" for s
    using that length_segment_bytes seg(1,2) by auto
  have m: "mem' k = (if k \<in> segment_range ?i then segment_bytes x ?i ! (k - a ?i)
      else if k \<in> segment_range ?c then segment_bytes x ?c ! (k - a ?c) else mem k)" for k
    using len by (auto simp: mem'_def a_def store_bytes_apply segment_range_def)
  show "load_bytes mem' (a s) (nat (sint (seg_size s))) = segment_bytes x s" if s: "s \<in> {?c, ?i}"
    using s seg(3) len [OF s] by (intro nth_equalityI) (auto simp: load_bytes_def m segment_range_def a_def)
  show "k \<notin> segment_range ?c \<union> segment_range ?i \<Longrightarrow> mem' k = mem k" by (simp add: m)
qed

section \<open>Properties\<close>

text \<open>
  C15. Loading a program. From a well-formed executable (in either byte order of the host, from a
  Nachos file or a file of the host), AddrSpace and InitRegisters set up a processor that runs it: the code
  and the initialised data are in memory at their virtual addresses and no other byte of memory has changed;
  every address of the space from the second page on is translated to itself, the
  first page faults (to catch null pointers), and addresses after the end are refused; the program counter is at the entry point,
  the stack pointer below the end of the space, the other registers are zero.
\<close>

theorem load_program:
  assumes "exe_valid f" and "program_ok (exe_bytes f) h" and "length hdr_garbage = NoffSize"
    and "tlb m = None" and "length (registers m) = NumTotalRegs"
  shows "\<exists>sp m1 m2. AddrSpace_new Executable_ReadAt big hdr_garbage pt_garbage p f m = Inr (sp, m1) \<and> InitRegisters sp m1 = Inr m2 \<and>
     numPages sp = program_pages h \<and>
     registers m2 = (replicate NumTotalRegs 0)[PCReg := USER_START_ADDRESS, NextPCReg := USER_START_ADDRESS + 4,
                       StackReg := of_nat (numPages sp * PageSize) - 16] \<and>
     (\<forall>s \<in> {noff_code h, initData h}.
        load_bytes (mainMemory m2) (nat (sint (virtualAddr s))) (nat (sint (seg_size s))) = segment_bytes (exe_bytes f) s) \<and>
     (\<forall>a. a \<notin> segment_range (noff_code h) \<union> segment_range (initData h) \<longrightarrow> mainMemory m2 a = mainMemory m a) \<and>
     (\<forall>a sz writing. sz \<in> {1, 2, 4} \<and> aligned sz a \<longrightarrow>
        (\<exists>m3. Translate a sz writing (m2\<lparr>pageTable := Some (asPageTable sp), pageTableSize := numPages sp\<rparr>) =
           Inr (if unat a < PageSize then Inl PageFaultException
                else if unat a < numPages sp * PageSize then Inr (unat a) else Inl AddressErrorException, m3)))"
proof -
  let ?c = "noff_code h" and ?i = "initData h" and ?n = "program_pages h" and ?x = "exe_bytes f"
  let ?a = "\<lambda>s. nat (sint (virtualAddr s))"
  define m1 where "m1 = m\<lparr>mainMemory := store_bytes (store_bytes (mainMemory m) (?a ?c) (segment_bytes ?x ?c)) (?a ?i) (segment_bytes ?x ?i),
      ptables := (ptables m)(p \<mapsto> space_table pt_garbage ?n)\<rparr>"
  define m2 where "m2 = m1\<lparr>registers := initial_registers ?n\<rparr>"
  note n = program_pages_bounds [OF assms(2)]
  let ?sp = "\<lparr>asPageTable = p, numPages = ?n\<rparr>"
  note mem = loaded_memory [OF assms(2), of _ "mainMemory m"]
  show ?thesis
  proof (rule exI, rule exI, rule exI, intro conjI ballI allI impI)
    show "AddrSpace_new Executable_ReadAt big hdr_garbage pt_garbage p f m = Inr (?sp, m1)"
      using exe.AddrSpace_new_eq [OF assms(1-3)] by (simp add: m1_def)
    show "InitRegisters ?sp m1 = Inr m2"
      using InitRegisters_eq [of m1] assms(5) by (simp add: m1_def m2_def)
    show "numPages ?sp = program_pages h" by simp
    show "registers m2 = (replicate NumTotalRegs 0)[PCReg := USER_START_ADDRESS, NextPCReg := USER_START_ADDRESS + 4,
                       StackReg := of_nat (numPages ?sp * PageSize) - 16]"
      by (simp add: m2_def initial_registers_def)
  next
    fix s
    assume s: "s \<in> {?c, ?i}"
    show "load_bytes (mainMemory m2) (?a s) (nat (sint (seg_size s))) = segment_bytes ?x s"
      using mem(1) [OF s] by (simp add: m2_def m1_def)
  next
    fix a
    assume "a \<notin> segment_range ?c \<union> segment_range ?i"
    then show "mainMemory m2 a = mainMemory m a" using mem(2) by (simp add: m2_def m1_def)
  next
    fix a sz writing
    assume "sz \<in> {1, 2, 4} \<and> aligned sz a"
    then have a: "sz \<in> {1, 2, 4}" "aligned sz a" by simp_all
    have t: "tlb m2 = None" "ptables m2 p = Some (space_table pt_garbage ?n)" using assms(4) by (simp_all add: m2_def m1_def)
    show "\<exists>m3. Translate a sz writing (m2\<lparr>pageTable := Some (asPageTable ?sp), pageTableSize := numPages ?sp\<rparr>) =
           Inr (if unat a < PageSize then Inl PageFaultException
                else if unat a < numPages ?sp * PageSize then Inr (unat a) else Inl AddressErrorException, m3)"
      using space_Translate [OF t n(2,1) a, of writing] by (simp only: running_def AddrSpace.select_convs)
  qed
qed

text \<open>A program of two instructions at address 128, with 100 bytes of uninitialised data.\<close>

definition example_program :: "8 word list" where
  "example_program = bytes_of_words False [0xbadfad, 0x80, 40, 8, 0, 0, 0, 0, 0, 100] @ replicate 8 7"

definition example_entries :: "TranslationEntry list" where
  "example_entries = replicate 33 \<lparr>virtualPage = 9, physicalPage = 9, valid = False, readOnly = True, use = True, dirty = True\<rparr>"

definition example_noff :: NoffHeader where
  "example_noff = noff_of_words [0xbadfad, 0x80, 40, 8, 0, 0, 0, 0, 0, 100]"

lemma example_program_ok: "program_ok example_program example_noff"
proof -
  let ?ws = "[0xbadfad, 0x80, 40, 8, 0, 0, 0, 0, 0, 100] :: 32 word list"
  have "take 40 example_program = bytes_of_words False ?ws" by (simp add: example_program_def)
  note t = this
  have "words_of_bytes False (length ?ws) (take 40 example_program) = words_of_bytes False (length ?ws) example_program"
    by (rule words_of_bytes_take) simp
  then have "words_of_bytes False (length ?ws) example_program = ?ws" unfolding t words_of_bytes_of_words by (rule sym)
  moreover have "length ?ws = 10" by simp
  ultimately have "decode_noff False example_program = example_noff" by (simp only: decode_noff_def example_noff_def)
  then show ?thesis
    by (simp add: program_ok_def example_noff_def noff_of_words_def segment_ok_def segment_range_def program_size_def program_pages_def
        divRoundUp_def) (simp add: example_program_def)
qed

lemma load_program_witness:
  "\<exists>sp m1 m2. AddrSpace_new Executable_ReadAt True (replicate 40 0xfe) example_entries 1 (Unix_file example_program) (Machine_new False) = Inr (sp, m1) \<and>
     InitRegisters sp m1 = Inr m2 \<and> numPages sp = 33 \<and> load_bytes (mainMemory m2) 128 8 = replicate 8 7"
proof -
  have "program_pages example_noff = 33" "segment_bytes example_program (noff_code example_noff) = replicate 8 7"
    by (simp_all add: program_pages_def program_size_def example_noff_def noff_of_words_def divRoundUp_def segment_bytes_def example_program_def)
  then show ?thesis
    using load_program [of "Unix_file example_program" example_noff "replicate 40 0xfe" "Machine_new False" True example_entries 1] example_program_ok
    by (auto simp: Machine_new_def example_noff_def noff_of_words_def)
qed

end
