(* ===== verification/Nachos_Coff.thy ===== *)
theory Nachos_Coff
  imports Nachos_AddrSpace
begin

text \<open>
  The converter \<^verbatim>\<open>code/bin/coff2noff.c\<close>, which makes the executables that Nachos loads from the COFF files
  of the MIPS compiler (\<^verbatim>\<open>code/bin/coff.h\<close>). A run of the tool is a function from the bytes of the COFF file to the bytes of the
  NOFF file, or to the reason why it gives up, after which it has removed its output. The file descriptors
  are positions in the two files. Writing to the output never fails.
\<close>

section \<open>COFF files\<close>

text \<open>
  The messages of the tool; \<open>Negative_count\<close> is a section of negative size, which the tool passes to read as a count
  above the limit of the host.
\<close>

datatype coff_error =
    File_too_short
  | Not_MIPSEL
  | Not_OMAGIC
  | Data_and_rdata
  | Bss_and_sbss
  | Unknown_segment
  | Negative_count

type_synonym 'a coff = "coff_error + 'a"

fun bindC :: "'a coff \<Rightarrow> ('a \<Rightarrow> 'b coff) \<Rightarrow> 'b coff" where
  "bindC (Inl e) f = Inl e"
| "bindC (Inr x) f = f x"

abbreviation (input) MIPSELMAGIC :: "16 word" where "MIPSELMAGIC \<equiv> 0x0162"
abbreviation (input) OMAGIC :: "16 word" where "OMAGIC \<equiv> 0x0107"
abbreviation (input) FilehdrSize :: nat where "FilehdrSize \<equiv> 20"
abbreviation (input) AouthdrSize :: nat where "AouthdrSize \<equiv> 56"
abbreviation (input) ScnhdrSize :: nat where "ScnhdrSize \<equiv> 40"

text \<open>The fields of a section header that the tool uses.\<close>

record scnhdr =
  s_name :: "8 word list"
  s_paddr :: "32 word"
  s_size :: "32 word"
  s_scnptr :: "32 word"

definition host_word :: "bool \<Rightarrow> 8 word list \<Rightarrow> nat \<Rightarrow> 32 word" where
  "host_word big bs i = word_of_bytes (host_order big (take 4 (drop i bs)))"

definition host_short :: "bool \<Rightarrow> 8 word list \<Rightarrow> nat \<Rightarrow> 16 word" where
  "host_short big bs i = word_of_bytes (host_order big (take 2 (drop i bs)))"

definition read_scnhdr :: "bool \<Rightarrow> 8 word list \<Rightarrow> scnhdr" where
  "read_scnhdr big bs =
     \<lparr>s_name = take 8 bs, s_paddr = WordToHost big (host_word big bs 8), s_size = WordToHost big (host_word big bs 16),
      s_scnptr = WordToHost big (host_word big bs 20)\<rparr>"

text \<open>strcmp of the name of a section and a shorter constant never looks past the eight characters of the name.\<close>

definition named :: "scnhdr \<Rightarrow> string \<Rightarrow> bool" where
  "named s lit \<longleftrightarrow> take (length lit + 1) (s_name s) = map of_char lit @ [0]"

section \<open>The conversion\<close>

definition Read :: "8 word list \<Rightarrow> nat \<Rightarrow> int \<Rightarrow> (8 word list \<times> nat) coff" where
  "Read file pos nBytes =
     (if nBytes < 0 then Inl Negative_count
      else let buf = take (nat nBytes) (drop pos file) in
        if int (length buf) \<noteq> nBytes then Inl File_too_short else Inr (buf, pos + nat nBytes))"

text \<open>lseek fails on a negative offset, and leaves the position.\<close>

definition lseek :: "nat \<Rightarrow> int \<Rightarrow> nat" where
  "lseek pos offset = (if offset < 0 then pos else nat offset)"

record converter =
  inPos :: nat
  outFile :: "8 word list"
  outPos :: nat
  inNoffFile :: "32 word"
  noffH :: NoffHeader

definition copy_section :: "8 word list \<Rightarrow> scnhdr \<Rightarrow> converter \<Rightarrow> converter coff" where
  "copy_section file s c =
     bindC (Read file (lseek (inPos c) (sint (s_scnptr s))) (sint (s_size s))) (\<lambda>(buffer, pos).
       Inr (c\<lparr>inPos := pos, outFile := file_write (outPos c) buffer (outFile c), outPos := outPos c + length buffer,
              inNoffFile := inNoffFile c + s_size s\<rparr>))"

definition section_segment :: "scnhdr \<Rightarrow> 32 word \<Rightarrow> Segment" where
  "section_segment s addr = \<lparr>virtualAddr = s_paddr s, inFileAddr = addr, seg_size = s_size s\<rparr>"

definition convert_section :: "8 word list \<Rightarrow> scnhdr \<Rightarrow> converter \<Rightarrow> converter coff" where
  "convert_section file s c =
     (let h = noffH c in
      if s_size s = 0 then Inr c
      else if named s ''.text''
      then copy_section file s (c\<lparr>noffH := h\<lparr>noff_code := section_segment s (inNoffFile c)\<rparr>\<rparr>)
      else if named s ''.data'' \<or> named s ''.rdata''
      then if seg_size (initData h) \<noteq> 0 then Inl Data_and_rdata
        else copy_section file s (c\<lparr>noffH := h\<lparr>initData := section_segment s (inNoffFile c)\<rparr>\<rparr>)
      else if named s ''.bss'' \<or> named s ''.sbss''
      then if seg_size (uninitData h) \<noteq> 0
        then if sint (s_paddr s) > sint (virtualAddr (uninitData h) + seg_size (uninitData h)) then Inl Bss_and_sbss
          else Inr (c\<lparr>noffH := h\<lparr>uninitData := (uninitData h)\<lparr>seg_size := seg_size (uninitData h) + s_size s\<rparr>\<rparr>\<rparr>)
        else Inr (c\<lparr>noffH := h\<lparr>uninitData := section_segment s (- 1)\<rparr>\<rparr>)
      else Inl Unknown_segment)"

fun convert_sections :: "8 word list \<Rightarrow> scnhdr list \<Rightarrow> converter \<Rightarrow> converter coff" where
  "convert_sections file [] c = Inr c"
| "convert_sections file (s # ss) c = bindC (convert_section file s c) (convert_sections file ss)"

definition noff_words :: "NoffHeader \<Rightarrow> 32 word list" where
  "noff_words h = noffMagic h # concat (map (\<lambda>s. [virtualAddr s, inFileAddr s, seg_size s]) [noff_code h, initData h, uninitData h])"

text \<open>The magic number and empty segments, whose addresses are what the variable held before (\<open>garbage\<close>).\<close>

definition empty_noff :: "NoffHeader \<Rightarrow> NoffHeader" where
  "empty_noff garbage =
     garbage\<lparr>noffMagic := NOFFMAGIC, noff_code := (noff_code garbage)\<lparr>seg_size := 0\<rparr>,
       initData := (initData garbage)\<lparr>seg_size := 0\<rparr>, uninitData := (uninitData garbage)\<lparr>seg_size := 0\<rparr>\<rparr>"

definition coff2noff :: "bool \<Rightarrow> NoffHeader \<Rightarrow> 8 word list \<Rightarrow> 8 word list coff" where
  "coff2noff big garbage file =
     bindC (Read file 0 (int FilehdrSize)) (\<lambda>(fileh, p1).
       if ShortToHost big (host_short big fileh 0) \<noteq> MIPSELMAGIC then Inl Not_MIPSEL
       else bindC (Read file p1 (int AouthdrSize)) (\<lambda>(systemh, p2).
         if ShortToHost big (host_short big systemh 0) \<noteq> OMAGIC then Inl Not_OMAGIC
         else let numsections = unat (ShortToHost big (host_short big fileh 2)) in
           bindC (Read file p2 (int (numsections * ScnhdrSize))) (\<lambda>(hs, p3).
             let sections = map (\<lambda>i. read_scnhdr big (drop (ScnhdrSize * i) hs)) [0..<numsections] in
             bindC (convert_sections file sections
                 \<lparr>inPos = p3, outFile = [], outPos = NoffSize, inNoffFile = of_nat NoffSize, noffH = empty_noff garbage\<rparr>) (\<lambda>c.
               Inr (file_write 0 (bytes_of_words big (noff_words (noffH c))) (outFile c))))))"

section \<open>Well-formed COFF files\<close>

definition coff_sections :: "8 word list \<Rightarrow> scnhdr list" where
  "coff_sections file =
     map (\<lambda>i. read_scnhdr False (drop (FilehdrSize + AouthdrSize + ScnhdrSize * i) file)) [0..<unat (host_short False file 2)]"

definition is_text :: "scnhdr \<Rightarrow> bool" where
  "is_text s \<longleftrightarrow> s_size s \<noteq> 0 \<and> named s ''.text''"

definition is_data :: "scnhdr \<Rightarrow> bool" where
  "is_data s \<longleftrightarrow> s_size s \<noteq> 0 \<and> (named s ''.data'' \<or> named s ''.rdata'')"

definition is_bss :: "scnhdr \<Rightarrow> bool" where
  "is_bss s \<longleftrightarrow> s_size s \<noteq> 0 \<and> (named s ''.bss'' \<or> named s ''.sbss'')"

definition section_bytes :: "8 word list \<Rightarrow> scnhdr \<Rightarrow> 8 word list" where
  "section_bytes file s = take (nat (sint (s_size s))) (drop (nat (sint (s_scnptr s))) file)"

definition section_range :: "scnhdr \<Rightarrow> nat set" where
  "section_range s = {nat (sint (s_paddr s))..<nat (sint (s_paddr s)) + nat (sint (s_size s))}"

text \<open>
  The sections that are not empty are at most one of each kind, are in the file, and fit in the memory of the
  machine with the stacks.
\<close>

definition section_ok :: "8 word list \<Rightarrow> int \<Rightarrow> scnhdr \<Rightarrow> bool" where
  "section_ok file room s \<longleftrightarrow> 0 \<le> sint (s_size s) \<and> (s_size s \<noteq> 0 \<longrightarrow> is_text s \<or> is_data s \<or> is_bss s) \<and>
     (is_text s \<or> is_data s \<longrightarrow> 0 \<le> sint (s_scnptr s) \<and> sint (s_scnptr s) + sint (s_size s) \<le> int (length file) \<and>
        0 \<le> sint (s_paddr s) \<and> sint (s_paddr s) + sint (s_size s) \<le> room)"

definition coff_ok :: "8 word list \<Rightarrow> bool" where
  "coff_ok file \<longleftrightarrow>
     (let ss = coff_sections file; room = (\<Sum>s\<leftarrow>ss. sint (s_size s)) + 4096 in
      FilehdrSize + AouthdrSize + ScnhdrSize * length ss \<le> length file \<and>
      host_short False file 0 = MIPSELMAGIC \<and> host_short False file FilehdrSize = OMAGIC \<and>
      room \<le> int MemorySize \<and> (\<forall>s \<in> set ss. section_ok file room s) \<and>
      length (filter is_text ss) \<le> 1 \<and> length (filter is_data ss) \<le> 1 \<and> length (filter is_bss ss) \<le> 1 \<and>
      (\<forall>s \<in> set ss. \<forall>t \<in> set ss. is_text s \<and> is_data t \<longrightarrow> section_range s \<inter> section_range t = {}))"


lemma named_nth: "named s lit \<Longrightarrow> i < length lit \<Longrightarrow> s_name s ! i = of_char (lit ! i)"
  by (metis (no_types) add.commute less_Suc_eq named_def nth_append nth_map nth_take length_map plus_1_eq_Suc)

lemma section_kind:
  "is_text s \<Longrightarrow> s_name s ! 1 = of_char CHR ''t''" "is_data s \<Longrightarrow> s_name s ! 1 = of_char CHR ''d'' \<or> s_name s ! 1 = of_char CHR ''r''"
  "is_bss s \<Longrightarrow> s_name s ! 1 = of_char CHR ''b'' \<or> s_name s ! 1 = of_char CHR ''s''"
  using named_nth [of s _ 1] by (fastforce simp: is_text_def is_data_def is_bss_def)+

lemma kinds_disjoint: "is_text s \<Longrightarrow> \<not> is_data s" "is_text s \<Longrightarrow> \<not> is_bss s" "is_data s \<Longrightarrow> \<not> is_bss s"
  using section_kind [of s] by auto

lemma sum_kinds:
  assumes "\<forall>s \<in> set ss. section_ok file room s"
  shows "(\<Sum>s\<leftarrow>ss. sint (s_size s)) = (\<Sum>s\<leftarrow>filter is_text ss. sint (s_size s)) +
     (\<Sum>s\<leftarrow>filter is_data ss. sint (s_size s)) + (\<Sum>s\<leftarrow>filter is_bss ss. sint (s_size s))"
  using assms
proof (induction ss)
  case (Cons s ss)
  have "s_size s = 0 \<or> is_text s \<or> is_data s \<or> is_bss s" using Cons.prems by (auto simp: section_ok_def)
  then show ?case using Cons kinds_disjoint [of s] by (auto simp: is_text_def is_data_def is_bss_def)
qed simp

lemma sum_sizes_nonneg: "\<forall>s \<in> set ss. section_ok file room s \<Longrightarrow> 0 \<le> (\<Sum>s\<leftarrow>ss. sint (s_size s))"
  by (rule sum_list_nonneg) (auto simp: section_ok_def)

section \<open>The conversion succeeds\<close>

lemma file_write_append: "length f \<le> off \<Longrightarrow> file_write off b f = f @ replicate (off - length f) 0 @ b"
  by (simp add: file_write_def)

lemma copy_section_eq:
  assumes "section_ok file room s" "is_text s \<or> is_data s" "length (outFile c) \<le> outPos c"
  shows "copy_section file s c =
     Inr (c\<lparr>inPos := nat (sint (s_scnptr s)) + nat (sint (s_size s)),
            outFile := outFile c @ replicate (outPos c - length (outFile c)) 0 @ section_bytes file s,
            outPos := outPos c + nat (sint (s_size s)), inNoffFile := inNoffFile c + s_size s\<rparr>)"
    "length (section_bytes file s) = nat (sint (s_size s))"
proof -
  have o: "0 \<le> sint (s_size s)" "0 \<le> sint (s_scnptr s)" "sint (s_scnptr s) + sint (s_size s) \<le> int (length file)"
    using assms(1,2) by (auto simp: section_ok_def)
  then show l: "length (section_bytes file s) = nat (sint (s_size s))" by (simp add: section_bytes_def)
  then show "copy_section file s c =
     Inr (c\<lparr>inPos := nat (sint (s_scnptr s)) + nat (sint (s_size s)),
            outFile := outFile c @ replicate (outPos c - length (outFile c)) 0 @ section_bytes file s,
            outPos := outPos c + nat (sint (s_size s)), inNoffFile := inNoffFile c + s_size s\<rparr>)"
    using o by (simp add: copy_section_def Read_def lseek_def section_bytes_def [symmetric] Let_def file_write_append [OF assms(3)])
qed

definition placed :: "8 word list \<Rightarrow> 8 word list \<Rightarrow> Segment \<Rightarrow> scnhdr list \<Rightarrow> bool" where
  "placed file out seg xs \<longleftrightarrow>
     (case xs of [] \<Rightarrow> seg_size seg = 0
      | s # _ \<Rightarrow> virtualAddr seg = s_paddr s \<and> seg_size seg = s_size s \<and> int NoffSize \<le> sint (inFileAddr seg) \<and>
          sint (inFileAddr seg) + sint (s_size s) \<le> int (length out) \<and> segment_bytes out seg = section_bytes file s)"

lemma placed_append: "placed file out seg xs \<Longrightarrow> placed file (out @ z) seg xs"
  by (cases xs) (auto simp: placed_def segment_bytes_def)

lemma placed_new:
  assumes "length out \<le> pos" "40 \<le> pos" "int pos < 2 ^ 31" "length (section_bytes file s) = nat (sint (s_size s))" "0 \<le> sint (s_size s)"
  shows "placed file (out @ replicate (pos - length out) 0 @ section_bytes file s) (section_segment s (of_nat pos)) [s]"
proof -
  have "sint (of_nat pos :: 32 word) = int pos" using assms(3) by (simp add: signed_of_nat signed_take_bit_int_eq_self)
  then show ?thesis using assms by (simp add: placed_def section_segment_def segment_bytes_def)
qed

definition conv_inv :: "8 word list \<Rightarrow> scnhdr list \<Rightarrow> converter \<Rightarrow> bool" where
  "conv_inv file ps c \<longleftrightarrow> noffMagic (noffH c) = NOFFMAGIC \<and> placed file (outFile c) (noff_code (noffH c)) (filter is_text ps) \<and>
     placed file (outFile c) (initData (noffH c)) (filter is_data ps) \<and>
     seg_size (uninitData (noffH c)) = (case filter is_bss ps of [] \<Rightarrow> 0 | s # _ \<Rightarrow> s_size s) \<and>
     length (outFile c) \<le> outPos c \<and> NoffSize \<le> outPos c \<and> int (outPos c) \<le> int NoffSize + (\<Sum>s\<leftarrow>ps. sint (s_size s)) \<and>
     inNoffFile c = of_nat (outPos c)"

lemma copy_step:
  assumes i: "conv_inv file ps c" and s: "section_ok file room s" "is_text s \<or> is_data s"
    and b: "(\<Sum>x\<leftarrow>ps. sint (s_size x)) \<le> int MemorySize"
  shows "\<exists>c'. copy_section file s (c\<lparr>noffH := h\<rparr>) = Inr c' \<and> noffH c' = h \<and> (\<exists>z. outFile c' = outFile c @ z) \<and>
     placed file (outFile c') (section_segment s (inNoffFile c)) [s] \<and> length (outFile c') \<le> outPos c' \<and> NoffSize \<le> outPos c' \<and>
     int (outPos c') \<le> int NoffSize + (\<Sum>x\<leftarrow>ps @ [s]. sint (s_size x)) \<and> inNoffFile c' = of_nat (outPos c')"
proof -
  have o: "length (outFile c) \<le> outPos c" "NoffSize \<le> outPos c" "int (outPos c) \<le> int NoffSize + (\<Sum>s\<leftarrow>ps. sint (s_size s))"
    "inNoffFile c = of_nat (outPos c)" using i by (simp_all add: conv_inv_def)
  have z: "0 \<le> sint (s_size s)" using s(1) by (simp add: section_ok_def)
  have w: "(of_nat (nat (sint (s_size s))) :: 32 word) = s_size s" using z by simp
  note cp = copy_section_eq [OF s, of "c\<lparr>noffH := h\<rparr>"]
  have "placed file (outFile c @ replicate (outPos c - length (outFile c)) 0 @ section_bytes file s) (section_segment s (of_nat (outPos c))) [s]"
    by (rule placed_new) (use o b cp(2) z in simp_all)
  then show ?thesis using cp o z w by simp
qed

lemma convert_section_inv:
  assumes i: "conv_inv file ps c" and ok: "section_ok file room s"
    and n: "length (filter is_text (ps @ [s])) \<le> 1" "length (filter is_data (ps @ [s])) \<le> 1" "length (filter is_bss (ps @ [s])) \<le> 1"
    and b: "(\<Sum>x\<leftarrow>ps. sint (s_size x)) \<le> int MemorySize"
  shows "\<exists>c'. convert_section file s c = Inr c' \<and> conv_inv file (ps @ [s]) c'"
proof -
  have z: "0 \<le> sint (s_size s)" using ok by (auto simp: section_ok_def)
  consider (empty) "s_size s = 0" | (code) "is_text s" | (data) "is_data s" | (bss) "is_bss s"
    using ok by (auto simp: section_ok_def)
  then show ?thesis
  proof cases
    case empty
    then show ?thesis using i by (simp add: convert_section_def conv_inv_def is_text_def is_data_def is_bss_def)
  next
    case code
    let ?h = "(noffH c)\<lparr>noff_code := section_segment s (inNoffFile c)\<rparr>"
    obtain c' where c': "copy_section file s (c\<lparr>noffH := ?h\<rparr>) = Inr c'" "noffH c' = ?h" "\<exists>z. outFile c' = outFile c @ z"
      "placed file (outFile c') (section_segment s (inNoffFile c)) [s]" "length (outFile c') \<le> outPos c'" "NoffSize \<le> outPos c'"
      "int (outPos c') \<le> int NoffSize + (\<Sum>x\<leftarrow>ps @ [s]. sint (s_size x))" "inNoffFile c' = of_nat (outPos c')"
      using copy_step [OF i ok _ b, of ?h] code by blast
    have "filter is_text ps = []" using n(1) code by simp
    moreover have "convert_section file s c = Inr c'" using c'(1) code by (simp add: convert_section_def is_text_def Let_def)
    ultimately show ?thesis using i c' code kinds_disjoint [of s] placed_append by (auto simp: conv_inv_def)
  next
    case data
    let ?h = "(noffH c)\<lparr>initData := section_segment s (inNoffFile c)\<rparr>"
    obtain c' where c': "copy_section file s (c\<lparr>noffH := ?h\<rparr>) = Inr c'" "noffH c' = ?h" "\<exists>z. outFile c' = outFile c @ z"
      "placed file (outFile c') (section_segment s (inNoffFile c)) [s]" "length (outFile c') \<le> outPos c'" "NoffSize \<le> outPos c'"
      "int (outPos c') \<le> int NoffSize + (\<Sum>x\<leftarrow>ps @ [s]. sint (s_size x))" "inNoffFile c' = of_nat (outPos c')"
      using copy_step [OF i ok _ b, of ?h] data by blast
    have f: "filter is_data ps = []" using n(2) data by simp
    then have "seg_size (initData (noffH c)) = 0" using i by (simp add: conv_inv_def placed_def)
    moreover have "\<not> is_text s" using data kinds_disjoint [of s] by blast
    ultimately have "convert_section file s c = Inr c'"
      using c'(1) data by (auto simp: convert_section_def is_data_def is_text_def Let_def)
    then show ?thesis using i c' f data kinds_disjoint [of s] placed_append by (auto simp: conv_inv_def)
  next
    case bss
    let ?c = "c\<lparr>noffH := (noffH c)\<lparr>uninitData := section_segment s (- 1)\<rparr>\<rparr>"
    have f: "filter is_bss ps = []" using n(3) bss by simp
    then have "seg_size (uninitData (noffH c)) = 0" using i by (simp add: conv_inv_def)
    moreover have k: "\<not> is_text s" "\<not> is_data s" using bss kinds_disjoint [of s] by blast+
    ultimately have "convert_section file s c = Inr ?c"
      using bss by (auto simp: convert_section_def is_data_def is_text_def is_bss_def Let_def)
    then show ?thesis using i f k bss z by (auto simp: conv_inv_def section_segment_def)
  qed
qed

lemma convert_sections_inv:
  assumes "conv_inv file ps c" "\<forall>x \<in> set (ps @ ss). section_ok file room x"
    "length (filter is_text (ps @ ss)) \<le> 1" "length (filter is_data (ps @ ss)) \<le> 1" "length (filter is_bss (ps @ ss)) \<le> 1"
    "(\<Sum>x\<leftarrow>ps @ ss. sint (s_size x)) \<le> int MemorySize"
  shows "\<exists>c'. convert_sections file ss c = Inr c' \<and> conv_inv file (ps @ ss) c'"
  using assms
proof (induction ss arbitrary: ps c)
  case (Cons s ss)
  have ok: "\<forall>x \<in> set (s # ss). section_ok file room x" using Cons.prems(2) by simp
  have "(\<Sum>x\<leftarrow>ps. sint (s_size x)) \<le> int MemorySize" using Cons.prems(6) sum_sizes_nonneg [OF ok] by simp
  moreover have "length (filter is_text (ps @ [s])) \<le> 1" "length (filter is_data (ps @ [s])) \<le> 1" "length (filter is_bss (ps @ [s])) \<le> 1"
    using Cons.prems(3-5) by (auto split: if_splits)
  ultimately obtain c' where c': "convert_section file s c = Inr c'" "conv_inv file (ps @ [s]) c'"
    using convert_section_inv [OF Cons.prems(1), of room s] ok by auto
  show ?case using Cons.IH [OF c'(2)] Cons.prems(2-6) c'(1) by simp
qed simp


lemma host_short_take: "i + 2 \<le> k \<Longrightarrow> host_short big (take k bs) i = host_short big bs i"
  by (simp add: host_short_def drop_take min_def)

lemma read_scnhdr_take: "24 \<le> k \<Longrightarrow> read_scnhdr big (take k bs) = read_scnhdr big bs"
  by (simp add: read_scnhdr_def host_word_def drop_take min_def)

lemma coff2noff_eq:
  assumes "coff_ok file"
  shows "\<exists>c. coff2noff False garbage file = Inr (file_write 0 (bytes_of_words False (noff_words (noffH c))) (outFile c)) \<and>
     conv_inv file (coff_sections file) c"
proof -
  let ?n = "unat (host_short False file 2)" and ?room = "(\<Sum>s\<leftarrow>coff_sections file. sint (s_size s)) + 4096"
  let ?hs = "take (?n * 40) (drop 76 file)"
  let ?c = "\<lparr>inPos = 76 + ?n * 40, outFile = [], outPos = NoffSize, inNoffFile = of_nat NoffSize, noffH = empty_noff garbage\<rparr>"
  have len: "length (coff_sections file) = ?n" by (simp add: coff_sections_def)
  note d = assms [unfolded coff_ok_def Let_def]
  have l: "76 + ?n * 40 \<le> length file" using d len by auto
  have m: "host_short False file 0 = MIPSELMAGIC" "host_short False file 20 = OMAGIC" using d by auto
  have r: "Read file 0 20 = Inr (take 20 file, 20)" "Read file 20 56 = Inr (take 56 (drop 20 file), 76)"
      "Read file 76 (int (?n * 40)) = Inr (?hs, 76 + ?n * 40)"
    using l by (simp_all add: Read_def nat_mult_distrib)
  have "host_short False (drop 20 file) 0 = host_short False file 20" by (simp add: host_short_def)
  then have h: "host_short False (take 20 file) 0 = MIPSELMAGIC" "host_short False (take 56 (drop 20 file)) 0 = OMAGIC"
      "host_short False (take 20 file) 2 = host_short False file 2"
    using m by (simp_all add: host_short_take)
  have "map (\<lambda>i. read_scnhdr False (drop (40 * i) ?hs)) [0..<?n] = coff_sections file"
    by (auto simp: coff_sections_def drop_take read_scnhdr_take add.commute)
  moreover have "conv_inv file [] ?c" by (simp add: conv_inv_def empty_noff_def placed_def)
  then have "\<exists>c'. convert_sections file (coff_sections file) ?c = Inr c' \<and> conv_inv file ([] @ coff_sections file) c'"
    by (rule convert_sections_inv [where room = ?room]) (use d in auto)
  ultimately show ?thesis using r h by (auto simp: coff2noff_def ShortToHost_def)
qed

lemma noff_of_words_of: "noff_of_words (noff_words h) = h" "length (noff_words h) = 10"
  by (simp_all add: noff_of_words_def noff_words_def)

lemma write_noff_header:
  assumes "length b = NoffSize"
  shows "take NoffSize (file_write 0 b out) = b"
    "int NoffSize \<le> sint (inFileAddr seg) \<Longrightarrow> segment_bytes (file_write 0 b out) seg = segment_bytes out seg"
  using assms by (auto simp: file_write_def segment_bytes_def drop_drop)

lemma placed_segment:
  assumes "placed file out seg (filter Q ss)" "\<forall>s \<in> set ss. section_ok file room s" "\<And>s. Q s \<Longrightarrow> is_text s \<or> is_data s"
    and "length b = NoffSize" "room \<le> int (program_pages h * PageSize)"
  shows "segment_ok (file_write 0 b out) h seg"
    "length (filter Q ss) \<le> 1 \<Longrightarrow> s \<in> set ss \<Longrightarrow> Q s \<Longrightarrow> virtualAddr seg = s_paddr s \<and> seg_size seg = s_size s \<and>
       segment_bytes (file_write 0 b out) seg = section_bytes file s"
proof -
  have c: "filter Q ss = [] \<and> seg_size seg = 0 \<or> (\<exists>s xs. filter Q ss = s # xs \<and> virtualAddr seg = s_paddr s \<and> seg_size seg = s_size s \<and>
      40 \<le> sint (inFileAddr seg) \<and> sint (inFileAddr seg) + sint (s_size s) \<le> int (length out) \<and> segment_bytes out seg = section_bytes file s \<and>
      s \<in> set ss \<and> Q s)"
    using assms(1) by (cases "filter Q ss") (auto simp: placed_def dest: filter_eq_ConsD)
  then show "segment_ok (file_write 0 b out) h seg"
  proof (elim disjE exE conjE)
    fix s xs
    assume s: "virtualAddr seg = s_paddr s" "seg_size seg = s_size s" "40 \<le> sint (inFileAddr seg)"
      "sint (inFileAddr seg) + sint (s_size s) \<le> int (length out)" "s \<in> set ss" "Q s"
    then have "section_ok file room s" "is_text s \<or> is_data s" using assms(2,3) by auto
    then show ?thesis using s assms(5) by (auto simp: section_ok_def segment_ok_def)
  qed (simp add: segment_ok_def)
  assume q: "length (filter Q ss) \<le> 1" "s \<in> set ss" "Q s"
  then have "s \<in> set (filter Q ss)" by simp
  then have "filter Q ss = [s]" using q(1) by (cases "filter Q ss") auto
  then show "virtualAddr seg = s_paddr s \<and> seg_size seg = s_size s \<and> segment_bytes (file_write 0 b out) seg = section_bytes file s"
    using c write_noff_header(2) [OF assms(4), of seg out] by auto
qed


lemma placed_sum:
  assumes "placed file out seg xs" "length xs \<le> 1"
  shows "(\<Sum>s\<leftarrow>xs. sint (s_size s)) = sint (seg_size seg)"
  using assms by (cases xs) (auto simp: placed_def)

lemma placed_range:
  assumes "placed file out seg (filter Q ss)" "x \<in> segment_range seg"
  shows "\<exists>s \<in> set ss. Q s \<and> x \<in> section_range s"
proof (cases "filter Q ss")
  case Nil
  then show ?thesis using assms by (simp add: placed_def segment_range_def)
next
  case (Cons s xs)
  then show ?thesis using assms by (auto simp: placed_def segment_range_def section_range_def dest: filter_eq_ConsD)
qed

lemma coff_program:
  assumes "coff_ok file"
  shows "\<exists>noff h. coff2noff False garbage file = Inr noff \<and> program_ok noff h \<and>
     program_size h = (\<Sum>s\<leftarrow>coff_sections file. sint (s_size s)) + 4096 \<and>
     (\<forall>a \<in> segment_range (noff_code h) \<union> segment_range (initData h).
        \<exists>s \<in> set (coff_sections file). (is_text s \<or> is_data s) \<and> a \<in> section_range s) \<and>
     (\<forall>s \<in> set (coff_sections file). is_text s \<or> is_data s \<longrightarrow>
        (\<exists>seg \<in> {noff_code h, initData h}. virtualAddr seg = s_paddr s \<and> seg_size seg = s_size s \<and> segment_bytes noff seg = section_bytes file s))"
proof -
  obtain c where c: "coff2noff False garbage file = Inr (file_write 0 (bytes_of_words False (noff_words (noffH c))) (outFile c))"
      "conv_inv file (coff_sections file) c"
    using coff2noff_eq [OF assms] by blast
  let ?h = "noffH c" and ?b = "bytes_of_words False (noff_words (noffH c))" and ?ss = "coff_sections file"
  let ?noff = "file_write 0 ?b (outFile c)" and ?room = "(\<Sum>s\<leftarrow>coff_sections file. sint (s_size s)) + 4096"
  note d = assms [unfolded coff_ok_def Let_def]
  have ok: "\<forall>s \<in> set ?ss. section_ok file ?room s" and n: "length (filter is_text ?ss) \<le> 1" "length (filter is_data ?ss) \<le> 1" "length (filter is_bss ?ss) \<le> 1"
    and rm: "?room \<le> int MemorySize" and dj: "\<forall>s \<in> set ?ss. \<forall>t \<in> set ?ss. is_text s \<and> is_data t \<longrightarrow> section_range s \<inter> section_range t = {}"
    using d by auto
  have lb: "length ?b = NoffSize" by (simp add: noff_of_words_of(2))
  have p: "placed file (outFile c) (noff_code ?h) (filter is_text ?ss)" "placed file (outFile c) (initData ?h) (filter is_data ?ss)"
    and u: "seg_size (uninitData ?h) = (case filter is_bss ?ss of [] \<Rightarrow> 0 | s # _ \<Rightarrow> s_size s)" and mg: "noffMagic ?h = NOFFMAGIC"
    using c(2) by (simp_all add: conv_inv_def)
  have su: "(\<Sum>s\<leftarrow>filter is_bss ?ss. sint (s_size s)) = sint (seg_size (uninitData ?h))"
    using n(3) u by (cases "filter is_bss ?ss") auto
  have "(\<Sum>s\<leftarrow>filter is_text ?ss. sint (s_size s)) = sint (seg_size (noff_code ?h))" "(\<Sum>s\<leftarrow>filter is_data ?ss. sint (s_size s)) = sint (seg_size (initData ?h))"
    by (rule placed_sum [OF p(1) n(1)], rule placed_sum [OF p(2) n(2)])
  then have ps: "program_size ?h = ?room" using sum_kinds [OF ok] su by (simp add: program_size_def)
  have nn: "0 \<le> (\<Sum>s\<leftarrow>?ss. sint (s_size s))" by (rule sum_sizes_nonneg [OF ok])
  then have fit: "?room \<le> int (program_pages ?h * PageSize)"
    using divRoundUp_bounds [of ?room "int PageSize"] by (simp add: program_pages_def ps)
  note pt = placed_segment [OF p(1) ok _ lb fit] and pd = placed_segment [OF p(2) ok _ lb fit]
  have "take NoffSize ?noff = ?b" by (rule write_noff_header(1) [OF lb])
  then have "words_of_bytes False 10 ?noff = noff_words ?h"
    using words_of_bytes_take [of 10 NoffSize False ?noff] words_of_bytes_of_words [of False "noff_words ?h"] by (simp add: noff_of_words_of(2))
  then have dec: "decode_noff False ?noff = ?h" by (simp add: decode_noff_def noff_of_words_of(1))
  have "0 \<le> sint (seg_size (uninitData ?h))"
    unfolding su [symmetric] by (rule sum_sizes_nonneg [of _ "file" "?room"]) (use ok in auto)
  moreover have "segment_range (noff_code ?h) \<inter> segment_range (initData ?h) = {}"
    using placed_range [OF p(1)] placed_range [OF p(2)] dj by (auto simp: disjoint_iff) blast
  ultimately have "program_ok ?noff ?h"
    using dec mg ps rm pt(1) pd(1) lb by (simp add: program_ok_def)
  moreover have "\<exists>seg \<in> {noff_code ?h, initData ?h}. virtualAddr seg = s_paddr s \<and> seg_size seg = s_size s \<and> segment_bytes ?noff seg = section_bytes file s"
    if "s \<in> set ?ss" "is_text s \<or> is_data s" for s
    using pt(2) [OF _ n(1) that(1)] pd(2) [OF _ n(2) that(1)] that(2) by auto
  moreover have "\<exists>s \<in> set ?ss. (is_text s \<or> is_data s) \<and> a \<in> section_range s"
    if "a \<in> segment_range (noff_code ?h) \<union> segment_range (initData ?h)" for a
    using that placed_range [OF p(1), of a] placed_range [OF p(2), of a] by blast
  ultimately show ?thesis using c(1) ps by blast
qed

section \<open>From the compiler to the memory\<close>

text \<open>
  C16. From the compiler's output to the memory of the machine. The converter, run on a little-endian host, turns every well-formed
  COFF file (at most one section each of code, of initialised and of uninitialised data) into an executable
  (whatever its uninitialised variables hold), and AddrSpace loads that executable, on hosts of either byte order, so that each
  section of code or initialised data is in memory at its address, byte by byte as it is in the COFF file; the
  address space has room for all sections and the stacks, and no other byte of the memory changes.
\<close>

theorem coff_to_memory:
  assumes "coff_ok file" "length hdr_garbage = NoffSize"
  shows "\<exists>noff sp m1. coff2noff False garbage file = Inr noff \<and>
     AddrSpace_new Executable_ReadAt big hdr_garbage pt_garbage p (Unix_file noff) m = Inr (sp, m1) \<and>
     (\<Sum>s\<leftarrow>coff_sections file. sint (s_size s)) + 4096 \<le> int (numPages sp * PageSize) \<and>
     (\<forall>s \<in> set (coff_sections file). is_text s \<or> is_data s \<longrightarrow>
        load_bytes (mainMemory m1) (nat (sint (s_paddr s))) (nat (sint (s_size s))) = section_bytes file s) \<and>
     (\<forall>a. (\<forall>s \<in> set (coff_sections file). is_text s \<or> is_data s \<longrightarrow> a \<notin> section_range s) \<longrightarrow> mainMemory m1 a = mainMemory m a)"
proof -
  obtain noff h where n: "coff2noff False garbage file = Inr noff" "program_ok noff h"
      "program_size h = (\<Sum>s\<leftarrow>coff_sections file. sint (s_size s)) + 4096"
      "\<And>a. a \<in> segment_range (noff_code h) \<union> segment_range (initData h) \<Longrightarrow>
        \<exists>s \<in> set (coff_sections file). (is_text s \<or> is_data s) \<and> a \<in> section_range s"
      "\<And>s. s \<in> set (coff_sections file) \<Longrightarrow> is_text s \<or> is_data s \<Longrightarrow> \<exists>seg \<in> {noff_code h, initData h}.
        virtualAddr seg = s_paddr s \<and> seg_size seg = s_size s \<and> segment_bytes noff seg = section_bytes file s"
    using coff_program [OF assms(1), of garbage] by blast
  define m1 where "m1 = m\<lparr>mainMemory := store_bytes (store_bytes (mainMemory m) (nat (sint (virtualAddr (noff_code h)))) (segment_bytes noff (noff_code h)))
      (nat (sint (virtualAddr (initData h)))) (segment_bytes noff (initData h)), ptables := (ptables m)(p \<mapsto> space_table pt_garbage (program_pages h))\<rparr>"
  have eq: "AddrSpace_new Executable_ReadAt big hdr_garbage pt_garbage p (Unix_file noff) m = Inr (\<lparr>asPageTable = p, numPages = program_pages h\<rparr>, m1)"
    using exe.AddrSpace_new_eq [of "Unix_file noff" h hdr_garbage] n(2) assms(2) by (simp add: m1_def)
  note mem = loaded_memory [OF n(2), of _ "mainMemory m"]
  have "load_bytes (mainMemory m1) (nat (sint (s_paddr s))) (nat (sint (s_size s))) = section_bytes file s"
    if s: "s \<in> set (coff_sections file)" "is_text s \<or> is_data s" for s
  proof -
    obtain seg where g: "seg \<in> {noff_code h, initData h}" "virtualAddr seg = s_paddr s" "seg_size seg = s_size s"
        "segment_bytes noff seg = section_bytes file s"
      using n(5) [OF s] by blast
    then show ?thesis using mem(1) [OF g(1)] by (simp add: m1_def)
  qed
  moreover have "mainMemory m1 a = mainMemory m a"
    if "\<forall>s \<in> set (coff_sections file). is_text s \<or> is_data s \<longrightarrow> a \<notin> section_range s" for a
    using mem(2) [of a] n(4) [of a] that by (auto simp: m1_def)
  ultimately show ?thesis using n(1) eq program_pages_bounds(3) [OF n(2)] n(3) by (intro exI conjI) auto
qed


text \<open>A COFF file with 8 bytes of code at address 128, 4 bytes of data at 256, and an empty section of another kind.\<close>

definition example_section :: "string \<Rightarrow> 32 word \<Rightarrow> 32 word \<Rightarrow> 32 word \<Rightarrow> 8 word list" where
  "example_section name paddr sz scnptr =
     map of_char name @ replicate (8 - length name) 0 @ bytes_of_words False [paddr, paddr, sz, scnptr, 0, 0, 0, 0]"

definition example_coff :: "8 word list" where
  "example_coff = [0x62, 0x01, 3, 0] @ replicate 16 0 @ [0x07, 0x01] @ replicate 54 0 @
     example_section ''.text'' 0x80 8 196 @ example_section ''.rdata'' 0x100 4 204 @ example_section ''.lit8'' 0 0 0 @
     [1, 2, 3, 4, 5, 6, 7, 8] @ [9, 10, 11, 12]"

definition example_text :: scnhdr where
  "example_text = \<lparr>s_name = map of_char ''.text'' @ [0, 0, 0], s_paddr = 0x80, s_size = 8, s_scnptr = 196\<rparr>"

definition example_data :: scnhdr where
  "example_data = \<lparr>s_name = map of_char ''.rdata'' @ [0, 0], s_paddr = 0x100, s_size = 4, s_scnptr = 204\<rparr>"

definition example_other :: scnhdr where
  "example_other = \<lparr>s_name = map of_char ''.lit8'' @ [0, 0, 0], s_paddr = 0, s_size = 0, s_scnptr = 0\<rparr>"

lemma example_sections: "coff_sections example_coff = [example_text, example_data, example_other]"
  by code_simp

lemma example_kinds:
  "is_text example_text" "\<not> is_data example_text" "\<not> is_bss example_text"
  "is_data example_data" "\<not> is_text example_data" "\<not> is_bss example_data"
  "\<not> is_text example_other" "\<not> is_data example_other" "\<not> is_bss example_other"
  by code_simp+

lemma example_coff_ok: "coff_ok example_coff"
proof -
  note k = example_kinds
  have "length example_coff = 208" "host_short False example_coff 0 = MIPSELMAGIC" "host_short False example_coff 20 = OMAGIC" by code_simp+
  then show ?thesis
    unfolding coff_ok_def Let_def example_sections
    by (simp add: section_ok_def section_range_def k; simp add: example_text_def example_data_def example_other_def)
qed

theorem coff_to_memory_witness:
  "\<exists>noff sp m1. coff2noff False example_noff example_coff = Inr noff \<and>
     AddrSpace_new Executable_ReadAt True (replicate 40 0xfe) example_entries 1 (Unix_file noff) (Machine_new False) = Inr (sp, m1) \<and>
     load_bytes (mainMemory m1) 128 8 = [1, 2, 3, 4, 5, 6, 7, 8] \<and> load_bytes (mainMemory m1) 256 4 = [9, 10, 11, 12]"
proof -
  let ?t = example_text and ?d = example_data
  have t: "?t \<in> set (coff_sections example_coff)" "?d \<in> set (coff_sections example_coff)" unfolding example_sections by simp_all
  note k = example_kinds
  have b: "section_bytes example_coff ?t = [1, 2, 3, 4, 5, 6, 7, 8]" "section_bytes example_coff ?d = [9, 10, 11, 12]" by code_simp+
  have l: "length (replicate 40 (0xfe :: 8 word)) = NoffSize" by simp
  obtain noff sp m1 where n: "coff2noff False example_noff example_coff = Inr noff"
      "AddrSpace_new Executable_ReadAt True (replicate 40 0xfe) example_entries 1 (Unix_file noff) (Machine_new False) = Inr (sp, m1)"
      "\<And>s. s \<in> set (coff_sections example_coff) \<Longrightarrow> is_text s \<or> is_data s \<Longrightarrow>
        load_bytes (mainMemory m1) (nat (sint (s_paddr s))) (nat (sint (s_size s))) = section_bytes example_coff s"
    using coff_to_memory [OF example_coff_ok l, of example_noff True example_entries 1 "Machine_new False"] by blast
  show ?thesis using n(1,2) n(3) [OF t(1)] n(3) [OF t(2)] k b by (simp add: example_text_def example_data_def)
qed

end
