(* ===== verification/Nachos_Network.thy ===== *)
theory Nachos_Network
  imports Nachos_Synch Nachos_FileSys
begin

text \<open>
  The network device (\<^verbatim>\<open>code/machine/network.cc\<close>) and what the post office does with messages
  (\<^verbatim>\<open>code/network/post.cc\<close>): the headers it puts before the data of a message and takes off again, the
  checks of the postal worker, and what stops it in this version: the condition variables of its mailboxes are
  not implemented (\<^verbatim>\<open>code/threads/synchlist.cc\<close>, \<^verbatim>\<open>code/threads/synch.cc\<close>), so that its creation aborts, and
  so would the delivery of a message. The theorems are therefore on the device; no message is shown
  to arrive in a mailbox.

  The sockets of the host are not modelled: the packet that is given to SendToSocket is a result, the packet that
  ReadFromSocket finds is an argument, and so is whether the network loses a packet (a comparison of a random number with a
  floating-point reliability). The handlers of the post office are arguments. New arrays hold \<open>garbage\<close>.
\<close>

section \<open>Packets\<close>

record PacketHeader =
  pkt_to :: "32 word"
  pkt_from :: "32 word"
  pkt_length :: "32 word"

record MailHeader =
  mail_to :: "32 word"
  mail_from :: "32 word"
  mail_length :: "32 word"

abbreviation (input) HeaderSize :: nat where "HeaderSize \<equiv> 12"
abbreviation (input) MaxPacketSize :: nat where "MaxPacketSize \<equiv> 52"
abbreviation (input) MaxMailSize :: nat where "MaxMailSize \<equiv> 40"
abbreviation (input) NetworkTime :: int where "NetworkTime \<equiv> 100"

text \<open>The headers as they are in the memory of the host.\<close>

definition packet_bytes :: "bool \<Rightarrow> PacketHeader \<Rightarrow> 8 word list" where
  "packet_bytes big h = bytes_of_words big [pkt_to h, pkt_from h, pkt_length h]"

definition packet_of_bytes :: "bool \<Rightarrow> 8 word list \<Rightarrow> PacketHeader" where
  "packet_of_bytes big bs =
     (let ws = words_of_bytes big 3 bs in \<lparr>pkt_to = ws ! 0, pkt_from = ws ! 1, pkt_length = ws ! 2\<rparr>)"

definition mail_bytes :: "bool \<Rightarrow> MailHeader \<Rightarrow> 8 word list" where
  "mail_bytes big h = bytes_of_words big [mail_to h, mail_from h, mail_length h]"

definition mail_of_bytes :: "bool \<Rightarrow> 8 word list \<Rightarrow> MailHeader" where
  "mail_of_bytes big bs =
     (let ws = words_of_bytes big 3 bs in \<lparr>mail_to = ws ! 0, mail_from = ws ! 1, mail_length = ws ! 2\<rparr>)"

text \<open>bcopy of \<open>n\<close> bytes to the place \<open>i\<close> of an array.\<close>

definition bcopy :: "8 word list \<Rightarrow> nat \<Rightarrow> nat \<Rightarrow> 8 word list \<Rightarrow> 8 word list res" where
  "bcopy src n i dst = (if n \<le> length src \<and> i + n \<le> length dst then Inr (overwrite i (take n src) dst) else Inl OutOfBounds)"

section \<open>The device\<close>

datatype net_handler = NetworkReadPoll | NetworkSendDone

record Network =
  ident :: "32 word"
  sendBusy :: bool
  inHdr :: PacketHeader
  inbox :: "8 word list"

definition Network_new ::
  "PacketHeader \<Rightarrow> 8 word list \<Rightarrow> 32 word \<Rightarrow> (net_handler, 'd) kernel_scheme \<Rightarrow> (Network \<times> (net_handler, 'd) kernel_scheme) res" where
  "Network_new hdr_garbage garbage addr k =
     bindR (Schedule NetworkReadPoll NetworkTime NetworkRecvInt k) (\<lambda>k1.
       Inr (\<lparr>ident = addr, sendBusy = False, inHdr = hdr_garbage\<lparr>pkt_length := 0\<rparr>, inbox = garbage\<rparr>, k1))"


definition SendDone ::
  "((net_handler, 'd) kernel_scheme \<Rightarrow> (net_handler, 'd) kernel_scheme res) \<Rightarrow> Network \<Rightarrow>
   (net_handler, 'd) kernel_scheme \<Rightarrow> (Network \<times> (net_handler, 'd) kernel_scheme) res" where
  "SendDone writeHandler net k =
     bindR (writeHandler (k\<lparr>stats := (stats k)\<lparr>numPacketsSent := numPacketsSent (stats k) + 1\<rparr>\<rparr>)) (\<lambda>k1.
       Inr (net\<lparr>sendBusy := False\<rparr>, k1))"



section \<open>The post office\<close>

record Mail =
  pktHdr :: PacketHeader
  mailHdr :: MailHeader
  mail_data :: "8 word list"

definition Mail_new :: "8 word list \<Rightarrow> PacketHeader \<Rightarrow> MailHeader \<Rightarrow> 8 word list \<Rightarrow> Mail res" where
  "Mail_new garbage pktH mailH msgData =
     ASSERT (unat (mail_length mailH) \<le> MaxMailSize)
       (bindR (bcopy msgData (unat (mail_length mailH)) 0 garbage) (\<lambda>d.
          Inr \<lparr>pktHdr = pktH, mailHdr = mailH, mail_data = d\<rparr>))"

record PostOffice =
  netAddr :: "32 word"
  numBoxes :: int

text \<open>PostOffice::Send before it acquires the lock: the header and the data that it then gives to the network.\<close>

definition post_packet ::
  "bool \<Rightarrow> 8 word list \<Rightarrow> PostOffice \<Rightarrow> PacketHeader \<Rightarrow> MailHeader \<Rightarrow> 8 word list \<Rightarrow> (PacketHeader \<times> 8 word list) res" where
  "post_packet big garbage po pkt mailH data =
     ASSERT (unat (mail_length mailH) \<le> MaxMailSize)
       (ASSERT (0 \<le> sint (mail_to mailH) \<and> sint (mail_to mailH) < numBoxes po)
         (bindR (bcopy (mail_bytes big mailH) HeaderSize 0 garbage) (\<lambda>b1.
          bindR (bcopy data (unat (mail_length mailH)) HeaderSize b1) (\<lambda>b2.
            Inr (pkt\<lparr>pkt_from := netAddr po, pkt_length := mail_length mailH + of_nat HeaderSize\<rparr>, b2)))))"

text \<open>
  The loop of PostOffice::PostalDelivery after Receive: the mail header of the packet, the two checks, and
  the data behind the header, which go to MailBox::Put with the packet header.
\<close>

definition postal_check :: "bool \<Rightarrow> PostOffice \<Rightarrow> 8 word list \<Rightarrow> (MailHeader \<times> 8 word list) res" where
  "postal_check big po buffer =
     (let mailH = mail_of_bytes big buffer in
      ASSERT (0 \<le> sint (mail_to mailH) \<and> sint (mail_to mailH) < numBoxes po)
        (ASSERT (unat (mail_length mailH) \<le> MaxMailSize) (Inr (mailH, drop HeaderSize buffer))))"

text \<open>
  MailBox::Put with SynchList::Append on the messages of a mailbox, from the moment its lock is acquired: the
  message is appended, then Signal is called, which aborts, so that the lock is never released.
\<close>

definition MailBox_Put ::
  "8 word list \<Rightarrow> semid \<Rightarrow> PacketHeader \<Rightarrow> MailHeader \<Rightarrow> 8 word list \<Rightarrow> Mail list \<Rightarrow> ('h, 'd) kernel_scheme \<Rightarrow>
   (Mail list \<times> ('h, 'd) kernel_scheme) res" where
  "MailBox_Put garbage lock pktH mailH data messages k =
     bindR (Mail_new garbage pktH mailH data) (\<lambda>mail.
     bindR (Condition_Signal lock k) (\<lambda>k1. Inr (messages @ [mail], k1)))"

text \<open>A mailbox is a synchronised list, which has a lock and a condition variable.\<close>

definition SynchList_new :: "semid \<Rightarrow> (net_handler, 'd) kernel_scheme \<Rightarrow> (net_handler, 'd) kernel_scheme res" where
  "SynchList_new lock k = Condition_new ''list empty cond'' (Lock_new lock (Some ''list lock'') k)"

fun MailBoxes_new :: "semid list \<Rightarrow> (net_handler, 'd) kernel_scheme \<Rightarrow> (net_handler, 'd) kernel_scheme res" where
  "MailBoxes_new [] k = Inr k"
| "MailBoxes_new (l # ls) k = bindR (SynchList_new l k) (MailBoxes_new ls)"

text \<open>PostOffice::PostOffice; the mailboxes have the locks \<open>locks\<close>, the postal worker is the thread \<open>t\<close>.\<close>

definition PostOffice_new ::
  "(net_handler \<Rightarrow> (net_handler, 'd) kernel_scheme \<Rightarrow> (net_handler, 'd) kernel_scheme res) \<Rightarrow> semid \<Rightarrow> semid \<Rightarrow> semid \<Rightarrow> semid list \<Rightarrow>
   PacketHeader \<Rightarrow> 8 word list \<Rightarrow> reg_word list \<Rightarrow> tid \<Rightarrow> 32 word \<Rightarrow> int \<Rightarrow> (net_handler, 'd) kernel_scheme \<Rightarrow>
   (PostOffice \<times> Network \<times> (net_handler, 'd) kernel_scheme) res" where
  "PostOffice_new run avail sent sendLock locks hdr_garbage garbage regs t addr nBoxes k =
     (let k1 = Lock_new sendLock (Some ''message send lock'')
                 (Semaphore_new sent ''message sent'' 0 (Semaphore_new avail ''message available'' 0 k)) in
      bindR (MailBoxes_new locks k1) (\<lambda>k2.
      bindR (Network_new hdr_garbage garbage addr k2) (\<lambda>(net, k3).
      bindR (Thread_new regs t ''postal worker'' k3) (\<lambda>k4.
      bindR (Start run t k4) (\<lambda>k5. Inr (\<lparr>netAddr = addr, numBoxes = nBoxes\<rparr>, net, k5))))))"

section \<open>Headers and data\<close>

lemma words_of_bytes_append: "4 * n \<le> length bs \<Longrightarrow> words_of_bytes big n (bs @ rest) = words_of_bytes big n bs"
  by (induction n arbitrary: bs) simp_all

lemma header_words: "length ws = n \<Longrightarrow> words_of_bytes big n (bytes_of_words big ws @ rest) = ws"
  using words_of_bytes_of_words [of big ws] by (subst words_of_bytes_append) auto

lemma packet_header [simp]: "packet_of_bytes big (packet_bytes big h @ rest) = h" "length (packet_bytes big h) = HeaderSize"
  by (simp_all add: packet_of_bytes_def packet_bytes_def Let_def header_words)

lemma mail_header [simp]: "mail_of_bytes big (mail_bytes big h @ rest) = h" "length (mail_bytes big h) = HeaderSize"
  by (simp_all add: mail_of_bytes_def mail_bytes_def Let_def header_words)

lemma bcopy_eq [simp]: "n \<le> length src \<Longrightarrow> i + n \<le> length dst \<Longrightarrow> bcopy src n i dst = Inr (take i dst @ take n src @ drop (i + n) dst)"
  by (simp add: bcopy_def overwrite_def min_def)


section \<open>Properties\<close>






text \<open>
  The headers of the post office: what PostOffice::Send gives to the network, carried as C25 says, passes the
  checks of the postal worker of a machine with such a mailbox, which finds the mail header and the data as they were
  sent. Put on the mailbox then aborts.
\<close>

lemma mail_reaches_worker:
  assumes "unat (mail_length mh) \<le> MaxMailSize" "unat (mail_length mh) \<le> length data"
    and "0 \<le> sint (mail_to mh)" "sint (mail_to mh) < numBoxes po" "sint (mail_to mh) < numBoxes po'"
    and "length g1 = MaxPacketSize" "length g2 = MaxPacketSize"
  shows "\<exists>ph1 buffer. post_packet big g1 po ph mh data = Inr (ph1, buffer) \<and> 0 < pkt_length ph1 \<and>
     unat (pkt_length ph1) \<le> MaxPacketSize \<and> pkt_from ph1 = netAddr po \<and> pkt_to ph1 = pkt_to ph \<and>
     (\<exists>rest. postal_check big po' (take (unat (pkt_length ph1)) buffer @ drop (unat (pkt_length ph1)) g2) = Inr (mh, rest) \<and>
        take (unat (mail_length mh)) rest = take (unat (mail_length mh)) data)"
proof -
  let ?n = "unat (mail_length mh)" and ?ph = "ph\<lparr>pkt_from := netAddr po, pkt_length := mail_length mh + 12\<rparr>"
  let ?buffer = "mail_bytes big mh @ take ?n data @ drop (12 + ?n) g1"
  have len: "unat (pkt_length ?ph) = ?n + 12" using assms(1) by (simp add: unat_word_ariths)
  have pp: "post_packet big g1 po ph mh data = Inr (?ph, ?buffer)"
    using assms by (simp add: post_packet_def ASSERT_def add.commute)
  have "0 < unat (pkt_length ?ph)" unfolding len by simp
  then have pos: "0 < pkt_length ?ph" by (simp only: unat_gt_0 word_gt_0)
  have "take (?n + 12) ?buffer = mail_bytes big mh @ take ?n data" using assms by simp
  then have c: "postal_check big po' (take (unat (pkt_length ?ph)) ?buffer @ drop (unat (pkt_length ?ph)) g2) =
      Inr (mh, take ?n data @ drop (?n + 12) g2)"
    unfolding len using assms by (simp add: postal_check_def ASSERT_def Let_def)
  have l: "unat (pkt_length ?ph) \<le> MaxPacketSize" unfolding len using assms(1) by simp
  have f: "pkt_from ?ph = netAddr po" "pkt_to ?ph = pkt_to ph" by simp_all
  have "take ?n (take ?n data @ drop (?n + 12) g2) = take ?n data" using assms(2) by simp
  then show ?thesis using pp pos l f c by blast
qed

lemma MailBox_Put_aborts: "\<exists>e. MailBox_Put garbage lock pktH mailH data messages k = Inl e"
  by (cases "Mail_new garbage pktH mailH data") (simp_all add: MailBox_Put_def Condition_Signal_def)

text \<open>The post office of this version cannot be created: the first mailbox aborts.\<close>

lemma PostOffice_new_fails: "locks \<noteq> [] \<Longrightarrow> PostOffice_new run avail sent sendLock locks hg g regs t addr n k = Inl AssertionFailed"
  by (cases locks) (simp_all add: PostOffice_new_def SynchList_new_def Condition_new_def ASSERT_def Let_def)

end
