(* ===== verification/Nachos_Frame.thy ===== *)
theory Nachos_Frame
  imports Nachos_Kernel
begin

text \<open>
  What the steps of the kernel leave alone. The locale \<open>kernel_frame\<close> is the contract of a relation
  between two states of the kernel: it is reflexive and transitive, it ignores the scheduling
  state (levels, clocks, ready list, statuses, queues, saved registers), and it relates the states before and after an
  interrupt is handled. Then every step of the kernel is in the relation, but the one in which P takes a unit of
  its semaphore, of which the lemma tells exactly what it does.
\<close>

text \<open>The semaphores on which the frames of a stack wait.\<close>

definition frame_sems :: "frame list \<Rightarrow> semid set" where
  "frame_sems fs = {s. \<exists>l. Waiting s l \<in> set fs}"

lemma frame_sems_simps [simp]:
  "frame_sems [] = {}" "frame_sems (Waiting s l # fs) = insert s (frame_sems fs)"
  "frame_sems (Sleeping # fs) = frame_sems fs" "frame_sems (AfterSwitch # fs) = frame_sems fs"
  "frame_sems (Startup # fs) = frame_sems fs" "frame_sems (RestoreLevel l # fs) = frame_sems fs"
  "frame_sems (RestoreStatus st # fs) = frame_sems fs"
  by (auto simp: frame_sems_def)

text \<open>The finished thread waits for nothing.\<close>

definition dying_quiet :: "('h, 'd) kernel_scheme \<Rightarrow> bool" where
  "dying_quiet k \<longleftrightarrow> (\<forall>t th. threadToBeDestroyed k = Some t \<longrightarrow> threads k t = Some th \<longrightarrow> frame_sems (kstack th) = {})"

lemma kinv_dying_quiet:
  assumes "kinv J [] k"
  shows "dying_quiet k"
proof -
  have "frame_sems (kstack th) = {}" if t: "threadToBeDestroyed k = Some t" "threads k t = Some th" for t th
  proof -
    have v: "tview_of [] k t = Some (tstatus th, kstack th)" using t(2) by (simp add: tview_of_def)
    obtain f where f: "tview_of [] k t = Some (BLOCKED, [f])"
      using tinvD(7) [OF kinvD(1) [OF assms] t(1)] by (auto simp: dying_ok_def)
    then have "thread_ok (currentThread k) (map snd (readyList k)) (semaphores k) (threadToBeDestroyed k) t BLOCKED [f]"
      by (rule tinvD(4) [OF kinvD(1) [OF assms]])
    then have "f = Sleeping \<or> f = AfterSwitch" by (auto simp: thread_ok_def split: if_splits)
    moreover have "kstack th = [f]" using v f by simp
    ultimately show ?thesis by auto
  qed
  then show ?thesis by (simp add: dying_quiet_def)
qed

text \<open>The state in which P has taken its unit.\<close>

definition took_unit :: "semid \<Rightarrow> ('h, 'd) kernel_scheme \<Rightarrow> ('h, 'd) kernel_scheme \<Rightarrow> bool" where
  "took_unit s k k1 \<longleftrightarrow> (\<exists>th l fs q. threads k (currentThread k) = Some th \<and> kstack th = Waiting s l # fs \<and>
     semaphores k s = Some q \<and> svalue q \<noteq> 0 \<and>
     k1 = put_sem s (q\<lparr>svalue := svalue q - 1\<rparr>) (put_thread (currentThread k) (th\<lparr>kstack := fs\<rparr>) k))"

section \<open>The contract\<close>

locale kernel_frame = interrupt_handlers run
  for run :: "'h \<Rightarrow> ('h, 'd) kernel_scheme \<Rightarrow> ('h, 'd) kernel_scheme res" +
  fixes R :: "('h, 'd) kernel_scheme \<Rightarrow> ('h, 'd) kernel_scheme \<Rightarrow> bool"
  assumes R_refl: "R k k"
    and R_trans: "R k k1 \<Longrightarrow> R k1 k2 \<Longrightarrow> R k k2"
    and R_fields: "R k (k\<lparr>level := x1\<rparr>)" "R k (k\<lparr>stats := x2\<rparr>)" "R k (k\<lparr>yieldOnReturn := x3\<rparr>)"
      "R k (k\<lparr>status := x4\<rparr>)" "R k (k\<lparr>readyList := x5\<rparr>)" "R k (k\<lparr>currentThread := x6\<rparr>)"
    and R_pending: "mset x = mset (pending k) \<Longrightarrow> R k (k\<lparr>pending := x\<rparr>)"
    and R_thread: "threads k t = Some th \<Longrightarrow> frame_sems (kstack th') = frame_sems (kstack th) \<Longrightarrow> space th' = space th \<Longrightarrow>
      R k (put_thread t th' k)"
    and R_delete: "threadToBeDestroyed k = Some t \<Longrightarrow> threads k t = Some th \<Longrightarrow> frame_sems (kstack th) = {} \<Longrightarrow>
      R k (k\<lparr>threads := (threads k)(t := None), threadToBeDestroyed := None\<rparr>)"
    and R_queue: "semaphores k s = Some q \<Longrightarrow> R k (put_sem s (q\<lparr>squeue := x7\<rparr>) k)"
    and R_registers: "cpu k = Some m \<Longrightarrow> R k (k\<lparr>cpu := Some (m\<lparr>registers := x8\<rparr>)\<rparr>)"
    and R_space: "cpu k = Some m \<Longrightarrow> spaces k a = Some sp \<Longrightarrow> threads k (currentThread k) = Some th \<Longrightarrow> space th = Some a \<Longrightarrow>
      R k (k\<lparr>cpu := Some (m\<lparr>pageTable := Some (asPageTable sp), pageTableSize := numPages sp\<rparr>)\<rparr>)"
    and R_fire: "pending k = (due, p) # rest \<Longrightarrow> fire run p (k\<lparr>pending := rest\<rparr>) = Inr k' \<Longrightarrow> R k k'"
begin

lemma upd_thread_R:
  assumes "upd_thread t f k = Inr k'" "\<And>th. frame_sems (kstack (f th)) = frame_sems (kstack th) \<and> space (f th) = space th"
  shows "R k k'"
proof -
  obtain th where "threads k t = Some th" "k' = put_thread t (f th) k"
    using assms(1) by (auto simp: upd_thread_def get_thread_def res_simps split: option.splits)
  then show ?thesis using R_thread assms(2) by blast
qed

lemma push_frame_R: "push_frame f k = Inr k' \<Longrightarrow> frame_sems [f] = {} \<Longrightarrow> R k k'"
  unfolding push_frame_def by (erule upd_thread_R) (cases f; simp)

lemma ReadyToRun_R: "ReadyToRun t k = Inr k' \<Longrightarrow> R k k'"
  by (auto simp: ReadyToRun_def res_simps dest!: upd_thread_R intro: R_trans R_fields)

lemma FindNextToRun_R: "FindNextToRun k = (x, k') \<Longrightarrow> R k k'"
  by (auto simp: FindNextToRun_def R_refl R_fields split: if_splits prod.splits)

lemma SaveUserState_R: "SaveUserState t k = Inr k' \<Longrightarrow> R k k'"
  by (auto simp: SaveUserState_def split: option.splits dest: upd_thread_R)

lemma CheckOverflow_same: "CheckOverflow t k = Inr k' \<Longrightarrow> k' = k"
  by (auto simp: CheckOverflow_def res_simps split: option.splits)

lemma Run_R:
  assumes "Run t k = Inr k'"
  shows "R k k'"
proof -
  obtain k1 k2 k3 and th :: Thread where "(if space th \<noteq> None then SaveUserState (currentThread k) k else Inr k) = Inr k1"
    and r: "CheckOverflow (currentThread k) k1 = Inr k2" "push_frame AfterSwitch k2 = Inr k3"
    "upd_thread t (\<lambda>th. th\<lparr>tstatus := RUNNING\<rparr>) (k3\<lparr>currentThread := t\<rparr>) = Inr k'"
    using assms unfolding Run_def Let_def ASSERT_eq_Inr bindR_eq_Inr by blast
  then have "R k k1" using SaveUserState_R R_refl by (auto split: if_splits)
  moreover have "R k1 k3" using push_frame_R [OF r(2)] CheckOverflow_same [OF r(1)] by simp
  moreover have "R k3 (k3\<lparr>currentThread := t\<rparr>)" by (rule R_fields)
  moreover have "R (k3\<lparr>currentThread := t\<rparr>) k'" by (rule upd_thread_R [OF r(3)]) simp
  ultimately show ?thesis using R_trans by blast
qed

lemma Yield_R:
  assumes "Yield k = Inr k'"
  shows "R k k'"
proof -
  obtain k1 where k1: "push_frame (RestoreLevel (level k)) (k\<lparr>level := IntOff\<rparr>) = Inr k1"
    and r: "(case FindNextToRun k1 of (None, k2) \<Rightarrow> Inr k2
       | (Some t, k2) \<Rightarrow> bindR (ReadyToRun (currentThread k2) k2) (Run t)) = Inr k'"
    using assms by (auto simp: Yield_def Let_def res_simps)
  obtain x k2 where f: "FindNextToRun k1 = (x, k2)" by fastforce
  have "R k k1" using push_frame_R [OF k1] R_fields(1) R_trans by (metis frame_sems_simps(1,6))
  moreover have "R k1 k2" using f by (rule FindNextToRun_R)
  moreover have "R k2 k'"
    using r f R_refl by (cases x) (auto simp: res_simps dest!: ReadyToRun_R Run_R intro: R_trans)
  ultimately show ?thesis using R_trans by blast
qed

lemma Sleep_R:
  assumes "Sleep k = Inr k'"
  shows "R k k'"
proof -
  obtain k1 where k1: "upd_thread (currentThread k) (\<lambda>th. th\<lparr>tstatus := BLOCKED\<rparr>) k = Inr k1" "push_frame Sleeping k1 = Inr k'"
    using assms by (auto simp: Sleep_def res_simps)
  have "R k k1" by (rule upd_thread_R [OF k1(1)]) simp
  then show ?thesis using push_frame_R [OF k1(2)] R_trans by fastforce
qed

section \<open>Time\<close>

lemma CheckIfDue_R:
  assumes "CheckIfDue run adv k = Inr (b, k')"
  shows "R k k'"
proof (cases "pending k")
  case Nil
  then show ?thesis using assms R_refl by (auto simp: CheckIfDue_def res_simps)
next
  case (Cons e rest)
  obtain due p where e: "e = (due, p)" by fastforce
  let ?j = "if due > now k then advance_clock due k else k"
  have j: "R k ?j" "pending ?j = (due, p) # rest" using Cons e R_refl R_fields by (auto simp: advance_clock_def)
  have c: "(if due > now k then advance_clock due (k\<lparr>pending := rest\<rparr>) else k\<lparr>pending := rest\<rparr>) = ?j\<lparr>pending := rest\<rparr>"
    by (simp add: advance_clock_def)
  have "k' = k\<lparr>pending := ksorted_insert p due rest\<rparr> \<or> k' = ?j\<lparr>pending := ksorted_insert p due rest\<rparr> \<or>
      fire run p (?j\<lparr>pending := rest\<rparr>) = Inr k'"
    using assms Cons e unfolding CheckIfDue_def by (auto simp: Let_def res_simps c split: if_splits)
  moreover have "R k (k\<lparr>pending := ksorted_insert p due rest\<rparr>)" "R ?j (?j\<lparr>pending := ksorted_insert p due rest\<rparr>)"
    by (rule R_pending; use Cons e j(2) in \<open>simp add: mset_ksorted_insert\<close>)+
  ultimately show ?thesis using R_fire [OF j(2)] j(1) R_trans by blast
qed

lemma loop_R:
  assumes "loop_result (CheckIfDue_while run k) = Inr k'"
  shows "R k k'"
proof -
  have w: "CheckIfDue_while run k = Some (Inr k')" using CheckIfDue_while_ends [of k] assms by auto
  have "\<exists>k1. R k k1 \<and> CheckIfDue run False k1 = Inr (False, k')"
    by (rule CheckIfDue_while_induct [of k k' "R k", OF w]) (auto dest: CheckIfDue_R intro: R_trans R_refl)
  then show ?thesis using CheckIfDue_R R_trans by blast
qed

lemma Idle_R:
  assumes "Idle run k = Inr k'"
  shows "R k k'"
proof -
  obtain k1 k2 where k1: "CheckIfDue run True (k\<lparr>status := IdleMode\<rparr>) = Inr (True, k1)"
    and k2: "loop_result (CheckIfDue_while run k1) = Inr k2" "k' = k2\<lparr>yieldOnReturn := False, status := SystemMode\<rparr>"
    using assms by (auto simp: Idle_def Halt_def res_simps split: if_splits)
  have "R k (k\<lparr>status := IdleMode\<rparr>)" "R (k2\<lparr>yieldOnReturn := False\<rparr>) k'" "R k2 (k2\<lparr>yieldOnReturn := False\<rparr>)"
    using k2(2) R_fields by simp_all
  then show ?thesis using CheckIfDue_R [OF k1] loop_R [OF k2(1)] R_trans by blast
qed

lemma OneTick_R:
  assumes "OneTick run k = Inr k'"
  shows "R k k'"
proof -
  obtain k1 where k1: "loop_result (CheckIfDue_while run ((tick k)\<lparr>level := IntOff\<rparr>)) = Inr k1"
    and r: "(if yieldOnReturn k1
       then bindR (push_frame (RestoreStatus (status k)) (k1\<lparr>level := IntOn, yieldOnReturn := False, status := SystemMode\<rparr>)) Yield
       else Inr (k1\<lparr>level := IntOn\<rparr>)) = Inr k'"
    using assms by (auto simp: OneTick_def Let_def res_simps split: if_splits)
  have "R k ((tick k)\<lparr>level := IntOff\<rparr>)"
    unfolding tick_def Let_def using R_trans R_fields(1,2) by blast
  then have a: "R k k1" using loop_R [OF k1] R_trans by blast
  have b: "R k1 (k1\<lparr>level := IntOn\<rparr>)" by (rule R_fields)
  have c: "R (k1\<lparr>level := IntOn\<rparr>) (k1\<lparr>level := IntOn, yieldOnReturn := False, status := SystemMode\<rparr>)"
    using R_fields(3,4) R_trans by blast
  have d: "R (k1\<lparr>level := IntOn, yieldOnReturn := False, status := SystemMode\<rparr>) k2"
    if "push_frame (RestoreStatus (status k)) (k1\<lparr>level := IntOn, yieldOnReturn := False, status := SystemMode\<rparr>) = Inr k2" for k2
    by (rule push_frame_R [OF that]) simp
  show ?thesis
  proof (cases "yieldOnReturn k1")
    case True
    then obtain k2 where k2: "push_frame (RestoreStatus (status k)) (k1\<lparr>level := IntOn, yieldOnReturn := False, status := SystemMode\<rparr>) = Inr k2"
      "Yield k2 = Inr k'" using r by (auto simp: res_simps)
    show ?thesis using a b c d [OF k2(1)] Yield_R [OF k2(2)] R_trans by blast
  next
    case False
    then show ?thesis using r a b R_trans by auto
  qed
qed

lemma SetLevel_R:
  assumes "SetLevel run l k = Inr k'"
  shows "R k k'"
proof -
  have "R k (k\<lparr>level := l\<rparr>)" by (rule R_fields)
  moreover have "k' = k\<lparr>level := l\<rparr> \<or> OneTick run (k\<lparr>level := l\<rparr>) = Inr k'"
    using assms by (auto simp: SetLevel_def Let_def res_simps split: if_splits)
  ultimately show ?thesis using OneTick_R R_trans by blast
qed

lemma Sleep_loop_R:
  assumes "Sleep_loop run k = Inr k'"
  shows "R k k'"
proof -
  obtain x k1 where f: "FindNextToRun k = (x, k1)" by fastforce
  have a: "R k k1" by (rule FindNextToRun_R [OF f])
  show ?thesis
  proof (cases x)
    case None
    then obtain k2 where k2: "Idle run k1 = Inr k2" "push_frame Sleeping k2 = Inr k'"
      using assms f by (auto simp: Sleep_loop_def res_simps)
    have "R k2 k'" by (rule push_frame_R [OF k2(2)]) simp
    then show ?thesis using a Idle_R [OF k2(1)] R_trans by blast
  next
    case (Some t)
    then show ?thesis using assms f a Run_R R_trans by (auto simp: Sleep_loop_def)
  qed
qed

section \<open>Switching\<close>

lemma RestoreUserState_R:
  assumes "RestoreUserState t k = Inr k'"
  shows "R k k' \<and> threads k' = threads k \<and> currentThread k' = currentThread k"
  using assms by (auto simp: RestoreUserState_def res_simps split: option.splits intro: R_registers)

lemma after_switch_R:
  assumes r: "after_switch k = Inr k'" and q: "dying_quiet k"
  shows "R k k'"
proof -
  obtain k1 and th :: Thread where k1: "(case threadToBeDestroyed k of None \<Rightarrow> Inr k
       | Some t \<Rightarrow> bindR (Thread_delete t k) (\<lambda>k1. Inr (k1\<lparr>threadToBeDestroyed := None\<rparr>))) = Inr k1"
    and th: "get_thread (currentThread k1) k1 = Inr th"
    and k': "(case space th of None \<Rightarrow> Inr k1 | Some a \<Rightarrow> bindR (RestoreUserState (currentThread k1) k1) (RestoreState a)) = Inr k'"
    using r unfolding after_switch_def bindR_eq_Inr by blast
  have "R k k1"
  proof (cases "threadToBeDestroyed k")
    case None
    then show ?thesis using k1 R_refl by simp
  next
    case (Some t)
    then obtain tht where t: "threads k t = Some tht" "k1 = k\<lparr>threads := (threads k)(t := None), threadToBeDestroyed := None\<rparr>"
      using k1 by (auto simp: Thread_delete_def get_thread_def res_simps split: option.splits)
    then show ?thesis using R_delete [OF Some t(1)] q Some by (simp add: dying_quiet_def)
  qed
  moreover have "R k1 k'"
  proof (cases "space th")
    case None
    then show ?thesis using k' R_refl by simp
  next
    case (Some a)
    then obtain k2 where k2: "RestoreUserState (currentThread k1) k1 = Inr k2" "RestoreState a k2 = Inr k'"
      using k' by (auto simp: res_simps)
    have "threads k1 (currentThread k1) = Some th" using th by (auto simp: get_thread_def split: option.splits)
    then have c: "threads k2 (currentThread k2) = Some th" using RestoreUserState_R [OF k2(1)] by simp
    obtain sp m where "spaces k2 a = Some sp" "cpu k2 = Some m"
      "k' = k2\<lparr>cpu := Some (m\<lparr>pageTable := Some (asPageTable sp), pageTableSize := numPages sp\<rparr>)\<rparr>"
      using k2(2) by (cases "spaces k2 a"; cases "cpu k2") (auto simp: RestoreState_def)
    then have "R k2 k'" using R_space [OF _ _ c Some] by blast
    then show ?thesis using RestoreUserState_R [OF k2(1)] R_trans by blast
  qed
  ultimately show ?thesis by (rule R_trans)
qed

section \<open>Steps of the kernel\<close>

lemma P_loop_R:
  assumes th: "threads k (currentThread k) = Some th" "kstack th = Waiting s l # fs"
    and r: "P_loop run s l (put_thread (currentThread k) (th\<lparr>kstack := fs\<rparr>) k) = Inr k'"
  shows "R k k' \<or> (\<exists>k1. took_unit s k k1 \<and> R k1 k')"
proof -
  let ?k = "put_thread (currentThread k) (th\<lparr>kstack := fs\<rparr>) k"
  obtain q where q: "semaphores k s = Some q"
    and c: "(if svalue q = 0
       then bindR (push_frame (Waiting s l) (put_sem s (q\<lparr>squeue := kappend (currentThread k) (squeue q)\<rparr>) ?k)) Sleep
       else SetLevel run l (put_sem s (q\<lparr>svalue := svalue q - 1\<rparr>) ?k)) = Inr k'"
    using r unfolding P_loop_def get_sem_def by (cases "semaphores k s") (simp_all cong: if_cong)
  show ?thesis
  proof (cases "svalue q = 0")
    case True
    let ?j = "put_sem s (q\<lparr>squeue := kappend (currentThread k) (squeue q)\<rparr>) k"
    have "push_frame (Waiting s l) (put_sem s (q\<lparr>squeue := kappend (currentThread k) (squeue q)\<rparr>) ?k) = Inr ?j"
      using th by (auto simp: push_frame_def upd_thread_def get_thread_def put_thread_def put_sem_def fun_upd_idem)
    then have "Sleep ?j = Inr k'" using c True by simp
    then show ?thesis using R_queue [OF q] Sleep_R R_trans by blast
  next
    case False
    then have "took_unit s k (put_sem s (q\<lparr>svalue := svalue q - 1\<rparr>) ?k)" using th q by (auto simp: took_unit_def)
    moreover have "R (put_sem s (q\<lparr>svalue := svalue q - 1\<rparr>) ?k) k'" using c False SetLevel_R by simp
    ultimately show ?thesis by blast
  qed
qed

lemma kstep_R:
  assumes r: "kstep run k = Inr k'" and q: "dying_quiet k"
  shows "R k k' \<or> (\<exists>s k1. took_unit s k k1 \<and> R k1 k')"
proof -
  obtain th where th: "threads k (currentThread k) = Some th"
    using r by (auto simp: kstep_def get_thread_def res_simps split: option.splits)
  show ?thesis
  proof (cases "kstack th")
    case Nil
    then show ?thesis using r th R_refl by (simp add: kstep_def get_thread_def)
  next
    case (Cons f fs)
    let ?k = "put_thread (currentThread k) (th\<lparr>kstack := fs\<rparr>) k"
    have f: "run_frame run f ?k = Inr k'" using r th Cons by (simp add: kstep_def get_thread_def)
    have pop: "R k ?k" if "frame_sems [f] = {}"
      by (rule R_thread [OF th]) (use that Cons in \<open>cases f; simp\<close>)+
    have dq: "dying_quiet ?k" if "frame_sems [f] = {}"
      using q th that Cons by (cases f) (auto simp: dying_quiet_def)
    show ?thesis
    proof (cases f)
      case (Waiting s l)
      then show ?thesis using P_loop_R [OF th] Cons f by auto
    next
      case (RestoreLevel l)
      then show ?thesis using pop f SetLevel_R R_trans by fastforce
    next
      case (RestoreStatus st)
      then show ?thesis using pop f R_fields(4) R_trans by fastforce
    next
      case AfterSwitch
      then show ?thesis using pop f after_switch_R [OF _ dq] R_trans by fastforce
    next
      case Sleeping
      then show ?thesis using pop f Sleep_loop_R R_trans by fastforce
    next
      case Startup
      then obtain k1 where k1: "after_switch ?k = Inr k1" "SetLevel run IntOn k1 = Inr k'"
        using f by (auto simp: SetupThreadState_def Enable_def res_simps)
      have "R ?k k1" using after_switch_R [OF k1(1) dq] Startup by simp
      then show ?thesis using pop Startup SetLevel_R [OF k1(2)] R_trans by fastforce
    qed
  qed
qed

end

end
