(* ===== verification/Nachos_Account.thy ===== *)
theory Nachos_Account
  imports Nachos_Frame Nachos_System
begin

text \<open>
  An accounting of the semaphores, for the exclusion of the devices. For each of the two devices that are
  asked for one thing at a time, the console's display and the disk, the invariant \<open>dev_acc\<close> says that an interrupt is
  pending exactly when the device is busy; the balance \<open>dev_bal\<close> is the value of the device's semaphore and the
  interrupts that will still add to it. The relation \<open>keeps\<close> says that the balances, the values of all other
  semaphores and the threads inside P have not changed, nor the translation of addresses; it is the
  instance of the locale \<open>kernel_frame\<close> on the handlers of the devices.
\<close>

section \<open>The accounts\<close>

definition waits :: "('h, 'd) kernel_scheme \<Rightarrow> semid \<Rightarrow> tid \<Rightarrow> bool" where
  "waits k s t = (case threads k t of None \<Rightarrow> False | Some th \<Rightarrow> s \<in> frame_sems (kstack th))"

definition sval :: "('h, 'd) kernel_scheme \<Rightarrow> semid \<Rightarrow> int" where
  "sval k s = (case semaphores k s of None \<Rightarrow> 0 | Some q \<Rightarrow> svalue q)"

definition pend :: "int_handler \<Rightarrow> nachos \<Rightarrow> int" where
  "pend h k = int (length (filter (\<lambda>e. handler (snd e) = h) (pending k)))"

fun dev_busy :: "int_handler \<Rightarrow> Devices \<Rightarrow> bool" where
  "dev_busy ConsoleWriteDone d = (case console d of None \<Rightarrow> False | Some c \<Rightarrow> putBusy c)"
| "dev_busy DiskDone d = (case synchDisk d of None \<Rightarrow> False | Some sd \<Rightarrow> active (disk sd))"
| "dev_busy _ d = False"

fun dev_sem :: "int_handler \<Rightarrow> Devices \<Rightarrow> semid option" where
  "dev_sem ConsoleWriteDone d = Some (writeDone d)"
| "dev_sem DiskDone d = map_option disk_sem (synchDisk d)"
| "dev_sem _ d = None"

definition dev_acc :: "int_handler \<Rightarrow> int \<Rightarrow> nachos \<Rightarrow> bool" where
  "dev_acc h off k \<longleftrightarrow> pend h k + off = of_bool (dev_busy h (kernel.more k))"

definition dev_bal :: "int_handler \<Rightarrow> int \<Rightarrow> nachos \<Rightarrow> int" where
  "dev_bal h off k = (case dev_sem h (kernel.more k) of None \<Rightarrow> 0 | Some s \<Rightarrow> sval k s) + pend h k + off"

definition dev_names :: "Devices \<Rightarrow> semid \<times> semid \<times> semid \<times> semid \<times> (semid \<times> semid) option \<times> bool" where
  "dev_names d = (readAvail d, writeDone d, m_readLock d, m_writeLock d,
     map_option (\<lambda>sd. (disk_sem sd, disk_lock sd)) (synchDisk d), console d = None)"

definition dev_sems :: "Devices \<Rightarrow> semid set" where
  "dev_sems d = {readAvail d, writeDone d} \<union> disk_sem ` set_option (synchDisk d)"

definition sems_distinct :: "Devices \<Rightarrow> bool" where
  "sems_distinct d \<longleftrightarrow> readAvail d \<noteq> writeDone d \<and>
     (\<forall>sd. synchDisk d = Some sd \<longrightarrow> disk_sem sd \<noteq> readAvail d \<and> disk_sem sd \<noteq> writeDone d)"

text \<open>The processor runs the threads of one address space, through its page table.\<close>

definition mach_ok :: "nat \<Rightarrow> ('h, 'd) kernel_scheme \<Rightarrow> bool" where
  "mach_ok a k \<longleftrightarrow>
     (\<exists>m sp pt. cpu k = Some m \<and> spaces k a = Some sp \<and> tlb m = None \<and> pageTable m = Some (asPageTable sp) \<and>
        pageTableSize m = numPages sp \<and> ptables m (asPageTable sp) = Some pt \<and> numPages sp \<le> length pt \<and> numPages sp \<le> NumPhysPages) \<and>
     (\<forall>t th. threads k t = Some th \<longrightarrow> space th = Some a)"

text \<open>What the accounts do not see, but the threads rely on.\<close>

definition struct_rel :: "nachos \<Rightarrow> nachos \<Rightarrow> bool" where
  "struct_rel k k' \<longleftrightarrow>
     dev_names (kernel.more k') = dev_names (kernel.more k) \<and>
     dom (semaphores k') = dom (semaphores k) \<and>
     (\<forall>a. mach_ok a k \<longrightarrow> mach_ok a k') \<and>
     (threadToBeDestroyed k' = threadToBeDestroyed k \<or> threadToBeDestroyed k' = None) \<and>
     (\<forall>t. threadToBeDestroyed k = Some t \<longrightarrow> threadToBeDestroyed k' \<noteq> Some t \<longrightarrow> threads k' t = None) \<and>
     (\<forall>t. threads k t = None \<longrightarrow> threads k' t = None) \<and>
     (\<forall>t. threads k' t = None \<longrightarrow> threads k t = None \<or> threadToBeDestroyed k = Some t)"

definition acct_rel :: "(int_handler \<Rightarrow> int) \<Rightarrow> (int_handler \<Rightarrow> int) \<Rightarrow> nachos \<Rightarrow> nachos \<Rightarrow> bool" where
  "acct_rel off off' k k' \<longleftrightarrow> struct_rel k k' \<and>
     (\<forall>s t. waits k' s t = waits k s t) \<and>
     (\<forall>s. s \<notin> dev_sems (kernel.more k) \<longrightarrow> sval k' s = sval k s) \<and>
     (\<forall>h. sems_distinct (kernel.more k) \<longrightarrow> dev_acc h (off h) k \<longrightarrow> h = ConsoleWriteDone \<or> h = DiskDone \<longrightarrow>
        dev_acc h (off' h) k' \<and> dev_bal h (off' h) k' = dev_bal h (off h) k)"

definition keeps :: "nachos \<Rightarrow> nachos \<Rightarrow> bool" where
  "keeps k k' = acct_rel (\<lambda>_. 0) (\<lambda>_. 0) k k'"

lemma names_sems: "dev_names d' = dev_names d \<Longrightarrow> dev_sems d' = dev_sems d \<and> sems_distinct d' = sems_distinct d \<and> dev_sem h d' = dev_sem h d"
  by (cases "synchDisk d"; cases "synchDisk d'"; cases h) (auto simp: dev_names_def dev_sems_def sems_distinct_def)

lemma struct_relI:
  assumes "dev_names (kernel.more k') = dev_names (kernel.more k)"
    "dom (semaphores k') = dom (semaphores k)" "\<And>a. mach_ok a k \<Longrightarrow> mach_ok a k'"
    "threadToBeDestroyed k' = threadToBeDestroyed k \<or> threadToBeDestroyed k' = None"
    "\<And>t. threadToBeDestroyed k = Some t \<Longrightarrow> threadToBeDestroyed k' \<noteq> Some t \<Longrightarrow> threads k' t = None"
    "\<And>t. threads k t = None \<Longrightarrow> threads k' t = None"
    "\<And>t. threads k' t = None \<Longrightarrow> threads k t = None \<or> threadToBeDestroyed k = Some t"
  shows "struct_rel k k'"
  using assms unfolding struct_rel_def by auto

lemma struct_relD:
  assumes "struct_rel k k'"
  shows "dev_names (kernel.more k') = dev_names (kernel.more k)"
    "\<And>s. semaphores k s \<noteq> None \<Longrightarrow> semaphores k' s \<noteq> None" "\<And>a. mach_ok a k \<Longrightarrow> mach_ok a k'"
    "threadToBeDestroyed k' = threadToBeDestroyed k \<or> threadToBeDestroyed k' = None"
    "\<And>t. threadToBeDestroyed k = Some t \<Longrightarrow> threadToBeDestroyed k' \<noteq> Some t \<Longrightarrow> threads k' t = None"
    "\<And>t. threads k t = None \<Longrightarrow> threads k' t = None"
    "\<And>t. threads k' t = None \<Longrightarrow> threads k t = None \<or> threadToBeDestroyed k = Some t"
    "dom (semaphores k') = dom (semaphores k)"
  using assms unfolding struct_rel_def by auto

lemma struct_trans:
  assumes "struct_rel k k1" "struct_rel k1 k2"
  shows "struct_rel k k2"
proof -
  note d = struct_relD [OF assms(1)] and e = struct_relD [OF assms(2)]
  show ?thesis
  proof (rule struct_relI)
    show "dev_names (kernel.more k2) = dev_names (kernel.more k)" using d(1) e(1) by simp
    show "dom (semaphores k2) = dom (semaphores k)" using d(8) e(8) by simp
    show "mach_ok x k \<Longrightarrow> mach_ok x k2" for x using d(3) e(3) by blast
    show "threadToBeDestroyed k2 = threadToBeDestroyed k \<or> threadToBeDestroyed k2 = None" using d(4) e(4) by auto
    show "threadToBeDestroyed k = Some t \<Longrightarrow> threadToBeDestroyed k2 \<noteq> Some t \<Longrightarrow> threads k2 t = None" for t
      using d(5) [of t] e(5) [of t] e(6) [of t] by auto
    show "threads k t = None \<Longrightarrow> threads k2 t = None" for t using d(6) e(6) by blast
    show "threads k2 t = None \<Longrightarrow> threads k t = None \<or> threadToBeDestroyed k = Some t" for t
      using d(4) d(7) [of t] e(7) [of t] by auto
  qed
qed

lemma acct_relI:
  assumes "struct_rel k k'" "\<And>s t. waits k' s t = waits k s t"
    "\<And>s. s \<notin> dev_sems (kernel.more k) \<Longrightarrow> sval k' s = sval k s"
    "\<And>h. sems_distinct (kernel.more k) \<Longrightarrow> dev_acc h (off h) k \<Longrightarrow> h = ConsoleWriteDone \<or> h = DiskDone \<Longrightarrow>
        dev_acc h (off' h) k' \<and> dev_bal h (off' h) k' = dev_bal h (off h) k"
  shows "acct_rel off off' k k'"
  using assms unfolding acct_rel_def by blast

lemma acct_relD:
  assumes "acct_rel off off' k k'"
  shows "struct_rel k k'" "\<And>s t. waits k' s t = waits k s t"
    "\<And>s. s \<notin> dev_sems (kernel.more k) \<Longrightarrow> sval k' s = sval k s"
    "\<And>h. sems_distinct (kernel.more k) \<Longrightarrow> dev_acc h (off h) k \<Longrightarrow> h = ConsoleWriteDone \<or> h = DiskDone \<Longrightarrow>
        dev_acc h (off' h) k' \<and> dev_bal h (off' h) k' = dev_bal h (off h) k"
  using assms unfolding acct_rel_def by auto

lemma acct_trans:
  assumes "acct_rel a b k k1" "acct_rel b c k1 k2"
  shows "acct_rel a c k k2"
proof -
  note d = acct_relD [OF assms(1)] and e = acct_relD [OF assms(2)]
  have n: "dev_sems (kernel.more k1) = dev_sems (kernel.more k)" "sems_distinct (kernel.more k1) = sems_distinct (kernel.more k)"
    using names_sems [OF struct_relD(1) [OF d(1)]] by simp_all
  show ?thesis
  proof (rule acct_relI)
    show "struct_rel k k2" by (rule struct_trans [OF d(1) e(1)])
    show "waits k2 s t = waits k s t" for s t using d(2) e(2) by simp
    show "s \<notin> dev_sems (kernel.more k) \<Longrightarrow> sval k2 s = sval k s" for s using d(3) e(3) n by simp
    show "dev_acc h (c h) k2 \<and> dev_bal h (c h) k2 = dev_bal h (a h) k"
      if "sems_distinct (kernel.more k)" "dev_acc h (a h) k" "h = ConsoleWriteDone \<or> h = DiskDone" for h
      using d(4) [OF that] e(4) [of h] n that by simp
  qed
qed

text \<open>Elementary changes.\<close>

lemma acct_frame:
  assumes "struct_rel k k'" "\<And>s t. waits k' s t = waits k s t" "kernel.more k' = kernel.more k" "\<And>s. sval k' s = sval k s"
    "\<And>h. pend h k' = pend h k"
  shows "acct_rel off off k k'"
  by (rule acct_relI) (use assms in \<open>simp_all add: dev_acc_def dev_bal_def cong: option.case_cong\<close>)

lemma struct_same:
  assumes "threads k' = threads k" "dev_names (kernel.more k') = dev_names (kernel.more k)"
    "dom (semaphores k') = dom (semaphores k)" "cpu k' = cpu k" "spaces k' = spaces k"
    "threadToBeDestroyed k' = threadToBeDestroyed k"
  shows "struct_rel k k'"
  by (rule struct_relI) (use assms in \<open>simp_all add: mach_ok_def\<close>)

lemma struct_put_thread: "threads k t = Some th \<Longrightarrow> space th' = space th \<Longrightarrow> struct_rel k (put_thread t th' k)"
  by (rule struct_relI) (auto simp: mach_ok_def split: if_splits)

lemma struct_put_sem: "semaphores k s \<noteq> None \<Longrightarrow> struct_rel k (put_sem s q k)"
  by (rule struct_same) auto

lemma acct_same:
  assumes "threads k' = threads k" "kernel.more k' = kernel.more k" "semaphores k' = semaphores k"
    "mset (pending k') = mset (pending k)" "cpu k' = cpu k" "spaces k' = spaces k"
    "threadToBeDestroyed k' = threadToBeDestroyed k"
  shows "acct_rel off off k k'"
proof -
  have "pend h k' = pend h k" for h
    using assms(4) unfolding pend_def by (metis mset_filter size_mset)
  then show ?thesis using assms by (intro acct_frame struct_same) (simp_all add: waits_def sval_def)
qed

lemma acct_thread:
  assumes "threads k t = Some th" "frame_sems (kstack th') = frame_sems (kstack th)" "space th' = space th"
  shows "acct_rel off off k (put_thread t th' k)"
  by (rule acct_frame [OF struct_put_thread]) (use assms in \<open>auto simp: waits_def sval_def pend_def split: if_splits\<close>)

lemma acct_delete:
  assumes "threadToBeDestroyed k = Some t" "threads k t = Some th" "frame_sems (kstack th) = {}"
  shows "acct_rel off off k (k\<lparr>threads := (threads k)(t := None), threadToBeDestroyed := None\<rparr>)"
  by (rule acct_frame [OF struct_relI]) (use assms in \<open>auto simp: waits_def sval_def mach_ok_def pend_def split: if_splits\<close>)

lemma acct_queue:
  assumes "semaphores k s = Some q"
  shows "acct_rel off off k (put_sem s (q\<lparr>squeue := x\<rparr>) k)"
  by (rule acct_frame [OF struct_put_sem]) (use assms in \<open>auto simp: waits_def sval_def pend_def\<close>)

lemma acct_registers:
  "cpu k = Some m \<Longrightarrow> acct_rel off off k (k\<lparr>cpu := Some (m\<lparr>registers := x\<rparr>)\<rparr>)"
  by (rule acct_frame [OF struct_relI]) (auto simp: waits_def sval_def mach_ok_def pend_def)

lemma acct_space:
  "cpu k = Some m \<Longrightarrow> spaces k a = Some sp \<Longrightarrow> threads k (currentThread k) = Some th \<Longrightarrow> space th = Some a \<Longrightarrow>
   acct_rel off off k (k\<lparr>cpu := Some (m\<lparr>pageTable := Some (asPageTable sp), pageTableSize := numPages sp\<rparr>)\<rparr>)"
  by (rule acct_frame [OF struct_relI]) (auto simp: waits_def sval_def mach_ok_def pend_def)

lemma acct_pop:
  assumes "pending k = (due, p) # rest"
  shows "acct_rel (\<lambda>_. 0) (\<lambda>h. of_bool (h = handler p)) k (k\<lparr>pending := rest\<rparr>)"
proof -
  have "pend h k = pend h (k\<lparr>pending := rest\<rparr>) + of_bool (h = handler p)" for h
    using assms by (auto simp: pend_def)
  then show ?thesis
    by (intro acct_relI struct_same) (auto simp: waits_def sval_def dev_acc_def dev_bal_def cong: option.case_cong)
qed

lemma finish_load_acct: "finish_load k = Inr k' \<Longrightarrow> acct_rel off off k k'"
  by (auto simp: finish_load_def DelayedLoad_def Let_def res_simps split: option.splits if_splits
      intro: acct_registers acct_same)

text \<open>The operations of the handlers.\<close>

lemma sval_set_devices [simp]: "sval (set_devices d k) = sval k"
  by (simp add: sval_def fun_eq_iff)

lemma set_devices_acct:
  assumes "dev_names d = dev_names (kernel.more k)" "\<And>h. dev_busy h d = dev_busy h (kernel.more k)"
  shows "acct_rel off off k (set_devices d k)"
proof -
  have "dev_sem h d = dev_sem h (kernel.more k)" for h using names_sems [OF assms(1)] by simp
  then show ?thesis using assms
    by (intro acct_relI struct_same) (simp_all add: waits_def dev_acc_def dev_bal_def pend_def split: option.split)
qed

lemma pend_insert: "pend h (k\<lparr>pending := ksorted_insert p due (pending k)\<rparr>) = pend h k + of_bool (handler p = h)"
proof -
  have "mset (filter (\<lambda>e. handler (snd e) = h) (ksorted_insert p due (pending k))) =
      mset (filter (\<lambda>e. handler (snd e) = h) ((due, p) # pending k))"
    by (simp add: mset_ksorted_insert mset_filter)
  then have "length (filter (\<lambda>e. handler (snd e) = h) (ksorted_insert p due (pending k))) =
      length (filter (\<lambda>e. handler (snd e) = h) ((due, p) # pending k))"
    by (rule mset_eq_length)
  then show ?thesis by (auto simp: pend_def)
qed

lemma Schedule_acct:
  assumes "Schedule h n ty k = Inr k'" "\<And>x. off' x = off x - of_bool (x = h)"
  shows "acct_rel off off' k k'"
proof -
  obtain due where k': "k' = k\<lparr>pending := ksorted_insert (PendingInterrupt_new h due ty) due (pending k)\<rparr>"
    using assms(1) by (auto simp: Schedule_def Let_def res_simps)
  have "pend x k' = pend x k + of_bool (h = x)" for x
    unfolding k' pend_insert by (simp add: PendingInterrupt_new_def)
  moreover have "threads k' = threads k" "semaphores k' = semaphores k" "cpu k' = cpu k" "spaces k' = spaces k"
    "threadToBeDestroyed k' = threadToBeDestroyed k" "kernel.more k' = kernel.more k" by (simp_all add: k')
  ultimately show ?thesis using assms(2)
    by (intro acct_relI struct_same) (auto simp: waits_def sval_def dev_acc_def dev_bal_def cong: option.case_cong)
qed

lemma V_atomic_effect:
  assumes "V_atomic s k = Inr k'"
  shows "waits k' s' t = waits k s' t" "sval k' s' = sval k s' + of_bool (s' = s)" "kernel.more k' = kernel.more k"
    "pending k' = pending k" "cpu k' = cpu k" "spaces k' = spaces k" "threadToBeDestroyed k' = threadToBeDestroyed k"
    "map_option space (threads k' t) = map_option space (threads k t)" "currentThread k' = currentThread k"
    "map_option kstack (threads k' t) = map_option kstack (threads k t)" "dom (semaphores k') = dom (semaphores k)"
proof -
  obtain q where q: "semaphores k s = Some q" using assms by (auto simp: V_atomic_def get_sem_def res_simps split: option.splits)
  consider "squeue q = []" "k' = put_sem s (q\<lparr>squeue := [], svalue := svalue q + 1\<rparr>) k"
    | e rest th where "squeue q = e # rest" "threads k (snd e) = Some th"
      "k' = put_sem s (q\<lparr>squeue := rest, svalue := svalue q + 1\<rparr>)
         ((put_thread (snd e) (th\<lparr>tstatus := READY\<rparr>) k)\<lparr>readyList := kappend (snd e) (readyList k)\<rparr>)"
    using assms q by (cases "squeue q")
      (auto simp: V_atomic_def get_sem_def ReadyToRun_def upd_thread_def get_thread_def res_simps split: option.splits)
  then show "waits k' s' t = waits k s' t" "sval k' s' = sval k s' + of_bool (s' = s)" "kernel.more k' = kernel.more k"
    "pending k' = pending k" "cpu k' = cpu k" "spaces k' = spaces k" "threadToBeDestroyed k' = threadToBeDestroyed k"
    "map_option space (threads k' t) = map_option space (threads k t)" "currentThread k' = currentThread k"
    "map_option kstack (threads k' t) = map_option kstack (threads k t)" "dom (semaphores k') = dom (semaphores k)"
    by (cases; use q in \<open>auto simp: waits_def sval_def split: option.splits\<close>)+
qed

lemma V_atomic_struct:
  assumes "V_atomic s k = Inr k'"
  shows "struct_rel k k'"
proof -
  note e = V_atomic_effect [OF assms]
  have n: "(threads k' t = None) = (threads k t = None)" for t using e(8) [of t] by (cases "threads k t"; cases "threads k' t") auto
  have "\<exists>th0. threads k t = Some th0 \<and> space th0 = space th" if "threads k' t = Some th" for t th
    using e(8) [of t] that by (cases "threads k t") auto
  then have m: "mach_ok a k \<Longrightarrow> mach_ok a k'" for a using e(5,6) unfolding mach_ok_def by metis
  show ?thesis by (rule struct_relI) (use e n m in simp_all)
qed

lemma V_readAvail_acct:
  assumes "V_atomic (readAvail (kernel.more k)) k = Inr k'"
  shows "acct_rel off off k k'"
proof -
  note e = V_atomic_effect [OF assms]
  have "sval k' s = sval k s" if "s \<noteq> readAvail (kernel.more k)" for s using e(2) [of s] that by simp
  moreover have "pend h k' = pend h k" for h by (simp add: pend_def e(4))
  ultimately show ?thesis using e V_atomic_struct [OF assms]
    by (intro acct_relI) (auto simp: dev_acc_def dev_bal_def sems_distinct_def dev_sems_def split: option.splits)
qed

text \<open>The completion of a request: the device is idle, its semaphore has one more unit.\<close>

lemma V_device_acct:
  assumes v: "V_atomic s k1 = Inr k'" and s: "dev_sem h (kernel.more k) = Some s"
    and k1: "threads k1 = threads k" "semaphores k1 = semaphores k" "pending k1 = pending k" "cpu k1 = cpu k" "spaces k1 = spaces k"
      "threadToBeDestroyed k1 = threadToBeDestroyed k" "dev_names (kernel.more k1) = dev_names (kernel.more k)"
      "\<not> dev_busy h (kernel.more k1)" "\<And>x. x \<noteq> h \<Longrightarrow> dev_busy x (kernel.more k1) = dev_busy x (kernel.more k)"
  shows "acct_rel (\<lambda>x. of_bool (x = h)) (\<lambda>_. 0) k k'"
proof -
  note e = V_atomic_effect [OF v]
  have m: "struct_rel k k1" by (rule struct_same) (use k1 in simp_all)
  have v1: "sval k' x = sval k x + of_bool (x = s)" for x using e(2) [of x] k1(2) by (simp add: sval_def)
  have p: "pend x k' = pend x k" for x using e(4) k1(3) by (simp add: pend_def)
  have n: "dev_sem x (kernel.more k') = dev_sem x (kernel.more k)" for x using names_sems [OF k1(7)] e(3) by simp
  have sd: "s \<in> dev_sems (kernel.more k)" using s by (cases h) (auto simp: dev_sems_def)
  have o: "dev_sem x (kernel.more k) \<noteq> Some s" if "sems_distinct (kernel.more k)" "x \<noteq> h" "x = ConsoleWriteDone \<or> x = DiskDone" for x
    using that s by (cases h; cases x) (auto simp: sems_distinct_def)
  have acc: "dev_acc x 0 k' \<and> dev_bal x 0 k' = dev_bal x (of_bool (x = h)) k"
    if "sems_distinct (kernel.more k)" "dev_acc x (of_bool (x = h)) k" "x = ConsoleWriteDone \<or> x = DiskDone" for x
  proof (cases "x = h")
    case True
    have "pend h k + 1 = of_bool (dev_busy h (kernel.more k))" using that(2) True by (simp add: dev_acc_def)
    then have "pend h k = 0" by (cases "dev_busy h (kernel.more k)") (auto simp: pend_def)
    then show ?thesis using True k1(8) e(3) p n v1 s by (simp add: dev_acc_def dev_bal_def)
  next
    case False
    then show ?thesis using that o [OF that(1) False that(3)] p n v1 e(3) k1(9)
      by (auto simp: dev_acc_def dev_bal_def split: option.splits)
  qed
  have w: "waits k' x t = waits k x t" for x t using e(1) [of x t] k1(1) by (simp add: waits_def)
  show ?thesis
    using w acc v1 sd struct_trans [OF m V_atomic_struct [OF v]] by (intro acct_relI) auto
qed


section \<open>The handlers\<close>

lemma acct_cong:
  assumes "acct_rel off off' k k'"
    and "\<And>x. x = ConsoleWriteDone \<or> x = DiskDone \<Longrightarrow> p x = off x \<and> p' x = off' x"
  shows "acct_rel p p' k k'"
  using acct_relD [OF assms(1)] by (intro acct_relI) (simp_all add: assms(2))

lemma keeps_acct: "keeps k k' \<Longrightarrow> h \<noteq> ConsoleWriteDone \<Longrightarrow> h \<noteq> DiskDone \<Longrightarrow> acct_rel (\<lambda>x. of_bool (x = h)) (\<lambda>_. 0) k k'"
  unfolding keeps_def by (erule acct_cong) auto

lemma keeps_trans: "keeps k k1 \<Longrightarrow> keeps k1 k2 \<Longrightarrow> keeps k k2"
  unfolding keeps_def by (rule acct_trans)

lemma Schedule_keeps_acct:
  assumes "Schedule h n ty k = Inr k'" "h \<noteq> ConsoleWriteDone" "h \<noteq> DiskDone"
  shows "keeps k k'"
proof -
  have "acct_rel (\<lambda>x. of_bool (x = h)) (\<lambda>x. 0) k k'" by (rule Schedule_acct [OF assms(1)]) simp
  then show ?thesis unfolding keeps_def by (rule acct_cong) (use assms(2,3) in auto)
qed

lemma dev_busy_rand [simp]: "dev_busy h (d\<lparr>rand_count := n\<rparr>) = dev_busy h d"
  by (cases h) simp_all

lemma timer_keeps:
  assumes "timer_interrupt k = Inr k'"
  shows "keeps k k'"
proof -
  obtain b where b: "randomize (kernel.more k) = Some b" using assms by (auto simp: timer_interrupt_def split: option.splits)
  obtain r k1 where k1: "(if b then Random k else (0, k)) = (r, k1)" by fastforce
  obtain k2 where k2: "Schedule TimerHandler (TimeOfNextInterrupt b r) TimerInt k1 = Inr k2" "TimerInterruptHandler k2 = Inr k'"
    using assms b k1 by (auto simp: timer_interrupt_def TimerExpired_def res_simps)
  have "keeps k k1"
    using k1 unfolding keeps_def Random_def Let_def
    by (auto intro!: set_devices_acct acct_same simp: dev_names_def split: if_splits)
  moreover have "keeps k1 k2" by (rule Schedule_keeps_acct [OF k2(1)]) simp_all
  moreover have "keeps k2 k'"
    using k2(2) unfolding keeps_def by (auto simp: TimerInterruptHandler_def YieldOnReturn_def res_simps intro!: acct_same split: if_splits)
  ultimately show ?thesis using keeps_trans by blast
qed

lemma set_console_keeps:
  assumes "console (kernel.more k) = Some c" "putBusy c' = putBusy c"
  shows "keeps k (set_console c' k)"
  unfolding keeps_def set_console_def
proof (rule set_devices_acct)
  show "dev_names (kernel.more k\<lparr>console := Some c'\<rparr>) = dev_names (kernel.more k)" using assms by (simp add: dev_names_def)
  show "dev_busy h (kernel.more k\<lparr>console := Some c'\<rparr>) = dev_busy h (kernel.more k)" for h
    using assms by (cases h) simp_all
qed

lemma read_char_busy: "read_char c = (a, c') \<Longrightarrow> putBusy c' = putBusy c"
  by (auto simp: read_char_def ReadPartial_def Let_def split: if_splits prod.splits option.splits list.splits)

lemma CheckCharAvail_keeps:
  assumes "CheckCharAvail k = Inr k'"
  shows "keeps k k'"
proof -
  obtain c where c: "console (kernel.more k) = Some c" using assms by (auto simp: CheckCharAvail_def split: option.splits)
  obtain ready c1 where p: "PollFile c = (ready, c1)" by fastforce
  obtain a c2 where a: "read_char c1 = (a, c2)" by fastforce
  have b: "putBusy c1 = putBusy c" "putBusy c2 = putBusy c"
    using p read_char_busy [OF a] by (auto simp: PollFile_def split: list.splits)
  note sc = set_console_keeps [OF c]
  have sched: "Schedule ConsoleReadPoll n ty j = Inr j' \<Longrightarrow> keeps j j'" for n ty j j'
    by (erule Schedule_keeps_acct) simp_all
  have v: "V_atomic (readAvail (kernel.more k)) j = Inr j' \<Longrightarrow> readAvail (kernel.more j) = readAvail (kernel.more k) \<Longrightarrow> keeps j j'" for j j'
    unfolding keeps_def using V_readAvail_acct [of j] by simp
  have cc: "keeps j (count_char_read j)" for j unfolding keeps_def count_char_read_def by (rule acct_same) simp_all
  have ra: "Schedule x n ty j = Inr j' \<Longrightarrow> kernel.more j' = kernel.more j" for x n ty j j'
    by (auto simp: Schedule_def Let_def res_simps)
  have more: "readAvail (kernel.more (set_console c' k)) = readAvail (kernel.more k)"
    "kernel.more (count_char_read j) = kernel.more j" for c' j
    by (simp_all add: set_console_def count_char_read_def)
  have read: "case a of EndOfFile \<Rightarrow> \<exists>k3. V_atomic (readAvail (kernel.more k)) (set_console c2 k) = Inr k3 \<and>
         Schedule ConsoleReadPoll ConsoleTime ConsoleReadInt k3 = Inr k'
     | Dropped \<Rightarrow> k' = set_console c2 k
     | CharRead \<Rightarrow> \<exists>k3. Schedule ConsoleReadPoll ConsoleTime ConsoleReadInt (set_console c2 k) = Inr k3 \<and>
         V_atomic (readAvail (kernel.more k)) (count_char_read k3) = Inr k'"
    if "readFileNo c \<noteq> - 1" "incoming c = EOF" ready
    using assms c p a that by (auto simp: CheckCharAvail_def handler_V_def Let_def res_simps split: arrival.splits)
  show ?thesis
  proof (cases "readFileNo c = - 1 \<or> incoming c \<noteq> EOF \<or> \<not> ready")
    case True
    have "k' = set_console (c\<lparr>readFileNo := -2\<rparr>) k \<or> Schedule ConsoleReadPoll ConsoleTime ConsoleReadInt k = Inr k' \<or>
        Schedule ConsoleReadPoll ConsoleTime ConsoleReadInt (set_console c1 k) = Inr k'"
      using assms c p True by (auto simp: CheckCharAvail_def Let_def split: if_splits)
    moreover have "keeps k (set_console (c\<lparr>readFileNo := -2\<rparr>) k)" "keeps k (set_console c1 k)"
      by (rule sc; simp add: b)+
    ultimately show ?thesis using sched keeps_trans by blast
  next
    case False
    have e: "keeps k (set_console c2 k)" by (rule sc) (simp add: b)
    show ?thesis
    proof (cases a)
      case EndOfFile
      then obtain k3 where k3: "V_atomic (readAvail (kernel.more k)) (set_console c2 k) = Inr k3"
         "Schedule ConsoleReadPoll ConsoleTime ConsoleReadInt k3 = Inr k'" using read False by auto
      show ?thesis using e v [OF k3(1) more(1)] sched [OF k3(2)] keeps_trans by blast
    next
      case Dropped
      then show ?thesis using read False e by auto
    next
      case CharRead
      then obtain k3 where k3: "Schedule ConsoleReadPoll ConsoleTime ConsoleReadInt (set_console c2 k) = Inr k3"
         "V_atomic (readAvail (kernel.more k)) (count_char_read k3) = Inr k'" using read False by auto
      have "readAvail (kernel.more (count_char_read k3)) = readAvail (kernel.more k)" using ra [OF k3(1)] more by simp
      then show ?thesis using e sched [OF k3(1)] cc v [OF k3(2)] keeps_trans by blast
    qed
  qed
qed

lemma run_handler_acct:
  assumes "run_handler h k = Inr k'"
  shows "acct_rel (\<lambda>x. of_bool (x = h)) (\<lambda>_. 0) k k'"
proof (cases h)
  case TimerHandler
  then show ?thesis using timer_keeps assms by (intro keeps_acct) auto
next
  case ConsoleReadPoll
  then show ?thesis using CheckCharAvail_keeps assms by (intro keeps_acct) auto
next
  case DiskDone
  then obtain sd where sd: "synchDisk (kernel.more k) = Some sd"
    "V_atomic (disk_sem sd) (set_disk ((disk sd)\<lparr>active := False\<rparr>) k) = Inr k'"
    using assms by (auto simp: HandleInterrupt_def handler_V_def split: option.splits)
  have "dev_busy x (kernel.more (set_disk ((disk sd)\<lparr>active := False\<rparr>) k)) = dev_busy x (kernel.more k)" if "x \<noteq> DiskDone" for x
    using that by (cases x) (simp_all add: set_disk_def)
  then show ?thesis unfolding DiskDone
    by (intro V_device_acct [OF sd(2)]) (use sd(1) in \<open>simp_all add: set_disk_def dev_names_def\<close>)
next
  case ConsoleWriteDone
  then obtain c where c: "console (kernel.more k) = Some c"
    "V_atomic (writeDone (kernel.more k)) (count_char_written (set_console (c\<lparr>putBusy := False\<rparr>) k)) = Inr k'"
    using assms by (auto simp: WriteDone_def handler_V_def split: option.splits)
  let ?k = "count_char_written (set_console (c\<lparr>putBusy := False\<rparr>) k)"
  have "dev_busy x (kernel.more ?k) = dev_busy x (kernel.more k)" if "x \<noteq> ConsoleWriteDone" for x
    using that by (cases x) (simp_all add: set_console_def count_char_written_def)
  then show ?thesis unfolding ConsoleWriteDone
    by (intro V_device_acct [OF c(2)]) (use c(1) in \<open>simp_all add: set_console_def count_char_written_def dev_names_def\<close>)
qed

lemma fire_acct:
  assumes p: "pending k = (due, p) # rest" and f: "fire run_handler p (k\<lparr>pending := rest\<rparr>) = Inr k'"
  shows "keeps k k'"
proof -
  let ?off = "\<lambda>x. of_bool (x = handler p)"
  obtain k1 k2 where k1: "finish_load (k\<lparr>pending := rest\<rparr>) = Inr k1"
    "run_handler (handler p) (k1\<lparr>inHandler := True, status := SystemMode\<rparr>) = Inr k2"
    "k' = k2\<lparr>status := status k, inHandler := False\<rparr>"
    using f by (auto simp: fire_def res_simps)
  have "acct_rel (\<lambda>_. 0) ?off k (k\<lparr>pending := rest\<rparr>)" by (rule acct_pop [OF p])
  moreover have "acct_rel ?off ?off (k\<lparr>pending := rest\<rparr>) k1" by (rule finish_load_acct [OF k1(1)])
  moreover have "acct_rel ?off ?off k1 (k1\<lparr>inHandler := True, status := SystemMode\<rparr>)" by (rule acct_same) simp_all
  moreover note run_handler_acct [OF k1(2)]
  moreover have "acct_rel (\<lambda>_. 0) (\<lambda>_. 0) k2 k'" by (rule acct_same) (simp_all add: k1(3))
  ultimately show ?thesis unfolding keeps_def using acct_trans by blast
qed

interpretation acct: kernel_frame run_handler keeps
proof unfold_locales
  fix k k' k1 k2 :: nachos and t th th' s q m a sp due p rest x7
  show "keeps k k1 \<Longrightarrow> keeps k1 k2 \<Longrightarrow> keeps k k2" by (rule keeps_trans)
  show "threads k t = Some th \<Longrightarrow> frame_sems (kstack th') = frame_sems (kstack th) \<Longrightarrow> space th' = space th \<Longrightarrow> keeps k (put_thread t th' k)"
    unfolding keeps_def by (rule acct_thread)
  show "threadToBeDestroyed k = Some t \<Longrightarrow> threads k t = Some th \<Longrightarrow> frame_sems (kstack th) = {} \<Longrightarrow>
      keeps k (k\<lparr>threads := (threads k)(t := None), threadToBeDestroyed := None\<rparr>)"
    unfolding keeps_def by (rule acct_delete)
  show "semaphores k s = Some q \<Longrightarrow> keeps k (put_sem s (q\<lparr>squeue := x7\<rparr>) k)"
    unfolding keeps_def by (rule acct_queue)
  show "cpu k = Some m \<Longrightarrow> keeps k (k\<lparr>cpu := Some (m\<lparr>registers := x8\<rparr>)\<rparr>)" for x8
    unfolding keeps_def by (rule acct_registers)
  show "cpu k = Some m \<Longrightarrow> spaces k a = Some sp \<Longrightarrow> threads k (currentThread k) = Some th \<Longrightarrow> space th = Some a \<Longrightarrow>
      keeps k (k\<lparr>cpu := Some (m\<lparr>pageTable := Some (asPageTable sp), pageTableSize := numPages sp\<rparr>)\<rparr>)"
    unfolding keeps_def by (rule acct_space)
  show "pending k = (due, p) # rest \<Longrightarrow> fire run_handler p (k\<lparr>pending := rest\<rparr>) = Inr k' \<Longrightarrow> keeps k k'"
    by (rule fire_acct)
qed (simp_all add: keeps_def acct_same)

end
