(* ===== verification/Nachos_Mips.thy ===== *)
theory Nachos_Mips
  imports Nachos_Machine
begin

text \<open>
  The instruction simulator of \<^verbatim>\<open>code/machine/mipssim.cc\<close> and \<^verbatim>\<open>mipssim.h\<close>: the opcode tables,
  Instruction::Decode, one definition per case (or group of cases that share their code) of the
  switch of Machine::OneInstruction in the order of the source, Mult, and OneInstruction itself.

  Registers are 32-bit words; \<open>uint\<close> and \<open>sint\<close> read them as C's unsigned and signed integers.
  Signed additions, subtractions and left shifts of the C++ code wrap, as the code relies on.
  \<open>>>\<close> on a signed operand is the arithmetic shift \<open>signed_drop_bit\<close>.
\<close>

section \<open>Opcodes and decoding\<close>

datatype (plugins only: code size) OpCode =
    OP_ADD | OP_ADDI | OP_ADDIU | OP_ADDU | OP_AND | OP_ANDI | OP_BEQ | OP_BGEZ
  | OP_BGEZAL | OP_BGTZ | OP_BLEZ | OP_BLTZ | OP_BLTZAL | OP_BNE | OP_DIV | OP_DIVU
  | OP_J | OP_JAL | OP_JALR | OP_JR | OP_LB | OP_LBU | OP_LH | OP_LHU
  | OP_LUI | OP_LW | OP_LWL | OP_LWR | OP_MFHI | OP_MFLO | OP_MTHI | OP_MTLO
  | OP_MULT | OP_MULTU | OP_NOR | OP_OR | OP_ORI | OP_RFE | OP_SB | OP_SH
  | OP_SLL | OP_SLLV | OP_SLT | OP_SLTI | OP_SLTIU | OP_SLTU | OP_SRA | OP_SRAV
  | OP_SRL | OP_SRLV | OP_SUB | OP_SUBU | OP_SW | OP_SWL | OP_SWR | OP_XOR
  | OP_XORI | OP_SYSCALL | OP_UNIMP | OP_RES
  | SPECIAL | BCOND

datatype format = IFMT | JFMT | RFMT

definition opTable :: "(OpCode \<times> format) list" where
  "opTable =
     [(SPECIAL, RFMT), (BCOND, IFMT), (OP_J, JFMT), (OP_JAL, JFMT),
      (OP_BEQ, IFMT), (OP_BNE, IFMT), (OP_BLEZ, IFMT), (OP_BGTZ, IFMT),
      (OP_ADDI, IFMT), (OP_ADDIU, IFMT), (OP_SLTI, IFMT), (OP_SLTIU, IFMT),
      (OP_ANDI, IFMT), (OP_ORI, IFMT), (OP_XORI, IFMT), (OP_LUI, IFMT),
      (OP_UNIMP, IFMT), (OP_UNIMP, IFMT), (OP_UNIMP, IFMT), (OP_UNIMP, IFMT),
      (OP_RES, IFMT), (OP_RES, IFMT), (OP_RES, IFMT), (OP_RES, IFMT),
      (OP_RES, IFMT), (OP_RES, IFMT), (OP_RES, IFMT), (OP_RES, IFMT),
      (OP_RES, IFMT), (OP_RES, IFMT), (OP_RES, IFMT), (OP_RES, IFMT),
      (OP_LB, IFMT), (OP_LH, IFMT), (OP_LWL, IFMT), (OP_LW, IFMT),
      (OP_LBU, IFMT), (OP_LHU, IFMT), (OP_LWR, IFMT), (OP_RES, IFMT),
      (OP_SB, IFMT), (OP_SH, IFMT), (OP_SWL, IFMT), (OP_SW, IFMT),
      (OP_RES, IFMT), (OP_RES, IFMT), (OP_SWR, IFMT), (OP_RES, IFMT),
      (OP_UNIMP, IFMT), (OP_UNIMP, IFMT), (OP_UNIMP, IFMT), (OP_UNIMP, IFMT),
      (OP_RES, IFMT), (OP_RES, IFMT), (OP_RES, IFMT), (OP_RES, IFMT),
      (OP_UNIMP, IFMT), (OP_UNIMP, IFMT), (OP_UNIMP, IFMT), (OP_UNIMP, IFMT),
      (OP_RES, IFMT), (OP_RES, IFMT), (OP_RES, IFMT), (OP_RES, IFMT)]"

definition specialTable :: "OpCode list" where
  "specialTable =
     [OP_SLL, OP_RES, OP_SRL, OP_SRA, OP_SLLV, OP_RES, OP_SRLV, OP_SRAV,
      OP_JR, OP_JALR, OP_RES, OP_RES, OP_SYSCALL, OP_UNIMP, OP_RES, OP_RES,
      OP_MFHI, OP_MTHI, OP_MFLO, OP_MTLO, OP_RES, OP_RES, OP_RES, OP_RES,
      OP_MULT, OP_MULTU, OP_DIV, OP_DIVU, OP_RES, OP_RES, OP_RES, OP_RES,
      OP_ADD, OP_ADDU, OP_SUB, OP_SUBU, OP_AND, OP_OR, OP_XOR, OP_NOR,
      OP_RES, OP_RES, OP_SLT, OP_SLTU, OP_RES, OP_RES, OP_RES, OP_RES,
      OP_RES, OP_RES, OP_RES, OP_RES, OP_RES, OP_RES, OP_RES, OP_RES,
      OP_RES, OP_RES, OP_RES, OP_RES, OP_RES, OP_RES, OP_RES, OP_RES]"

record Instruction =
  ivalue :: "32 word"
  opCode :: OpCode
  rs :: nat
  rt :: nat
  rd :: nat
  extra :: "32 word"

definition Decode :: "32 word \<Rightarrow> Instruction" where
  "Decode v =
     (let opPtr = opTable ! unat (drop_bit 26 v AND 0x3f);
          ext = (case snd opPtr of
                   IFMT \<Rightarrow> (let e = v AND 0xffff in if e AND 0x8000 \<noteq> 0 then e OR 0xffff0000 else e)
                 | RFMT \<Rightarrow> drop_bit 6 v AND 0x1f
                 | JFMT \<Rightarrow> v AND 0x3ffffff);
          op = (if fst opPtr = SPECIAL then specialTable ! unat (v AND 0x3f)
                else if fst opPtr = BCOND
                then (let i = v AND 0x1f0000 in
                      if i = 0 then OP_BLTZ
                      else if i = 0x10000 then OP_BGEZ
                      else if i = 0x100000 then OP_BLTZAL
                      else if i = 0x110000 then OP_BGEZAL
                      else OP_UNIMP)
                else fst opPtr)
      in \<lparr>ivalue = v, opCode = op,
          rs = unat (drop_bit 21 v AND 0x1f), rt = unat (drop_bit 16 v AND 0x1f),
          rd = unat (drop_bit 11 v AND 0x1f), extra = ext\<rparr>)"

section \<open>Multiplication\<close>

text \<open>The \<^verbatim>\<open>for\<close> loop of Mult; \<open>n\<close> is the number of iterations left, the result is (hi, lo).\<close>

fun Mult_loop :: "nat \<Rightarrow> 32 word \<Rightarrow> 32 word \<Rightarrow> 32 word \<Rightarrow> 32 word \<Rightarrow> 32 word \<Rightarrow> 32 word \<times> 32 word" where
  "Mult_loop 0 a bHi bLo hi lo = (hi, lo)"
| "Mult_loop (Suc n) a bHi bLo hi lo =
     (let addb = (a AND 1 \<noteq> 0);
          lo' = (if addb then lo + bLo else lo);
          hi' = (if addb then (if lo' < bLo then hi + 1 else hi) + bHi else hi)
      in if addb \<and> a AND 0xfffffffe = 0 then (hi', lo')
         else Mult_loop n (signed_drop_bit 1 a)
                (push_bit 1 bHi OR (if bLo AND 0x80000000 \<noteq> 0 then 1 else 0)) (push_bit 1 bLo) hi' lo')"

definition Mult :: "32 word \<Rightarrow> 32 word \<Rightarrow> bool \<Rightarrow> 32 word \<times> 32 word" where
  "Mult a b signedArith =
     (if a = 0 \<or> b = 0 then (0, 0)
      else let negA = (signedArith \<and> sint a < 0);
               negB = (signedArith \<and> sint b < 0);
               a' = (if negA then - a else a);
               b' = (if negB then - b else b);
               (hi, lo) = Mult_loop 32 a' 0 b' 0 0
           in if negA \<noteq> negB
              then (let lo' = NOT lo + 1 in (if lo' = 0 then NOT hi + 1 else NOT hi, lo'))
              else (hi, lo))"

section \<open>Execution\<close>

text \<open>
  Executing the decoded instruction either traps (RaiseException and return) or goes on with a
  delayed load and the value of pcAfter.
\<close>

datatype exec_result =
    Trapped trap
  | Completed (nextLoadReg: reg_word) (nextLoadValue: reg_word) (next_pc: reg_word)

type_synonym exec_res = "(exec_result \<times> machine) res"

abbreviation (input) SIGN_BIT :: reg_word where "SIGN_BIT \<equiv> 0x80000000"

definition reg :: "machine \<Rightarrow> nat \<Rightarrow> reg_word" where
  "reg m n = registers m ! n"

definition set_reg :: "nat \<Rightarrow> reg_word \<Rightarrow> machine \<Rightarrow> machine" where
  "set_reg n v m = m\<lparr>registers := (registers m)[n := v]\<rparr>"

definition IndexToAddr :: "reg_word \<Rightarrow> reg_word" where
  "IndexToAddr x = push_bit 2 x"

definition completed :: "reg_word \<Rightarrow> machine \<Rightarrow> exec_res" where
  "completed pcAfter m = Inr (Completed 0 0 pcAfter, m)"

definition trapped :: "ExceptionType \<Rightarrow> reg_word \<Rightarrow> machine \<Rightarrow> exec_res" where
  "trapped which badVAddr m = Inr (Trapped (which, badVAddr), m)"

subsection \<open>Addition and bitwise and\<close>

definition exec_ADD :: "Instruction \<Rightarrow> reg_word \<Rightarrow> machine \<Rightarrow> exec_res" where
  "exec_ADD i pcAfter m =
     (let total = reg m (rs i) + reg m (rt i) in
      if (reg m (rs i) XOR reg m (rt i)) AND SIGN_BIT = 0 \<and> (reg m (rs i) XOR total) AND SIGN_BIT \<noteq> 0
      then trapped OverflowException 0 m
      else completed pcAfter (set_reg (rd i) total m))"

definition exec_ADDI :: "Instruction \<Rightarrow> reg_word \<Rightarrow> machine \<Rightarrow> exec_res" where
  "exec_ADDI i pcAfter m =
     (let total = reg m (rs i) + extra i in
      if (reg m (rs i) XOR extra i) AND SIGN_BIT = 0 \<and> (extra i XOR total) AND SIGN_BIT \<noteq> 0
      then trapped OverflowException 0 m
      else completed pcAfter (set_reg (rt i) total m))"

definition exec_ADDIU :: "Instruction \<Rightarrow> reg_word \<Rightarrow> machine \<Rightarrow> exec_res" where
  "exec_ADDIU i pcAfter m = completed pcAfter (set_reg (rt i) (reg m (rs i) + extra i) m)"

definition exec_ADDU :: "Instruction \<Rightarrow> reg_word \<Rightarrow> machine \<Rightarrow> exec_res" where
  "exec_ADDU i pcAfter m = completed pcAfter (set_reg (rd i) (reg m (rs i) + reg m (rt i)) m)"

definition exec_AND :: "Instruction \<Rightarrow> reg_word \<Rightarrow> machine \<Rightarrow> exec_res" where
  "exec_AND i pcAfter m = completed pcAfter (set_reg (rd i) (reg m (rs i) AND reg m (rt i)) m)"

definition exec_ANDI :: "Instruction \<Rightarrow> reg_word \<Rightarrow> machine \<Rightarrow> exec_res" where
  "exec_ANDI i pcAfter m = completed pcAfter (set_reg (rt i) (reg m (rs i) AND (extra i AND 0xffff)) m)"

subsection \<open>Branches\<close>

text \<open>\<open>branch_if c\<close> is the statement \<^verbatim>\<open>if (c) pcAfter = registers[NextPCReg] + IndexToAddr(extra)\<close>.\<close>

definition branch_if :: "bool \<Rightarrow> Instruction \<Rightarrow> reg_word \<Rightarrow> machine \<Rightarrow> exec_res" where
  "branch_if c i pcAfter m =
     completed (if c then reg m NextPCReg + IndexToAddr (extra i) else pcAfter) m"

definition exec_BEQ :: "Instruction \<Rightarrow> reg_word \<Rightarrow> machine \<Rightarrow> exec_res" where
  "exec_BEQ i pcAfter m = branch_if (reg m (rs i) = reg m (rt i)) i pcAfter m"

definition exec_BGEZ :: "Instruction \<Rightarrow> reg_word \<Rightarrow> machine \<Rightarrow> exec_res" where
  "exec_BGEZ i pcAfter m = branch_if (reg m (rs i) AND SIGN_BIT = 0) i pcAfter m"

definition exec_BGEZAL :: "Instruction \<Rightarrow> reg_word \<Rightarrow> machine \<Rightarrow> exec_res" where
  "exec_BGEZAL i pcAfter m = exec_BGEZ i pcAfter (set_reg RetAddrReg (reg m NextPCReg + 4) m)"

definition exec_BGTZ :: "Instruction \<Rightarrow> reg_word \<Rightarrow> machine \<Rightarrow> exec_res" where
  "exec_BGTZ i pcAfter m = branch_if (sint (reg m (rs i)) > 0) i pcAfter m"

definition exec_BLEZ :: "Instruction \<Rightarrow> reg_word \<Rightarrow> machine \<Rightarrow> exec_res" where
  "exec_BLEZ i pcAfter m = branch_if (sint (reg m (rs i)) \<le> 0) i pcAfter m"

definition exec_BLTZ :: "Instruction \<Rightarrow> reg_word \<Rightarrow> machine \<Rightarrow> exec_res" where
  "exec_BLTZ i pcAfter m = branch_if (reg m (rs i) AND SIGN_BIT \<noteq> 0) i pcAfter m"

definition exec_BLTZAL :: "Instruction \<Rightarrow> reg_word \<Rightarrow> machine \<Rightarrow> exec_res" where
  "exec_BLTZAL i pcAfter m = exec_BLTZ i pcAfter (set_reg RetAddrReg (reg m NextPCReg + 4) m)"

definition exec_BNE :: "Instruction \<Rightarrow> reg_word \<Rightarrow> machine \<Rightarrow> exec_res" where
  "exec_BNE i pcAfter m = branch_if (reg m (rs i) \<noteq> reg m (rt i)) i pcAfter m"

subsection \<open>Division\<close>

text \<open>
  The C++ quotient of two \<^verbatim>\<open>int\<close>s truncates; for the most negative one divided by -1 the host's
  division instruction traps and the simulator dies with it.
\<close>

definition exec_DIV :: "Instruction \<Rightarrow> reg_word \<Rightarrow> machine \<Rightarrow> exec_res" where
  "exec_DIV i pcAfter m =
     (let a = reg m (rs i); b = reg m (rt i) in
      if b = 0 then completed pcAfter (set_reg HiReg 0 (set_reg LoReg 0 m))
      else if sint a = - (2 ^ 31) \<and> sint b = - 1 then Inl ArithmeticTrap
      else completed pcAfter
             (set_reg HiReg (word_of_int (sint a smod sint b))
               (set_reg LoReg (word_of_int (sint a sdiv sint b)) m)))"

definition exec_DIVU :: "Instruction \<Rightarrow> reg_word \<Rightarrow> machine \<Rightarrow> exec_res" where
  "exec_DIVU i pcAfter m =
     (let a = reg m (rs i); b = reg m (rt i) in
      if b = 0 then completed pcAfter (set_reg HiReg 0 (set_reg LoReg 0 m))
      else completed pcAfter (set_reg HiReg (a mod b) (set_reg LoReg (a div b) m)))"

subsection \<open>Jumps\<close>

definition exec_J :: "Instruction \<Rightarrow> reg_word \<Rightarrow> machine \<Rightarrow> exec_res" where
  "exec_J i pcAfter m = completed ((pcAfter AND 0xf0000000) OR IndexToAddr (extra i)) m"

definition exec_JAL :: "Instruction \<Rightarrow> reg_word \<Rightarrow> machine \<Rightarrow> exec_res" where
  "exec_JAL i pcAfter m = exec_J i pcAfter (set_reg RetAddrReg (reg m NextPCReg + 4) m)"

definition exec_JR :: "Instruction \<Rightarrow> reg_word \<Rightarrow> machine \<Rightarrow> exec_res" where
  "exec_JR i pcAfter m = completed (reg m (rs i)) m"

definition exec_JALR :: "Instruction \<Rightarrow> reg_word \<Rightarrow> machine \<Rightarrow> exec_res" where
  "exec_JALR i pcAfter m = exec_JR i pcAfter (set_reg (rd i) (reg m NextPCReg + 4) m)"

subsection \<open>Loads\<close>

text \<open>\<open>load_then\<close> is \<^verbatim>\<open>if (!machine->ReadMem(addr, size, &value)) return;\<close> followed by the rest.\<close>

definition load_then ::
  "bool \<Rightarrow> reg_word \<Rightarrow> nat \<Rightarrow> machine \<Rightarrow> (reg_word \<Rightarrow> machine \<Rightarrow> exec_res) \<Rightarrow> exec_res" where
  "load_then big addr sz m k =
     bindR (ReadMem big addr sz m) (\<lambda>(r, m').
       case r of Inl t \<Rightarrow> Inr (Trapped t, m') | Inr value \<Rightarrow> k value m')"

definition store_then ::
  "bool \<Rightarrow> reg_word \<Rightarrow> nat \<Rightarrow> reg_word \<Rightarrow> machine \<Rightarrow> (machine \<Rightarrow> exec_res) \<Rightarrow> exec_res" where
  "store_then big addr sz value m k =
     bindR (WriteMem big addr sz value m) (\<lambda>(r, m').
       case r of Some t \<Rightarrow> Inr (Trapped t, m') | None \<Rightarrow> k m')"

definition exec_LB_LBU :: "bool \<Rightarrow> Instruction \<Rightarrow> reg_word \<Rightarrow> machine \<Rightarrow> exec_res" where
  "exec_LB_LBU big i pcAfter m =
     (let tmp = reg m (rs i) + extra i in
      load_then big tmp 1 m (\<lambda>value m'.
        let value' = (if value AND 0x80 \<noteq> 0 \<and> opCode i = OP_LB then value OR 0xffffff00
                      else value AND 0xff)
        in Inr (Completed (of_nat (rt i)) value' pcAfter, m')))"

definition exec_LH_LHU :: "bool \<Rightarrow> Instruction \<Rightarrow> reg_word \<Rightarrow> machine \<Rightarrow> exec_res" where
  "exec_LH_LHU big i pcAfter m =
     (let tmp = reg m (rs i) + extra i in
      if tmp AND 0x1 \<noteq> 0 then trapped AddressErrorException tmp m
      else load_then big tmp 2 m (\<lambda>value m'.
        let value' = (if value AND 0x8000 \<noteq> 0 \<and> opCode i = OP_LH then value OR 0xffff0000
                      else value AND 0xffff)
        in Inr (Completed (of_nat (rt i)) value' pcAfter, m')))"

definition exec_LUI :: "Instruction \<Rightarrow> reg_word \<Rightarrow> machine \<Rightarrow> exec_res" where
  "exec_LUI i pcAfter m = completed pcAfter (set_reg (rt i) (push_bit 16 (extra i)) m)"

definition exec_LW :: "bool \<Rightarrow> Instruction \<Rightarrow> reg_word \<Rightarrow> machine \<Rightarrow> exec_res" where
  "exec_LW big i pcAfter m =
     (let tmp = reg m (rs i) + extra i in
      if tmp AND 0x3 \<noteq> 0 then trapped AddressErrorException tmp m
      else load_then big tmp 4 m (\<lambda>value m'. Inr (Completed (of_nat (rt i)) value pcAfter, m')))"

text \<open>
  The value a partial load merges into: the pending delayed load's when it is for the same
  register, the register's otherwise. The two merges are the \<^verbatim>\<open>switch\<close>es on the low address bits.
\<close>

definition pending_value :: "Instruction \<Rightarrow> machine \<Rightarrow> reg_word" where
  "pending_value i m =
     (if reg m LoadReg = of_nat (rt i) then reg m LoadValueReg else reg m (rt i))"

definition merge_LWR :: "reg_word \<Rightarrow> reg_word \<Rightarrow> reg_word \<Rightarrow> reg_word" where
  "merge_LWR low old value =
     (if low = 0 then value
      else if low = 1 then (old AND 0xff000000) OR (signed_drop_bit 8 value AND 0xffffff)
      else if low = 2 then (old AND 0xffff0000) OR (signed_drop_bit 16 value AND 0xffff)
      else if low = 3 then (old AND 0xffffff00) OR (signed_drop_bit 24 value AND 0xff)
      else old)"

definition merge_LWL :: "reg_word \<Rightarrow> reg_word \<Rightarrow> reg_word \<Rightarrow> reg_word" where
  "merge_LWL low old value =
     (if low = 0 then (old AND 0xff) OR push_bit 8 value
      else if low = 1 then (old AND 0xffff) OR push_bit 16 value
      else if low = 2 then (old AND 0xffffff) OR push_bit 24 value
      else if low = 3 then value
      else old)"

definition exec_LWR :: "bool \<Rightarrow> Instruction \<Rightarrow> reg_word \<Rightarrow> machine \<Rightarrow> exec_res" where
  "exec_LWR big i pcAfter m =
     (let tmp = reg m (rs i) + extra i in
      load_then big (tmp AND NOT 0x3) 4 m (\<lambda>value m'.
        Inr (Completed (of_nat (rt i)) (merge_LWR (tmp AND 0x3) (pending_value i m') value) pcAfter, m')))"

definition exec_LWL :: "bool \<Rightarrow> Instruction \<Rightarrow> reg_word \<Rightarrow> machine \<Rightarrow> exec_res" where
  "exec_LWL big i pcAfter m =
     (let tmp = reg m (rs i) + extra i in
      load_then big (tmp AND NOT 0x3) 4 m (\<lambda>value m'.
        Inr (Completed (of_nat (rt i)) (merge_LWL (tmp AND 0x3) (pending_value i m') value) pcAfter, m')))"

subsection \<open>Moves, multiplication, logic\<close>

definition exec_MFHI :: "Instruction \<Rightarrow> reg_word \<Rightarrow> machine \<Rightarrow> exec_res" where
  "exec_MFHI i pcAfter m = completed pcAfter (set_reg (rd i) (reg m HiReg) m)"

definition exec_MFLO :: "Instruction \<Rightarrow> reg_word \<Rightarrow> machine \<Rightarrow> exec_res" where
  "exec_MFLO i pcAfter m = completed pcAfter (set_reg (rd i) (reg m LoReg) m)"

definition exec_MTHI :: "Instruction \<Rightarrow> reg_word \<Rightarrow> machine \<Rightarrow> exec_res" where
  "exec_MTHI i pcAfter m = completed pcAfter (set_reg HiReg (reg m (rs i)) m)"

definition exec_MTLO :: "Instruction \<Rightarrow> reg_word \<Rightarrow> machine \<Rightarrow> exec_res" where
  "exec_MTLO i pcAfter m = completed pcAfter (set_reg LoReg (reg m (rs i)) m)"

definition exec_MULT :: "bool \<Rightarrow> Instruction \<Rightarrow> reg_word \<Rightarrow> machine \<Rightarrow> exec_res" where
  "exec_MULT signedArith i pcAfter m =
     (let (hi, lo) = Mult (reg m (rs i)) (reg m (rt i)) signedArith in
      completed pcAfter (set_reg LoReg lo (set_reg HiReg hi m)))"

definition exec_NOR :: "Instruction \<Rightarrow> reg_word \<Rightarrow> machine \<Rightarrow> exec_res" where
  "exec_NOR i pcAfter m = completed pcAfter (set_reg (rd i) (NOT (reg m (rs i) OR reg m (rt i))) m)"

definition exec_OR :: "Instruction \<Rightarrow> reg_word \<Rightarrow> machine \<Rightarrow> exec_res" where
  "exec_OR i pcAfter m = completed pcAfter (set_reg (rd i) (reg m (rs i) OR reg m (rt i)) m)"

definition exec_ORI :: "Instruction \<Rightarrow> reg_word \<Rightarrow> machine \<Rightarrow> exec_res" where
  "exec_ORI i pcAfter m = completed pcAfter (set_reg (rt i) (reg m (rs i) OR (extra i AND 0xffff)) m)"

subsection \<open>Stores, shifts, comparisons\<close>

definition exec_store :: "bool \<Rightarrow> nat \<Rightarrow> Instruction \<Rightarrow> reg_word \<Rightarrow> machine \<Rightarrow> exec_res" where
  "exec_store big sz i pcAfter m =
     store_then big (reg m (rs i) + extra i) sz (reg m (rt i)) m (completed pcAfter)"

definition exec_SLL :: "Instruction \<Rightarrow> reg_word \<Rightarrow> machine \<Rightarrow> exec_res" where
  "exec_SLL i pcAfter m = completed pcAfter (set_reg (rd i) (push_bit (unat (extra i)) (reg m (rt i))) m)"

definition exec_SLLV :: "Instruction \<Rightarrow> reg_word \<Rightarrow> machine \<Rightarrow> exec_res" where
  "exec_SLLV i pcAfter m =
     completed pcAfter (set_reg (rd i) (push_bit (unat (reg m (rs i) AND 0x1f)) (reg m (rt i))) m)"

definition exec_SLT :: "Instruction \<Rightarrow> reg_word \<Rightarrow> machine \<Rightarrow> exec_res" where
  "exec_SLT i pcAfter m =
     completed pcAfter (set_reg (rd i) (if sint (reg m (rs i)) < sint (reg m (rt i)) then 1 else 0) m)"

definition exec_SLTI :: "Instruction \<Rightarrow> reg_word \<Rightarrow> machine \<Rightarrow> exec_res" where
  "exec_SLTI i pcAfter m =
     completed pcAfter (set_reg (rt i) (if sint (reg m (rs i)) < sint (extra i) then 1 else 0) m)"

definition exec_SLTIU :: "Instruction \<Rightarrow> reg_word \<Rightarrow> machine \<Rightarrow> exec_res" where
  "exec_SLTIU i pcAfter m =
     completed pcAfter (set_reg (rt i) (if reg m (rs i) < extra i then 1 else 0) m)"

definition exec_SLTU :: "Instruction \<Rightarrow> reg_word \<Rightarrow> machine \<Rightarrow> exec_res" where
  "exec_SLTU i pcAfter m =
     completed pcAfter (set_reg (rd i) (if reg m (rs i) < reg m (rt i) then 1 else 0) m)"

definition exec_SRA :: "Instruction \<Rightarrow> reg_word \<Rightarrow> machine \<Rightarrow> exec_res" where
  "exec_SRA i pcAfter m =
     completed pcAfter (set_reg (rd i) (signed_drop_bit (unat (extra i)) (reg m (rt i))) m)"

definition exec_SRAV :: "Instruction \<Rightarrow> reg_word \<Rightarrow> machine \<Rightarrow> exec_res" where
  "exec_SRAV i pcAfter m =
     completed pcAfter (set_reg (rd i) (signed_drop_bit (unat (reg m (rs i) AND 0x1f)) (reg m (rt i))) m)"

definition exec_SRL :: "Instruction \<Rightarrow> reg_word \<Rightarrow> machine \<Rightarrow> exec_res" where
  "exec_SRL i pcAfter m =
     completed pcAfter (set_reg (rd i) (drop_bit (unat (extra i)) (reg m (rt i))) m)"

definition exec_SRLV :: "Instruction \<Rightarrow> reg_word \<Rightarrow> machine \<Rightarrow> exec_res" where
  "exec_SRLV i pcAfter m =
     completed pcAfter (set_reg (rd i) (drop_bit (unat (reg m (rs i) AND 0x1f)) (reg m (rt i))) m)"

definition exec_SUB :: "Instruction \<Rightarrow> reg_word \<Rightarrow> machine \<Rightarrow> exec_res" where
  "exec_SUB i pcAfter m =
     (let diff = reg m (rs i) - reg m (rt i) in
      if (reg m (rs i) XOR reg m (rt i)) AND SIGN_BIT \<noteq> 0 \<and> (reg m (rs i) XOR diff) AND SIGN_BIT \<noteq> 0
      then trapped OverflowException 0 m
      else completed pcAfter (set_reg (rd i) diff m))"

definition exec_SUBU :: "Instruction \<Rightarrow> reg_word \<Rightarrow> machine \<Rightarrow> exec_res" where
  "exec_SUBU i pcAfter m = completed pcAfter (set_reg (rd i) (reg m (rs i) - reg m (rt i)) m)"

definition merge_SWR :: "reg_word \<Rightarrow> reg_word \<Rightarrow> reg_word \<Rightarrow> reg_word" where
  "merge_SWR low value r =
     (if low = 0 then r
      else if low = 1 then (value AND 0xff) OR push_bit 8 r
      else if low = 2 then (value AND 0xffff) OR push_bit 16 r
      else if low = 3 then (value AND 0xffffff) OR push_bit 24 r
      else value)"

definition merge_SWL :: "reg_word \<Rightarrow> reg_word \<Rightarrow> reg_word \<Rightarrow> reg_word" where
  "merge_SWL low value r =
     (if low = 0 then (value AND 0xffffff00) OR (signed_drop_bit 24 r AND 0xff)
      else if low = 1 then (value AND 0xffff0000) OR (signed_drop_bit 16 r AND 0xffff)
      else if low = 2 then (value AND 0xff000000) OR (signed_drop_bit 8 r AND 0xffffff)
      else if low = 3 then r
      else value)"

definition exec_SWR :: "bool \<Rightarrow> Instruction \<Rightarrow> reg_word \<Rightarrow> machine \<Rightarrow> exec_res" where
  "exec_SWR big i pcAfter m =
     (let tmp = reg m (rs i) + extra i in
      load_then big (tmp AND NOT 0x3) 4 m (\<lambda>value m'.
        store_then big (tmp AND NOT 0x3) 4 (merge_SWR (tmp AND 0x3) value (reg m' (rt i))) m'
          (completed pcAfter)))"

definition exec_SWL :: "bool \<Rightarrow> Instruction \<Rightarrow> reg_word \<Rightarrow> machine \<Rightarrow> exec_res" where
  "exec_SWL big i pcAfter m =
     (let tmp = reg m (rs i) + extra i in
      load_then big (tmp AND NOT 0x3) 4 m (\<lambda>value m'.
        store_then big (tmp AND NOT 0x3) 4 (merge_SWL (tmp AND 0x3) value (reg m' (rt i))) m'
          (completed pcAfter)))"

definition exec_XOR :: "Instruction \<Rightarrow> reg_word \<Rightarrow> machine \<Rightarrow> exec_res" where
  "exec_XOR i pcAfter m = completed pcAfter (set_reg (rd i) (reg m (rs i) XOR reg m (rt i)) m)"

definition exec_XORI :: "Instruction \<Rightarrow> reg_word \<Rightarrow> machine \<Rightarrow> exec_res" where
  "exec_XORI i pcAfter m = completed pcAfter (set_reg (rt i) (reg m (rs i) XOR (extra i AND 0xffff)) m)"

subsection \<open>The instruction cycle\<close>

definition exec :: "bool \<Rightarrow> Instruction \<Rightarrow> reg_word \<Rightarrow> machine \<Rightarrow> exec_res" where
  "exec big i pcAfter m =
     (case opCode i of
        OP_ADD \<Rightarrow> exec_ADD i pcAfter m | OP_ADDI \<Rightarrow> exec_ADDI i pcAfter m
      | OP_ADDIU \<Rightarrow> exec_ADDIU i pcAfter m | OP_ADDU \<Rightarrow> exec_ADDU i pcAfter m
      | OP_AND \<Rightarrow> exec_AND i pcAfter m | OP_ANDI \<Rightarrow> exec_ANDI i pcAfter m
      | OP_BEQ \<Rightarrow> exec_BEQ i pcAfter m | OP_BGEZAL \<Rightarrow> exec_BGEZAL i pcAfter m
      | OP_BGEZ \<Rightarrow> exec_BGEZ i pcAfter m | OP_BGTZ \<Rightarrow> exec_BGTZ i pcAfter m
      | OP_BLEZ \<Rightarrow> exec_BLEZ i pcAfter m | OP_BLTZAL \<Rightarrow> exec_BLTZAL i pcAfter m
      | OP_BLTZ \<Rightarrow> exec_BLTZ i pcAfter m | OP_BNE \<Rightarrow> exec_BNE i pcAfter m
      | OP_DIV \<Rightarrow> exec_DIV i pcAfter m | OP_DIVU \<Rightarrow> exec_DIVU i pcAfter m
      | OP_JAL \<Rightarrow> exec_JAL i pcAfter m | OP_J \<Rightarrow> exec_J i pcAfter m
      | OP_JALR \<Rightarrow> exec_JALR i pcAfter m | OP_JR \<Rightarrow> exec_JR i pcAfter m
      | OP_LB \<Rightarrow> exec_LB_LBU big i pcAfter m | OP_LBU \<Rightarrow> exec_LB_LBU big i pcAfter m
      | OP_LH \<Rightarrow> exec_LH_LHU big i pcAfter m | OP_LHU \<Rightarrow> exec_LH_LHU big i pcAfter m
      | OP_LUI \<Rightarrow> exec_LUI i pcAfter m | OP_LW \<Rightarrow> exec_LW big i pcAfter m
      | OP_LWR \<Rightarrow> exec_LWR big i pcAfter m | OP_LWL \<Rightarrow> exec_LWL big i pcAfter m
      | OP_MFHI \<Rightarrow> exec_MFHI i pcAfter m | OP_MFLO \<Rightarrow> exec_MFLO i pcAfter m
      | OP_MTHI \<Rightarrow> exec_MTHI i pcAfter m | OP_MTLO \<Rightarrow> exec_MTLO i pcAfter m
      | OP_MULT \<Rightarrow> exec_MULT True i pcAfter m | OP_MULTU \<Rightarrow> exec_MULT False i pcAfter m
      | OP_NOR \<Rightarrow> exec_NOR i pcAfter m | OP_OR \<Rightarrow> exec_OR i pcAfter m
      | OP_ORI \<Rightarrow> exec_ORI i pcAfter m | OP_SB \<Rightarrow> exec_store big 1 i pcAfter m
      | OP_SH \<Rightarrow> exec_store big 2 i pcAfter m | OP_SLL \<Rightarrow> exec_SLL i pcAfter m
      | OP_SLLV \<Rightarrow> exec_SLLV i pcAfter m | OP_SLT \<Rightarrow> exec_SLT i pcAfter m
      | OP_SLTI \<Rightarrow> exec_SLTI i pcAfter m | OP_SLTIU \<Rightarrow> exec_SLTIU i pcAfter m
      | OP_SLTU \<Rightarrow> exec_SLTU i pcAfter m | OP_SRA \<Rightarrow> exec_SRA i pcAfter m
      | OP_SRAV \<Rightarrow> exec_SRAV i pcAfter m | OP_SRL \<Rightarrow> exec_SRL i pcAfter m
      | OP_SRLV \<Rightarrow> exec_SRLV i pcAfter m | OP_SUB \<Rightarrow> exec_SUB i pcAfter m
      | OP_SUBU \<Rightarrow> exec_SUBU i pcAfter m | OP_SW \<Rightarrow> exec_store big 4 i pcAfter m
      | OP_SWR \<Rightarrow> exec_SWR big i pcAfter m | OP_SWL \<Rightarrow> exec_SWL big i pcAfter m
      | OP_SYSCALL \<Rightarrow> trapped SyscallException 0 m
      | OP_XOR \<Rightarrow> exec_XOR i pcAfter m | OP_XORI \<Rightarrow> exec_XORI i pcAfter m
      | OP_RES \<Rightarrow> trapped IllegalInstrException 0 m | OP_UNIMP \<Rightarrow> trapped IllegalInstrException 0 m
      | _ \<Rightarrow> Inl AssertionFailed)"

text \<open>
  OneInstruction returns the exception it raises, if any: the kernel enters the handler with it
  after the pending load is finished (\<open>RaiseException\<close> in the kernel theories).
\<close>

definition advance_pc :: "reg_word \<Rightarrow> machine \<Rightarrow> machine" where
  "advance_pc pcAfter m =
     set_reg NextPCReg pcAfter
       (let m1 = set_reg PrevPCReg (reg m PCReg) m in set_reg PCReg (reg m1 NextPCReg) m1)"

definition OneInstruction :: "bool \<Rightarrow> machine \<Rightarrow> (trap option \<times> machine) res" where
  "OneInstruction big m =
     bindR (ReadMem big (reg m PCReg) 4 m) (\<lambda>(r, m1).
       case r of Inl t \<Rightarrow> Inr (Some t, m1)
       | Inr raw \<Rightarrow>
           bindR (exec big (Decode raw) (reg m1 NextPCReg + 4) m1) (\<lambda>(r2, m2).
             case r2 of Trapped t \<Rightarrow> Inr (Some t, m2)
             | Completed loadReg loadValue pcAfter \<Rightarrow>
                 bindR (DelayedLoad loadReg loadValue m2) (\<lambda>m3. Inr (None, advance_pc pcAfter m3))))"

section \<open>Multiplication is correct\<close>

definition dval :: "32 word \<Rightarrow> 32 word \<Rightarrow> int" where
  "dval hi lo = uint hi * 2 ^ 32 + uint lo"

lemma dval_of_int:
  assumes "0 \<le> y" "y < 2 ^ 32"
  shows "dval (word_of_int x) (word_of_int y) = (x * 2 ^ 32 + y) mod 2 ^ 64"
proof -
  have "(x * 2 ^ 32 + y) mod (2 ^ 32 * 2 ^ 32) =
      2 ^ 32 * ((x * 2 ^ 32 + y) div 2 ^ 32 mod 2 ^ 32) + (x * 2 ^ 32 + y) mod 2 ^ 32"
    by (rule zmod_zmult2_eq) simp
  moreover have "(x * 2 ^ 32 + y) div 2 ^ 32 = x" "(x * 2 ^ 32 + y) mod 2 ^ 32 = y"
    using assms by simp_all
  ultimately show ?thesis
    using assms by (simp add: dval_def uint_word_of_int take_bit_eq_mod)
qed

lemma uint_32: "0 \<le> uint (x :: 32 word)" "uint (x :: 32 word) < 2 ^ 32"
  using uint_bounded [of x] by simp_all

lemma dval_add:
  "dval ((if lo + bLo < bLo then hi + 1 else hi) + bHi) (lo + bLo) = (dval hi lo + dval bHi bLo) mod 2 ^ 64"
proof -
  define c :: int where "c = (if lo + bLo < bLo then 1 else 0)"
  have c: "uint (lo + bLo) = uint lo + uint bLo - c * 2 ^ 32"
    using uint_32 [of lo] uint_32 [of bLo] by (auto simp: c_def word_less_def uint_plus_if')
  have hi: "(if lo + bLo < bLo then hi + 1 else hi) + bHi = word_of_int (uint hi + c + uint bHi)"
    by (auto simp: c_def)
  have lo: "lo + bLo = word_of_int (uint lo + uint bLo - c * 2 ^ 32)"
    unfolding c [symmetric] by simp
  have "dval ((if lo + bLo < bLo then hi + 1 else hi) + bHi) (lo + bLo) =
      ((uint hi + c + uint bHi) * 2 ^ 32 + (uint lo + uint bLo - c * 2 ^ 32)) mod 2 ^ 64"
    unfolding hi unfolding lo by (rule dval_of_int) (use uint_32 [of "lo + bLo"] c in simp_all)
  then show ?thesis by (simp add: dval_def algebra_simps)
qed

lemma sign_bit_iff: "(x :: 32 word) AND 0x80000000 \<noteq> 0 \<longleftrightarrow> 2 ^ 31 \<le> uint x"
proof -
  have "x AND 0x80000000 \<noteq> 0 \<longleftrightarrow> bit x 31"
    using and_exp_eq_0_iff_not_bit [of x 31] by simp
  also have "\<dots> \<longleftrightarrow> odd (uint x div 2 ^ 31)" 
    by (simp only: bit_iff_odd [of "uint x", symmetric] bit_uint_iff) simp
  also have "\<dots> \<longleftrightarrow> 2 ^ 31 \<le> uint x"
  proof (cases "2 ^ 31 \<le> uint x")
    case True
    then have "uint x div 2 ^ 31 = 1" using uint_32 [of x] by (simp add: int_div_pos_eq [of _ _ 1 "uint x - 2 ^ 31"])
    then show ?thesis using True by simp
  next
    case False
    then have "uint x div 2 ^ 31 = 0" using uint_32 [of x] by simp
    then show ?thesis using False by simp
  qed
  finally show ?thesis .
qed

lemma dval_double:
  "dval (push_bit 1 bHi OR (if bLo AND 0x80000000 \<noteq> 0 then 1 else 0)) (push_bit 1 bLo) = (2 * dval bHi bLo) mod 2 ^ 64"
proof -
  define c :: int where "c = (if bLo AND 0x80000000 \<noteq> 0 then 1 else 0)"
  have "push_bit 1 bHi OR (if d then 1 else 0) = push_bit 1 bHi + (if d then 1 else 0)" for d
  proof (rule disjunctive_add [symmetric])
    have "\<not> bit (push_bit 1 bHi) 0" by (simp add: bit_0)
    then show "\<not> bit (push_bit 1 bHi) n \<or> \<not> bit (if d then 1 else 0 :: 32 word) n" for n
      by (cases n) (auto simp: bit_1_iff)
  qed
  then have hi: "push_bit 1 bHi OR (if bLo AND 0x80000000 \<noteq> 0 then 1 else 0) = word_of_int (2 * uint bHi + c)"
    by (simp add: c_def push_bit_eq_mult mult.commute del: push_bit_Suc)
  have lo: "push_bit 1 bLo = word_of_int (2 * uint bLo - c * 2 ^ 32)"
    by (simp add: push_bit_eq_mult mult.commute c_def)
  have r: "0 \<le> 2 * uint bLo - c * 2 ^ 32" "2 * uint bLo - c * 2 ^ 32 < 2 ^ 32"
    using uint_32 [of bLo] by (auto simp: c_def sign_bit_iff)
  show ?thesis unfolding hi lo by (subst dval_of_int [OF r]) (simp add: dval_def algebra_simps)
qed

lemma dval_negate:
  "dval (if NOT lo + 1 = 0 then NOT hi + 1 else NOT hi) (NOT lo + 1) = (- dval hi lo) mod 2 ^ 64"
proof (cases "lo = 0")
  case True
  have "dval (word_of_int (- uint hi)) (word_of_int 0) = (- uint hi * 2 ^ 32 + 0) mod 2 ^ 64"
    by (rule dval_of_int) simp_all
  moreover have "NOT hi + 1 = word_of_int (- uint hi)" by (simp add: not_eq_complement)
  ultimately show ?thesis using True by (simp add: dval_def)
next
  case False
  then have "NOT lo + 1 \<noteq> 0" by (simp add: not_eq_complement)
  have "0 < uint lo" using False uint_32 [of lo] by (metis order_le_less uint_0_iff)
  have h: "NOT hi = word_of_int (- uint hi - 1)" and l: "NOT lo + 1 = word_of_int (2 ^ 32 - uint lo)"
    by (simp_all add: not_eq_complement)
  have "dval (NOT hi) (NOT lo + 1) = ((- uint hi - 1) * 2 ^ 32 + (2 ^ 32 - uint lo)) mod 2 ^ 64"
    unfolding h l by (rule dval_of_int) (use \<open>0 < uint lo\<close> uint_32 [of lo] in simp_all)
  also have "(- uint hi - 1) * 2 ^ 32 + (2 ^ 32 - uint lo) = - dval hi lo"
    by (simp add: dval_def algebra_simps)
  finally show ?thesis unfolding if_not_P [OF \<open>NOT lo + 1 \<noteq> 0\<close>] .
qed

lemma take_bit_shift:
  assumes "n \<le> 31"
  shows "take_bit (Suc n) (uint a) = take_bit n (uint (signed_drop_bit 1 a)) * 2 + uint (a :: 32 word) mod 2"
proof -
  have "take_bit n (uint (signed_drop_bit 1 a)) = take_bit n (uint a div 2)"
  proof (rule bit_eqI)
    fix k
    have "k < n \<Longrightarrow> bit (signed_drop_bit 1 a) k \<longleftrightarrow> bit a (Suc k)"
      using assms by (auto simp: bit_signed_drop_bit_iff)
    then show "bit (take_bit n (uint (signed_drop_bit 1 a))) k \<longleftrightarrow> bit (take_bit n (uint a div 2)) k"
      using assms by (auto simp: bit_take_bit_iff bit_uint_iff bit_Suc [symmetric])
  qed
  then show ?thesis by (simp add: take_bit_Suc)
qed

lemma odd_iff: "(a :: 32 word) AND 1 \<noteq> 0 \<longleftrightarrow> uint a mod 2 = 1"
proof -
  have "a AND 1 \<noteq> 0 \<longleftrightarrow> bit (uint a) 0"
    using and_exp_eq_0_iff_not_bit [of a 0] by (simp add: bit_uint_iff)
  then show ?thesis by (simp add: bit_0 odd_iff_mod_2_eq_one)
qed

lemma only_bit_0: "(a :: 32 word) AND 1 \<noteq> 0 \<Longrightarrow> a AND 0xfffffffe = 0 \<Longrightarrow> a = 1"
proof -
  assume a: "a AND 1 \<noteq> 0" "a AND 0xfffffffe = 0"
  have "a = (a AND 1) OR (a AND NOT 1)"
    by (rule bit_word_eqI) (auto simp: bit_or_iff bit_and_iff bit_not_iff)
  also have "NOT (1 :: 32 word) = 0xfffffffe" by (simp add: word_uint_eq_iff)
  also have "a AND 0xfffffffe = 0" by (rule a(2))
  also have "a AND 1 = 1" using a(1) by (simp add: and_one_eq mod2_eq_if split: if_splits)
  finally show "a = 1" by simp
qed

lemma Mult_loop_correct:
  "n \<le> 32 \<Longrightarrow>
   (case Mult_loop n a bHi bLo hi lo of (h, l) \<Rightarrow> dval h l) =
     (dval hi lo + dval bHi bLo * take_bit n (uint a)) mod 2 ^ 64"
proof (induction n a bHi bLo hi lo rule: Mult_loop.induct)
  case (1 a bHi bLo hi lo)
  then show ?case using uint_32 [of hi] uint_32 [of lo] by (simp add: dval_def)
next
  case (2 n a bHi bLo hi lo)
  define lo' hi' where "lo' = (if a AND 1 \<noteq> 0 then lo + bLo else lo)"
    and "hi' = (if a AND 1 \<noteq> 0 then (if lo' < bLo then hi + 1 else hi) + bHi else hi)"
  define bHi' bLo' where "bHi' = push_bit 1 bHi OR (if bLo AND 0x80000000 \<noteq> 0 then 1 else 0)"
    and "bLo' = push_bit 1 bLo"
  have add: "dval hi' lo' = (dval hi lo + dval bHi bLo * (uint a mod 2)) mod 2 ^ 64"
  proof (cases "a AND 1 \<noteq> 0")
    case True
    then show ?thesis
      using dval_add [of lo bLo hi bHi] by (simp add: hi'_def lo'_def odd_iff)
  next
    case False
    then have "uint a mod 2 = 0" by (simp add: odd_iff)
    then show ?thesis
      using False uint_32 [of hi] uint_32 [of lo] by (simp add: hi'_def lo'_def dval_def)
  qed
  show ?case
  proof (cases "a AND 1 \<noteq> 0 \<and> a AND 0xfffffffe = 0")
    case True
    then have "a = 1" using only_bit_0 by blast
    then show ?thesis using True add by (simp add: hi'_def lo'_def Let_def)
  next
    case False
    have step: "Mult_loop (Suc n) a bHi bLo hi lo = Mult_loop n (signed_drop_bit 1 a) bHi' bLo' hi' lo'"
      using False by (auto simp: hi'_def lo'_def bHi'_def bLo'_def Let_def)
    have "(case Mult_loop n (signed_drop_bit 1 a) bHi' bLo' hi' lo' of (h, l) \<Rightarrow> dval h l) =
       (dval hi' lo' + dval bHi' bLo' * take_bit n (uint (signed_drop_bit 1 a))) mod 2 ^ 64"
      using 2(1) [of "a AND 1 \<noteq> 0" lo' hi'] False 2(2) by (simp add: hi'_def lo'_def bHi'_def bLo'_def)
    moreover have "dval bHi' bLo' = (2 * dval bHi bLo) mod 2 ^ 64"
      unfolding bHi'_def bLo'_def by (rule dval_double)
    ultimately have "(case Mult_loop n (signed_drop_bit 1 a) bHi' bLo' hi' lo' of (h, l) \<Rightarrow> dval h l) =
       (dval hi lo + dval bHi bLo * (uint a mod 2) + 2 * dval bHi bLo * take_bit n (uint (signed_drop_bit 1 a))) mod 2 ^ 64"
      unfolding add by (metis (no_types) mod_add_eq mod_mult_left_eq mod_mod_trivial)
    then show ?thesis
      unfolding step using take_bit_shift [of n a] 2(2) by (simp add: algebra_simps)
  qed
qed


lemma Mult_loop_32:
  assumes "Mult_loop 32 a 0 b 0 0 = (hi, lo)"
  shows "dval hi lo = uint a * uint b"
proof -
  have "uint a * uint b < 2 ^ 32 * 2 ^ 32"
    using uint_32 [of a] uint_32 [of b] by (intro mult_strict_mono') auto
  moreover have "take_bit 32 (uint a) = uint a" using uint_32 [of a] by (simp add: take_bit_int_eq_self)
  ultimately show ?thesis
    using Mult_loop_correct [of 32 a 0 b 0 0] assms uint_32 [of a] uint_32 [of b]
    by (simp add: dval_def mult.commute)
qed

lemma abs_sint: "uint (if sint a < 0 then - a else a) = \<bar>sint (a :: 32 word)\<bar>"
proof -
  have r: "- (2 ^ 31) \<le> sint a" "sint a < 2 ^ 31"
    using sint_ge [of a] sint_lt [of a] by simp_all
  have "(if sint a < 0 then - a else a) = word_of_int \<bar>sint a\<bar>"
    by (simp add: abs_if)
  then show ?thesis using r by (simp add: uint_word_of_int take_bit_int_eq_self)
qed

lemma Mult_unsigned:
  assumes "Mult a b False = (hi, lo)"
  shows "dval hi lo = uint a * uint b"
  using assms Mult_loop_32 [of a b] by (auto simp: Mult_def dval_def split: if_splits prod.splits)

lemma Mult_signed:
  assumes "Mult a b True = (hi, lo)"
  shows "dval hi lo = (sint a * sint b) mod 2 ^ 64"
proof (cases "a = 0 \<or> b = 0")
  case True
  then show ?thesis using assms by (auto simp: Mult_def dval_def)
next
  case False
  define a' b' where "a' = (if sint a < 0 then - a else a)" and "b' = (if sint b < 0 then - b else b)"
  obtain h l where hl: "Mult_loop 32 a' 0 b' 0 0 = (h, l)" by fastforce
  have d: "dval h l = \<bar>sint a\<bar> * \<bar>sint b\<bar>"
    using Mult_loop_32 [OF hl] unfolding a'_def b'_def abs_sint .
  have res: "(hi, lo) = (if (sint a < 0) \<noteq> (sint b < 0)
      then (if NOT l + 1 = 0 then NOT h + 1 else NOT h, NOT l + 1) else (h, l))"
    using assms False hl unfolding Mult_def a'_def b'_def by (simp add: Let_def split: if_splits)
  show ?thesis
  proof (cases "(sint a < 0) \<noteq> (sint b < 0)")
    case True
    then have "sint a * sint b = - dval h l" unfolding d by (auto simp: abs_if)
    moreover have "dval hi lo = (- dval h l) mod 2 ^ 64"
      using res True dval_negate [of l h] by simp
    ultimately show ?thesis by simp
  next
    case False
    then have "sint a * sint b = dval h l" unfolding d by (auto simp: abs_if)
    moreover have "hi = h" "lo = l" using res False by simp_all
    ultimately show ?thesis using uint_32 [of h] uint_32 [of l] by (simp add: dval_def)
  qed
qed

section \<open>Decoding\<close>

lemma opTable_ok:
  assumes "k < 64"
  shows "fst (opTable ! k) \<noteq> OP_RFE" "fst (opTable ! k) \<notin> {OP_SLL, OP_SRA, OP_SRL}"
    "fst (opTable ! k) = SPECIAL \<Longrightarrow> snd (opTable ! k) = RFMT"
proof -
  have "list_all (\<lambda>(c, f). c \<notin> {OP_RFE, OP_SLL, OP_SRA, OP_SRL} \<and> (c = SPECIAL \<longrightarrow> f = RFMT)) opTable" "length opTable = 64"
    by (simp_all add: opTable_def)
  then have "case opTable ! k of (c, f) \<Rightarrow> c \<notin> {OP_RFE, OP_SLL, OP_SRA, OP_SRL} \<and> (c = SPECIAL \<longrightarrow> f = RFMT)"
    using assms by (metis (mono_tags, lifting) list_all_length)
  then show "fst (opTable ! k) \<noteq> OP_RFE" "fst (opTable ! k) \<notin> {OP_SLL, OP_SRA, OP_SRL}"
    "fst (opTable ! k) = SPECIAL \<Longrightarrow> snd (opTable ! k) = RFMT"
    by (auto split: prod.splits)
qed

lemma specialTable_ok: "k < 64 \<Longrightarrow> specialTable ! k \<notin> {SPECIAL, BCOND, OP_RFE}"
proof -
  have "list_all (\<lambda>c. c \<notin> {SPECIAL, BCOND, OP_RFE}) specialTable" "length specialTable = 64"
    by (simp_all add: specialTable_def)
  then show "k < 64 \<Longrightarrow> ?thesis" by (metis (mono_tags, lifting) list_all_length)
qed

lemma unat_and_mask: "unat ((x :: 32 word) AND 0x1f) < 32" "unat (x AND 0x3f) < 64"
proof -
  have m: "(0x1f :: 32 word) = mask 5" "(0x3f :: 32 word) = mask 6" by (simp_all add: mask_eq_exp_minus_1)
  show "unat (x AND 0x1f) < 32" "unat (x AND 0x3f) < 64"
    unfolding m take_bit_eq_mask [symmetric] unsigned_take_bit_eq
    using take_bit_nat_less_exp [of 5 "unat x"] take_bit_nat_less_exp [of 6 "unat x"] by simp_all
qed

lemma Decode_regs: "rs (Decode v) < 32" "rt (Decode v) < 32" "rd (Decode v) < 32"
  by (simp_all add: Decode_def Let_def unat_and_mask)

lemma Decode_opCode: "opCode (Decode v) \<notin> {SPECIAL, BCOND, OP_RFE}"
proof -
  note t = opTable_ok [OF unat_and_mask(2) [of "drop_bit 26 v"]]
  show ?thesis
    using t(1) specialTable_ok [OF unat_and_mask(2) [of v]] by (auto simp: Decode_def Let_def)
qed

lemma Decode_shamt:
  assumes "opCode (Decode v) \<in> {OP_SLL, OP_SRA, OP_SRL}"
  shows "unat (extra (Decode v)) < 32"
proof -
  note t = opTable_ok [OF unat_and_mask(2) [of "drop_bit 26 v"]]
  have "fst (opTable ! unat (drop_bit 26 v AND 0x3f)) = SPECIAL"
    using assms t(2) by (auto simp: Decode_def Let_def split: if_splits)
  then show ?thesis using t(3) by (simp add: Decode_def Let_def unat_and_mask)
qed

section \<open>Signed overflow\<close>

lemma sint_32: "- (2 ^ 31) \<le> sint (x :: 32 word)" "sint (x :: 32 word) < 2 ^ 31"
  using sint_ge [of x] sint_lt [of x] by simp_all

lemma sint_wrap:
  obtains k where "sint (word_of_int s :: 32 word) = s + k * 2 ^ 32"
proof -
  have "word_of_int (sint (word_of_int s :: 32 word)) = (word_of_int s :: 32 word)" by simp
  then have "sint (word_of_int s :: 32 word) mod 2 ^ 32 = s mod 2 ^ 32"
    by (simp only: word_of_int_eq_iff take_bit_eq_mod) simp
  then have "2 ^ 32 dvd sint (word_of_int s :: 32 word) - s"
    by (simp only: mod_eq_dvd_iff)
  then obtain k where "sint (word_of_int s :: 32 word) - s = 2 ^ 32 * k" by (rule dvdE)
  then show ?thesis using that [of k] by (simp add: algebra_simps)
qed

lemma sign_differs: "((x :: 32 word) XOR y) AND 0x80000000 \<noteq> 0 \<longleftrightarrow> (sint x < 0) \<noteq> (sint y < 0)"
  using and_exp_eq_0_iff_not_bit [of "x XOR y" 31] bit_last_iff [of x] bit_last_iff [of y]
  by (simp add: bit_xor_iff)

lemma sint_add_overflow:
  fixes a b :: "32 word"
  shows "((a XOR b) AND 0x80000000 = 0 \<and> (a XOR (a + b)) AND 0x80000000 \<noteq> 0) \<longleftrightarrow>
     \<not> (- (2 ^ 31) \<le> sint a + sint b \<and> sint a + sint b < 2 ^ 31)"
    and "- (2 ^ 31) \<le> sint a + sint b \<Longrightarrow> sint a + sint b < 2 ^ 31 \<Longrightarrow> sint (a + b) = sint a + sint b"
proof -
  have "a + b = word_of_int (sint a + sint b)" by simp
  then obtain k where k: "sint (a + b) = sint a + sint b + k * 2 ^ 32"
    using sint_wrap [of "sint a + sint b"] by metis
  note r = sint_32 [of a] sint_32 [of b] sint_32 [of "a + b"]
  have "k < 2" "- 2 < k" using k r by simp_all
  then have "k = -1 \<or> k = 0 \<or> k = 1" by linarith
  then show "- (2 ^ 31) \<le> sint a + sint b \<Longrightarrow> sint a + sint b < 2 ^ 31 \<Longrightarrow> sint (a + b) = sint a + sint b"
    using k r by auto
  have "(a XOR b) AND 0x80000000 = 0 \<longleftrightarrow> (sint a < 0) = (sint b < 0)"
    using sign_differs [of a b] by blast
  then show "((a XOR b) AND 0x80000000 = 0 \<and> (a XOR (a + b)) AND 0x80000000 \<noteq> 0) \<longleftrightarrow>
     \<not> (- (2 ^ 31) \<le> sint a + sint b \<and> sint a + sint b < 2 ^ 31)"
    unfolding sign_differs using \<open>k = -1 \<or> k = 0 \<or> k = 1\<close> k r by auto
qed

lemma sint_sub_overflow:
  fixes a b :: "32 word"
  shows "((a XOR b) AND 0x80000000 \<noteq> 0 \<and> (a XOR (a - b)) AND 0x80000000 \<noteq> 0) \<longleftrightarrow>
     \<not> (- (2 ^ 31) \<le> sint a - sint b \<and> sint a - sint b < 2 ^ 31)"
    and "- (2 ^ 31) \<le> sint a - sint b \<Longrightarrow> sint a - sint b < 2 ^ 31 \<Longrightarrow> sint (a - b) = sint a - sint b"
proof -
  have "a - b = word_of_int (sint a - sint b)" by simp
  then obtain k where k: "sint (a - b) = sint a - sint b + k * 2 ^ 32"
    using sint_wrap [of "sint a - sint b"] by metis
  note r = sint_32 [of a] sint_32 [of b] sint_32 [of "a - b"]
  have "k < 2" "- 2 < k" using k r by simp_all
  then have "k = -1 \<or> k = 0 \<or> k = 1" by linarith
  then show "- (2 ^ 31) \<le> sint a - sint b \<Longrightarrow> sint a - sint b < 2 ^ 31 \<Longrightarrow> sint (a - b) = sint a - sint b"
    using k r by auto
  show "((a XOR b) AND 0x80000000 \<noteq> 0 \<and> (a XOR (a - b)) AND 0x80000000 \<noteq> 0) \<longleftrightarrow>
     \<not> (- (2 ^ 31) \<le> sint a - sint b \<and> sint a - sint b < 2 ^ 31)"
    unfolding sign_differs using \<open>k = -1 \<or> k = 0 \<or> k = 1\<close> k r by auto
qed

section \<open>Every instruction keeps the machine well formed\<close>

definition cpu_wf :: "machine \<Rightarrow> bool" where
  "cpu_wf m \<longleftrightarrow> machine_wf m \<and> translation_ready m \<and> unat (reg m LoadReg) < NumGPRegs \<and> reg m 0 = 0"

definition exec_keeps :: "machine \<Rightarrow> machine \<Rightarrow> bool" where
  "exec_keeps m m' \<longleftrightarrow> machine_wf m' \<and> translation_ready m' \<and> same_translation m m' \<and> (\<forall>n\<ge>PCReg. reg m' n = reg m n)"

definition exec_ok :: "machine \<Rightarrow> exec_res \<Rightarrow> bool" where
  "exec_ok m r \<longleftrightarrow>
     (case r of Inl e \<Rightarrow> e = ArithmeticTrap
      | Inr (x, m') \<Rightarrow> exec_keeps m m' \<and>
          (case x of Trapped t \<Rightarrow> registers m' = registers m \<and> mainMemory m' = mainMemory m
           | Completed lr lv pc \<Rightarrow> unat lr < NumGPRegs))"

lemma reg_set_reg: "n < length (registers m) \<Longrightarrow> reg (set_reg n v m) k = (if k = n then v else reg m k)"
  by (auto simp: reg_def set_reg_def nth_list_update)

lemma set_reg_wf [simp]: "machine_wf (set_reg n v m) = machine_wf m" "translation_ready (set_reg n v m) = translation_ready m"
  by (simp_all add: machine_wf_def translation_ready_def set_reg_def)

lemma same_translation_simps [simp]:
  "same_translation m m" "same_translation m (set_reg n v m') = same_translation m m'"
  "same_translation m (m'\<lparr>registers := regs\<rparr>) = same_translation m m'" "same_translation m (m'\<lparr>mainMemory := mm\<rparr>) = same_translation m m'"
  by (simp_all add: same_translation_def set_reg_def)

lemma same_translation_trans: "same_translation m m1 \<Longrightarrow> same_translation m1 m2 \<Longrightarrow> same_translation m m2"
  by (simp add: same_translation_def)

lemma machine_wf_length: "machine_wf m \<Longrightarrow> length (registers m) = NumTotalRegs"
  by (simp add: machine_wf_def)

lemma set_reg_keeps: "exec_keeps m m' \<Longrightarrow> n < PCReg \<Longrightarrow> exec_keeps m (set_reg n v m')"
  by (auto simp: exec_keeps_def reg_set_reg machine_wf_length)

lemma exec_keeps_refl: "machine_wf m \<Longrightarrow> translation_ready m \<Longrightarrow> exec_keeps m m"
  by (simp add: exec_keeps_def)

lemma completed_ok: "exec_keeps m m' \<Longrightarrow> exec_ok m (completed pc m')"
  by (simp add: exec_ok_def completed_def)

lemma trapped_ok: "machine_wf m \<Longrightarrow> translation_ready m \<Longrightarrow> exec_ok m (trapped w b m)"
  by (simp add: exec_ok_def trapped_def exec_keeps_def)

lemma load_completes_ok: "exec_keeps m m' \<Longrightarrow> n < NumGPRegs \<Longrightarrow> exec_ok m (Inr (Completed (of_nat n) v pc, m'))"
  by (simp add: exec_ok_def unat_of_nat)

lemma ReadMem_cases:
  assumes "machine_wf m" "translation_ready m" "sz \<in> {1, 2, 4}"
  obtains r m' where "ReadMem big a sz m = Inr (r, m')" "machine_wf m'" "translation_ready m'"
    "registers m' = registers m" "mainMemory m' = mainMemory m" "same_translation m m'"
proof -
  obtain r m' where t: "Translate a sz False m = Inr (r, m')"
    by (rule Translate_cases [OF assms, of a False])
  note p = Translate_preserves [OF assms t]
  have "\<exists>r'. ReadMem big a sz m = Inr (r', m')"
    using assms(3) by (cases r) (auto simp: ReadMem_def t)
  then show ?thesis using that p by blast
qed

lemma WriteMem_cases:
  assumes "machine_wf m" "translation_ready m" "sz \<in> {1, 2, 4}"
  obtains r m' where "WriteMem big a sz v m = Inr (r, m')" "machine_wf m'" "translation_ready m'"
    "registers m' = registers m" "r \<noteq> None \<Longrightarrow> mainMemory m' = mainMemory m" "same_translation m m'"
proof -
  obtain r m' where t: "Translate a sz True m = Inr (r, m')"
    by (rule Translate_cases [OF assms, of a True])
  note p = Translate_preserves [OF assms t]
  show ?thesis
  proof (cases r)
    case (Inl x)
    then show ?thesis using that [of "Some (x, a)" m'] p t by (simp add: WriteMem_def)
  next
    case (Inr pa)
    let ?m = "m'\<lparr>mainMemory := store_bytes (mainMemory m') pa (stored_bytes sz v)\<rparr>"
    have "WriteMem big a sz v m = Inr (None, ?m)"
      using WriteMem_ok [OF assms(3)] t Inr by simp
    moreover have "machine_wf ?m" "translation_ready ?m"
      using p by (auto simp: machine_wf_def translation_ready_def)
    ultimately show ?thesis using that [of None ?m] p by simp
  qed
qed

lemma load_then_ok:
  assumes "machine_wf m" "translation_ready m" "sz \<in> {1, 2, 4}"
    and "\<And>v m'. exec_keeps m m' \<Longrightarrow> registers m' = registers m \<Longrightarrow> mainMemory m' = mainMemory m \<Longrightarrow> exec_ok m (k v m')"
  shows "exec_ok m (load_then big a sz m k)"
proof -
  obtain r m' where r: "ReadMem big a sz m = Inr (r, m')" and m': "machine_wf m'" "translation_ready m'"
    "registers m' = registers m" "mainMemory m' = mainMemory m" "same_translation m m'"
    by (rule ReadMem_cases [OF assms(1-3)])
  have "exec_keeps m m'" using m' by (simp add: exec_keeps_def reg_def)
  then show ?thesis using r m' assms(4)
    by (cases r) (auto simp: load_then_def exec_ok_def)
qed

lemma store_then_ok:
  assumes "exec_keeps m m1" "registers m1 = registers m" "mainMemory m1 = mainMemory m" "sz \<in> {1, 2, 4}"
    and "\<And>m'. exec_keeps m m' \<Longrightarrow> exec_ok m (k m')"
  shows "exec_ok m (store_then big a sz v m1 k)"
proof -
  have wf: "machine_wf m1" "translation_ready m1" using assms(1) by (simp_all add: exec_keeps_def)
  obtain r m' where r: "WriteMem big a sz v m1 = Inr (r, m')" and m': "machine_wf m'" "translation_ready m'"
    "registers m' = registers m1" "r \<noteq> None \<Longrightarrow> mainMemory m' = mainMemory m1" "same_translation m1 m'"
    by (rule WriteMem_cases [OF wf assms(4), where a = a and big = big and v = v]) blast
  have "exec_keeps m m'" using m' assms(1) same_translation_trans by (auto simp: exec_keeps_def reg_def)
  then show ?thesis using r m' assms
    by (cases r) (auto simp: store_then_def exec_ok_def)
qed

lemmas exec_defs =
  exec_ADD_def exec_ADDI_def exec_ADDIU_def exec_ADDU_def exec_AND_def exec_ANDI_def
  exec_BEQ_def exec_BGEZ_def exec_BGEZAL_def exec_BGTZ_def exec_BLEZ_def exec_BLTZ_def
  exec_BLTZAL_def exec_BNE_def exec_DIVU_def exec_J_def exec_JAL_def exec_JR_def exec_JALR_def
  exec_LUI_def exec_MFHI_def exec_MFLO_def exec_MTHI_def exec_MTLO_def exec_MULT_def exec_NOR_def
  exec_OR_def exec_ORI_def exec_SLL_def exec_SLLV_def exec_SLT_def exec_SLTI_def exec_SLTIU_def
  exec_SLTU_def exec_SRA_def exec_SRAV_def exec_SRL_def exec_SRLV_def exec_SUB_def exec_SUBU_def
  exec_XOR_def exec_XORI_def branch_if_def

lemma exec_is_ok:
  assumes wf: "machine_wf m" "translation_ready m"
    and i: "rs i < 32" "rt i < 32" "rd i < 32" "opCode i \<notin> {SPECIAL, BCOND, OP_RFE}"
  shows "exec_ok m (exec big i pc m)"
proof -
  note keeps = completed_ok set_reg_keeps exec_keeps_refl [OF wf] trapped_ok [OF wf] load_completes_ok
  have div: "exec_ok m (exec_DIV i pc m)"
    using keeps by (simp add: exec_DIV_def Let_def exec_ok_def [of m "Inl _"])
  have loads: "exec_ok m (exec_LB_LBU big i pc m)" "exec_ok m (exec_LH_LHU big i pc m)"
     "exec_ok m (exec_LW big i pc m)" "exec_ok m (exec_LWR big i pc m)" "exec_ok m (exec_LWL big i pc m)"
    using keeps i unfolding exec_LB_LBU_def exec_LH_LHU_def exec_LW_def exec_LWR_def exec_LWL_def Let_def
    by (auto intro!: load_then_ok wf)
  have stores: "sz \<in> {1, 2, 4} \<Longrightarrow> exec_ok m (exec_store big sz i pc m)" for sz
    unfolding exec_store_def by (rule store_then_ok) (use keeps in auto)
  have partial: "exec_ok m (exec_SWR big i pc m)" "exec_ok m (exec_SWL big i pc m)"
    unfolding exec_SWR_def exec_SWL_def Let_def
    by (auto intro!: load_then_ok store_then_ok wf keeps)
  show ?thesis
    using i keeps div loads stores partial
    by (cases "opCode i") (simp_all add: exec_def exec_defs Let_def split: prod.splits)
qed

section \<open>The instruction cycle by cases\<close>

lemma OneInstruction_cases:
  assumes wf: "machine_wf m" "translation_ready m" and load: "unat (reg m LoadReg) < NumGPRegs"
  obtains (fetch) t m' where "OneInstruction big m = Inr (Some t, m')" "machine_wf m'" "translation_ready m'"
      "registers m' = registers m" "mainMemory m' = mainMemory m" "same_translation m m'"
  | (div) "OneInstruction big m = Inl ArithmeticTrap"
  | (ok) lr lv pc m2 m3 where "DelayedLoad lr lv m2 = Inr m3" "OneInstruction big m = Inr (None, advance_pc pc m3)"
      "exec_keeps m m2" "unat lr < NumGPRegs"
proof -
  obtain r m1 where r: "ReadMem big (reg m PCReg) 4 m = Inr (r, m1)" and m1: "machine_wf m1" "translation_ready m1"
    "registers m1 = registers m" "mainMemory m1 = mainMemory m" "same_translation m m1"
    by (rule ReadMem_cases [OF wf, of 4]) auto
  show ?thesis
  proof (cases r)
    case (Inl t)
    then show ?thesis using fetch [of t m1] r m1 by (simp add: OneInstruction_def)
  next
    case (Inr raw)
    let ?x = "exec big (Decode raw) (reg m1 NextPCReg + 4) m1"
    have ok: "exec_ok m1 ?x"
      by (rule exec_is_ok) (use m1 Decode_regs Decode_opCode in auto)
    have regs: "reg m1 = reg m" using m1 by (simp add: reg_def fun_eq_iff)
    show ?thesis
    proof (cases ?x)
      case (Inl e)
      then show ?thesis using ok div r Inr by (simp add: OneInstruction_def exec_ok_def)
    next
      fix p assume x: "?x = Inr p"
      obtain y m2 where p: "p = (y, m2)" by fastforce
      show ?thesis
      proof (cases y)
        case (Trapped t)
        then show ?thesis using ok x p fetch [of t m2] r Inr m1 same_translation_trans
          by (auto simp: OneInstruction_def exec_ok_def exec_keeps_def)
      next
        case (Completed lr lv pc)
        then have k: "exec_keeps m m2" "unat lr < NumGPRegs"
          using ok x p regs m1(5) same_translation_trans by (auto simp: exec_ok_def exec_keeps_def)
        then have "unat (reg m2 LoadReg) < NumTotalRegs" using load by (simp add: exec_keeps_def)
        then obtain m3 where d: "DelayedLoad lr lv m2 = Inr m3"
          by (simp add: DelayedLoad_def reg_def Let_def)
        then show ?thesis using x p Completed r Inr k ok(1) by (intro that(3) [OF d]) (simp_all add: OneInstruction_def)
      qed
    qed
  qed
qed

lemma cpu_wfD: "cpu_wf m \<Longrightarrow> machine_wf m" "cpu_wf m \<Longrightarrow> translation_ready m" "cpu_wf m \<Longrightarrow> unat (reg m LoadReg) < NumGPRegs"
  by (simp_all add: cpu_wf_def)

lemma DelayedLoad_reg:
  assumes "machine_wf m" "unat (reg m LoadReg) < NumGPRegs" "DelayedLoad lr lv m = Inr m'"
  shows "machine_wf m'" "translation_ready m' = translation_ready m"
    "reg m' k = (if k = 0 then 0 else if k = LoadValueReg then lv else if k = LoadReg then lr
       else if k = unat (reg m LoadReg) then reg m LoadValueReg else reg m k)"
  using assms
  by (auto simp: DelayedLoad_def Let_def reg_def machine_wf_def translation_ready_def nth_list_update split: if_splits)

lemma advance_pc_reg:
  assumes "machine_wf m"
  shows "machine_wf (advance_pc pc m)" "translation_ready (advance_pc pc m) = translation_ready m"
    "reg (advance_pc pc m) k = (if k = NextPCReg then pc else if k = PCReg then reg m NextPCReg
       else if k = PrevPCReg then reg m PCReg else reg m k)"
  using assms by (auto simp: advance_pc_def Let_def reg_set_reg machine_wf_length)

section \<open>Unaligned accesses byte by byte\<close>

lemma part_masks:
  "(0xffffff :: 32 word) = mask 24" "(0xffff :: 32 word) = mask 16" "(0xff :: 32 word) = mask 8"
  "(0xffffff00 :: 32 word) = NOT (mask 8)" "(0xffff0000 :: 32 word) = NOT (mask 16)" "(0xff000000 :: 32 word) = NOT (mask 24)"
  by (simp_all add: mask_eq_exp_minus_1 word_uint_eq_iff)

lemmas merge_bits = bit_or_iff bit_and_iff bit_not_iff bit_push_bit_iff bit_mask_iff bit_signed_drop_bit_iff
  bit_unsigned_iff bit_drop_bit_eq

lemma merge_SWR_bytes:
  assumes "k < 4"
  shows "bytes_of_word 4 (merge_SWR (of_nat k) w r) = take k (bytes_of_word 4 w) @ take (4 - k) (bytes_of_word 4 r)"
proof -
  consider "k = 0" | "k = 1" | "k = 2" | "k = 3" using assms by linarith
  then show ?thesis
    by cases (simp add: merge_SWR_def part_masks bytes_of_word_4;
      (intro conjI bit_word_eqI)?; simp add: merge_bits)+
qed

lemma merge_SWL_bytes:
  assumes "k < 4"
  shows "bytes_of_word 4 (merge_SWL (of_nat k) w r) = drop (3 - k) (bytes_of_word 4 r) @ drop (k + 1) (bytes_of_word 4 w)"
proof -
  consider "k = 0" | "k = 1" | "k = 2" | "k = 3" using assms by linarith
  then show ?thesis
    by cases (simp add: merge_SWL_def part_masks bytes_of_word_4;
      (intro conjI bit_word_eqI)?; simp add: merge_bits)+
qed

lemma merge_LWR_bytes:
  assumes "k < 4"
  shows "bytes_of_word 4 (merge_LWR (of_nat k) old w) = drop k (bytes_of_word 4 w) @ drop (4 - k) (bytes_of_word 4 old)"
proof -
  consider "k = 0" | "k = 1" | "k = 2" | "k = 3" using assms by linarith
  then show ?thesis
    by cases (simp add: merge_LWR_def part_masks bytes_of_word_4;
      (intro conjI bit_word_eqI)?; simp add: merge_bits)+
qed


lemma merge_LWL_bytes:
  assumes "k = 1 \<or> k = 3"
  shows "bytes_of_word 4 (merge_LWL (of_nat k) old w) = take (3 - k) (bytes_of_word 4 old) @ take (k + 1) (bytes_of_word 4 w)"
proof -
  consider "k = 1" | "k = 3" using assms by linarith
  then show ?thesis
    by cases (simp add: merge_LWL_def part_masks bytes_of_word_4;
      (intro conjI bit_word_eqI)?; simp add: merge_bits)+
qed

section \<open>Division\<close>

lemma sint_word_of_int_range: "- (2 ^ 31) \<le> k \<Longrightarrow> k < 2 ^ 31 \<Longrightarrow> sint (word_of_int k :: 32 word) = k"
proof -
  assume k: "- (2 ^ 31) \<le> k" "k < 2 ^ 31"
  obtain j where j: "sint (word_of_int k :: 32 word) = k + j * 2 ^ 32" by (rule sint_wrap)
  have "j < 1" "- 1 < j" using j k sint_32 [of "word_of_int k"] by simp_all
  then show ?thesis using j by simp
qed


lemma sdiv_range:
  fixes a b :: int
  assumes "- (2 ^ 31) \<le> a" "a < 2 ^ 31" "b \<noteq> 0" "\<not> (a = - (2 ^ 31) \<and> b = - 1)"
  shows "- (2 ^ 31) \<le> a sdiv b \<and> a sdiv b < 2 ^ 31"
proof -
  define q where "q = \<bar>a\<bar> div \<bar>b\<bar>"
  have eq: "a sdiv b = sgn a * sgn b * q" by (simp add: signed_divide_int_def q_def)
  have q0: "0 \<le> q" using assms(3) by (simp add: q_def pos_imp_zdiv_nonneg_iff)
  show ?thesis
  proof (cases "\<bar>b\<bar> = 1")
    case True
    then have "b = 1 \<or> b = -1" by linarith
    then show ?thesis using assms by (auto simp: signed_divide_int_def sgn_if abs_if)
  next
    case False
    then have "\<bar>b\<bar> \<ge> 2" using assms(3) by linarith
    then have "q * 2 \<le> q * \<bar>b\<bar>" using q0 by (intro mult_left_mono) auto
    also have "q * \<bar>b\<bar> \<le> \<bar>a\<bar>" using assms(3) by (simp add: q_def minus_mod_eq_div_mult [symmetric])
    finally have "q \<le> 2 ^ 30" using assms(1,2) by (simp add: abs_if split: if_splits)
    then show ?thesis using q0 unfolding eq by (auto simp: sgn_if)
  qed
qed

lemma smod_props:
  fixes a b :: int
  assumes "b \<noteq> 0"
  shows "a sdiv b * b + a smod b = a" "\<bar>a smod b\<bar> < \<bar>b\<bar>" "a smod b = 0 \<or> sgn (a smod b) = sgn a"
proof -
  show "a sdiv b * b + a smod b = a" by (rule sdiv_mult_smod_eq)
  show "\<bar>a smod b\<bar> < \<bar>b\<bar>" using assms by (simp add: signed_modulo_int_def abs_mult)
  show "a smod b = 0 \<or> sgn (a smod b) = sgn a" 
  proof -
    have "0 \<le> \<bar>a\<bar> mod \<bar>b\<bar>" using assms by simp
    then have "\<bar>a\<bar> mod \<bar>b\<bar> = 0 \<or> sgn (\<bar>a\<bar> mod \<bar>b\<bar>) = 1" by (auto simp: sgn_if)
    then show ?thesis by (auto simp: signed_modulo_int_def sgn_mult)
  qed
qed


lemma length_set_reg [simp]: "length (registers (set_reg n v m)) = length (registers m)"
  by (simp add: set_reg_def)

definition same_but :: "nat list \<Rightarrow> machine \<Rightarrow> machine \<Rightarrow> bool" where
  "same_but ns m m' \<longleftrightarrow> m' = m\<lparr>registers := registers m'\<rparr> \<and> (\<forall>k. k \<notin> set ns \<longrightarrow> reg m' k = reg m k)"

lemma same_but_set_reg: "same_but [n] m (set_reg n v m)" "same_but [LoReg, HiReg] m (set_reg HiReg v (set_reg LoReg u m))"
  by (auto simp: same_but_def reg_def set_reg_def)

lemma Completed_division:
  assumes "machine_wf m" "sint (reg m (rt i)) \<noteq> 0" "\<not> (sint (reg m (rs i)) = - (2 ^ 31) \<and> sint (reg m (rt i)) = - 1)"
  shows "\<exists>m'. exec_DIV i pc m = Inr (Completed 0 0 pc, m') \<and> same_but [LoReg, HiReg] m m' \<and>
     sint (reg m' LoReg) * sint (reg m (rt i)) + sint (reg m' HiReg) = sint (reg m (rs i)) \<and>
     \<bar>sint (reg m' HiReg)\<bar> < \<bar>sint (reg m (rt i))\<bar> \<and>
     (sint (reg m' HiReg) = 0 \<or> sgn (sint (reg m' HiReg)) = sgn (sint (reg m (rs i))))"
proof -
  let ?a = "sint (reg m (rs i))" and ?b = "sint (reg m (rt i))"
  let ?m = "set_reg HiReg (word_of_int (?a smod ?b)) (set_reg LoReg (word_of_int (?a sdiv ?b)) m)"
  have "exec_DIV i pc m = Inr (Completed 0 0 pc, ?m)"
    using assms by (auto simp: exec_DIV_def completed_def Let_def)
  moreover have "sint (word_of_int (?a sdiv ?b) :: 32 word) = ?a sdiv ?b"
    using sdiv_range [of ?a ?b] sint_32 [of "reg m (rs i)"] assms(2,3) by (intro sint_word_of_int_range) auto
  moreover have "sint (word_of_int (?a smod ?b) :: 32 word) = ?a smod ?b"
    using smod_props(2) [OF assms(2), of ?a] sint_32 [of "reg m (rt i)"] by (intro sint_word_of_int_range) linarith+
  ultimately show ?thesis
    using smod_props [OF assms(2), of ?a] machine_wf_length [OF assms(1)]
    by (intro exI [of _ ?m] conjI same_but_set_reg) (simp_all add: reg_set_reg)
qed

section \<open>Properties of the simulator\<close>

text \<open>A processor state for the witnesses: a \<^verbatim>\<open>nop\<close> to execute and a pending load of 77 into r8.\<close>

definition example_cpu :: machine where
  "example_cpu = example_machine\<lparr>registers := (registers example_machine)
      [4 := 0x7fffffff, 5 := 1, PCReg := 0x10, NextPCReg := 0x14, LoadReg := 8, LoadValueReg := 77]\<rparr>"

lemma example_cpu_ok: "cpu_wf example_cpu"
  using example_machine_ok by (simp add: example_cpu_def cpu_wf_def reg_def machine_wf_def translation_ready_def
      example_machine_def Machine_new_def)

lemma fetch_example: "\<exists>m1. ReadMem False 0x10 4 example_cpu = Inr (Inr 0, m1) \<and> registers m1 = registers example_cpu"
  by (simp add: ReadMem_def Translate_def example_cpu_def example_machine_def Machine_new_def
      find_entry_def ASSERT_def host_load_def host_order_def load_bytes_def WordToHost_def Let_def upt_rec)

lemma decode_nop: "Decode 0 = \<lparr>ivalue = 0, opCode = OP_SLL, rs = 0, rt = 0, rd = 0, extra = 0\<rparr>"
  by (simp add: Decode_def opTable_def specialTable_def)

lemma example_cpu_regs: "registers example_cpu =
    (replicate 40 0)[4 := 0x7fffffff, 5 := 1, 34 := 0x10, 35 := 0x14, 37 := 8, 38 := 77]"
  by (simp add: example_cpu_def example_machine_def Machine_new_def)

lemma step_example: "\<exists>m'. OneInstruction False example_cpu = Inr (None, m')"
proof -
  obtain m1 where m1: "ReadMem False 0x10 4 example_cpu = Inr (Inr 0, m1)" "registers m1 = registers example_cpu"
    using fetch_example by blast
  have pc: "reg example_cpu PCReg = 0x10" by (simp add: reg_def example_cpu_regs)
  show ?thesis
    unfolding OneInstruction_def pc
    by (simp add: m1 decode_nop exec_def exec_SLL_def completed_def DelayedLoad_def Let_def set_reg_def
        example_cpu_regs)
qed

text \<open>
  Decoding never yields an opcode that the switch of OneInstruction does not handle (its
  default case is ASSERT(FALSE)): the table markers SPECIAL and BCOND are always resolved and RFE
  is in no table. The three register fields are general registers, and the shift amount of the
  immediate shifts is below the word width, so the C++ shift is defined.
\<close>

lemma Decode_handled:
  "opCode (Decode v) \<notin> {SPECIAL, BCOND, OP_RFE} \<and>
   rs (Decode v) < NumGPRegs \<and> rt (Decode v) < NumGPRegs \<and> rd (Decode v) < NumGPRegs \<and>
   (opCode (Decode v) \<in> {OP_SLL, OP_SRA, OP_SRL} \<longrightarrow> unat (extra (Decode v)) < 32)"
  using Decode_opCode Decode_regs Decode_shamt by blast

text \<open>
  C31. The shift-and-add multiplication with its early exit, its hand-made carries and its two's
  complement of the double word computes the full 64-bit product: the unsigned product exactly,
  and the signed product modulo \<open>2 ^ 64\<close>, the most negative operand included.
\<close>

theorem Mult_product:
  "(case Mult a b False of (hi, lo) \<Rightarrow> uint hi * 2 ^ 32 + uint lo = uint a * uint b) \<and>
   (case Mult a b True of (hi, lo) \<Rightarrow> uint hi * 2 ^ 32 + uint lo = (sint a * sint b) mod 2 ^ 64)"
  using Mult_unsigned [of a b] Mult_signed [of a b] unfolding dval_def by (auto split: prod.splits)

definition fits :: "int \<Rightarrow> bool" where
  "fits s \<longleftrightarrow> - (2 ^ 31) \<le> s \<and> s < 2 ^ 31"

definition signed_outcome :: "machine \<Rightarrow> reg_word \<Rightarrow> nat \<Rightarrow> int \<Rightarrow> exec_res \<Rightarrow> bool" where
  "signed_outcome m pc d s r \<longleftrightarrow>
     (if fits s then \<exists>m'. r = Inr (Completed 0 0 pc, m') \<and> sint (reg m' d) = s \<and> same_but [d] m m'
      else r = Inr (Trapped (OverflowException, 0), m))"

lemma signed_outcomeI:
  assumes "d < length (registers m)" "c \<longleftrightarrow> \<not> fits s" "fits s \<Longrightarrow> sint v = s"
  shows "signed_outcome m pc d s (if c then trapped OverflowException 0 m else completed pc (set_reg d v m))"
  using assms same_but_set_reg(1) [of d m v]
  by (auto simp: signed_outcome_def trapped_def completed_def reg_set_reg)

text \<open>
  C34. ADD, ADDI and SUB raise OverflowException exactly when the signed result does not fit in 32
  bits, and change no register then; otherwise the destination holds the exact signed result.
\<close>

theorem signed_arithmetic_traps:
  assumes "machine_wf m" and "rd i < NumGPRegs" and "rt i < NumGPRegs"
  shows "let a = sint (reg m (rs i)); b = sint (reg m (rt i)); c = sint (extra i) in
         signed_outcome m pc (rd i) (a + b) (exec_ADD i pc m) \<and>
         signed_outcome m pc (rt i) (a + c) (exec_ADDI i pc m) \<and>
         signed_outcome m pc (rd i) (a - b) (exec_SUB i pc m)"
proof -
  have len: "rd i < length (registers m)" "rt i < length (registers m)"
    using assms by (simp_all add: machine_wf_length)
  have add: "(x XOR y) AND 0x80000000 = 0 \<and> (x XOR (x + y)) AND 0x80000000 \<noteq> 0 \<longleftrightarrow> \<not> fits (sint x + sint y)"
    "(x XOR y) AND 0x80000000 = 0 \<and> (y XOR (x + y)) AND 0x80000000 \<noteq> 0 \<longleftrightarrow> \<not> fits (sint x + sint y)"
    for x y :: "32 word"
    using sint_add_overflow(1) [of x y] sint_add_overflow(1) [of y x]
    by (simp_all only: fits_def add.commute [of y x] add.commute [of "sint y" "sint x"] xor.commute [of y x])
  show ?thesis
    unfolding Let_def exec_ADD_def exec_ADDI_def exec_SUB_def
    by (intro conjI signed_outcomeI add len)
       (simp_all only: fits_def sint_add_overflow sint_sub_overflow)
qed

theorem signed_arithmetic_traps_witness:
  "exec_ADD (Decode 0x00853020) 0x18 example_cpu = Inr (Trapped (OverflowException, 0), example_cpu)"
proof -
  have d: "Decode 0x00853020 = \<lparr>ivalue = 0x00853020, opCode = OP_ADD, rs = 4, rt = 5, rd = 6, extra = 0\<rparr>"
    by (simp add: Decode_def opTable_def specialTable_def Let_def)
  have "machine_wf example_cpu" using example_cpu_ok by (simp add: cpu_wf_def)
  moreover have "sint (reg example_cpu 4) = 2 ^ 31 - 1" "sint (reg example_cpu 5) = 1"
    by (simp_all add: reg_def example_cpu_regs)
  ultimately show ?thesis
    using signed_arithmetic_traps [of example_cpu "Decode 0x00853020" "0x18"] unfolding d
    by (simp add: Let_def signed_outcome_def fits_def)
qed

text \<open>
  C35. DIV and DIVU compute the truncating quotient and the remainder of the dividend's sign, a
  zero divisor gives zeros, and nothing but Lo and Hi changes; DIV of the most negative integer
  by -1 is not caught before the host's division, which traps.
\<close>

theorem division_correct:
  assumes "machine_wf m"
  shows "let a = reg m (rs i); b = reg m (rt i) in
     (if b = 0 then \<exists>m'. exec_DIV i pc m = Inr (Completed 0 0 pc, m') \<and> exec_DIVU i pc m = Inr (Completed 0 0 pc, m') \<and>
          same_but [LoReg, HiReg] m m' \<and> reg m' LoReg = 0 \<and> reg m' HiReg = 0
      else (if sint a = - (2 ^ 31) \<and> sint b = - 1 then exec_DIV i pc m = Inl ArithmeticTrap
            else \<exists>m'. exec_DIV i pc m = Inr (Completed 0 0 pc, m') \<and> same_but [LoReg, HiReg] m m' \<and>
                 sint (reg m' LoReg) * sint b + sint (reg m' HiReg) = sint a \<and>
                 \<bar>sint (reg m' HiReg)\<bar> < \<bar>sint b\<bar> \<and>
                 (sint (reg m' HiReg) = 0 \<or> sgn (sint (reg m' HiReg)) = sgn (sint a))) \<and>
           (\<exists>m'. exec_DIVU i pc m = Inr (Completed 0 0 pc, m') \<and> same_but [LoReg, HiReg] m m' \<and>
                 uint (reg m' LoReg) * uint b + uint (reg m' HiReg) = uint a \<and> uint (reg m' HiReg) < uint b))"
proof -
  let ?a = "reg m (rs i)" and ?b = "reg m (rt i)"
  have len: "length (registers m) = NumTotalRegs" using assms by (rule machine_wf_length)
  show ?thesis
  proof (cases "?b = 0")
    case True
    let ?m = "set_reg HiReg 0 (set_reg LoReg 0 m)"
    show ?thesis using True len same_but_set_reg(2) [of m 0 0]
      by (auto simp: exec_DIV_def exec_DIVU_def completed_def Let_def reg_set_reg intro!: exI [of _ ?m])
  next
    case False
    then have b: "sint ?b \<noteq> 0" "0 < uint ?b" using uint_32 [of ?b] by (auto simp: less_le uint_0_iff signed_eq_0_iff)
    let ?m = "set_reg HiReg (?a mod ?b) (set_reg LoReg (?a div ?b) m)"
    have "exec_DIVU i pc m = Inr (Completed 0 0 pc, ?m)" using False by (simp add: exec_DIVU_def completed_def Let_def)
    moreover have "uint (reg ?m LoReg) * uint ?b + uint (reg ?m HiReg) = uint ?a" "uint (reg ?m HiReg) < uint ?b"
      using len b by (simp_all add: reg_set_reg uint_div uint_mod)
    ultimately have "\<exists>m'. exec_DIVU i pc m = Inr (Completed 0 0 pc, m') \<and> same_but [LoReg, HiReg] m m' \<and>
        uint (reg m' LoReg) * uint ?b + uint (reg m' HiReg) = uint ?a \<and> uint (reg m' HiReg) < uint ?b"
      using same_but_set_reg(2) by blast
    moreover have "sint ?a = - (2 ^ 31) \<and> sint ?b = - 1 \<Longrightarrow> exec_DIV i pc m = Inl ArithmeticTrap"
      using False by (simp add: exec_DIV_def Let_def)
    ultimately show ?thesis
      using Completed_division [OF assms b(1)] False by (simp add: Let_def)
  qed
qed

theorem division_correct_witness:
  "\<exists>m'. exec_DIV (Decode 0x0085001a) 0x18 example_cpu = Inr (Completed 0 0 0x18, m') \<and>
     sint (reg m' LoReg) * 1 + sint (reg m' HiReg) = 2 ^ 31 - 1"
proof -
  have d: "Decode 0x0085001a = \<lparr>ivalue = 0x0085001a, opCode = OP_DIV, rs = 4, rt = 5, rd = 0, extra = 0\<rparr>"
    by (simp add: Decode_def opTable_def specialTable_def Let_def)
  have wf: "machine_wf example_cpu" using example_cpu_ok by (simp add: cpu_wf_def)
  have "reg example_cpu 4 = 0x7fffffff" "reg example_cpu 5 = 1"
    by (simp_all add: reg_def example_cpu_regs)
  then show ?thesis
    using division_correct [OF wf, of "Decode 0x0085001a" "0x18"] unfolding d by (auto simp: Let_def)
qed

text \<open>
  C17. One instruction on a well-formed processor never fails an assertion nor leaves an array:
  the only way the simulator dies is the trapping host division. The result is again well formed,
  register 0 being zero and the pending load being for a general register. An exception is
  precise: registers and memory are those before the instruction, so it can be restarted.
\<close>

theorem OneInstruction_safe:
  assumes "cpu_wf m"
  shows "case OneInstruction big m of
           Inl e \<Rightarrow> e = ArithmeticTrap
         | Inr (t, m') \<Rightarrow> cpu_wf m' \<and>
             (t \<noteq> None \<longrightarrow> registers m' = registers m \<and> mainMemory m' = mainMemory m)"
proof (rule OneInstruction_cases [OF cpu_wfD [OF assms], of big])
  fix lr lv pc m2 m3
  assume d: "DelayedLoad lr lv m2 = Inr m3" and o: "OneInstruction big m = Inr (None, advance_pc pc m3)"
    and k: "exec_keeps m m2" and lr: "unat lr < NumGPRegs"
  have m2: "machine_wf m2" "translation_ready m2" "unat (reg m2 LoadReg) < NumGPRegs"
    using k assms by (simp_all add: exec_keeps_def cpu_wf_def)
  note m3 = DelayedLoad_reg [OF m2(1,3) d]
  note m4 = advance_pc_reg [OF m3(1)]
  have "cpu_wf (advance_pc pc m3)"
    using m2 m3 m4 lr by (simp add: cpu_wf_def)
  then show ?thesis using o by simp
qed (use assms in \<open>auto simp: cpu_wf_def reg_def\<close>)

theorem OneInstruction_safe_witness:
  "\<exists>m'. OneInstruction False example_cpu = Inr (None, m') \<and> cpu_wf m'"
  using OneInstruction_safe [OF example_cpu_ok, of False] step_example by auto

text \<open>
  C18. The pipeline: after a completed instruction the PC is the old NextPC whatever the
  instruction was (the instruction in a branch delay slot is always executed), and the load that
  was pending has reached its register, one instruction late, unless that is register 0.
\<close>

theorem OneInstruction_pipeline:
  assumes "cpu_wf m" and "OneInstruction big m = Inr (None, m')"
  shows "reg m' PCReg = reg m NextPCReg \<and> reg m' PrevPCReg = reg m PCReg \<and>
     (reg m LoadReg \<noteq> 0 \<longrightarrow> reg m' (unat (reg m LoadReg)) = reg m LoadValueReg)"
proof (rule OneInstruction_cases [OF cpu_wfD [OF assms(1)], of big])
  fix lr lv pc m2 m3
  assume d: "DelayedLoad lr lv m2 = Inr m3" and o: "OneInstruction big m = Inr (None, advance_pc pc m3)"
    and k: "exec_keeps m m2"
  have m2: "machine_wf m2" "unat (reg m2 LoadReg) < NumGPRegs" "reg m2 LoadReg = reg m LoadReg"
    "reg m2 LoadValueReg = reg m LoadValueReg" "reg m2 PCReg = reg m PCReg" "reg m2 NextPCReg = reg m NextPCReg"
    using k assms by (simp_all add: exec_keeps_def cpu_wf_def)
  note m3 = DelayedLoad_reg [OF m2(1,2) d]
  note m4 = advance_pc_reg [OF m3(1)]
  show ?thesis using m2 m3 m4 assms o by (auto simp: unat_eq_0)
qed (use assms in auto)

theorem OneInstruction_pipeline_witness:
  "\<exists>m'. OneInstruction False example_cpu = Inr (None, m') \<and> reg m' PCReg = 0x14 \<and> reg m' 8 = 77"
proof -
  obtain m' where "OneInstruction False example_cpu = Inr (None, m')" using step_example by blast
  with OneInstruction_pipeline [OF example_cpu_ok this] show ?thesis
    by (simp add: reg_def [of example_cpu] example_cpu_regs)
qed

text \<open>
  The unaligned store pair: SWR at an address that is \<open>k\<close> bytes into a word and SWL at the
  address three bytes further, in the next word, write the four bytes of the register across the
  two words and keep the \<open>k\<close> bytes before and the \<open>4 - k\<close> bytes after.
\<close>

lemma unaligned_store:
  assumes "1 \<le> k" and "k < 4"
  shows "bytes_of_word 4 (merge_SWR (of_nat k) w0 r) @ bytes_of_word 4 (merge_SWL (of_nat (k - 1)) w1 r) =
         take k (bytes_of_word 4 w0) @ bytes_of_word 4 r @ drop k (bytes_of_word 4 w1)"
proof -
  have "3 - (k - 1) = 4 - k" "k - 1 + 1 = k" using assms by simp_all
  then show ?thesis using merge_SWR_bytes [of k w0 r] merge_SWL_bytes [of "k - 1" w1 r] assms by simp
qed

text \<open>
  C36. The unaligned load pair, LWR at offset \<open>k\<close> of a word and LWL at offset \<open>k - 1\<close> of the next,
  returns the four bytes of the unaligned word when \<open>k = 2\<close>, for every memory and register. It
  does not for \<open>k = 1\<close> and \<open>k = 3\<close>: the cases 0 and 2 of LWL are exchanged, so the word that the
  store pair of C14 wrote is not read back.
\<close>

theorem unaligned_load:
  "bytes_of_word 4 (merge_LWL 1 (merge_LWR 2 old w0) w1) = take 4 (drop 2 (bytes_of_word 4 w0 @ bytes_of_word 4 w1)) \<and>
   bytes_of_word 4 (merge_LWL 0 (merge_LWR 1 old 0x04030201) 0x08070605) \<noteq>
     take 4 (drop 1 (bytes_of_word 4 0x04030201 @ bytes_of_word 4 (0x08070605 :: 32 word))) \<and>
   bytes_of_word 4 (merge_LWL 2 (merge_LWR 3 old 0x04030201) 0x08070605) \<noteq>
     take 4 (drop 3 (bytes_of_word 4 0x04030201 @ bytes_of_word 4 (0x08070605 :: 32 word)))"
proof (intro conjI)
  show "bytes_of_word 4 (merge_LWL 1 (merge_LWR 2 old w0) w1) =
      take 4 (drop 2 (bytes_of_word 4 w0 @ bytes_of_word 4 w1))"
    using merge_LWL_bytes [of 1 "merge_LWR 2 old w0" w1] merge_LWR_bytes [of 2 old w0]
    by (simp add: numeral_2_eq_2)
  have "(Word.unsigned (drop_bit 24 (merge_LWL 0 x w)) :: 8 word) = Word.unsigned (drop_bit 16 w)" for x w :: "32 word"
    by (rule bit_word_eqI) (simp add: merge_LWL_def part_masks merge_bits)
  then show "bytes_of_word 4 (merge_LWL 0 (merge_LWR 1 old 0x04030201) 0x08070605) \<noteq>
     take 4 (drop 1 (bytes_of_word 4 0x04030201 @ bytes_of_word 4 (0x08070605 :: 32 word)))"
    by (simp add: bytes_of_word_4)
  have "(Word.unsigned (drop_bit 24 (merge_LWL 2 x w)) :: 8 word) = Word.unsigned w" for x w :: "32 word"
    by (rule bit_word_eqI) (simp add: merge_LWL_def part_masks merge_bits)
  then show "bytes_of_word 4 (merge_LWL 2 (merge_LWR 3 old 0x04030201) 0x08070605) \<noteq>
     take 4 (drop 3 (bytes_of_word 4 0x04030201 @ bytes_of_word 4 (0x08070605 :: 32 word)))"
    by (simp add: bytes_of_word_4)
qed

end
