(* ===== verification/Nachos_UserMem.thy ===== *)
theory Nachos_UserMem
  imports Nachos_Machine
begin

text \<open>
  Data between the kernel and a user program: copyStringFromMachine and copyStringToMachine of
  \<^verbatim>\<open>code/threads/system.cc\<close>, and the decimal numbers of the system calls PutInt and GetInt
  (\<^verbatim>\<open>code/userprog/exception.cc\<close>: snprintf and sscanf with the format \<^verbatim>\<open>%d\<close>).

  Characters are bytes, buffers are lists of bytes; \<open>heap n\<close> is what a new array of \<open>n\<close> characters
  holds. The unsigned variables are natural numbers, reduced modulo \<open>2 ^ 32\<close> where the code computes
  with them.
\<close>

section \<open>Exceptions of the kernel's own accesses\<close>

text \<open>
  Machine::RaiseException up to the call of ExceptionHandler, and ExceptionHandler on an exception that is no
  system call: it prints a message and aborts, whatever the exception.
\<close>

definition raise_registers :: "trap \<Rightarrow> machine \<Rightarrow> machine res" where
  "raise_registers t m = DelayedLoad 0 0 (m\<lparr>registers := (registers m)[BadVAddrReg := snd t]\<rparr>)"

definition unexpected_exception :: "machine \<Rightarrow> machine res" where
  "unexpected_exception m = bindR (ReadRegister 2 m) (\<lambda>type. ASSERT False (Inr m))"

definition kernel_trap :: "trap \<Rightarrow> machine \<Rightarrow> machine res" where
  "kernel_trap t m = bindR (raise_registers t m) unexpected_exception"

section \<open>Strings\<close>

abbreviation (input) MAX_STRING_SIZE :: nat where "MAX_STRING_SIZE \<equiv> 15"

definition u32 :: "nat \<Rightarrow> nat" where
  "u32 n = n mod 2 ^ 32"

definition new_chars :: "(nat \<Rightarrow> nat \<Rightarrow> 8 word) \<Rightarrow> nat \<Rightarrow> 8 word list" where
  "new_chars heap n = map (heap n) [0..<n]"

text \<open>The buffer is replaced by one twice as long when its last place would be used.\<close>

definition grow_buffer :: "(nat \<Rightarrow> nat \<Rightarrow> 8 word) \<Rightarrow> nat \<Rightarrow> nat \<Rightarrow> 8 word list \<Rightarrow> (nat \<times> 8 word list) res" where
  "grow_buffer heap pos sz to =
     (if pos \<ge> u32 (sz + 2 ^ 32 - 1)
      then let tmp_str = new_chars heap (u32 (sz * 2 + 1)) in
           if sz \<le> length to \<and> sz \<le> length tmp_str
           then Inr (u32 (sz * 2), take sz to @ drop sz tmp_str)
           else Inl OutOfBounds
      else Inr (sz, to))"

definition put_char_at :: "nat \<Rightarrow> 8 word \<Rightarrow> 8 word list \<Rightarrow> 8 word list res" where
  "put_char_at pos c to = (if pos < length to then Inr (to[pos := c]) else Inl OutOfBounds)"

text \<open>What follows the loop: the terminator, at the position after the one the loop stopped at.\<close>

definition end_copy :: "nat \<Rightarrow> 8 word list \<Rightarrow> machine \<Rightarrow> (nat \<times> 8 word list \<times> machine) res" where
  "end_copy pos to m = bindR (put_char_at pos 0 to) (\<lambda>to'. Inr (pos, to', m))"

partial_function (option) copy_from_loop ::
  "bool \<Rightarrow> (nat \<Rightarrow> nat \<Rightarrow> 8 word) \<Rightarrow> reg_word \<Rightarrow> nat \<Rightarrow> 8 word list \<Rightarrow> nat \<Rightarrow> machine \<Rightarrow>
   (nat \<times> 8 word list \<times> machine) res option" where
  "copy_from_loop big heap from_addr sz to pos m =
     (case ReadMem big from_addr 1 m of
        Inl e \<Rightarrow> Some (Inl e)
      | Inr (Inl t, m1) \<Rightarrow> Some (bindR (kernel_trap t m1) (end_copy (u32 (pos + 1)) to))
      | Inr (Inr tmp, m1) \<Rightarrow>
          let c = Word.unsigned tmp :: 8 word in
          if c \<noteq> 0
          then case bindR (grow_buffer heap pos sz to) (\<lambda>(sz', to').
                      bindR (put_char_at pos c to') (\<lambda>to''. Inr (sz', to''))) of
                 Inl e \<Rightarrow> Some (Inl e)
               | Inr (sz', to'') \<Rightarrow> copy_from_loop big heap (from_addr + 1) sz' to'' (u32 (pos + 1)) m1
          else Some (end_copy (u32 (pos + 1)) to m1))"

definition copyStringFromMachine ::
  "bool \<Rightarrow> (nat \<Rightarrow> nat \<Rightarrow> 8 word) \<Rightarrow> reg_word \<Rightarrow> nat \<Rightarrow> machine \<Rightarrow> (nat \<times> 8 word list \<times> machine) res" where
  "copyStringFromMachine big heap from_addr sz m =
     loop_result (copy_from_loop big heap from_addr sz (new_chars heap sz) 0 m)"

function copy_to_loop ::
  "bool \<Rightarrow> 8 word list \<Rightarrow> reg_word \<Rightarrow> nat \<Rightarrow> nat \<Rightarrow> machine \<Rightarrow> (nat \<times> machine) res" where
  "copy_to_loop big chars to sz cnt m =
     (if cnt < sz
      then if cnt < length chars
        then let c = chars ! cnt in
          bindR (WriteMem big to 1 (Word.signed c) m) (\<lambda>(t, m1).
            bindR (case t of None \<Rightarrow> Inr (True, m1)
                   | Some trap \<Rightarrow> bindR (kernel_trap trap m1) (\<lambda>m2. Inr (False, m2))) (\<lambda>(ok, m2).
              if ok \<and> \<not> (c = 0 \<or> c = 10)
              then copy_to_loop big chars (to + 1) sz (cnt + 1) m2
              else Inr (cnt + 1, m2)))
        else Inl OutOfBounds
      else Inr (cnt, m))"
  by pat_completeness auto
termination by (relation "measure (\<lambda>(big, chars, to, sz, cnt, m). sz - cnt)") auto

declare copy_to_loop.simps [simp del]

definition copyStringToMachine :: "bool \<Rightarrow> 8 word list \<Rightarrow> reg_word \<Rightarrow> nat \<Rightarrow> machine \<Rightarrow> (nat \<times> machine) res" where
  "copyStringToMachine big chars to sz m = copy_to_loop big chars to sz 0 m"

section \<open>Numbers\<close>

fun digits_rev :: "nat \<Rightarrow> 8 word list" where
  "digits_rev n = (if n < 10 then [of_nat (48 + n)] else of_nat (48 + n mod 10) # digits_rev (n div 10))"

declare digits_rev.simps [simp del]

definition decimal :: "int \<Rightarrow> 8 word list" where
  "decimal i = (if i < 0 then [45] else []) @ rev (digits_rev (nat \<bar>i\<bar>))"

text \<open>snprintf writes at most \<open>sz\<close> characters, the terminator included.\<close>

definition snprintf_d :: "nat \<Rightarrow> int \<Rightarrow> 8 word list \<Rightarrow> 8 word list" where
  "snprintf_d sz i st =
     (let out = take (sz - 1) (decimal i) @ [0] in out @ drop (length out) st)"

definition isspace :: "8 word \<Rightarrow> bool" where
  "isspace c \<longleftrightarrow> c = 32 \<or> (9 \<le> c \<and> c \<le> 13)"

definition isdigit :: "8 word \<Rightarrow> bool" where
  "isdigit c \<longleftrightarrow> 48 \<le> c \<and> c \<le> 57"

definition digits_value :: "8 word list \<Rightarrow> int" where
  "digits_value ds = foldl (\<lambda>v c. 10 * v + (uint c - 48)) 0 ds"

text \<open>
  sscanf with \<^verbatim>\<open>%d\<close>: white space, an optional sign, digits. When there is no number nothing is stored, and
  what is stored when the number does not fit an int is not defined: the result is None.
\<close>

definition sscanf_d :: "8 word list \<Rightarrow> reg_word option" where
  "sscanf_d st =
     (let s = dropWhile isspace (takeWhile (\<lambda>c. c \<noteq> 0) st);
          signed = (s \<noteq> [] \<and> (hd s = 45 \<or> hd s = 43));
          ds = takeWhile isdigit (if signed then tl s else s);
          v = (if signed \<and> hd s = 45 then - digits_value ds else digits_value ds)
      in if ds \<noteq> [] \<and> - (2 ^ 31) \<le> v \<and> v < 2 ^ 31 then Some (word_of_int v) else None)"


section \<open>User memory byte by byte\<close>

text \<open>Where a byte of the user's memory is, and what a user program reads there.\<close>

definition phys :: "machine \<Rightarrow> bool \<Rightarrow> reg_word \<Rightarrow> nat option" where
  "phys m writing a = (case Translate a 1 writing m of Inr (Inr pa, _) \<Rightarrow> Some pa | _ \<Rightarrow> None)"

definition peek :: "machine \<Rightarrow> reg_word \<Rightarrow> 8 word option" where
  "peek m a = map_option (mainMemory m) (phys m False a)"

definition entry_core :: "TranslationEntry \<Rightarrow> nat \<times> nat \<times> bool \<times> bool" where
  "entry_core e = (virtualPage e, physicalPage e, valid e, readOnly e)"

lemma aligned_1 [simp]: "aligned (Suc 0) a"
  by (simp add: aligned_def)

lemma find_entry_core:
  assumes "machine_wf m" "find_entry m vpn = Inr (Inr (loc, e))" "entry_core e' = entry_core e"
  shows "map_sum id (map_sum id (map_prod id entry_core)) (find_entry (set_entry loc e' m) v) =
         map_sum id (map_sum id (map_prod id entry_core)) (find_entry m v)"
proof (cases "tlb m")
  case None
  with assms obtain p pt where p: "loc = In_PageTable p vpn" "pageTable m = Some p" "ptables m p = Some pt"
    "vpn < length pt" "e = pt ! vpn"
    by (auto simp: find_entry_def split: option.splits if_splits)
  have "valid e' = valid e" using assms(3) by (simp add: entry_core_def)
  then show ?thesis using None p assms(3) by (auto simp: find_entry_def nth_list_update)
next
  case (Some t)
  with assms obtain i where i: "loc = In_TLB i" "tlb_search t [0..<TLBSize] vpn = Some i" "e = t ! i"
    by (auto simp: find_entry_def split: option.splits)
  have l: "i < length t" using tlb_search_Some [OF i(2)] assms(1) Some by (auto simp: machine_wf_def)
  have c: "entry_core (t[i := e'] ! j) = entry_core (t ! j)" for j
    using assms(3) i l by (auto simp: nth_list_update)
  then have "valid (t[i := e'] ! j) = valid (t ! j) \<and> virtualPage (t[i := e'] ! j) = virtualPage (t ! j)" for j
    by (simp add: entry_core_def)
  then have "tlb_search (t[i := e']) [0..<TLBSize] v = tlb_search t [0..<TLBSize] v"
    by (intro tlb_search_cong) simp
  then show ?thesis using Some i c by (auto simp: find_entry_def split: option.splits)
qed

lemma phys_eq:
  assumes "machine_wf m" "translation_ready m"
  shows "phys m writing a = (case map_sum id (map_sum id (map_prod id entry_core)) (find_entry m (unat a div PageSize)) of
     Inr (Inr (loc, vp, pp, v, ro)) \<Rightarrow>
       if ro \<and> writing \<or> pp \<ge> NumPhysPages then None else Some (pp * PageSize + unat a mod PageSize)
   | _ \<Rightarrow> None)"
proof -
  obtain r where r: "find_entry m (unat a div PageSize) = Inr r" using find_entry_total [OF assms] by blast
  show ?thesis
  proof (cases r)
    case (Inl exc)
    then show ?thesis using r Translate_not_found [OF assms(2), of 1 a exc writing] by (simp add: phys_def)
  next
    case (Inr le)
    then obtain loc e where "find_entry m (unat a div PageSize) = Inr (Inr (loc, e))" using r by (cases le) auto
    then show ?thesis using Translate_found [OF assms(2), of 1 a loc e writing] by (simp add: phys_def entry_core_def)
  qed
qed

lemma phys_mem [simp]:
  "machine_wf m \<Longrightarrow> translation_ready m \<Longrightarrow> phys (m\<lparr>mainMemory := mm\<rparr>) = phys m"
proof (intro ext)
  fix writing a
  assume "machine_wf m" "translation_ready m"
  moreover from this have "machine_wf (m\<lparr>mainMemory := mm\<rparr>)" "translation_ready (m\<lparr>mainMemory := mm\<rparr>)"
    by (simp_all add: machine_wf_def translation_ready_def)
  ultimately show "phys (m\<lparr>mainMemory := mm\<rparr>) writing a = phys m writing a" by (simp add: phys_eq)
qed

text \<open>What an access leaves alone besides the contents of the memory: registers and translation.\<close>

definition same_tables :: "machine \<Rightarrow> machine \<Rightarrow> bool" where
  "same_tables m m' \<longleftrightarrow> machine_wf m' \<and> translation_ready m' \<and> registers m' = registers m \<and> phys m' = phys m \<and>
     (tlb m' = None) = (tlb m = None) \<and> pageTable m' = pageTable m \<and> pageTableSize m' = pageTableSize m"

lemma same_tables_trans: "same_tables m m1 \<Longrightarrow> same_tables m1 m2 \<Longrightarrow> same_tables m m2"
  by (simp add: same_tables_def)

lemma same_tablesD:
  "same_tables m m' \<Longrightarrow> machine_wf m'" "same_tables m m' \<Longrightarrow> translation_ready m'"
  "same_tables m m' \<Longrightarrow> registers m' = registers m" "same_tables m m' \<Longrightarrow> phys m' = phys m"
  by (simp_all add: same_tables_def)

lemma Translate_phys:
  assumes wf: "machine_wf m" "translation_ready m" and pa: "phys m writing a = Some pa"
  obtains m' where "Translate a 1 writing m = Inr (Inr pa, m')" "same_tables m m'" "mainMemory m' = mainMemory m"
proof -
  have one: "(1 :: nat) \<in> {1, 2, 4}" by simp
  obtain m' where t: "Translate a 1 writing m = Inr (Inr pa, m')"
    using pa by (auto simp: phys_def split: sum.splits)
  obtain loc e where acc: "accessible a 1 writing m (loc, e)"
    and m': "m' = set_entry loc (e\<lparr>use := True, dirty := (writing \<or> dirty e)\<rparr>) m"
    by (rule Translate_cases [OF wf one, of a writing]) (use t in auto)
  note pr = Translate_preserves [OF wf one t]
  have "phys m' = phys m"
  proof (intro ext)
    fix w b
    show "phys m' w b = phys m w b"
      unfolding phys_eq [OF wf] phys_eq [OF pr(1,2)] unfolding m'
      by (subst find_entry_core [OF wf(1)]) (use acc in \<open>auto simp: accessible_def entry_core_def\<close>)
  qed
  then show ?thesis using that [of m'] t pr m' by (simp add: same_tables_def)
qed

lemma Translate_no_phys:
  assumes wf: "machine_wf m" "translation_ready m" and pa: "phys m writing a = None"
  obtains exc where "Translate a 1 writing m = Inr (Inl exc, m)"
proof -
  have one: "(1 :: nat) \<in> {1, 2, 4}" by simp
  show ?thesis by (rule Translate_cases [OF wf one, of a writing]) (use pa that in \<open>auto simp: phys_def\<close>)
qed

lemma byte_signed [simp]: "(Word.unsigned (Word.signed (c :: 8 word) :: 32 word) :: 8 word) = c"
  by (rule bit_word_eqI) (auto simp: bit_unsigned_iff bit_signed_iff)

lemma ReadMem_peek:
  assumes wf: "machine_wf m" "translation_ready m" and c: "peek m a = Some c"
  obtains m' where "ReadMem big a 1 m = Inr (Inr (Word.signed c), m')" "same_tables m m'" "mainMemory m' = mainMemory m"
proof -
  obtain pa where pa: "phys m False a = Some pa" "mainMemory m pa = c" using c by (auto simp: peek_def)
  show ?thesis
    by (rule Translate_phys [OF wf pa(1)]) (use pa(2) that in \<open>simp add: ReadMem_def\<close>)
qed

lemma WriteMem_phys:
  assumes wf: "machine_wf m" "translation_ready m" and pa: "phys m True a = Some pa"
  obtains m' where "WriteMem big a 1 (Word.signed c) m = Inr (None, m')" "same_tables m m'"
    "mainMemory m' = (mainMemory m)(pa := c)"
proof (rule Translate_phys [OF wf pa])
  fix m'
  assume t: "Translate a 1 True m = Inr (Inr pa, m')" and m': "same_tables m m'" "mainMemory m' = mainMemory m"
  let ?m = "m'\<lparr>mainMemory := (mainMemory m')(pa := c)\<rparr>"
  have "WriteMem big a 1 (Word.signed c) m = Inr (None, ?m)"
    using t by (simp add: WriteMem_def low_byte)
  moreover have "same_tables m ?m"
  proof -
    have "machine_wf ?m" "translation_ready ?m" "phys ?m = phys m'"
      using same_tablesD [OF m'(1)] by (simp_all add: machine_wf_def translation_ready_def)
    then show ?thesis using m' by (simp add: same_tables_def)
  qed
  ultimately show ?thesis using that m' by simp
qed

text \<open>An access that fails stops the kernel.\<close>

lemma kernel_trap_abort:
  assumes "length (registers m) = NumTotalRegs" "unat (registers m ! LoadReg) < NumGPRegs"
  shows "kernel_trap t m = Inl AssertionFailed"
  using assms by (simp add: kernel_trap_def raise_registers_def DelayedLoad_def Let_def unexpected_exception_def ReadRegister_def)

section \<open>Strings of a user program\<close>

fun user_string :: "machine \<Rightarrow> reg_word \<Rightarrow> 8 word list \<Rightarrow> bool" where
  "user_string m a [] = (peek m a = Some 0)"
| "user_string m a (c # cs) = (peek m a = Some c \<and> c \<noteq> 0 \<and> user_string m (a + 1) cs)"

lemma user_string_cong: "peek m' = peek m \<Longrightarrow> user_string m' a cs = user_string m a cs"
  by (induction cs arbitrary: a) simp_all

text \<open>What the buffer holds when \<open>cs\<close> has been copied into it: the first buffer has no place for a second
  terminator, the later ones do.\<close>

definition copy_inv :: "(nat \<Rightarrow> nat \<Rightarrow> 8 word) \<Rightarrow> 8 word list \<Rightarrow> nat \<Rightarrow> 8 word list \<Rightarrow> bool" where
  "copy_inv heap cs sz to \<longleftrightarrow> length cs < sz \<and> take (length cs) to = cs \<and>
     (\<forall>j. length cs \<le> j \<and> j < length to \<longrightarrow> to ! j = heap (length to) j) \<and>
     (sz = MAX_STRING_SIZE \<and> length to = MAX_STRING_SIZE \<or>
      length to = sz + 1 \<and> MAX_STRING_SIZE \<le> length cs \<and> sz \<le> 2 * length cs)"

lemma length_new_chars [simp]: "length (new_chars heap n) = n"
  by (simp add: new_chars_def)

lemma nth_new_chars [simp]: "j < n \<Longrightarrow> new_chars heap n ! j = heap n j"
  by (simp add: new_chars_def)

lemma u32_pred: "0 < n \<Longrightarrow> n < 2 ^ 32 \<Longrightarrow> u32 (n + 2 ^ 32 - 1) = n - 1"
  by (cases n) (simp_all add: u32_def)

lemma copy_inv_start: "copy_inv heap [] MAX_STRING_SIZE (new_chars heap MAX_STRING_SIZE)"
  by (simp add: copy_inv_def)

lemma copy_inv_char:
  assumes i: "copy_inv heap cs sz to" and b: "length cs < 2 ^ 30"
  obtains sz' to' where "grow_buffer heap (length cs) sz to = Inr (sz', to')" "length cs < length to'"
    "copy_inv heap (cs @ [c]) sz' (to'[length cs := c])"
proof (cases "length cs = sz - 1")
  case False
  then have "Suc (length cs) < sz" "length cs < length to" "sz < 2 ^ 31" "sz \<noteq> 0"
    using i b by (auto simp: copy_inv_def)
  moreover from this have "grow_buffer heap (length cs) sz to = Inr (sz, to)"
    unfolding grow_buffer_def by (subst u32_pred) auto
  moreover from i calculation have "copy_inv heap (cs @ [c]) sz (to[length cs := c])"
    by (auto simp: copy_inv_def take_Suc_conv_app_nth nth_list_update)
  ultimately show ?thesis using that by blast
next
  case True
  let ?to = "take sz to @ drop sz (new_chars heap (sz * 2 + 1))"
  have s: "sz = Suc (length cs)" "sz \<le> length to" "MAX_STRING_SIZE \<le> sz" "sz \<le> 2 ^ 30"
    using i True b by (auto simp: copy_inv_def)
  have l: "length ?to = sz * 2 + 1" using s by simp
  have "grow_buffer heap (length cs) sz to = Inr (sz * 2, ?to)"
    unfolding grow_buffer_def by (subst u32_pred) (use s True in \<open>auto simp: u32_def\<close>)
  moreover have "length cs < length ?to" using s l by linarith
  moreover have "copy_inv heap (cs @ [c]) (sz * 2) (?to[length cs := c])"
  proof -
    have "take (length cs) to = cs" using i by (simp add: copy_inv_def)
    then have t: "take (length cs) (?to[length cs := c]) = cs" using s by (simp add: min_def)
    have "take (Suc (length cs)) (?to[length cs := c]) = cs @ [c]"
      using t s l by (subst take_Suc_conv_app_nth) auto
    moreover have "?to[length cs := c] ! j = heap (sz * 2 + 1) j" if "sz \<le> j" "j < sz * 2 + 1" for j
      using that s(1,2) by (simp add: nth_append min_def del: mult_Suc mult_Suc_right)
    ultimately show ?thesis using s unfolding copy_inv_def length_list_update l by simp
  qed
  ultimately show ?thesis using that by blast
qed

definition copied :: "(nat \<Rightarrow> nat \<Rightarrow> 8 word) \<Rightarrow> 8 word list \<Rightarrow> 8 word list \<Rightarrow> bool" where
  "copied heap cs buf \<longleftrightarrow> length cs + 1 < length buf \<and>
     take (length cs) buf = cs \<and> buf ! length cs = heap (length buf) (length cs) \<and> buf ! (length cs + 1) = 0"

fun user_chars :: "machine \<Rightarrow> reg_word \<Rightarrow> 8 word list \<Rightarrow> bool" where
  "user_chars m a [] = True"
| "user_chars m a (c # cs) = (peek m a = Some c \<and> c \<noteq> 0 \<and> user_chars m (a + 1) cs)"

lemma user_string_chars: "user_string m a s \<longleftrightarrow> user_chars m a s \<and> peek m (a + of_nat (length s)) = Some 0"
  by (induction s arbitrary: a) (auto simp: add.assoc)

lemma user_chars_cong: "peek m' = peek m \<Longrightarrow> user_chars m' a cs = user_chars m a cs"
  by (induction cs arbitrary: a) simp_all

lemma copy_from_loop_chars:
  assumes "machine_wf m" "translation_ready m" "user_chars m a s" "copy_inv heap cs sz to"
    and "length (cs @ s) < 2 ^ 30"
  shows "\<exists>sz' to' m'. copy_from_loop big heap a sz to (length cs) m =
       copy_from_loop big heap (a + of_nat (length s)) sz' to' (length (cs @ s)) m' \<and>
     copy_inv heap (cs @ s) sz' to' \<and> same_tables m m' \<and> mainMemory m' = mainMemory m"
  using assms
proof (induction s arbitrary: m a cs sz to)
  case Nil
  then show ?case by (intro exI [of _ sz] exI [of _ to] exI [of _ m]) (simp add: same_tables_def)
next
  case (Cons c s)
  have c: "peek m a = Some c" "c \<noteq> 0" "user_chars m (a + 1) s" using Cons.prems(3) by simp_all
  obtain m1 where m1: "ReadMem big a 1 m = Inr (Inr (Word.signed c), m1)" "same_tables m m1" "mainMemory m1 = mainMemory m"
    by (rule ReadMem_peek [OF Cons.prems(1,2) c(1)])
  have b: "length cs < 2 ^ 30" "u32 (length cs + 1) = length (cs @ [c])" using Cons.prems(5) by (auto simp: u32_def)
  obtain sz1 to1 where g: "grow_buffer heap (length cs) sz to = Inr (sz1, to1)" "length cs < length to1"
    "copy_inv heap (cs @ [c]) sz1 (to1[length cs := c])"
    by (rule copy_inv_char [OF Cons.prems(4) b(1)])
  have eq: "copy_from_loop big heap a sz to (length cs) m =
      copy_from_loop big heap (a + 1) sz1 (to1[length cs := c]) (length (cs @ [c])) m1"
    using m1(1) c(2) g(1,2) b(2) by (subst copy_from_loop.simps) (simp add: put_char_at_def)
  have "user_chars m1 (a + 1) s"
    using c(3) user_chars_cong [of m1 m] m1 same_tablesD(4) [OF m1(2)] by (simp add: peek_def fun_eq_iff)
  then obtain sz' to' m' where "copy_from_loop big heap (a + 1) sz1 (to1[length cs := c]) (length (cs @ [c])) m1 =
       copy_from_loop big heap (a + 1 + of_nat (length s)) sz' to' (length ((cs @ [c]) @ s)) m'"
     "copy_inv heap ((cs @ [c]) @ s) sz' to'" "same_tables m1 m'" "mainMemory m' = mainMemory m1"
    using Cons.IH [OF same_tablesD(1,2) [OF m1(2)] _ g(3), of "a + 1"] Cons.prems(5) by auto
  then show ?case using eq m1(2,3) same_tables_trans by (intro exI [of _ sz'] exI [of _ to'] exI [of _ m']) (auto simp: add.assoc)
qed

lemma copy_from_loop_string:
  assumes "machine_wf m" "translation_ready m" "user_string m a s" "copy_inv heap [] sz to"
    and len: "length s < 2 ^ 30"
  shows "if length s = 14 then copy_from_loop big heap a sz to 0 m = Some (Inl OutOfBounds)
    else \<exists>buf m'. copy_from_loop big heap a sz to 0 m = Some (Inr (length s + 1, buf, m')) \<and>
       copied heap s buf \<and> same_tables m m' \<and> mainMemory m' = mainMemory m"
proof -
  have u: "user_chars m a s" "peek m (a + of_nat (length s)) = Some 0" using assms(3) by (simp_all add: user_string_chars)
  obtain sz' to' m1 where l: "copy_from_loop big heap a sz to 0 m = copy_from_loop big heap (a + of_nat (length s)) sz' to' (length s) m1"
    and i: "copy_inv heap s sz' to'" and m1: "same_tables m m1" "mainMemory m1 = mainMemory m"
    using copy_from_loop_chars [OF assms(1,2) u(1) assms(4), of big] len by auto
  have "peek m1 (a + of_nat (length s)) = Some 0" using u(2) m1 same_tablesD(4) [OF m1(1)] by (simp add: peek_def)
  then obtain m2 where m2: "ReadMem big (a + of_nat (length s)) 1 m1 = Inr (Inr (Word.signed (0 :: 8 word)), m2)"
    "same_tables m1 m2" "mainMemory m2 = mainMemory m1"
    using ReadMem_peek [OF same_tablesD(1,2) [OF m1(1)]] by metis
  have eq: "copy_from_loop big heap a sz to 0 m = Some (end_copy (length s + 1) to' m2)"
    unfolding l using m2(1) len by (subst copy_from_loop.simps) (simp add: u32_def)
  show ?thesis
  proof (cases "length s = 14")
    case True
    then show ?thesis using eq i by (auto simp: copy_inv_def end_copy_def put_char_at_def)
  next
    case False
    then have b: "length s + 1 < length to'" "take (length s) to' = s" "to' ! length s = heap (length to') (length s)"
      using i by (auto simp: copy_inv_def)
    then have "copied heap s (to'[length s + 1 := 0])" by (simp add: copied_def)
    then show ?thesis using False eq b m2 m1 same_tables_trans by (auto simp: end_copy_def put_char_at_def)
  qed
qed

text \<open>A string that runs into memory that is not there.\<close>

lemma copy_from_loop_trap:
  assumes "machine_wf m" "translation_ready m" "user_chars m a s" "peek m (a + of_nat (length s)) = None"
    "copy_inv heap [] sz to" "length s < 2 ^ 30" "unat (registers m ! LoadReg) < NumGPRegs"
  shows "copy_from_loop big heap a sz to 0 m = Some (Inl AssertionFailed)"
proof -
  obtain sz' to' m1 where l: "copy_from_loop big heap a sz to 0 m = copy_from_loop big heap (a + of_nat (length s)) sz' to' (length s) m1"
    and m1: "same_tables m m1" "mainMemory m1 = mainMemory m"
    using copy_from_loop_chars [OF assms(1-3,5), of big] assms(6) by auto
  note wf = same_tablesD [OF m1(1)]
  have "phys m1 False (a + of_nat (length s)) = None" using assms(4) wf(4) by (simp add: peek_def)
  then obtain exc where "Translate (a + of_nat (length s)) 1 False m1 = Inr (Inl exc, m1)"
    using Translate_no_phys [OF wf(1,2)] by metis
  then have "ReadMem big (a + of_nat (length s)) 1 m1 = Inr (Inl (exc, a + of_nat (length s)), m1)" by (simp add: ReadMem_def)
  moreover have "kernel_trap (exc, a + of_nat (length s)) m1 = Inl AssertionFailed"
    by (rule kernel_trap_abort) (use wf(1,3) assms(1,7) in \<open>simp_all add: machine_wf_def\<close>)
  ultimately show ?thesis unfolding l by (subst copy_from_loop.simps) simp
qed

lemma peek_bound:
  assumes "machine_wf m" "translation_ready m" "tlb m = None" "peek m a = Some c"
  shows "unat a < pageTableSize m * PageSize"
proof -
  obtain pa where "phys m False a = Some pa" using assms(4) by (auto simp: peek_def)
  then have "unat a div PageSize < pageTableSize m"
    unfolding phys_eq [OF assms(1,2)] using assms(3) by (auto simp: find_entry_def split: option.splits if_splits)
  then show ?thesis by (simp add: div_less_iff_less_mult)
qed

text \<open>Whatever the address, the readable characters end: in a terminator, or where the memory ends.\<close>

lemma chars_end:
  assumes "machine_wf m" "translation_ready m" "tlb m = None" "pageTableSize m \<le> NumPhysPages"
  shows "\<exists>s. user_chars m a s \<and> length s \<le> MemorySize - unat a \<and>
     (peek m (a + of_nat (length s)) = Some 0 \<or> peek m (a + of_nat (length s)) = None)"
proof (induction "MemorySize - unat a" arbitrary: a rule: less_induct)
  case less
  consider "peek m a = Some 0 \<or> peek m a = None" | c where "peek m a = Some c" "c \<noteq> 0" by (cases "peek m a") auto
  then show ?case
  proof cases
    case 1
    then show ?thesis by (intro exI [of _ "[]"]) simp
  next
    case 2
    have b: "unat a < MemorySize" using peek_bound [OF assms(1-3) 2(1)] assms(4) by simp
    have "unat (a + 1) = (unat a + unat (1 :: reg_word)) mod 2 ^ 32" by (subst unat_word_ariths) simp
    then have n: "unat (a + 1) = unat a + 1" using b by simp
    then obtain s where s: "user_chars m (a + 1) s" "length s \<le> MemorySize - unat (a + 1)"
      "peek m (a + 1 + of_nat (length s)) = Some 0 \<or> peek m (a + 1 + of_nat (length s)) = None"
      using less [of "a + 1"] b by fastforce
    then show ?thesis using 2 n b by (intro exI [of _ "c # s"]) (auto simp: add.assoc)
  qed
qed

lemma copyStringFromMachine_total:
  assumes wf: "machine_wf m" "translation_ready m" "tlb m = None" "pageTableSize m \<le> NumPhysPages"
    and l: "unat (registers m ! LoadReg) < NumGPRegs"
  shows "case copyStringFromMachine big heap a MAX_STRING_SIZE m of
       Inl e \<Rightarrow> e = AssertionFailed \<or> e = OutOfBounds
     | Inr (n, buf, m') \<Rightarrow> 0 \<in> set buf \<and> same_tables m m' \<and> mainMemory m' = mainMemory m"
proof -
  obtain s where s: "user_chars m a s" "length s \<le> MemorySize - unat a"
    "peek m (a + of_nat (length s)) = Some 0 \<or> peek m (a + of_nat (length s)) = None"
    using chars_end [OF wf] by blast
  have b: "length s < 2 ^ 30" using s(2) by simp
  show ?thesis
  proof (cases "peek m (a + of_nat (length s)) = None")
    case True
    then show ?thesis using copy_from_loop_trap [OF wf(1,2) s(1) True copy_inv_start b l]
      by (simp add: copyStringFromMachine_def)
  next
    case False
    then have u: "user_string m a s" using s by (auto simp: user_string_chars simp del: not_None_eq)
    have "0 \<in> set buf" if "copied heap s buf" for buf
      using that nth_mem [of "length s + 1" buf] by (auto simp: copied_def)
    then show ?thesis using copy_from_loop_string [OF wf(1,2) u copy_inv_start [of heap] b, of big]
      by (auto simp: copyStringFromMachine_def split: if_splits)
  qed
qed

lemma copy_to_loop_total:
  assumes "machine_wf m" "translation_ready m" "unat (registers m ! LoadReg) < NumGPRegs" "sz \<le> length chars"
  shows "case copy_to_loop big chars a sz cnt m of Inl e \<Rightarrow> e = AssertionFailed | Inr (n, m') \<Rightarrow> same_tables m m'"
  using assms(1-3)
proof (induction "sz - cnt" arbitrary: a cnt m)
  case 0
  then show ?case by (subst copy_to_loop.simps) (simp add: same_tables_def)
next
  case (Suc n)
  let ?c = "chars ! cnt"
  have c: "cnt < sz" "cnt < length chars" using Suc.hyps(2) assms(4) by simp_all
  show ?case
  proof (cases "phys m True a")
    case None
    then obtain exc where "Translate a 1 True m = Inr (Inl exc, m)" by (rule Translate_no_phys [OF Suc.prems(1,2)])
    moreover have "kernel_trap t m = Inl AssertionFailed" for t
      by (rule kernel_trap_abort) (use Suc.prems in \<open>simp_all add: machine_wf_def\<close>)
    ultimately show ?thesis using c by (subst copy_to_loop.simps) (simp add: WriteMem_def)
  next
    case (Some pa)
    then obtain m1 where m1: "WriteMem big a 1 (Word.signed ?c) m = Inr (None, m1)" "same_tables m m1"
      by (rule WriteMem_phys [OF Suc.prems(1,2)])
    have "case copy_to_loop big chars (a + 1) sz (cnt + 1) m1 of Inl e \<Rightarrow> e = AssertionFailed | Inr (n, m') \<Rightarrow> same_tables m1 m'"
      by (rule Suc.hyps(1)) (use Suc.hyps(2) Suc.prems(3) same_tablesD [OF m1(2)] in simp_all)
    then show ?thesis using c m1 same_tables_trans [OF m1(2)] by (subst copy_to_loop.simps) (auto simp: Let_def split: sum.splits if_splits)
  qed
qed

lemma copyStringToMachine_total:
  assumes "machine_wf m" "translation_ready m" "unat (registers m ! LoadReg) < NumGPRegs" "sz \<le> length chars"
  shows "case copyStringToMachine big chars a sz m of Inl e \<Rightarrow> e = AssertionFailed | Inr (n, m') \<Rightarrow> same_tables m m'"
  unfolding copyStringToMachine_def by (rule copy_to_loop_total [OF assms])

text \<open>Writing a string: the memory afterwards, and what is read in it.\<close>

fun poke_all :: "machine \<Rightarrow> (nat \<Rightarrow> 8 word) \<Rightarrow> reg_word \<Rightarrow> 8 word list \<Rightarrow> (nat \<Rightarrow> 8 word)" where
  "poke_all m mem a [] = mem"
| "poke_all m mem a (c # cs) = poke_all m (mem(the (phys m True a) := c)) (a + 1) cs"

fun phys_range :: "machine \<Rightarrow> reg_word \<Rightarrow> nat \<Rightarrow> nat option list" where
  "phys_range m a 0 = []"
| "phys_range m a (Suc n) = phys m True a # phys_range m (a + 1) n"

definition writable :: "machine \<Rightarrow> reg_word \<Rightarrow> nat \<Rightarrow> bool" where
  "writable m a n \<longleftrightarrow> None \<notin> set (phys_range m a n) \<and> distinct (phys_range m a n)"

lemma phys_range_cong: "phys m' = phys m \<Longrightarrow> phys_range m' a n = phys_range m a n"
  by (induction n arbitrary: a) simp_all

lemma poke_all_cong: "phys m' = phys m \<Longrightarrow> poke_all m' mem a cs = poke_all m mem a cs"
  by (induction cs arbitrary: mem a) simp_all

lemma writable_Suc:
  "writable m a (Suc n) \<longleftrightarrow> (\<exists>pa. phys m True a = Some pa \<and> Some pa \<notin> set (phys_range m (a + 1) n)) \<and> writable m (a + 1) n"
  by (cases "phys m True a") (auto simp: writable_def)

lemma poke_all_other: "writable m a (length cs) \<Longrightarrow> Some k \<notin> set (phys_range m a (length cs)) \<Longrightarrow> poke_all m mem a cs k = mem k"
  by (induction cs arbitrary: mem a) (auto simp: writable_Suc)

lemma phys_read: "machine_wf m \<Longrightarrow> translation_ready m \<Longrightarrow> phys m True a = Some pa \<Longrightarrow> phys m False a = Some pa"
  by (auto simp: phys_eq split: sum.splits prod.splits if_splits)

lemma peek_poke:
  assumes wf: "machine_wf m" "translation_ready m" and w: "writable m a (length cs)"
    and m': "phys m' = phys m" "mainMemory m' = poke_all m mem a cs" and i: "i < length cs"
  shows "peek m' (a + of_nat i) = Some (cs ! i)"
  using w m'(2) i
proof (induction cs arbitrary: a mem i)
  case (Cons c cs)
  obtain pa where pa: "phys m True a = Some pa" "Some pa \<notin> set (phys_range m (a + 1) (length cs))"
    and w: "writable m (a + 1) (length cs)" using Cons.prems(1) by (auto simp: writable_Suc)
  show ?case
  proof (cases i)
    case 0
    have "mainMemory m' pa = c" using Cons.prems(2) pa poke_all_other [OF w pa(2)] by simp
    then show ?thesis using 0 phys_read [OF wf pa(1)] m'(1) by (simp add: peek_def)
  next
    case (Suc j)
    then show ?thesis using Cons.IH [OF w, of _ j] Cons.prems(2,3) by (simp add: add.assoc)
  qed
qed simp

lemma user_string_nth:
  "user_string m a s \<longleftrightarrow> 0 \<notin> set s \<and> (\<forall>i < length s. peek m (a + of_nat i) = Some (s ! i)) \<and> peek m (a + of_nat (length s)) = Some 0"
proof (induction s arbitrary: a)
  case (Cons c s)
  show ?case unfolding user_string.simps Cons by (auto simp: less_Suc_eq_0_disj add.assoc nth_Cons')
qed simp

definition stops :: "8 word \<Rightarrow> bool" where
  "stops c \<longleftrightarrow> c = 0 \<or> c = 10"

lemma copy_to_loop_string:
  assumes "machine_wf m" "translation_ready m" "writable m a (length s + 1)"
    and "\<forall>c \<in> set s. \<not> stops c" "stops e" "length pre + length s < sz"
  shows "\<exists>m'. copy_to_loop big (pre @ s @ e # rest) a sz (length pre) m = Inr (length pre + length s + 1, m') \<and>
     same_tables m m' \<and> mainMemory m' = poke_all m (mainMemory m) a (s @ [e])"
  using assms
proof (induction s arbitrary: m a pre)
  case Nil
  then obtain pa where pa: "phys m True a = Some pa" by (auto simp: writable_Suc)
  obtain m' where m': "WriteMem big a 1 (Word.signed e) m = Inr (None, m')" "same_tables m m'"
    "mainMemory m' = (mainMemory m)(pa := e)"
    by (rule WriteMem_phys [OF Nil(1,2) pa])
  then show ?case using Nil(5,6) pa by (subst copy_to_loop.simps) (auto simp: stops_def)
next
  case (Cons c s)
  obtain pa where pa: "phys m True a = Some pa" using Cons.prems(3) by (auto simp: writable_Suc)
  obtain m1 where m1: "WriteMem big a 1 (Word.signed c) m = Inr (None, m1)" "same_tables m m1"
    "mainMemory m1 = (mainMemory m)(pa := c)"
    by (rule WriteMem_phys [OF Cons.prems(1,2) pa])
  note st = same_tablesD [OF m1(2)]
  have w: "writable m1 (a + 1) (length s + 1)"
    using Cons.prems(3) phys_range_cong [OF st(4)] st(4) by (simp add: writable_def)
  have c: "\<not> stops c" using Cons.prems(4) by simp
  have "copy_to_loop big (pre @ (c # s) @ e # rest) a sz (length pre) m =
      copy_to_loop big ((pre @ [c]) @ s @ e # rest) (a + 1) sz (length (pre @ [c])) m1"
    using m1(1) c Cons.prems(6) by (subst copy_to_loop.simps) (simp add: stops_def nth_append)
  moreover have "\<forall>c \<in> set s. \<not> stops c" "length (pre @ [c]) + length s < sz" using Cons.prems(4,6) by simp_all
  ultimately show ?case
    using Cons.IH [OF st(1,2) w _ Cons.prems(5), of "pre @ [c]"] m1 pa poke_all_cong [OF st(4)]
      same_tables_trans [OF m1(2)]
    by (auto simp: fun_upd_def)
qed

section \<open>Decimal numbers\<close>

lemma digits_value_append: "digits_value (ds @ [c]) = 10 * digits_value ds + (uint c - 48)"
  by (simp add: digits_value_def)

lemma digit_char: "d < 10 \<Longrightarrow> uint (of_nat (48 + d) :: 8 word) = 48 + int d" "d < 10 \<Longrightarrow> isdigit (of_nat (48 + d))"
proof -
  assume "d < 10"
  then have "48 + d < 2 ^ 8" by simp
  then have u: "unat (of_nat (48 + d) :: 8 word) = 48 + d" by (subst unat_of_nat) simp
  then show "uint (of_nat (48 + d) :: 8 word) = 48 + int d" by (metis of_nat_add of_nat_numeral uint_nat)
  show "isdigit (of_nat (48 + d))" using u \<open>d < 10\<close> by (simp add: isdigit_def word_le_nat_alt)
qed

lemma digits_rev_value: "digits_value (rev (digits_rev n)) = int n"
proof (induction n rule: digits_rev.induct)
  case (1 n)
  show ?case
  proof (cases "n < 10")
    case True
    then show ?thesis using digit_char(1) [of n] by (simp add: digits_rev.simps [of n] digits_value_def)
  next
    case False
    then show ?thesis using 1 digit_char(1) [of "n mod 10"]
      by (simp add: digits_rev.simps [of n] digits_value_append flip: of_nat_mod)
        (metis of_nat_add of_nat_mult of_nat_numeral mult_div_mod_eq)
  qed
qed

lemma digits_rev_digits: "c \<in> set (digits_rev n) \<Longrightarrow> isdigit c"
proof (induction n rule: digits_rev.induct)
  case (1 n)
  then show ?case using digit_char(2) [of n] digit_char(2) [of "n mod 10"]
    by (cases "n < 10") (auto simp: digits_rev.simps [of n])
qed

lemma digits_rev_length: "n < 10 ^ Suc k \<Longrightarrow> length (digits_rev n) \<le> Suc k"
proof (induction k arbitrary: n)
  case (Suc k)
  then have "n div 10 < 10 ^ Suc k" by (simp add: less_mult_imp_div_less mult.commute)
  then show ?case using Suc.IH [of "n div 10"] by (simp add: digits_rev.simps [of n])
qed (simp add: digits_rev.simps)

lemma digits_rev_not_Nil: "digits_rev n \<noteq> []"
  by (simp add: digits_rev.simps)

lemma isdigit_props: "isdigit c \<Longrightarrow> \<not> isspace c \<and> c \<noteq> 45 \<and> c \<noteq> 43 \<and> c \<noteq> 0"
  by (auto simp: isdigit_def isspace_def word_le_nat_alt)

lemma decimal_chars: "c \<in> set (decimal i) \<Longrightarrow> c \<noteq> 0 \<and> \<not> isspace c"
  using isdigit_props digits_rev_digits by (auto simp: decimal_def isspace_def word_le_nat_alt split: if_splits)

lemma decimal_length:
  assumes "- (2 ^ 31) \<le> i" "i < 2 ^ 31"
  shows "length (decimal i) \<le> 11"
proof -
  have "nat \<bar>i\<bar> < 10 ^ Suc 9" using assms by auto
  then have "length (digits_rev (nat \<bar>i\<bar>)) \<le> 10" using digits_rev_length [of "nat \<bar>i\<bar>" 9] by simp
  then show ?thesis by (cases "i < 0") (simp_all add: decimal_def)
qed

lemma snprintf_d_string:
  assumes "- (2 ^ 31) \<le> i" "i < 2 ^ 31"
  shows "takeWhile (\<lambda>c. c \<noteq> 0) (snprintf_d MAX_STRING_SIZE i st) = decimal i"
  using decimal_chars decimal_length [OF assms]
  by (simp add: snprintf_d_def Let_def takeWhile_append)

lemma sscanf_d_decimal:
  assumes r: "- (2 ^ 31) \<le> i" "i < 2 ^ 31" and c: "\<not> isdigit c"
  shows "sscanf_d (decimal i @ c # rest) = Some (word_of_int i)"
proof -
  let ?ds = "rev (digits_rev (nat \<bar>i\<bar>))"
  define tail where "tail = takeWhile (\<lambda>c. c \<noteq> 0) (c # rest)"
  have t: "takeWhile (\<lambda>c. c \<noteq> 0) (decimal i @ c # rest) = decimal i @ tail"
    using decimal_chars by (simp add: tail_def takeWhile_append)
  obtain d ds where ds: "?ds = d # ds" using digits_rev_not_Nil by (cases ?ds) auto
  have dg: "\<forall>c \<in> set ?ds. isdigit c" using digits_rev_digits by auto
  then have d: "\<not> isspace d" "d \<noteq> 45" "d \<noteq> 43" using isdigit_props ds by auto
  have tw: "takeWhile isdigit (?ds @ tail) = ?ds"
    using dg c by (auto simp: takeWhile_append tail_def split: if_splits)
  have "\<not> isspace 45" by (simp add: isspace_def word_le_nat_alt)
  then have s: "dropWhile isspace (decimal i @ tail) = decimal i @ tail" using d ds by (simp add: decimal_def)
  have v: "digits_value ?ds = \<bar>i\<bar>" using digits_rev_value by simp
  show ?thesis
  proof (cases "i < 0")
    case True
    then show ?thesis using tw v r digits_rev_not_Nil unfolding sscanf_d_def t Let_def s by (simp add: decimal_def)
  next
    case False
    then show ?thesis using tw v r d ds unfolding sscanf_d_def t Let_def s by (simp add: decimal_def)
  qed
qed


section \<open>Properties\<close>

text \<open>
  C23. Strings of user programs, as the system call PutString reads them. For a terminated string at a
  readable address, copyStringFromMachine returns: the characters of the string are at the start of the new
  buffer, the memory and the registers are unchanged, and the buffer is long enough, whatever the length of the
  string, except for one: a string of exactly 14 characters makes it write past the end of its first buffer.
  The terminator is stored one place too far, so the printed text is the string followed by the character that the
  place between holds, if that is not zero.
\<close>

theorem copyStringFromMachine_string:
  assumes "machine_wf m" and "translation_ready m" and "user_string m a s" and "length s < 2 ^ 30"
  shows "if length s = 14 then copyStringFromMachine big heap a MAX_STRING_SIZE m = Inl OutOfBounds
     else \<exists>buf m'. copyStringFromMachine big heap a MAX_STRING_SIZE m = Inr (length s + 1, buf, m') \<and>
       takeWhile (\<lambda>c. c \<noteq> 0) buf = s @ filter (\<lambda>c. c \<noteq> 0) [heap (length buf) (length s)] \<and>
       registers m' = registers m \<and> mainMemory m' = mainMemory m \<and> phys m' = phys m"
proof (cases "length s = 14")
  case True
  then show ?thesis
    using copy_from_loop_string [OF assms(1-3) copy_inv_start [of heap] assms(4), where big = big] by (simp add: copyStringFromMachine_def)
next
  case False
  obtain buf m' where b: "copy_from_loop big heap a MAX_STRING_SIZE (new_chars heap MAX_STRING_SIZE) 0 m = Some (Inr (length s + 1, buf, m'))"
    "copied heap s buf" "same_tables m m'" "mainMemory m' = mainMemory m"
    using copy_from_loop_string [OF assms(1-3) copy_inv_start [of heap] assms(4), where big = big] False by auto
  have s: "0 \<notin> set s" using assms(3) by (simp add: user_string_nth)
  have buf: "buf = s @ buf ! length s # 0 # drop (length s + 2) buf"
    using b(2) id_take_nth_drop [of "length s" buf] id_take_nth_drop [of 0 "drop (length s + 1) buf"]
    by (simp add: copied_def Cons_nth_drop_Suc)
  have "takeWhile (\<lambda>c. c \<noteq> 0) buf = s @ filter (\<lambda>c. c \<noteq> 0) [buf ! length s]"
    by (subst buf) (use s in \<open>auto simp: takeWhile_append\<close>)
  then show ?thesis using False b same_tablesD [OF b(3)] by (auto simp: copyStringFromMachine_def copied_def)
qed

definition hello_machine :: machine where
  "hello_machine = example_machine\<lparr>mainMemory := (\<lambda>_. 0)(640 := 104, 641 := 105)\<rparr>"

lemma hello_string: "machine_wf hello_machine" "translation_ready hello_machine" "user_string hello_machine 0 [104, 105]"
  "writable hello_machine 0x10 3"
  by (simp_all add: hello_machine_def example_machine_def machine_wf_def translation_ready_def Machine_new_def peek_def phys_def
      Translate_def find_entry_def Let_def ASSERT_def writable_def numeral_3_eq_3)

lemma copyStringFromMachine_string_witness:
  "\<exists>buf m'. copyStringFromMachine False (\<lambda>n i. 0xfe) 0 MAX_STRING_SIZE hello_machine = Inr (3, buf, m') \<and>
     takeWhile (\<lambda>c. c \<noteq> 0) buf = [104, 105, 0xfe]"
  using copyStringFromMachine_string [OF hello_string(1-3), of False "\<lambda>n i. 0xfe"] by (auto simp: numeral_3_eq_3)

text \<open>
  C24. Strings given to user programs, as the system call GetString writes them. copyStringToMachine
  stores the characters up to and with the first terminator or newline at consecutive addresses of the
  user's memory and changes nothing else: after a newline there is no terminator. A string of less than 14 characters
  that it has stored with its terminator is what copyStringFromMachine reads back.
\<close>

theorem copyStringToMachine_string:
  assumes "machine_wf m" and "translation_ready m" and "writable m a (length s + 1)" and "length s < sz"
    and "\<forall>c \<in> set s. \<not> stops c" and "stops e"
  shows "\<exists>m'. copyStringToMachine big (s @ e # rest) a sz m = Inr (length s + 1, m') \<and>
     (\<forall>i \<le> length s. peek m' (a + of_nat i) = Some ((s @ [e]) ! i)) \<and>
     (\<forall>k. Some k \<notin> set (phys_range m a (length s + 1)) \<longrightarrow> mainMemory m' k = mainMemory m k) \<and>
     registers m' = registers m \<and>
     (e = 0 \<and> length s < 14 \<longrightarrow> (\<exists>buf m''. copyStringFromMachine big heap a MAX_STRING_SIZE m' = Inr (length s + 1, buf, m'') \<and>
        take (length s) buf = s))"
proof -
  obtain m' where m': "copyStringToMachine big (s @ e # rest) a sz m = Inr (length s + 1, m')"
    "same_tables m m'" "mainMemory m' = poke_all m (mainMemory m) a (s @ [e])"
    using copy_to_loop_string [of m a s e "[]" sz big rest] assms by (auto simp: copyStringToMachine_def)
  note st = same_tablesD [OF m'(2)]
  have w: "writable m a (length (s @ [e]))" using assms(3) by simp
  have p: "peek m' (a + of_nat i) = Some ((s @ [e]) ! i)" if "i \<le> length s" for i
    using peek_poke [OF assms(1,2) w st(4) m'(3)] that by simp
  have "\<exists>buf m''. copyStringFromMachine big heap a MAX_STRING_SIZE m' = Inr (length s + 1, buf, m'') \<and> take (length s) buf = s"
    if e: "e = 0" "length s < 14"
  proof -
    have "user_string m' a s"
      using p assms(5) e(1) unfolding user_string_nth by (auto simp: stops_def nth_append)
    then show ?thesis using copy_from_loop_string [OF st(1,2) _ copy_inv_start [of heap], of a s, where big = big] e(2)
      by (auto simp: copyStringFromMachine_def copied_def)
  qed
  then show ?thesis using m' st p poke_all_other [OF w] by (intro exI [of _ m']) auto
qed

lemma copyStringToMachine_string_witness:
  "\<exists>m'. copyStringToMachine False [104, 105, 10, 0] 0x10 MAX_STRING_SIZE hello_machine = Inr (3, m') \<and>
     peek m' 0x12 = Some 10"
proof -
  have "writable hello_machine 0x10 (length [104, 105 :: 8 word] + 1)" using hello_string(4) by (simp add: numeral_3_eq_3)
  moreover have "\<forall>c \<in> set [104, 105]. \<not> stops c" "stops 10" by (simp_all add: stops_def)
  ultimately obtain m' where "copyStringToMachine False ([104, 105] @ 10 # [0]) 0x10 15 hello_machine = Inr (length [104, 105 :: 8 word] + 1, m')"
    "\<forall>i \<le> length [104, 105 :: 8 word]. peek m' (0x10 + of_nat i) = Some (([104, 105] @ [10]) ! i)"
    using copyStringToMachine_string [OF hello_string(1,2), where s = "[104, 105]" and a = "0x10" and sz = 15 and e = 10
        and big = False and rest = "[0]"] by fastforce
  then show ?thesis by (auto dest: spec [of _ 2])
qed

text \<open>
  Numbers on the console. For every value of a register, the buffer of 15 characters is large enough
  for what PutInt prints, with its terminator, and when that text is read, followed by any character
  that is no digit, GetInt returns the same value.
\<close>

lemma PutInt_GetInt:
  "takeWhile (\<lambda>c. c \<noteq> 0) (snprintf_d MAX_STRING_SIZE (sint w) st) = decimal (sint w) \<and>
   length (decimal (sint (w :: reg_word))) < MAX_STRING_SIZE \<and>
   sscanf_d (snprintf_d MAX_STRING_SIZE (sint w) st) = Some w \<and> sscanf_d (decimal (sint w) @ 10 # rest) = Some w"
proof -
  have r: "- (2 ^ 31) \<le> sint w" "sint w < 2 ^ 31" using sint_ge [of w] sint_lt [of w] by simp_all
  have d: "\<not> isdigit 0" "\<not> isdigit 10" by (simp_all add: isdigit_def word_le_nat_alt)
  have e: "snprintf_d MAX_STRING_SIZE (sint w) st = decimal (sint w) @ 0 # drop (length (decimal (sint w)) + 1) st"
    using decimal_length [OF r] by (simp add: snprintf_d_def Let_def)
  have "sscanf_d (snprintf_d MAX_STRING_SIZE (sint w) st) = Some w"
    unfolding e using sscanf_d_decimal [OF r d(1)] by simp
  then show ?thesis
    using snprintf_d_string [OF r] decimal_length [OF r] sscanf_d_decimal [OF r d(2)] by simp
qed

end
