(* ===== verification/Nachos_Syscall.thy ===== *)
theory Nachos_Syscall
  imports Nachos_System Nachos_Mips Nachos_AddrSpace Nachos_UserMem Nachos_BitMap
begin

text \<open>
  User programs on the kernel: the system calls (\<^verbatim>\<open>code/userprog/exception.cc\<close>), the synchronous console
  (\<^verbatim>\<open>code/userprog/synchconsole.cc\<close>), user threads (\<^verbatim>\<open>code/userprog/userthread.cc\<close>), the loop of the
  processor (Machine::Run in \<^verbatim>\<open>code/machine/mipssim.cc\<close>) and Machine::RaiseException; and kernel threads that
  use the synchronous disk (\<^verbatim>\<open>code/filesys/synchdisk.cc\<close>) or yield to each other (\<^verbatim>\<open>code/threads/threadtest.cc\<close>).

  The code of a thread can be suspended wherever it calls P, V, Start or the tick of the clock. It is
  therefore a value of type \<open>prog\<close>: the next operation, and what is done with its result; an
  operation (\<open>uop\<close>) is executed at once, on the kernel of theory \<open>Nachos_System\<close> and the variables of
  userthread.cc (\<open>usys\<close>). What the thread still has to do inside a kernel operation when it is
  suspended is on its \<open>kstack\<close>; the next operation starts when that is empty. \<open>ustep\<close> is one step of the whole
  system: of the kernel, of the code of the current thread, or of its user program.
\<close>

section \<open>State\<close>

text \<open>What do_ThreadCreate passes to StartUserThread: f, arg, f_exit, idx.\<close>

type_synonym plop = "reg_word \<times> reg_word \<times> reg_word \<times> int"

text \<open>
  What the host decides: the contents of new character arrays, the address and the register
  array of a new thread, the contents of an uninitialised int.
\<close>

record host =
  heap :: "nat \<Rightarrow> nat \<Rightarrow> 8 word"
  new_tid :: tid
  new_regs :: "reg_word list"
  new_int :: reg_word

abbreviation (input) USER_THREAD_STACK_SIZE :: int where "USER_THREAD_STACK_SIZE \<equiv> 256"
abbreviation (input) STACK_PADDING :: int where "STACK_PADDING \<equiv> 16"
abbreviation (input) MAX_THREADS :: nat where "MAX_THREADS \<equiv> 10"

datatype lock_name = ReadLock | WriteLock | ThreadLock | DiskLock
datatype sem_name = ReadAvail | WriteDone_sem | Disk_sem

datatype uop =
    Op_Acquire lock_name
  | Op_Release lock_name
  | Op_P sem_name
  | Op_PutChar int
  | Op_GetChar
  | Op_ReadRequest int
  | Op_WriteRequest int "8 word list"
  | Op_Yield
  | Op_ReadRegister int
  | Op_WriteRegister int reg_word
  | Op_char_array nat
  | Op_int_variable
  | Op_copyFrom reg_word
  | Op_copyTo "8 word list" reg_word
  | Op_create_thread reg_word reg_word reg_word
  | Op_exit_thread
  | Op_leave
  | Op_Halt
  | Op_Exit reg_word
  | Op_abort
  | Op_overrun
  | Op_UpdatePC
  | Op_raise trap
  | Op_setStatus MachineStatus
  | Op_OneTick
  | Op_init_registers plop

type_synonym uval = "reg_word \<times> 8 word list"

text \<open>
  \<open>Machine_Run\<close> is the head of the loop of Machine::Run, \<open>Returned\<close> the end of the function that a thread
  was started with, \<open>Fork\<close> the creation and the start of a thread.
\<close>

datatype prog =
    Machine_Run
  | Returned
  | Fork string prog prog
  | Do uop "uval \<Rightarrow> prog"

text \<open>
  \<open>g_threads\<close> holds None for 0. \<open>start_code\<close> is the function, applied to its argument, that Thread::Start leaves
  in the saved registers of a new thread.
\<close>

record usys =
  kern :: nachos
  g_threads :: "tid option list"
  stackMap :: BitMap
  g_threadsIdx :: int
  thread_lock :: semid
  start_code :: "tid \<rightharpoonup> prog"

definition seq :: "uop \<Rightarrow> prog \<Rightarrow> prog" where
  "seq c p = Do c (\<lambda>_. p)"

section \<open>The synchronous console\<close>

definition SynchPutChar :: "int \<Rightarrow> prog \<Rightarrow> prog" where
  "SynchPutChar ch ret =
     seq (Op_Acquire WriteLock) (seq (Op_PutChar ch) (seq (Op_P WriteDone_sem) (seq (Op_Release WriteLock) ret)))"

definition SynchGetChar :: "(reg_word \<Rightarrow> prog) \<Rightarrow> prog" where
  "SynchGetChar ret =
     seq (Op_Acquire ReadLock) (seq (Op_P ReadAvail) (Do Op_GetChar (\<lambda>v. seq (Op_Release ReadLock) (ret (fst v)))))"

text \<open>The loop of SynchPutString on the rest of the string; without a terminator it leaves the array.\<close>

fun put_string_loop :: "8 word list \<Rightarrow> prog \<Rightarrow> prog" where
  "put_string_loop [] ret = seq Op_overrun ret"
| "put_string_loop (c # cs) ret =
     (if c \<noteq> 0 then seq (Op_PutChar (sint c)) (seq (Op_P WriteDone_sem) (put_string_loop cs ret)) else ret)"

definition SynchPutString :: "8 word list \<Rightarrow> prog \<Rightarrow> prog" where
  "SynchPutString s ret = seq (Op_Acquire WriteLock) (put_string_loop s (seq (Op_Release WriteLock) ret))"

text \<open>The loop of SynchGetString with \<open>n - 1\<close> characters left to read, \<open>s\<close> the characters stored so far.\<close>

fun get_string_loop :: "nat \<Rightarrow> 8 word list \<Rightarrow> (8 word list \<Rightarrow> prog) \<Rightarrow> prog" where
  "get_string_loop 0 s ret = ret s"
| "get_string_loop (Suc n) s ret =
     seq (Op_P ReadAvail) (Do Op_GetChar (\<lambda>v.
       let c = Word.unsigned (fst v) :: 8 word in
       if c = 10 then ret (s @ [c]) else get_string_loop n (s @ [c]) ret))"

definition SynchGetString :: "nat \<Rightarrow> 8 word list \<Rightarrow> (8 word list \<Rightarrow> prog) \<Rightarrow> prog" where
  "SynchGetString n st ret =
     seq (Op_Acquire ReadLock) (get_string_loop (n - 1) [] (\<lambda>s.
       seq (Op_Release ReadLock) (ret (s @ 0 # drop (length s + 1) st))))"

section \<open>The synchronous disk and the thread test\<close>

definition SynchDisk_ReadSector :: "int \<Rightarrow> (8 word list \<Rightarrow> prog) \<Rightarrow> prog" where
  "SynchDisk_ReadSector sectorNumber ret =
     seq (Op_Acquire DiskLock) (Do (Op_ReadRequest sectorNumber) (\<lambda>v.
       seq (Op_P Disk_sem) (seq (Op_Release DiskLock) (ret (snd v)))))"

definition SynchDisk_WriteSector :: "int \<Rightarrow> 8 word list \<Rightarrow> prog \<Rightarrow> prog" where
  "SynchDisk_WriteSector sectorNumber data ret =
     seq (Op_Acquire DiskLock) (seq (Op_WriteRequest sectorNumber data)
       (seq (Op_P Disk_sem) (seq (Op_Release DiskLock) ret)))"

text \<open>The loop of SimpleThread with \<open>n\<close> rounds left; what it prints is not modelled.\<close>

fun SimpleThread_loop :: "nat \<Rightarrow> prog \<Rightarrow> prog" where
  "SimpleThread_loop 0 ret = ret"
| "SimpleThread_loop (Suc n) ret = seq Op_Yield (SimpleThread_loop n ret)"

definition SimpleThread :: "prog \<Rightarrow> prog" where
  "SimpleThread ret = SimpleThread_loop 10 ret"

definition ThreadTest :: "prog \<Rightarrow> prog" where
  "ThreadTest ret =
     Fork ''forked thread'' (SimpleThread Returned)
       (Fork ''forked thread'' (SimpleThread Returned) (SimpleThread ret))"

section \<open>System calls\<close>

text \<open>The body of the switch on the number of the system call; \<open>ret\<close> is what follows the switch.\<close>

definition syscall :: "reg_word \<Rightarrow> prog \<Rightarrow> prog" where
  "syscall type ret =
     (if type = 0 then seq Op_Halt ret
      else if type = 11 then Do (Op_ReadRegister 4) (\<lambda>v. SynchPutChar (sint (fst v)) ret)
      else if type = 12 then Do (Op_ReadRegister 4) (\<lambda>v. Do (Op_copyFrom (fst v)) (\<lambda>st. SynchPutString (snd st) ret))
      else if type = 1 then Do (Op_ReadRegister 4) (\<lambda>v. seq (Op_Exit (fst v)) ret)
      else if type = 13 then SynchGetChar (\<lambda>c. seq (Op_WriteRegister 2 (Word.signed (Word.unsigned c :: 8 word))) ret)
      else if type = 14 then Do (Op_char_array MAX_STRING_SIZE) (\<lambda>st. Do (Op_ReadRegister 4) (\<lambda>v.
        SynchGetString MAX_STRING_SIZE (snd st) (\<lambda>s. seq (Op_copyTo s (fst v)) ret)))
      else if type = 15 then Do (Op_char_array MAX_STRING_SIZE) (\<lambda>st. Do (Op_ReadRegister 4) (\<lambda>v.
        SynchPutString (snprintf_d MAX_STRING_SIZE (sint (fst v)) (snd st)) ret))
      else if type = 16 then Do (Op_char_array MAX_STRING_SIZE) (\<lambda>st.
        SynchGetString MAX_STRING_SIZE (snd st) (\<lambda>s. Do Op_int_variable (\<lambda>n.
          seq (Op_WriteRegister 2 (case sscanf_d s of Some w \<Rightarrow> w | None \<Rightarrow> fst n)) ret)))
      else if type = 17 then Do (Op_ReadRegister 4) (\<lambda>f. Do (Op_ReadRegister 5) (\<lambda>arg. Do (Op_ReadRegister 6) (\<lambda>f_exit.
        seq (Op_Acquire ThreadLock) (Do (Op_create_thread (fst f) (fst arg) (fst f_exit)) (\<lambda>r.
          seq (Op_Release ThreadLock) (seq (Op_WriteRegister 2 (fst r)) ret))))))
      else if type = 18 then
        seq (Op_Acquire ThreadLock) (seq Op_exit_thread (seq (Op_Release ThreadLock) (seq Op_leave ret)))
      else seq Op_abort ret)"

definition ExceptionHandler :: "ExceptionType \<Rightarrow> prog \<Rightarrow> prog" where
  "ExceptionHandler which ret =
     Do (Op_ReadRegister 2) (\<lambda>type.
       case which of
         SyscallException \<Rightarrow> syscall (fst type) (seq Op_UpdatePC ret)
       | PageFaultException \<Rightarrow> (if fst type = 0 then seq Op_abort ret else seq Op_abort ret)
       | _ \<Rightarrow> seq Op_abort ret)"

definition RaiseException :: "trap \<Rightarrow> MachineStatus \<Rightarrow> prog \<Rightarrow> prog" where
  "RaiseException t oldStatus ret =
     seq (Op_raise t) (seq (Op_setStatus SystemMode)
       (ExceptionHandler (fst t) (seq (Op_setStatus oldStatus) ret)))"

definition StartUserThread :: "plop \<Rightarrow> prog" where
  "StartUserThread a = seq (Op_init_registers a) (seq (Op_setStatus UserMode) Machine_Run)"

section \<open>The operations\<close>

text \<open>An operation on the kernel, and on the machine.\<close>

definition on_kernel :: "(nachos \<Rightarrow> nachos res) \<Rightarrow> usys \<Rightarrow> (uval \<times> usys) res" where
  "on_kernel f u = bindR (f (kern u)) (\<lambda>k. Inr ((0, []), u\<lparr>kern := k\<rparr>))"

definition on_machine :: "(machine \<Rightarrow> (uval \<times> machine) res) \<Rightarrow> usys \<Rightarrow> (uval \<times> usys) res" where
  "on_machine f u =
     (case cpu (kern u) of
        None \<Rightarrow> Inl NullDereference
      | Some m \<Rightarrow> bindR (f m) (\<lambda>(v, m'). Inr (v, u\<lparr>kern := (kern u)\<lparr>cpu := Some m'\<rparr>\<rparr>)))"

fun lock_of :: "lock_name \<Rightarrow> usys \<Rightarrow> semid res" where
  "lock_of ReadLock u =
     (if console (kernel.more (kern u)) = None then Inl NullDereference else Inr (m_readLock (kernel.more (kern u))))"
| "lock_of WriteLock u =
     (if console (kernel.more (kern u)) = None then Inl NullDereference else Inr (m_writeLock (kernel.more (kern u))))"
| "lock_of ThreadLock u = Inr (thread_lock u)"
| "lock_of DiskLock u =
     (case synchDisk (kernel.more (kern u)) of None \<Rightarrow> Inl NullDereference | Some sd \<Rightarrow> Inr (disk_lock sd))"

fun sem_of :: "sem_name \<Rightarrow> Devices \<Rightarrow> semid res" where
  "sem_of ReadAvail d = Inr (readAvail d)"
| "sem_of WriteDone_sem d = Inr (writeDone d)"
| "sem_of Disk_sem d = (case synchDisk d of None \<Rightarrow> Inl NullDereference | Some sd \<Rightarrow> Inr (disk_sem sd))"

definition UpdatePC :: "machine \<Rightarrow> machine res" where
  "UpdatePC m =
     bindR (ReadRegister (int PCReg) m) (\<lambda>pc.
     bindR (WriteRegister (int PrevPCReg) pc m) (\<lambda>m1.
     bindR (ReadRegister (int NextPCReg) m1) (\<lambda>pc.
     bindR (WriteRegister (int PCReg) pc m1) (\<lambda>m2.
     WriteRegister (int NextPCReg) (pc + 4) m2))))"

text \<open>The registers of a user thread: its stack is the one with its index, below that of the main thread.\<close>

definition thread_stack :: "nat \<Rightarrow> int \<Rightarrow> int" where
  "thread_stack pages idx =
     int pages * int PageSize - STACK_PADDING - (idx + 1) * USER_THREAD_STACK_SIZE - STACK_PADDING"

definition init_registers :: "nat \<Rightarrow> plop \<Rightarrow> machine \<Rightarrow> machine res" where
  "init_registers pages a m =
     (case a of (f, arg, f_exit, idx) \<Rightarrow>
        bindR (clear_registers [0..int NumTotalRegs - 1] m) (\<lambda>m0.
        bindR (ReadRegister (int PCReg) m0) (\<lambda>pc.
        bindR (WriteRegister (int PrevPCReg) pc m0) (\<lambda>m1.
        bindR (WriteRegister (int PCReg) f m1) (\<lambda>m2.
        bindR (WriteRegister (int NextPCReg) (f + 4) m2) (\<lambda>m3.
        bindR (WriteRegister (int RetAddrReg) f_exit m3) (\<lambda>m4.
        bindR (WriteRegister (int StackReg) (word_of_int (thread_stack pages idx)) m4) (\<lambda>m5.
        WriteRegister 4 arg m5))))))))"

definition StartUserThread_registers :: "plop \<Rightarrow> usys \<Rightarrow> (uval \<times> usys) res" where
  "StartUserThread_registers a u =
     bindR (get_thread (currentThread (kern u)) (kern u)) (\<lambda>th.
       case space th of
         None \<Rightarrow> Inl NullDereference
       | Some s \<Rightarrow>
           (case spaces (kern u) s of
              None \<Rightarrow> Inl UseAfterFree
            | Some sp \<Rightarrow> on_machine (\<lambda>m. bindR (init_registers (numPages sp) a m) (\<lambda>m'. Inr ((0, []), m'))) u))"

fun GetStackIdFromThread :: "tid option list \<Rightarrow> int list \<Rightarrow> tid \<Rightarrow> int" where
  "GetStackIdFromThread gs [] t = - 1"
| "GetStackIdFromThread gs (i # is) t =
     (if gs ! nat i = Some t then i else GetStackIdFromThread gs is t)"

text \<open>do_ThreadCreate and do_ThreadExit between the acquisition and the release of the lock.\<close>

definition create_thread :: "host \<Rightarrow> reg_word \<Rightarrow> reg_word \<Rightarrow> reg_word \<Rightarrow> usys \<Rightarrow> (uval \<times> usys) res" where
  "create_thread h f arg f_exit u =
     bindR (Find (stackMap u)) (\<lambda>(idx, sm).
       let u1 = u\<lparr>stackMap := sm\<rparr> in
       if idx \<ge> 0
       then bindR (Thread_new (new_regs h) (new_tid h) ''user thread'' (kern u1)) (\<lambda>k1.
         let u2 = u1\<lparr>kern := k1, g_threads := (g_threads u1)[nat idx := Some (new_tid h)],
                     g_threadsIdx := g_threadsIdx u1 + 1,
                     start_code := (start_code u1)(new_tid h \<mapsto> StartUserThread (f, arg, f_exit, idx))\<rparr> in
         bindR (Start run_handler (new_tid h) (kern u2)) (\<lambda>k2. Inr ((0, []), u2\<lparr>kern := k2\<rparr>)))
       else Inr ((- 1, []), u1))"

definition exit_thread :: "usys \<Rightarrow> (uval \<times> usys) res" where
  "exit_thread u =
     (let idx = GetStackIdFromThread (g_threads u) [0..int MAX_THREADS - 1] (currentThread (kern u)) in
      bindR (if idx \<ge> 0
             then bindR (Clear idx (stackMap u)) (\<lambda>sm.
               Inr (u\<lparr>g_threads := (g_threads u)[nat idx := None], stackMap := sm\<rparr>))
             else Inr u) (\<lambda>u1.
        Inr ((0, []), u1\<lparr>g_threadsIdx := g_threadsIdx u1 - 1\<rparr>)))"

definition leave :: "usys \<Rightarrow> (uval \<times> usys) res" where
  "leave u = (if g_threadsIdx u \<ge> 0 then on_kernel Finish u else on_kernel Halt u)"

fun do_op :: "bool \<Rightarrow> host \<Rightarrow> uop \<Rightarrow> usys \<Rightarrow> (uval \<times> usys) res" where
  "do_op big h (Op_Acquire l) u = bindR (lock_of l u) (\<lambda>s. on_kernel (Acquire s) u)"
| "do_op big h (Op_Release l) u = bindR (lock_of l u) (\<lambda>s. on_kernel (Release run_handler s) u)"
| "do_op big h (Op_P s) u = bindR (sem_of s (kernel.more (kern u))) (\<lambda>s. on_kernel (P s) u)"
| "do_op big h (Op_PutChar ch) u = on_kernel (PutChar ch) u"
| "do_op big h Op_GetChar u = bindR (GetChar (kern u)) (\<lambda>(c, k). Inr ((word_of_int c, []), u\<lparr>kern := k\<rparr>))"
| "do_op big h (Op_ReadRequest sector) u = bindR (ReadRequest sector (kern u)) (\<lambda>(data, k). Inr ((0, data), u\<lparr>kern := k\<rparr>))"
| "do_op big h (Op_WriteRequest sector data) u = on_kernel (WriteRequest sector data) u"
| "do_op big h Op_Yield u = on_kernel Yield u"
| "do_op big h (Op_ReadRegister r) u = on_machine (\<lambda>m. bindR (ReadRegister r m) (\<lambda>w. Inr ((w, []), m))) u"
| "do_op big h (Op_WriteRegister r w) u = on_machine (\<lambda>m. bindR (WriteRegister r w m) (\<lambda>m'. Inr ((0, []), m'))) u"
| "do_op big h (Op_char_array n) u = Inr ((0, new_chars (heap h) n), u)"
| "do_op big h Op_int_variable u = Inr ((new_int h, []), u)"
| "do_op big h (Op_copyFrom a) u = on_machine (\<lambda>m.
     bindR (copyStringFromMachine big (heap h) a MAX_STRING_SIZE m) (\<lambda>(n, st, m'). Inr ((of_nat n, st), m'))) u"
| "do_op big h (Op_copyTo s a) u = on_machine (\<lambda>m.
     bindR (copyStringToMachine big s a MAX_STRING_SIZE m) (\<lambda>(n, m'). Inr ((of_nat n, []), m'))) u"
| "do_op big h (Op_create_thread f arg f_exit) u = create_thread h f arg f_exit u"
| "do_op big h Op_exit_thread u = exit_thread u"
| "do_op big h Op_leave u = leave u"
| "do_op big h Op_Halt u = on_kernel Halt u"
| "do_op big h (Op_Exit exitCode) u = Inl MachineHalted"
| "do_op big h Op_abort u = Inl AssertionFailed"
| "do_op big h Op_overrun u = Inl OutOfBounds"
| "do_op big h Op_UpdatePC u = on_machine (\<lambda>m. bindR (UpdatePC m) (\<lambda>m'. Inr ((0, []), m'))) u"
| "do_op big h (Op_raise t) u = on_machine (\<lambda>m. bindR (raise_registers t m) (\<lambda>m'. Inr ((0, []), m'))) u"
| "do_op big h (Op_setStatus st) u = Inr ((0, []), u\<lparr>kern := (kern u)\<lparr>status := st\<rparr>\<rparr>)"
| "do_op big h Op_OneTick u = on_kernel (OneTick run_handler) u"
| "do_op big h (Op_init_registers a) u = StartUserThread_registers a u"

section \<open>The whole system\<close>

text \<open>One instruction of the loop of Machine::Run; what follows it is the rest of the iteration.\<close>

definition run_instruction :: "bool \<Rightarrow> usys \<Rightarrow> (prog \<times> usys) res" where
  "run_instruction big u =
     (case cpu (kern u) of
        None \<Rightarrow> Inl NullDereference
      | Some m \<Rightarrow> bindR (OneInstruction big m) (\<lambda>(t, m').
          let u' = u\<lparr>kern := (kern u)\<lparr>cpu := Some m'\<rparr>\<rparr>; tick = seq Op_OneTick Machine_Run in
          Inr (case t of None \<Rightarrow> tick | Some trap \<Rightarrow> RaiseException trap (status (kern u)) tick, u')))"

record running =
  sys :: usys
  progs :: "tid \<rightharpoonup> prog"

definition live_progs :: "nachos \<Rightarrow> (tid \<rightharpoonup> prog) \<Rightarrow> (tid \<rightharpoonup> prog)" where
  "live_progs k ps = (\<lambda>t. if threads k t = None then None else ps t)"

text \<open>new Thread and Thread::Start.\<close>

definition fork_thread :: "host \<Rightarrow> string \<Rightarrow> prog \<Rightarrow> usys \<Rightarrow> usys res" where
  "fork_thread h name f u =
     bindR (Thread_new (new_regs h) (new_tid h) name (kern u)) (\<lambda>k1.
     bindR (Start run_handler (new_tid h) k1) (\<lambda>k2.
       Inr (u\<lparr>kern := k2, start_code := (start_code u)(new_tid h \<mapsto> f)\<rparr>)))"

definition ustep :: "bool \<Rightarrow> host \<Rightarrow> running \<Rightarrow> running res" where
  "ustep big h s =
     (let u = sys s; k = kern u; t = currentThread k in
      if \<not> in_user k
      then bindR (kstep run_handler k) (\<lambda>k'. Inr \<lparr>sys = u\<lparr>kern := k'\<rparr>, progs = live_progs k' (progs s)\<rparr>)
      else case progs s t of
          None \<Rightarrow> (case start_code u t of
              None \<Rightarrow> Inl NullDereference
            | Some p \<Rightarrow> Inr (s\<lparr>progs := (progs s)(t \<mapsto> p)\<rparr>))
        | Some Returned \<Rightarrow> bindR (Finish k) (\<lambda>k'. Inr (s\<lparr>sys := u\<lparr>kern := k'\<rparr>\<rparr>))
        | Some (Fork n f p) \<Rightarrow> bindR (fork_thread h n f u) (\<lambda>u'. Inr \<lparr>sys = u', progs = (progs s)(t \<mapsto> p)\<rparr>)
        | Some (Do c g) \<Rightarrow> bindR (do_op big h c u) (\<lambda>(v, u'). Inr \<lparr>sys = u', progs = (progs s)(t \<mapsto> g v)\<rparr>)
        | Some Machine_Run \<Rightarrow> bindR (run_instruction big u) (\<lambda>(p, u'). Inr \<lparr>sys = u', progs = (progs s)(t \<mapsto> p)\<rparr>))"

text \<open>
  Starting Nachos. \<open>k0\<close> is the kernel when Initialize has enabled interrupts, which may already let the timer
  interrupt: \<open>settles\<close> executes what the main thread has to do in the kernel until that call returns. The lock of
  userthread.cc and its bitmap are static objects.
\<close>

inductive settles :: "nachos \<Rightarrow> nachos \<Rightarrow> bool" where
  settled: "in_user k \<Longrightarrow> settles k k"
| settle: "\<not> in_user k \<Longrightarrow> kstep run_handler k = Inr k1 \<Longrightarrow> settles k1 k' \<Longrightarrow> settles k k'"

record boot_args =
  b_random :: bool
  b_regs :: "reg_word list"
  b_devices :: Devices
  b_console :: Console
  b_readLock :: semid
  b_writeLock :: semid
  b_threadLock :: semid
  b_bitmap :: "32 word list"
  b_header :: "8 word list"
  b_entries :: "TranslationEntry list"
  b_table :: nat
  b_space :: nat

text \<open>The rest of Initialize with the processor and the console, and StartProcess up to Machine::Run.\<close>

definition boot_user :: "bool \<Rightarrow> boot_args \<Rightarrow> Executable \<Rightarrow> nachos \<Rightarrow> running res" where
  "boot_user big b executable k0 =
     bindR (BitMap_new (b_bitmap b) (int MAX_THREADS)) (\<lambda>sm.
     bindR (do_dcall (D_Machine False) (Lock_new (b_threadLock b) (Some ''thread_lock'') k0)) (\<lambda>k1.
     bindR (SynchConsole_new None None (b_console b) (b_readLock b) (b_writeLock b) k1) (\<lambda>k2.
     bindR (StartProcess big (b_header b) (b_entries b) (b_table b) (b_space b) (Some executable) k2) (\<lambda>k3.
       Inr \<lparr>sys = \<lparr>kern = k3\<lparr>status := UserMode\<rparr>, g_threads = replicate MAX_THREADS None, stackMap = sm,
                   g_threadsIdx = 0, thread_lock = b_threadLock b, start_code = (\<lambda>_. None)\<rparr>,
            progs = [currentThread k3 \<mapsto> Machine_Run]\<rparr>))))"

text \<open>The rest of Initialize with the disk; the main thread is about to execute \<open>p\<close>.\<close>

definition boot_disk :: "bool \<Rightarrow> boot_args \<Rightarrow> 8 word list option \<Rightarrow> semid \<Rightarrow> semid \<Rightarrow> prog \<Rightarrow> nachos \<Rightarrow> running res" where
  "boot_disk big b file ds dl p k0 =
     bindR (BitMap_new (b_bitmap b) (int MAX_THREADS)) (\<lambda>sm.
     bindR (SynchDisk_new big file ds dl (Lock_new (b_threadLock b) (Some ''thread_lock'') k0)) (\<lambda>k1.
       Inr \<lparr>sys = \<lparr>kern = k1, g_threads = replicate MAX_THREADS None, stackMap = sm,
                   g_threadsIdx = 0, thread_lock = b_threadLock b, start_code = (\<lambda>_. None)\<rparr>,
            progs = [currentThread k1 \<mapsto> p]\<rparr>))"

text \<open>The states that can be reached; \<open>host_ok\<close> says that the address of a new thread is not that of another.\<close>

definition host_ok :: "host \<Rightarrow> nachos \<Rightarrow> bool" where
  "host_ok h k \<longleftrightarrow> threads k (new_tid h) = None \<and> length (new_regs h) = NumTotalRegs"

inductive user_run :: "bool \<Rightarrow> boot_args \<Rightarrow> Executable \<Rightarrow> running \<Rightarrow> bool" for big b executable where
  user_boot: "Initialize (b_random b) (b_regs b) (b_devices b) = Inr ki \<Longrightarrow> settles ki k0 \<Longrightarrow>
     boot_user big b executable k0 = Inr s \<Longrightarrow> user_run big b executable s"
| user_step: "user_run big b executable s \<Longrightarrow> host_ok h (kern (sys s)) \<Longrightarrow> ustep big h s = Inr s' \<Longrightarrow> user_run big b executable s'"

inductive disk_run :: "bool \<Rightarrow> boot_args \<Rightarrow> 8 word list option \<Rightarrow> semid \<Rightarrow> semid \<Rightarrow> prog \<Rightarrow> running \<Rightarrow> bool" for big b unixFile ds dl p where
  disk_boot: "Initialize (b_random b) (b_regs b) (b_devices b) = Inr ki \<Longrightarrow> settles ki k0 \<Longrightarrow>
     boot_disk big b unixFile ds dl p k0 = Inr s \<Longrightarrow> disk_run big b unixFile ds dl p s"
| disk_step: "disk_run big b unixFile ds dl p s \<Longrightarrow> host_ok h (kern (sys s)) \<Longrightarrow> ustep big h s = Inr s' \<Longrightarrow>
     disk_run big b unixFile ds dl p s'"

end
