(* ===== verification/Nachos_Exclusion.thy ===== *)
theory Nachos_Exclusion
  imports Nachos_Account Nachos_Syscall
begin

text \<open>
  Exclusion: the invariant of locks and devices, and what each kind of step does to it. \<open>hold t\<close> is the lock
  that the thread \<open>t\<close> has or is acquiring, \<open>await t\<close> the device that has been asked for something and whose
  semaphore \<open>t\<close> is about to wait for. The value of a lock and the number of its holders add up to
  one, the balance of a device is the number of the threads that wait for it.
\<close>

fun dev_lock :: "int_handler \<Rightarrow> lock_name" where
  "dev_lock DiskDone = DiskLock"
| "dev_lock _ = WriteLock"

definition excl_inv ::
  "lock_name set \<Rightarrow> (lock_name \<Rightarrow> semid) \<Rightarrow> (tid \<Rightarrow> lock_name option) \<Rightarrow> (tid \<Rightarrow> int_handler option) \<Rightarrow> nachos \<Rightarrow> bool" where
  "excl_inv L lk hold await k \<longleftrightarrow>
     sems_distinct (kernel.more k) \<and> inj_on lk L \<and> (\<forall>l \<in> L. lk l \<notin> dev_sems (kernel.more k)) \<and>
     finite {t. hold t \<noteq> None} \<and> (\<forall>t l. hold t = Some l \<longrightarrow> l \<in> L) \<and>
     (\<forall>t h. await t = Some h \<longrightarrow> hold t = Some (dev_lock h)) \<and>
     (\<forall>l \<in> L. \<forall>t. waits k (lk l) t \<longrightarrow> hold t = Some l \<and> await t = None) \<and>
     (\<forall>l \<in> L. sval k (lk l) + int (card {t. hold t = Some l \<and> \<not> waits k (lk l) t}) = 1) \<and>
     (\<forall>h. h = ConsoleWriteDone \<or> h = DiskDone \<longrightarrow> dev_acc h 0 k) \<and>
     (\<forall>h ds t. dev_sem h (kernel.more k) = Some ds \<longrightarrow> waits k ds t \<longrightarrow> hold t = Some (dev_lock h) \<and> await t = None) \<and>
     (\<forall>h ds. dev_sem h (kernel.more k) = Some ds \<longrightarrow> dev_bal h 0 k = int (card {t. await t = Some h \<or> waits k ds t}))"

lemma excl_invI:
  assumes "sems_distinct (kernel.more k)" "inj_on lk L" "\<And>l. l \<in> L \<Longrightarrow> lk l \<notin> dev_sems (kernel.more k)"
    "finite {t. hold t \<noteq> None}" "\<And>t l. hold t = Some l \<Longrightarrow> l \<in> L" "\<And>t h. await t = Some h \<Longrightarrow> hold t = Some (dev_lock h)"
    "\<And>l t. l \<in> L \<Longrightarrow> waits k (lk l) t \<Longrightarrow> hold t = Some l \<and> await t = None"
    "\<And>l. l \<in> L \<Longrightarrow> sval k (lk l) + int (card {t. hold t = Some l \<and> \<not> waits k (lk l) t}) = 1"
    "\<And>h. h = ConsoleWriteDone \<or> h = DiskDone \<Longrightarrow> dev_acc h 0 k"
    "\<And>h ds t. dev_sem h (kernel.more k) = Some ds \<Longrightarrow> waits k ds t \<Longrightarrow> hold t = Some (dev_lock h) \<and> await t = None"
    "\<And>h ds. dev_sem h (kernel.more k) = Some ds \<Longrightarrow> dev_bal h 0 k = int (card {t. await t = Some h \<or> waits k ds t})"
  shows "excl_inv L lk hold await k"
  unfolding excl_inv_def
proof (intro conjI)
  show "sems_distinct (kernel.more k)" "inj_on lk L" "finite {t. hold t \<noteq> None}" by (rule assms(1), rule assms(2), rule assms(4))
qed (use assms(3) in blast, use assms(5) in blast, use assms(6) in blast, use assms(7) in blast, use assms(8) in blast,
     use assms(9) in blast, use assms(10) in blast, use assms(11) in blast)

lemma excl_invD:
  assumes "excl_inv L lk hold await k"
  shows "sems_distinct (kernel.more k)" "inj_on lk L" "\<And>l. l \<in> L \<Longrightarrow> lk l \<notin> dev_sems (kernel.more k)"
    "finite {t. hold t \<noteq> None}" "\<And>t l. hold t = Some l \<Longrightarrow> l \<in> L" "\<And>t h. await t = Some h \<Longrightarrow> hold t = Some (dev_lock h)"
    "\<And>l t. l \<in> L \<Longrightarrow> waits k (lk l) t \<Longrightarrow> hold t = Some l \<and> await t = None"
    "\<And>l. l \<in> L \<Longrightarrow> sval k (lk l) + int (card {t. hold t = Some l \<and> \<not> waits k (lk l) t}) = 1"
    "\<And>h. h = ConsoleWriteDone \<or> h = DiskDone \<Longrightarrow> dev_acc h 0 k"
    "\<And>h ds t. dev_sem h (kernel.more k) = Some ds \<Longrightarrow> waits k ds t \<Longrightarrow> hold t = Some (dev_lock h) \<and> await t = None"
    "\<And>h ds. dev_sem h (kernel.more k) = Some ds \<Longrightarrow> dev_bal h 0 k = int (card {t. await t = Some h \<or> waits k ds t})"
proof -
  note c = assms [unfolded excl_inv_def]
  have c1: "\<forall>l \<in> L. lk l \<notin> dev_sems (kernel.more k)" "\<forall>t l. hold t = Some l \<longrightarrow> l \<in> L"
    "\<forall>t h. await t = Some h \<longrightarrow> hold t = Some (dev_lock h)"
    "\<forall>l \<in> L. \<forall>t. waits k (lk l) t \<longrightarrow> hold t = Some l \<and> await t = None"
    "\<forall>l \<in> L. sval k (lk l) + int (card {t. hold t = Some l \<and> \<not> waits k (lk l) t}) = 1"
    "\<forall>h. h = ConsoleWriteDone \<or> h = DiskDone \<longrightarrow> dev_acc h 0 k"
    "\<forall>h ds t. dev_sem h (kernel.more k) = Some ds \<longrightarrow> waits k ds t \<longrightarrow> hold t = Some (dev_lock h) \<and> await t = None"
    "\<forall>h ds. dev_sem h (kernel.more k) = Some ds \<longrightarrow> dev_bal h 0 k = int (card {t. await t = Some h \<or> waits k ds t})"
    using c by - (elim conjE, assumption)+
  show "sems_distinct (kernel.more k)" "inj_on lk L" "finite {t. hold t \<noteq> None}"
    using c by - (elim conjE, assumption)+
  show "\<And>l. l \<in> L \<Longrightarrow> lk l \<notin> dev_sems (kernel.more k)" using c1(1) by blast
  show "\<And>t l. hold t = Some l \<Longrightarrow> l \<in> L" using c1(2) by blast
  show "\<And>t h. await t = Some h \<Longrightarrow> hold t = Some (dev_lock h)" using c1(3) by blast
  show "\<And>l t. l \<in> L \<Longrightarrow> waits k (lk l) t \<Longrightarrow> hold t = Some l \<and> await t = None" using c1(4) by blast
  show "\<And>l. l \<in> L \<Longrightarrow> sval k (lk l) + int (card {t. hold t = Some l \<and> \<not> waits k (lk l) t}) = 1" using c1(5) by blast
  show "\<And>h. h = ConsoleWriteDone \<or> h = DiskDone \<Longrightarrow> dev_acc h 0 k" using c1(6) by blast
  show "\<And>h ds t. dev_sem h (kernel.more k) = Some ds \<Longrightarrow> waits k ds t \<Longrightarrow> hold t = Some (dev_lock h) \<and> await t = None"
    using c1(7) by blast
  show "\<And>h ds. dev_sem h (kernel.more k) = Some ds \<Longrightarrow> dev_bal h 0 k = int (card {t. await t = Some h \<or> waits k ds t})"
    using c1(8) by blast
qed

lemma dev_sem_in: "dev_sem h d = Some s \<Longrightarrow> s \<in> dev_sems d" "dev_sem h d = Some s \<Longrightarrow> h = ConsoleWriteDone \<or> h = DiskDone"
  by (cases h; auto simp: dev_sems_def)+

section \<open>Steps of the kernel\<close>

lemma excl_frame:
  assumes i: "excl_inv L lk hold await k"
    and k': "\<And>s t. waits k' s t = waits k s t" "dev_names (kernel.more k') = dev_names (kernel.more k)"
      "\<And>s. s \<notin> dev_sems (kernel.more k) \<Longrightarrow> sval k' s = sval k s"
      "\<And>h. sems_distinct (kernel.more k) \<Longrightarrow> dev_acc h 0 k \<Longrightarrow> h = ConsoleWriteDone \<or> h = DiskDone \<Longrightarrow>
        dev_acc h 0 k' \<and> dev_bal h 0 k' = dev_bal h 0 k"
  shows "excl_inv L lk hold await k'"
proof -
  note d = excl_invD [OF i]
  have n: "dev_sems (kernel.more k') = dev_sems (kernel.more k)" "sems_distinct (kernel.more k') = sems_distinct (kernel.more k)"
    "dev_sem h (kernel.more k') = dev_sem h (kernel.more k)" for h
    using names_sems [OF k'(2)] by simp_all
  show ?thesis
  proof (rule excl_invI)
    show "dev_bal h 0 k' = int (card {t. await t = Some h \<or> waits k' ds t})" if "dev_sem h (kernel.more k') = Some ds" for h ds
      using that d(11) [of h ds] k'(4) [OF d(1) d(9), of h] dev_sem_in(2) [of h] unfolding k'(1) n by simp
    show "sems_distinct (kernel.more k')" using d(1) n by simp
    show "inj_on lk L" "finite {t. hold t \<noteq> None}" by (rule d(2), rule d(4))
    show "l \<in> L \<Longrightarrow> lk l \<notin> dev_sems (kernel.more k')" for l unfolding n by (rule d(3))
    show "hold t = Some l \<Longrightarrow> l \<in> L" for t l by (rule d(5))
    show "await t = Some h \<Longrightarrow> hold t = Some (dev_lock h)" for t h by (rule d(6))
    show "l \<in> L \<Longrightarrow> waits k' (lk l) t \<Longrightarrow> hold t = Some l \<and> await t = None" for l t unfolding k'(1) by (rule d(7))
    show "sval k' (lk l) + int (card {t. hold t = Some l \<and> \<not> waits k' (lk l) t}) = 1" if "l \<in> L" for l
      unfolding k'(1) k'(3) [OF d(3) [OF that]] by (rule d(8) [OF that])
    show "h = ConsoleWriteDone \<or> h = DiskDone \<Longrightarrow> dev_acc h 0 k'" for h using k'(4) [OF d(1) d(9)] by blast
    show "dev_sem h (kernel.more k') = Some ds \<Longrightarrow> waits k' ds t \<Longrightarrow> hold t = Some (dev_lock h) \<and> await t = None" for h ds t
      unfolding n k'(1) by (rule d(10))
  qed
qed

lemma excl_keeps:
  assumes "excl_inv L lk hold await k" "keeps k k'"
  shows "excl_inv L lk hold await k'"
proof -
  note r = acct_relD [OF assms(2) [unfolded keeps_def]]
  show ?thesis by (rule excl_frame [OF assms(1)]) (rule r(2), rule struct_relD(1) [OF r(1)], erule r(3), rule r(4))
qed

lemma card_insert_new: "finite A \<Longrightarrow> x \<notin> A \<Longrightarrow> int (card (insert x A)) = int (card A) + 1"
  by simp

lemma card_remove_old: "finite A \<Longrightarrow> x \<in> A \<Longrightarrow> int (card (A - {x})) = int (card A) - 1"
  using card_Suc_Diff1 [of A x] by linarith

lemma holders_finite:
  assumes "finite {t. hold t \<noteq> None}"
  shows "finite {t. hold t = Some l \<and> Q t}"
  by (rule finite_subset [OF _ assms]) auto

lemma waiters_finite:
  assumes "excl_inv L lk hold await k" "dev_sem h (kernel.more k) = Some ds"
  shows "finite {t. await t = Some h \<or> waits k ds t}"
proof (rule finite_subset)
  show "{t. await t = Some h \<or> waits k ds t} \<subseteq> {t. hold t \<noteq> None}"
  proof
    fix t
    assume "t \<in> {t. await t = Some h \<or> waits k ds t}"
    then have "hold t = Some (dev_lock h)" using excl_invD(6) [OF assms(1), of t h] excl_invD(10) [OF assms, of t] by blast
    then show "t \<in> {t. hold t \<noteq> None}" by simp
  qed
qed (rule excl_invD(4) [OF assms(1)])

text \<open>P takes a unit of a lock, or of the semaphore of a device.\<close>

lemma excl_took:
  assumes i: "excl_inv L lk hold await k" and t: "took_unit s k k1"
    and one: "\<And>th. threads k (currentThread k) = Some th \<Longrightarrow> frame_sems (kstack th) = {s} \<and> frame_sems (tl (kstack th)) = {}"
  shows "excl_inv L lk hold await k1"
proof -
  note d = excl_invD [OF i]
  let ?c = "currentThread k"
  obtain th l fs q where th: "threads k ?c = Some th" "kstack th = Waiting s l # fs" "semaphores k s = Some q"
    and k1: "k1 = put_sem s (q\<lparr>svalue := svalue q - 1\<rparr>) (put_thread ?c (th\<lparr>kstack := fs\<rparr>) k)"
    using t unfolding took_unit_def by blast
  have fs: "frame_sems fs = {}" "s' \<in> frame_sems (kstack th) \<longleftrightarrow> s' = s" for s' using one [OF th(1)] th(2) by auto
  have w: "waits k1 s' t \<longleftrightarrow> waits k s' t \<and> t \<noteq> ?c" for s' t using fs(1) th(1) by (auto simp: waits_def k1)
  have wc: "waits k s' ?c \<longleftrightarrow> s' = s" for s' using fs(2) th(1) by (simp add: waits_def)
  have v: "sval k1 s' = sval k s' - of_bool (s' = s)" for s' using th(3) by (simp add: sval_def k1)
  have m: "kernel.more k1 = kernel.more k" "pend h k1 = pend h k" for h by (simp_all add: k1 pend_def)
  show ?thesis
  proof (rule excl_invI)
    show "sval k1 (lk l) + int (card {t. hold t = Some l \<and> \<not> waits k1 (lk l) t}) = 1" if l: "l \<in> L" for l
    proof (cases "lk l = s")
      case True
      then have c: "hold ?c = Some l" using d(7) [OF l] wc by blast
      have "{t. hold t = Some l \<and> \<not> waits k1 (lk l) t} = insert ?c {t. hold t = Some l \<and> \<not> waits k (lk l) t}"
        using c w by auto
      moreover have "?c \<notin> {t. hold t = Some l \<and> \<not> waits k (lk l) t}" using wc True by simp
      ultimately show ?thesis using d(8) [OF l] holders_finite [OF d(4)] v True by (simp add: card_insert_new)
    next
      case False
      then have "{t. hold t = Some l \<and> \<not> waits k1 (lk l) t} = {t. hold t = Some l \<and> \<not> waits k (lk l) t}" using wc w by auto
      then show ?thesis using d(8) [OF l] v False by simp
    qed
    show "dev_bal h 0 k1 = int (card {t. await t = Some h \<or> waits k1 ds t})" if h: "dev_sem h (kernel.more k1) = Some ds" for h ds
    proof -
      have h': "dev_sem h (kernel.more k) = Some ds" using h m by simp
      have b: "dev_bal h 0 k1 = dev_bal h 0 k - of_bool (ds = s)" using h' m v by (simp add: dev_bal_def)
      show ?thesis
      proof (cases "ds = s")
        case True
        then have "await ?c = None" "waits k ds ?c" using d(10) [OF h'] wc by blast+
        then have e: "{t. await t = Some h \<or> waits k1 ds t} = {t. await t = Some h \<or> waits k ds t} - {?c}"
          "?c \<in> {t. await t = Some h \<or> waits k ds t}"
          using w by auto
        show ?thesis using d(11) [OF h'] b True card_remove_old [OF waiters_finite [OF i h'] e(2)] unfolding e(1) by simp
      next
        case False
        then have "{t. await t = Some h \<or> waits k1 ds t} = {t. await t = Some h \<or> waits k ds t}" using w wc by auto
        then show ?thesis using d(11) [OF h'] b False by simp
      qed
    qed
    show "sems_distinct (kernel.more k1)" "inj_on lk L" "finite {t. hold t \<noteq> None}"
      unfolding m by (rule d(1), rule d(2), rule d(4))
    show "l \<in> L \<Longrightarrow> lk l \<notin> dev_sems (kernel.more k1)" for l unfolding m by (rule d(3))
    show "hold t = Some l \<Longrightarrow> l \<in> L" for t l by (rule d(5))
    show "await t = Some h \<Longrightarrow> hold t = Some (dev_lock h)" for t h by (rule d(6))
    show "l \<in> L \<Longrightarrow> waits k1 (lk l) t \<Longrightarrow> hold t = Some l \<and> await t = None" for l t using d(7) [of l t] w by simp
    show "h = ConsoleWriteDone \<or> h = DiskDone \<Longrightarrow> dev_acc h 0 k1" for h using d(9) [of h] m by (simp add: dev_acc_def)
    show "dev_sem h (kernel.more k1) = Some ds \<Longrightarrow> waits k1 ds t \<Longrightarrow> hold t = Some (dev_lock h) \<and> await t = None" for h ds t
      using d(10) [of h ds t] w m by simp
  qed
qed


section \<open>Operations of a thread\<close>

text \<open>The thread \<open>c\<close> enters P on a semaphore; what it has or is about to have changes accordingly.\<close>

lemma excl_enter_P:
  assumes i: "excl_inv L lk hold await k" and c: "\<And>s. \<not> waits k s c"
    and k': "\<And>s t. waits k' s t \<longleftrightarrow> waits k s t \<or> t = c \<and> s = s0" "kernel.more k' = kernel.more k"
      "\<And>s. sval k' s = sval k s" "\<And>h. pend h k' = pend h k"
    and ha: "\<And>t. t \<noteq> c \<Longrightarrow> hold' t = hold t \<and> await' t = await t" "await' c = None"
    and lock: "\<And>l. l \<in> L \<Longrightarrow> lk l = s0 \<longleftrightarrow> hold' c = Some l \<and> hold c = None"
    and old: "hold c = None \<or> hold' c = hold c" "\<And>l. hold' c = Some l \<Longrightarrow> l \<in> L"
    and dev: "\<And>h ds. dev_sem h (kernel.more k) = Some ds \<Longrightarrow> ds = s0 \<longleftrightarrow> await c = Some h"
  shows "excl_inv L lk hold' await' k'"
proof -
  note d = excl_invD [OF i]
  have acc: "dev_acc h 0 k' = dev_acc h 0 k" "dev_bal h 0 k' = dev_bal h 0 k" for h
    using k'(2-4) by (simp_all add: dev_acc_def dev_bal_def split: option.split)
  have hc: "hold' c = Some (dev_lock h)" if "await c = Some h" for h using d(6) [OF that] old by auto
  show ?thesis
  proof (rule excl_invI)
    show "sems_distinct (kernel.more k')" "inj_on lk L" unfolding k'(2) by (rule d(1), rule d(2))
    show "l \<in> L \<Longrightarrow> lk l \<notin> dev_sems (kernel.more k')" for l unfolding k'(2) by (rule d(3))
    have "{t. hold' t \<noteq> None} \<subseteq> insert c {t. hold t \<noteq> None}" using ha by auto
    then show "finite {t. hold' t \<noteq> None}" using d(4) finite_subset by blast
    show "hold' t = Some l \<Longrightarrow> l \<in> L" for t l using d(5) ha(1) old(2) by (cases "t = c") auto
    show "await' t = Some h \<Longrightarrow> hold' t = Some (dev_lock h)" for t h using d(6) ha by (cases "t = c") auto
    show "hold' t = Some l \<and> await' t = None" if "l \<in> L" "waits k' (lk l) t" for l t
    proof (cases "t = c")
      case True
      then have "lk l = s0" using that(2) k'(1) c by blast
      then show ?thesis using lock [OF that(1)] ha(2) True by simp
    next
      case False
      then show ?thesis using that k'(1) d(7) [OF that(1), of t] ha(1) by simp
    qed
    show "sval k' (lk l) + int (card {t. hold' t = Some l \<and> \<not> waits k' (lk l) t}) = 1" if "l \<in> L" for l
    proof -
      have "{t. hold' t = Some l \<and> \<not> waits k' (lk l) t} = {t. hold t = Some l \<and> \<not> waits k (lk l) t}"
      proof (rule Collect_cong)
        fix t
        show "(hold' t = Some l \<and> \<not> waits k' (lk l) t) = (hold t = Some l \<and> \<not> waits k (lk l) t)"
          using lock [OF that] old(1) c [of "lk l"] ha(1) [of t] k'(1) [of "lk l" t] by (cases "t = c") auto
      qed
      then show ?thesis using d(8) [OF that] k'(3) by simp
    qed
    show "h = ConsoleWriteDone \<or> h = DiskDone \<Longrightarrow> dev_acc h 0 k'" for h unfolding acc by (rule d(9))
    show "hold' t = Some (dev_lock h) \<and> await' t = None" if "dev_sem h (kernel.more k') = Some ds" "waits k' ds t" for h ds t
    proof (cases "t = c")
      case True
      then have "ds = s0" using that(2) k'(1) c by blast
      then show ?thesis using dev [of h ds] that(1) k'(2) hc ha(2) True by simp
    next
      case False
      then show ?thesis using that k'(1,2) d(10) [of h ds t] ha(1) by simp
    qed
    show "dev_bal h 0 k' = int (card {t. await' t = Some h \<or> waits k' ds t})" if "dev_sem h (kernel.more k') = Some ds" for h ds
    proof -
      have e: "dev_sem h (kernel.more k) = Some ds" using that k'(2) by simp
      have "{t. await' t = Some h \<or> waits k' ds t} = {t. await t = Some h \<or> waits k ds t}"
      proof (rule Collect_cong)
        fix t
        show "(await' t = Some h \<or> waits k' ds t) = (await t = Some h \<or> waits k ds t)"
          using dev [OF e] c [of ds] ha(1) [of t] ha(2) k'(1) [of ds t] by (cases "t = c") auto
      qed
      then show ?thesis using d(11) [OF e] acc by simp
    qed
  qed
qed

text \<open>The release of a lock, up to the end of the atomic part of V.\<close>

lemma excl_release:
  assumes i: "excl_inv L lk hold await k" and c: "\<And>s. \<not> waits k s c" and l: "hold c = Some l" "await c = None"
    and k': "\<And>s t. waits k' s t = waits k s t" "kernel.more k' = kernel.more k"
      "\<And>s. sval k' s = sval k s + of_bool (s = lk l)" "\<And>h. pend h k' = pend h k"
  shows "excl_inv L lk (hold(c := None)) await k'"
proof -
  note d = excl_invD [OF i]
  have lL: "l \<in> L" using d(5) l by blast
  have nd: "dev_sem h (kernel.more k) \<noteq> Some (lk l)" for h using d(3) [OF lL] dev_sem_in(1) by blast
  have acc: "dev_acc h 0 k' = dev_acc h 0 k" "dev_bal h 0 k' = dev_bal h 0 k" for h
    using k'(2-4) nd [of h] by (auto simp: dev_acc_def dev_bal_def split: option.split)
  show ?thesis
  proof (rule excl_invI)
    show "sems_distinct (kernel.more k')" "inj_on lk L" unfolding k'(2) by (rule d(1), rule d(2))
    show "l \<in> L \<Longrightarrow> lk l \<notin> dev_sems (kernel.more k')" for l unfolding k'(2) by (rule d(3))
    have "{t. (hold(c := None)) t \<noteq> None} \<subseteq> {t. hold t \<noteq> None}" by auto
    then show "finite {t. (hold(c := None)) t \<noteq> None}" using d(4) finite_subset by blast
    show "(hold(c := None)) t = Some x \<Longrightarrow> x \<in> L" for t x using d(5) by (simp split: if_splits)
    show "(hold(c := None)) t = Some (dev_lock h)" if "await t = Some h" for t h
      using d(6) [OF that] that l(2) by (cases "t = c") auto
    show "(hold(c := None)) t = Some x \<and> await t = None" if "x \<in> L" "waits k' (lk x) t" for x t
      using d(7) [OF that(1), of t] that(2) k'(1) c [of "lk x"] by (cases "t = c") auto
    show "sval k' (lk x) + int (card {t. (hold(c := None)) t = Some x \<and> \<not> waits k' (lk x) t}) = 1" if "x \<in> L" for x
    proof (cases "x = l")
      case True
      have e: "{t. (hold(c := None)) t = Some x \<and> \<not> waits k' (lk x) t} = {t. hold t = Some x \<and> \<not> waits k (lk x) t} - {c}"
        using k'(1) by auto
      have m: "c \<in> {t. hold t = Some x \<and> \<not> waits k (lk x) t}" using l c True by simp
      show ?thesis using d(8) [OF that] k'(3) True card_remove_old [OF holders_finite [OF d(4)] m] unfolding e by simp
    next
      case False
      then have "lk x \<noteq> lk l" using inj_onD [OF d(2)] that lL by blast
      moreover have "{t. (hold(c := None)) t = Some x \<and> \<not> waits k' (lk x) t} = {t. hold t = Some x \<and> \<not> waits k (lk x) t}"
        using k'(1) l(1) False by auto
      ultimately show ?thesis using d(8) [OF that] k'(3) by simp
    qed
    show "h = ConsoleWriteDone \<or> h = DiskDone \<Longrightarrow> dev_acc h 0 k'" for h unfolding acc by (rule d(9))
    show "(hold(c := None)) t = Some (dev_lock h) \<and> await t = None" if "dev_sem h (kernel.more k') = Some ds" "waits k' ds t" for h ds t
      using d(10) [of h ds t] that k'(1,2) c [of ds] by (cases "t = c") auto
    show "dev_bal h 0 k' = int (card {t. await t = Some h \<or> waits k' ds t})" if "dev_sem h (kernel.more k') = Some ds" for h ds
      unfolding acc k'(1) by (rule d(11)) (use that k'(2) in simp)
  qed
qed

text \<open>A request on a device that was idle.\<close>

lemma excl_request:
  assumes i: "excl_inv L lk hold await k" and c: "\<And>s. \<not> waits k s c" and h: "hold c = Some (dev_lock h)" "await c = None"
    and hd: "h = ConsoleWriteDone \<or> h = DiskDone"
    and k': "\<And>s t. waits k' s t = waits k s t" "dev_names (kernel.more k') = dev_names (kernel.more k)"
      "\<And>s. sval k' s = sval k s" "\<And>x. pend x k' = pend x k + of_bool (x = h)"
      "\<not> dev_busy h (kernel.more k)" "\<And>x. dev_busy x (kernel.more k') \<longleftrightarrow> dev_busy x (kernel.more k) \<or> x = h"
  shows "excl_inv L lk hold (await(c := Some h)) k'"
proof -
  note d = excl_invD [OF i]
  have n: "dev_sems (kernel.more k') = dev_sems (kernel.more k)" "sems_distinct (kernel.more k') = sems_distinct (kernel.more k)"
    "dev_sem x (kernel.more k') = dev_sem x (kernel.more k)" for x
    using names_sems [OF k'(2)] by simp_all
  have bal: "dev_bal x 0 k' = dev_bal x 0 k + of_bool (x = h)" for x
    using k'(3,4) n by (simp add: dev_bal_def split: option.split)
  show ?thesis
  proof (rule excl_invI)
    show "sems_distinct (kernel.more k')" "inj_on lk L" "finite {t. hold t \<noteq> None}" unfolding n by (rule d(1), rule d(2), rule d(4))
    show "l \<in> L \<Longrightarrow> lk l \<notin> dev_sems (kernel.more k')" for l unfolding n by (rule d(3))
    show "hold t = Some l \<Longrightarrow> l \<in> L" for t l by (rule d(5))
    show "(await(c := Some h)) t = Some x \<Longrightarrow> hold t = Some (dev_lock x)" for t x using d(6) h(1) by (auto split: if_splits)
    show "hold t = Some l \<and> (await(c := Some h)) t = None" if "l \<in> L" "waits k' (lk l) t" for l t
      using d(7) [OF that(1), of t] that(2) c [of "lk l"] k'(1) by (cases "t = c") auto
    show "sval k' (lk l) + int (card {t. hold t = Some l \<and> \<not> waits k' (lk l) t}) = 1" if "l \<in> L" for l
      unfolding k'(1,3) by (rule d(8) [OF that])
    show "dev_acc x 0 k'" if "x = ConsoleWriteDone \<or> x = DiskDone" for x
      using d(9) [OF that] k'(4-6) by (cases "x = h") (simp_all add: dev_acc_def)
    show "hold t = Some (dev_lock x) \<and> (await(c := Some h)) t = None" if "dev_sem x (kernel.more k') = Some ds" "waits k' ds t" for x ds t
      using d(10) [of x ds t] that k'(1) n c [of ds] by (cases "t = c") auto
    show "dev_bal x 0 k' = int (card {t. (await(c := Some h)) t = Some x \<or> waits k' ds t})" if "dev_sem x (kernel.more k') = Some ds" for x ds
    proof -
      have x: "dev_sem x (kernel.more k) = Some ds" using that n by simp
      show ?thesis
      proof (cases "x = h")
        case True
        have e: "{t. (await(c := Some h)) t = Some x \<or> waits k' ds t} = insert c {t. await t = Some x \<or> waits k ds t}"
          using True k'(1) by auto
        have m: "c \<notin> {t. await t = Some x \<or> waits k ds t}" using h(2) c by simp
        show ?thesis using d(11) [OF x] bal True card_insert_new [OF waiters_finite [OF i x] m] unfolding e by simp
      next
        case False
        have "{t. (await(c := Some h)) t = Some x \<or> waits k' ds t} = {t. await t = Some x \<or> waits k ds t}"
          using False k'(1) h(2) by auto
        then show ?thesis using d(11) [OF x] bal False by simp
      qed
    qed
  qed
qed

text \<open>A thread that has the lock of a device and no request under way finds the device idle.\<close>

lemma excl_idle:
  assumes i: "excl_inv L lk hold await k" and c: "\<And>s. \<not> waits k s c" and h: "hold c = Some (dev_lock h)" "await c = None"
    and hd: "dev_sem h (kernel.more k) = Some ds" and pos: "\<And>s. 0 \<le> sval k s"
    and one: "\<And>t s s'. waits k s t \<Longrightarrow> waits k s' t \<Longrightarrow> s = s'"
  shows "\<not> dev_busy h (kernel.more k)"
proof -
  note d = excl_invD [OF i]
  let ?l = "dev_lock h"
  have lL: "?l \<in> L" using d(5) h by blast
  let ?H = "{t. hold t = Some ?l \<and> \<not> waits k (lk ?l) t}"
  have fin: "finite ?H" by (rule holders_finite [OF d(4)])
  have "card ?H \<le> 1" using d(8) [OF lL] pos [of "lk ?l"] by linarith
  then have H: "t = c" if "t \<in> ?H" for t using card_le_Suc0_iff_eq [OF fin] that h c by auto
  have "{t. await t = Some h \<or> waits k ds t} = {}"
  proof -
    have False if t: "await t = Some h \<or> waits k ds t" for t
    proof -
      have ht: "hold t = Some ?l" using t d(6) [of t h] d(10) [OF hd, of t] by blast
      have "\<not> waits k (lk ?l) t"
        using t d(7) [OF lL, of t] one [of ds t "lk ?l"] d(3) [OF lL] dev_sem_in(1) [OF hd] by auto
      then have "t = c" using H ht by simp
      then show False using t h(2) c by simp
    qed
    then show ?thesis by blast
  qed
  then have "dev_bal h 0 k = 0" using d(11) [OF hd] by simp
  moreover have "0 \<le> pend h k" by (simp add: pend_def)
  ultimately have "pend h k = 0" using pos [of ds] hd by (simp add: dev_bal_def)
  then show ?thesis using d(9) [of h] dev_sem_in(2) [OF hd] by (auto simp: dev_acc_def)
qed

end
