(* ===== verification/Nachos_UserSys.thy ===== *)
theory Nachos_UserSys
  imports Nachos_Exclusion
begin

text \<open>
  The discipline of the code (\<open>prog_wf\<close>): a lock is released by the code that acquired it, the
  console and the disk are used by the holder of their locks, each request is followed by P on the device's
  semaphore, and a thread that has left the table of user threads goes on to finish. The system calls, the code of
  user threads, the operations of the synchronous disk and the thread test follow it.
\<close>

section \<open>The discipline of the code\<close>

text \<open>The lock within which an operation is executed, the device it asks or waits for.\<close>

fun inside :: "uop \<Rightarrow> lock_name option" where
  "inside (Op_Release l) = Some l"
| "inside (Op_P ReadAvail) = Some ReadLock"
| "inside Op_GetChar = Some ReadLock"
| "inside (Op_P WriteDone_sem) = Some WriteLock"
| "inside (Op_PutChar ch) = Some WriteLock"
| "inside (Op_P Disk_sem) = Some DiskLock"
| "inside (Op_ReadRequest n) = Some DiskLock"
| "inside (Op_WriteRequest n d) = Some DiskLock"
| "inside (Op_create_thread f arg f_exit) = Some ThreadLock"
| "inside Op_exit_thread = Some ThreadLock"
| "inside _ = None"

fun lock_after :: "uop \<Rightarrow> lock_name option" where
  "lock_after (Op_Acquire l) = Some l"
| "lock_after (Op_Release l) = None"
| "lock_after c = inside c"

fun requests :: "uop \<Rightarrow> int_handler option" where
  "requests (Op_PutChar ch) = Some ConsoleWriteDone"
| "requests (Op_ReadRequest n) = Some DiskDone"
| "requests (Op_WriteRequest n d) = Some DiskDone"
| "requests _ = None"

fun awaits :: "uop \<Rightarrow> int_handler option" where
  "awaits (Op_P WriteDone_sem) = Some ConsoleWriteDone"
| "awaits (Op_P Disk_sem) = Some DiskDone"
| "awaits _ = None"

fun needs_user :: "uop \<Rightarrow> bool" where
  "needs_user (Op_ReadRegister r) = True"
| "needs_user (Op_WriteRegister r w) = True"
| "needs_user (Op_copyFrom a) = True"
| "needs_user (Op_copyTo s a) = True"
| "needs_user (Op_create_thread f arg f_exit) = True"
| "needs_user Op_UpdatePC = True"
| "needs_user (Op_raise t) = True"
| "needs_user (Op_init_registers a) = True"
| "needs_user _ = False"

fun op_args_ok :: "uop \<Rightarrow> bool" where
  "op_args_ok (Op_ReadRegister r) = (0 \<le> r \<and> r < int NumTotalRegs)"
| "op_args_ok (Op_WriteRegister r w) = (0 \<le> r \<and> r < int NumGPRegs)"
| "op_args_ok (Op_copyTo s a) = (MAX_STRING_SIZE \<le> length s)"
| "op_args_ok (Op_ReadRequest n) = (0 \<le> n \<and> n < NumSectors)"
| "op_args_ok (Op_WriteRequest n d) = (0 \<le> n \<and> n < NumSectors \<and> length d = SectorSize)"
| "op_args_ok Op_overrun = False"
| "op_args_ok _ = True"

definition op_ok :: "lock_name set \<Rightarrow> uop \<Rightarrow> bool" where
  "op_ok L c \<longleftrightarrow> op_args_ok c \<and> set_option (inside c) \<subseteq> L \<and> set_option (lock_after c) \<subseteq> L \<and> (needs_user c \<longrightarrow> ThreadLock \<in> L)"

fun result_ok :: "uop \<Rightarrow> uval \<Rightarrow> bool" where
  "result_ok (Op_copyFrom a) v = (0 \<in> set (snd v))"
| "result_ok (Op_char_array n) v = (length (snd v) = n)"
| "result_ok _ v = True"

fun p_lock :: "prog \<Rightarrow> lock_name option" where
  "p_lock (Do c g) = inside c"
| "p_lock _ = None"

fun p_await :: "prog \<Rightarrow> int_handler option" where
  "p_await (Do c g) = awaits c"
| "p_await _ = None"

text \<open>A thread that has left the table of user threads goes on to Op_leave.\<close>

fun head_leave :: "prog \<Rightarrow> bool" where
  "head_leave (Do c g) = (c = Op_leave)"
| "head_leave _ = False"

fun p_leaving :: "prog \<Rightarrow> bool" where
  "p_leaving (Do c g) = (c = Op_leave \<or> c = Op_Release ThreadLock \<and> head_leave (g (0, [])))"
| "p_leaving _ = False"

primrec prog_wf :: "lock_name set \<Rightarrow> prog \<Rightarrow> bool" where
  "prog_wf L Machine_Run = (ThreadLock \<in> L)"
| "prog_wf L Returned = (ThreadLock \<notin> L)"
| "prog_wf L (Fork n f p) = (ThreadLock \<notin> L \<and> prog_wf L f \<and> p_lock f = None \<and> \<not> p_leaving f \<and>
     prog_wf L p \<and> p_lock p = None \<and> \<not> p_leaving p)"
| "prog_wf L (Do c g) = (op_ok L c \<and>
     (\<forall>v. result_ok c v \<longrightarrow> prog_wf L (g v) \<and> p_lock (g v) = lock_after c \<and> p_await (g v) = requests c \<and>
        p_leaving (g v) = (c = Op_exit_thread \<or> c = Op_Release ThreadLock \<and> head_leave (g (0, [])))))"

text \<open>Code that a thread may go on with when it has no lock.\<close>

definition free_wf :: "lock_name set \<Rightarrow> prog \<Rightarrow> bool" where
  "free_wf L p \<longleftrightarrow> prog_wf L p \<and> p_lock p = None \<and> \<not> p_leaving p"

lemma p_await_lock: "p_await p = Some h \<Longrightarrow> p_lock p = Some (dev_lock h)"
proof (cases p)
  case (Do c g)
  then show "p_await p = Some h \<Longrightarrow> p_lock p = Some (dev_lock h)" by (cases c rule: awaits.cases) auto
qed simp_all

lemma p_lock_None [simp]: "p_lock p = None \<Longrightarrow> p_await p = None"
  using p_await_lock by (cases "p_await p") auto

section \<open>The code of the kernel follows it\<close>

named_theorems wf_simps \<open>programs that follow the discipline\<close>

lemma seq_wf:
  "prog_wf L (seq c p) = (op_ok L c \<and> ((\<exists>v. result_ok c v) \<longrightarrow> prog_wf L p \<and> p_lock p = lock_after c \<and> p_await p = requests c \<and>
     p_leaving p = (c = Op_exit_thread \<or> c = Op_Release ThreadLock \<and> head_leave p)))"
  "p_lock (seq c p) = inside c" "p_await (seq c p) = awaits c"
  "p_leaving (seq c p) = (c = Op_leave \<or> c = Op_Release ThreadLock \<and> head_leave p)" "head_leave (seq c p) = (c = Op_leave)"
  by (auto simp: seq_def)

lemma result_exists: "\<exists>v. result_ok c v"
proof (cases c)
  case (Op_char_array n)
  then show ?thesis by (intro exI [of _ "(0, replicate n 0)"]) simp
next
  case (Op_copyFrom a)
  then show ?thesis by (intro exI [of _ "(0, [0])"]) simp
qed simp_all

lemmas seq_wf' [wf_simps] = seq_wf [unfolded eqTrueI [OF result_exists] simp_thms]

declare op_ok_def [wf_simps] free_wf_def [wf_simps]

lemma not_leaving_head [simp]: "\<not> p_leaving p \<Longrightarrow> \<not> head_leave p"
  by (cases p) auto

lemma put_string_wf:
  assumes "WriteLock \<in> L" "prog_wf L ret" "p_lock ret = Some WriteLock" "p_await ret = None" "\<not> p_leaving ret" "0 \<in> set s"
  shows "prog_wf L (put_string_loop s ret) \<and> p_lock (put_string_loop s ret) = Some WriteLock \<and>
    p_await (put_string_loop s ret) = None \<and> \<not> p_leaving (put_string_loop s ret)"
  using assms by (induction s) (auto simp: wf_simps)

lemma SynchPutString_wf:
  assumes "WriteLock \<in> L" "free_wf L ret" "0 \<in> set s"
  shows "free_wf L (SynchPutString s ret)"
  using put_string_wf [of L "seq (Op_Release WriteLock) ret" s] assms by (auto simp: SynchPutString_def wf_simps)

lemma SynchPutChar_wf: "WriteLock \<in> L \<Longrightarrow> free_wf L ret \<Longrightarrow> free_wf L (SynchPutChar ch ret)"
  by (simp add: SynchPutChar_def wf_simps)

lemma SynchGetChar_wf: "ReadLock \<in> L \<Longrightarrow> (\<And>w. free_wf L (ret w)) \<Longrightarrow> free_wf L (SynchGetChar ret)"
  by (auto simp: SynchGetChar_def wf_simps)

lemma get_string_wf:
  assumes "ReadLock \<in> L"
    and "\<And>s'. length s' \<le> length s + n \<Longrightarrow>
      prog_wf L (ret s') \<and> p_lock (ret s') = Some ReadLock \<and> p_await (ret s') = None \<and> \<not> p_leaving (ret s')"
  shows "prog_wf L (get_string_loop n s ret) \<and> p_lock (get_string_loop n s ret) = Some ReadLock \<and>
    p_await (get_string_loop n s ret) = None \<and> \<not> p_leaving (get_string_loop n s ret)"
  using assms(2)
proof (induction n arbitrary: s)
  case (Suc n)
  have "prog_wf L (get_string_loop n (s @ [c]) ret) \<and> p_lock (get_string_loop n (s @ [c]) ret) = Some ReadLock \<and>
      p_await (get_string_loop n (s @ [c]) ret) = None \<and> \<not> p_leaving (get_string_loop n (s @ [c]) ret)" for c
    by (rule Suc.IH) (rule Suc.prems, simp)
  moreover have "prog_wf L (ret (s @ [c])) \<and> p_lock (ret (s @ [c])) = Some ReadLock \<and> p_await (ret (s @ [c])) = None \<and>
      \<not> p_leaving (ret (s @ [c]))" for c
    by (rule Suc.prems) simp
  ultimately show ?case using assms(1) by (auto simp: wf_simps Let_def)
qed simp

lemma SynchGetString_wf:
  assumes "ReadLock \<in> L" "length st = n" "0 < n"
    and ret: "\<And>s'. n \<le> length s' \<Longrightarrow> free_wf L (ret s')"
  shows "free_wf L (SynchGetString n st ret)"
proof -
  let ?r = "\<lambda>s. seq (Op_Release ReadLock) (ret (s @ 0 # drop (length s + 1) st))"
  have "prog_wf L (?r s) \<and> p_lock (?r s) = Some ReadLock \<and> p_await (?r s) = None \<and> \<not> p_leaving (?r s)" if "length s \<le> n - 1" for s
    using ret [of "s @ 0 # drop (length s + 1) st"] that assms(1-3) by (auto simp: wf_simps)
  then show ?thesis
    using get_string_wf [OF assms(1), of "[]" "n - 1" ?r] assms(1) by (auto simp: SynchGetString_def wf_simps)
qed

lemma snprintf_d_zero: "0 \<in> set (snprintf_d n i st)"
  by (simp add: snprintf_d_def Let_def)

lemma syscall_wf:
  assumes L: "{ReadLock, WriteLock, ThreadLock} \<subseteq> L" and ret: "free_wf L ret"
  shows "free_wf L (syscall type ret)"
proof -
  have l: "ReadLock \<in> L" "WriteLock \<in> L" "ThreadLock \<in> L" using L by auto
  have ps: "free_wf L (SynchPutString s ret)" if "0 \<in> set s" for s by (rule SynchPutString_wf [OF l(2) ret that])
  have pc: "free_wf L (SynchPutChar ch ret)" for ch by (rule SynchPutChar_wf [OF l(2) ret])
  have gc: "free_wf L (SynchGetChar (\<lambda>c. seq (Op_WriteRegister 2 (f c)) ret))" for f
    by (rule SynchGetChar_wf [OF l(1)]) (use ret l in \<open>simp add: wf_simps\<close>)
  have gs: "free_wf L (SynchGetString 15 st (\<lambda>s. seq (Op_copyTo s a) ret))" if "length st = 15" for st a
    by (rule SynchGetString_wf [OF l(1) that]) (use ret l in \<open>simp_all add: wf_simps\<close>)
  have gi: "free_wf L (SynchGetString 15 st (\<lambda>s. Do Op_int_variable (\<lambda>n. seq (Op_WriteRegister 2 (f s n)) ret)))"
    if "length st = 15" for st and f :: "8 word list \<Rightarrow> uval \<Rightarrow> reg_word"
    by (rule SynchGetString_wf [OF l(1) that]) (use ret l in \<open>simp_all add: wf_simps\<close>)
  note all = ps pc gc gs gi ret
  show ?thesis
    using all [unfolded free_wf_def] l snprintf_d_zero unfolding syscall_def by (simp add: wf_simps)
qed

lemma ExceptionHandler_wf:
  assumes L: "{ReadLock, WriteLock, ThreadLock} \<subseteq> L" and ret: "free_wf L ret"
  shows "free_wf L (ExceptionHandler which ret)"
proof -
  have l: "ThreadLock \<in> L" using L by auto
  have "free_wf L (seq Op_UpdatePC ret)" using ret l by (simp add: wf_simps)
  note s = syscall_wf [OF L this]
  have a: "free_wf L (seq Op_abort ret)" using ret by (simp add: wf_simps)
  show ?thesis using s [unfolded free_wf_def] a [unfolded free_wf_def] l
    by (cases which) (simp_all add: ExceptionHandler_def op_ok_def free_wf_def)
qed

lemma RaiseException_wf:
  assumes L: "{ReadLock, WriteLock, ThreadLock} \<subseteq> L" and ret: "free_wf L ret"
  shows "free_wf L (RaiseException t st ret)"
proof -
  have "free_wf L (seq (Op_setStatus st) ret)" using ret by (simp add: wf_simps)
  from ExceptionHandler_wf [OF L this, of "fst t"] show ?thesis using L by (simp add: RaiseException_def wf_simps)
qed

lemma StartUserThread_wf: "ThreadLock \<in> L \<Longrightarrow> free_wf L (StartUserThread a)"
  by (simp add: StartUserThread_def wf_simps)

lemma SynchDisk_wf:
  assumes "DiskLock \<in> L" "0 \<le> n" "n < NumSectors"
  shows "(\<And>d. free_wf L (f d)) \<Longrightarrow> free_wf L (SynchDisk_ReadSector n f)"
    "length d = SectorSize \<Longrightarrow> free_wf L ret \<Longrightarrow> free_wf L (SynchDisk_WriteSector n d ret)"
  using assms by (auto simp: SynchDisk_ReadSector_def SynchDisk_WriteSector_def wf_simps)

lemma SimpleThread_wf: "free_wf L ret \<Longrightarrow> free_wf L (SimpleThread_loop n ret)"
  by (induction n) (auto simp: wf_simps)

lemma ThreadTest_wf: "ThreadLock \<notin> L \<Longrightarrow> free_wf L ret \<Longrightarrow> free_wf L (ThreadTest ret)"
  using SimpleThread_wf [of L _ 10, unfolded free_wf_def] by (simp add: ThreadTest_def SimpleThread_def free_wf_def)

end
