(* ===== verification/Nachos_UserSafe.thy ===== *)
theory Nachos_UserSafe
  imports Nachos_UserSys
begin

text \<open>
  The invariant of the system with user programs, kernel threads, console and disk (\<open>sys_inv\<close>), which every step
  keeps: the invariant of the kernel, the exclusion of locks and devices, the discipline of the code that each
  thread has still to execute, and the table of user threads. No step fails but in the ways that \<open>may_end\<close>
  lists.
\<close>

section \<open>Threads inside P\<close>

lemma thread_frames:
  assumes ok: "thread_ok c rl sems tbd t st ks" and w: "Waiting s l \<in> set ks"
  shows "l = IntOn \<and> (ks = [Waiting s IntOn] \<or> ks = [Sleeping, Waiting s IntOn] \<or> ks = [AfterSwitch, Waiting s IntOn])"
proof -
  have c: "fs = [Waiting s IntOn] \<and> l = IntOn" if "calm fs" "Waiting s l \<in> set fs" for fs
    using that by (auto simp: calm_def restore_frame_def)
  have r: "l = IntOn \<and> ks = [AfterSwitch, Waiting s IntOn]" if res: "resumable ks"
  proof -
    obtain fs where fs: "ks = AfterSwitch # fs" "returning fs" using res w by (auto simp: resumable_def)
    then show ?thesis using w c [OF returning_calm [OF fs(2)]] by simp
  qed
  show ?thesis using ok w c r by (cases st) (auto simp: thread_ok_def split: if_splits)
qed

lemma kinv_frames:
  assumes "kinv J [] k" "threads k t = Some th" "s \<in> frame_sems (kstack th)"
  shows "kstack th = [Waiting s IntOn] \<or> kstack th = [Sleeping, Waiting s IntOn] \<or> kstack th = [AfterSwitch, Waiting s IntOn]"
proof -
  have "tview_of [] k t = Some (tstatus th, kstack th)" using assms(2) by (simp add: tview_of_def)
  from tinvD(4) [OF kinvD(1) [OF assms(1)] this] show ?thesis
    using assms(3) thread_frames by (fastforce simp: frame_sems_def)
qed

lemma waits_one:
  assumes "kinv J [] k" "waits k s t" "waits k s' t"
  shows "s = s'"
proof -
  obtain th where th: "threads k t = Some th" "s \<in> frame_sems (kstack th)" "s' \<in> frame_sems (kstack th)"
    using assms(2,3) by (auto simp: waits_def split: option.splits)
  show ?thesis using kinv_frames [OF assms(1) th(1,2)] th(3) by auto
qed

lemma sval_nonneg: "kinv J [] k \<Longrightarrow> 0 \<le> sval k s"
  using tinvD(6) [OF kinvD(1), of J "[]" k s] by (auto simp: sval_def sem_ok_def split: option.splits)

section \<open>Steps of the kernel\<close>

lemma took_struct: "took_unit s k k1 \<Longrightarrow> struct_rel k k1"
proof -
  assume "took_unit s k k1"
  then obtain th l fs q where th: "threads k (currentThread k) = Some th" "semaphores k s = Some q"
    and k1: "k1 = put_sem s (q\<lparr>svalue := svalue q - 1\<rparr>) (put_thread (currentThread k) (th\<lparr>kstack := fs\<rparr>) k)"
    unfolding took_unit_def by blast
  show ?thesis unfolding k1 by (rule struct_trans [OF struct_put_thread [OF th(1)] struct_put_sem]) (use th in simp_all)
qed

lemma keeps_struct: "keeps k k' \<Longrightarrow> struct_rel k k'"
  unfolding keeps_def by (rule acct_relD(1))

lemma kstep_excl:
  assumes k: "kernel_ok dev_inv k" and i: "excl_inv L lk hold await k" and s: "kstep run_handler k = Inr k'"
  shows "excl_inv L lk hold await k' \<and> struct_rel k k'"
proof -
  have kv: "kinv dev_inv [] k" using k by (simp add: kernel_ok_def)
  consider "keeps k k'" | s k1 where "took_unit s k k1" "keeps k1 k'"
    using acct.kstep_R [OF s kinv_dying_quiet [OF kv]] by blast
  then show ?thesis
  proof cases
    case 1
    then show ?thesis using excl_keeps [OF i] keeps_struct by blast
  next
    case 2
    have "frame_sems (kstack th) = {s} \<and> frame_sems (tl (kstack th)) = {}" if "threads k (currentThread k) = Some th" for th
      using kinv_frames [OF kv that, of s] 2(1) that by (auto simp: took_unit_def)
    then have "excl_inv L lk hold await k1" by (rule excl_took [OF i 2(1)])
    then show ?thesis using excl_keeps 2(2) struct_trans [OF took_struct [OF 2(1)] keeps_struct [OF 2(2)]] by blast
  qed
qed

section \<open>The current thread outside the kernel\<close>

lemma user_thread:
  assumes k: "kernel_ok dev_inv k" and u: "in_user k"
  obtains th where "threads k (currentThread k) = Some th" "kstack th = []" "tstatus th = RUNNING" "level k = IntOn"
    "threadToBeDestroyed k = None" "\<And>s. \<not> waits k s (currentThread k)"
proof -
  have inv: "kinv dev_inv [] k" and lv: "linv k" using k by (simp_all add: kernel_ok_def)
  obtain th where th: "threads k (currentThread k) = Some th" "kstack th = []"
    using u by (auto simp: in_user_def split: option.splits)
  have r: "tstatus th = RUNNING"
    using tinvD(4) [OF kinvD(1) [OF inv], of "currentThread k" "tstatus th" "[]"] th
    by (cases "tstatus th") (auto simp: tview_of_def thread_ok_def)
  have "threadToBeDestroyed k = None" by (rule calm_tbd [OF inv th(1) r]) (simp add: th)
  moreover have "level k = IntOn" using lv th by (simp add: linv_def)
  moreover have "\<not> waits k s (currentThread k)" for s using th by (simp add: waits_def)
  ultimately show ?thesis using that th r by blast
qed

lemma call_succeeds:
  assumes "kernel_ok dev_inv k" "in_user k" "call_ok c k"
  obtains k' where "do_call run_handler c k = Inr k'" "kernel_ok dev_inv k'"
  using nachos.do_call_ok [OF assms] no_handler_failure by (cases "do_call run_handler c k") auto

lemma enter_P:
  assumes k: "kernel_ok dev_inv k" and u: "in_user k" and s: "semaphores k s \<noteq> None"
  obtains k' where "P s k = Inr k'" "kernel_ok dev_inv k'" "struct_rel k k'" "kernel.more k' = kernel.more k"
    "\<And>x t. waits k' x t \<longleftrightarrow> waits k x t \<or> t = currentThread k \<and> x = s" "\<And>x. sval k' x = sval k x" "\<And>h. pend h k' = pend h k"
proof -
  let ?c = "currentThread k"
  obtain th where th: "threads k ?c = Some th" "kstack th = []" "level k = IntOn" by (rule user_thread [OF k u])
  let ?k = "put_thread ?c (th\<lparr>kstack := [Waiting s IntOn]\<rparr>) (k\<lparr>level := IntOff\<rparr>)"
  have p: "P s k = Inr ?k" using th push_frame_eq [of "k\<lparr>level := IntOff\<rparr>" th] by (simp add: P_def)
  moreover obtain k' where "do_call run_handler (Call_P s) k = Inr k'" "kernel_ok dev_inv k'"
    by (rule call_succeeds [OF k u, of "Call_P s"]) (use s in auto)
  then have "kernel_ok dev_inv ?k" using p by simp
  moreover have "struct_rel k ?k"
    by (rule struct_trans [OF struct_same struct_put_thread [of _ _ th]]) (use th in simp_all)
  ultimately show ?thesis using that [of ?k] th by (auto simp: waits_def sval_def pend_def)
qed

lemma do_V:
  assumes k: "kernel_ok dev_inv k" and u: "in_user k" and s: "semaphores k s \<noteq> None"
  obtains k1 k' where "V run_handler s k = Inr k'" "kernel_ok dev_inv k'" "V_atomic s (k\<lparr>level := IntOff\<rparr>) = Inr k1" "keeps k1 k'"
    "struct_rel k k'"
proof -
  obtain th where th: "level k = IntOn" by (rule user_thread [OF k u])
  obtain k' where k': "V run_handler s k = Inr k'" "kernel_ok dev_inv k'"
    using call_succeeds [OF k u, of "Call_V s"] s by auto
  obtain k1 where k1: "V_atomic s (k\<lparr>level := IntOff\<rparr>) = Inr k1" "SetLevel run_handler IntOn k1 = Inr k'"
    using k'(1) th by (auto simp: V_def res_simps)
  have kp: "keeps k1 k'" by (rule acct.SetLevel_R [OF k1(2)])
  have "struct_rel k (k\<lparr>level := IntOff\<rparr>)" by (rule struct_same) simp_all
  then have "struct_rel k k'" using V_atomic_struct [OF k1(1)] keeps_struct [OF kp] struct_trans by blast
  then show ?thesis using that k' k1 kp by blast
qed

section \<open>Operations\<close>

definition lock_id :: "usys \<Rightarrow> lock_name \<Rightarrow> semid" where
  "lock_id u l = (case lock_of l u of Inl e \<Rightarrow> 0 | Inr s \<Rightarrow> s)"

definition locks_ok :: "lock_name set \<Rightarrow> usys \<Rightarrow> bool" where
  "locks_ok L u \<longleftrightarrow> (\<forall>l \<in> L. lock_of l u = Inr (lock_id u l) \<and> semaphores (kern u) (lock_id u l) \<noteq> None)"

text \<open>How an operation may end the simulation.\<close>

fun may_fail :: "uop \<Rightarrow> nachos_error \<Rightarrow> bool" where
  "may_fail (Op_copyFrom a) e = (e = AssertionFailed \<or> e = OutOfBounds)"
| "may_fail (Op_copyTo s a) e = (e = AssertionFailed)"
| "may_fail Op_leave e = (e = MachineHalted)"
| "may_fail Op_Halt e = (e = MachineHalted)"
| "may_fail (Op_Exit n) e = (e = MachineHalted)"
| "may_fail Op_abort e = (e = AssertionFailed)"
| "may_fail _ e = False"

text \<open>The operations that do not change the table of user threads.\<close>

definition plain :: "uop \<Rightarrow> bool" where
  "plain c \<longleftrightarrow> c \<noteq> Op_exit_thread \<and> c \<noteq> Op_leave \<and> (\<forall>f arg f_exit. c \<noteq> Op_create_thread f arg f_exit)"

definition op_pre :: "lock_name set \<Rightarrow> (tid \<Rightarrow> lock_name option) \<Rightarrow> (tid \<Rightarrow> int_handler option) \<Rightarrow> uop \<Rightarrow> usys \<Rightarrow> bool" where
  "op_pre L hold await c u \<longleftrightarrow> kernel_ok dev_inv (kern u) \<and> in_user (kern u) \<and> locks_ok L u \<and>
     excl_inv L (lock_id u) hold await (kern u) \<and> hold (currentThread (kern u)) = inside c \<and>
     await (currentThread (kern u)) = awaits c \<and> op_ok L c \<and> (ThreadLock \<in> L \<longrightarrow> (\<exists>a. mach_ok a (kern u)))"

definition op_post ::
  "lock_name set \<Rightarrow> (lock_name \<Rightarrow> semid) \<Rightarrow> (tid \<Rightarrow> lock_name option) \<Rightarrow> (tid \<Rightarrow> int_handler option) \<Rightarrow> uop \<Rightarrow>
   nachos \<Rightarrow> nachos \<Rightarrow> bool" where
  "op_post L lk hold await c k k' \<longleftrightarrow> kernel_ok dev_inv k' \<and> struct_rel k k' \<and>
     excl_inv L lk (hold(currentThread k := lock_after c)) (await(currentThread k := requests c)) k'"

definition op_result ::
  "lock_name set \<Rightarrow> (tid \<Rightarrow> lock_name option) \<Rightarrow> (tid \<Rightarrow> int_handler option) \<Rightarrow> uop \<Rightarrow> usys \<Rightarrow> (uval \<times> usys) res \<Rightarrow> bool" where
  "op_result L hold await c u r \<longleftrightarrow>
     (case r of
        Inl e \<Rightarrow> may_fail c e
      | Inr (v, u') \<Rightarrow> result_ok c v \<and> (\<exists>k'. u' = u\<lparr>kern := k'\<rparr> \<and> op_post L (lock_id u) hold await c (kern u) k'))"

lemma op_preD:
  assumes "op_pre L hold await c u"
  shows "kernel_ok dev_inv (kern u)" "in_user (kern u)" "locks_ok L u" "excl_inv L (lock_id u) hold await (kern u)"
    "hold (currentThread (kern u)) = inside c" "await (currentThread (kern u)) = awaits c" "op_ok L c"
    "ThreadLock \<in> L \<Longrightarrow> \<exists>a. mach_ok a (kern u)" "kinv dev_inv [] (kern u)" "\<And>s. \<not> waits (kern u) s (currentThread (kern u))"
  using assms user_thread [of "kern u"] unfolding op_pre_def by (auto simp: kernel_ok_def)

lemma locks_okD: "locks_ok L u \<Longrightarrow> l \<in> L \<Longrightarrow> lock_of l u = Inr (lock_id u l)" "locks_ok L u \<Longrightarrow> l \<in> L \<Longrightarrow> semaphores (kern u) (lock_id u l) \<noteq> None"
  by (simp_all add: locks_ok_def)

lemma on_kernel_result:
  "f (kern u) = Inr k' \<Longrightarrow> op_post L (lock_id u) hold await c (kern u) k' \<Longrightarrow> result_ok c (0, []) \<Longrightarrow> op_result L hold await c u (on_kernel f u)"
  by (auto simp: op_result_def on_kernel_def)

lemma keeps_post:
  assumes "op_pre L hold await c u" "keeps (kern u) k'" "kernel_ok dev_inv k'"
    "requests c = None" "awaits c = None" "lock_after c = inside c"
  shows "op_post L (lock_id u) hold await c (kern u) k'"
proof -
  note d = op_preD [OF assms(1)]
  have "hold(currentThread (kern u) := lock_after c) = hold" "await(currentThread (kern u) := requests c) = await"
    using d(5,6) assms(4-6) by (auto intro!: fun_upd_idem)
  then show ?thesis using excl_keeps [OF d(4) assms(2)] keeps_struct [OF assms(2)] assms(3) by (simp add: op_post_def)
qed

text \<open>P, on a lock or on the semaphore of a device.\<close>

lemma P_post:
  assumes p: "op_pre L hold await c u" and s: "semaphores (kern u) s \<noteq> None" and r: "requests c = None"
    and lock: "\<And>l. l \<in> L \<Longrightarrow> lock_id u l = s \<longleftrightarrow> lock_after c = Some l \<and> inside c = None"
    and old: "inside c = None \<or> lock_after c = inside c"
    and dev: "\<And>h ds. dev_sem h (kernel.more (kern u)) = Some ds \<Longrightarrow> ds = s \<longleftrightarrow> awaits c = Some h"
  shows "\<exists>k'. P s (kern u) = Inr k' \<and> op_post L (lock_id u) hold await c (kern u) k'"
proof -
  note d = op_preD [OF p]
  let ?c = "currentThread (kern u)"
  obtain k' where k': "P s (kern u) = Inr k'" "kernel_ok dev_inv k'" "struct_rel (kern u) k'" "kernel.more k' = kernel.more (kern u)"
    "\<And>x t. waits k' x t \<longleftrightarrow> waits (kern u) x t \<or> t = ?c \<and> x = s" "\<And>x. sval k' x = sval (kern u) x" "\<And>h. pend h k' = pend h (kern u)"
    by (rule enter_P [OF d(1,2) s]) blast
  have "excl_inv L (lock_id u) (hold(?c := lock_after c)) (await(?c := requests c)) k'"
  proof (rule excl_enter_P [OF d(4) d(10) k'(5,4,6,7)])
    show "(hold(?c := lock_after c)) ?c = Some l \<Longrightarrow> l \<in> L" for l using d(7) by (auto simp: op_ok_def)
  qed (use lock old dev d(5,6) r in auto)
  then show ?thesis using k' by (auto simp: op_post_def)
qed

lemma Acquire_result:
  assumes p: "op_pre L hold await (Op_Acquire l) u"
  shows "op_result L hold await (Op_Acquire l) u (do_op big h (Op_Acquire l) u)"
proof -
  note d = op_preD [OF p] and e = excl_invD [OF op_preD(4) [OF p]]
  have l: "l \<in> L" using d(7) by (simp add: op_ok_def)
  note lk = locks_okD [OF d(3) l]
  have "\<exists>k'. P (lock_id u l) (kern u) = Inr k' \<and> op_post L (lock_id u) hold await (Op_Acquire l) (kern u) k'"
  proof (rule P_post [OF p lk(2)])
    show "x \<in> L \<Longrightarrow> lock_id u x = lock_id u l \<longleftrightarrow> lock_after (Op_Acquire l) = Some x \<and> inside (Op_Acquire l) = None" for x
      using inj_onD [OF e(2)] l by auto
    show "ds = lock_id u l \<longleftrightarrow> awaits (Op_Acquire l) = Some x" if "dev_sem x (kernel.more (kern u)) = Some ds" for x ds
      using e(3) [OF l] dev_sem_in(1) [OF that] by auto
  qed simp_all
  then show ?thesis using lk(1) on_kernel_result [of "Acquire (lock_id u l)"] by (auto simp: Acquire_def)
qed

lemma device_sems:
  assumes "kernel_ok dev_inv k" "sem_of s (kernel.more k) = Inr x"
  shows "semaphores k x \<noteq> None" "x \<in> dev_sems (kernel.more k)"
proof -
  have "dev_inv None (dom (semaphores k)) (kernel.more k)" using assms(1) kinv_dev [of "[]" k] by (simp add: kernel_ok_def)
  then show "semaphores k x \<noteq> None" "x \<in> dev_sems (kernel.more k)"
    using assms(2) by (cases s; auto simp: dev_sems_def split: option.splits)+
qed

lemma P_result:
  assumes p: "op_pre L hold await (Op_P s) u"
  shows "op_result L hold await (Op_P s) u (do_op big h (Op_P s) u)"
proof -
  note d = op_preD [OF p] and e = excl_invD [OF op_preD(4) [OF p]]
  let ?d = "kernel.more (kern u)"
  have "s = Disk_sem \<Longrightarrow> DiskLock \<in> L" using d(7) by (simp add: op_ok_def)
  then have "synchDisk ?d \<noteq> None" if "s = Disk_sem" using locks_okD(1) [OF d(3), of DiskLock] that by (auto split: option.splits)
  then obtain x where x: "sem_of s ?d = Inr x" by (cases s) auto
  note xs = device_sems [OF d(1) x]
  have l: "inside (Op_P s) \<noteq> None" "lock_after (Op_P s) = inside (Op_P s)" by (cases s; simp)+
  have "\<exists>k'. P x (kern u) = Inr k' \<and> op_post L (lock_id u) hold await (Op_P s) (kern u) k'"
  proof (rule P_post [OF p xs(1)])
    show "l \<in> L \<Longrightarrow> lock_id u l = x \<longleftrightarrow> lock_after (Op_P s) = Some l \<and> inside (Op_P s) = None" for l
      using e(3) [of l] xs(2) l by auto
    show "ds = x \<longleftrightarrow> awaits (Op_P s) = Some y" if "dev_sem y ?d = Some ds" for y ds
      using that x e(1) by (cases s; cases y) (auto simp: sems_distinct_def split: option.splits)
  qed (use l in simp_all)
  then show ?thesis using x on_kernel_result [of "P x"] by auto
qed

lemma Release_result:
  assumes p: "op_pre L hold await (Op_Release l) u"
  shows "op_result L hold await (Op_Release l) u (do_op big h (Op_Release l) u)"
proof -
  note d = op_preD [OF p] and e = excl_invD [OF op_preD(4) [OF p]]
  let ?c = "currentThread (kern u)"
  have l: "l \<in> L" using d(7) by (simp add: op_ok_def)
  note lk = locks_okD [OF d(3) l]
  obtain k1 k' where k': "V run_handler (lock_id u l) (kern u) = Inr k'" "kernel_ok dev_inv k'"
    "V_atomic (lock_id u l) ((kern u)\<lparr>level := IntOff\<rparr>) = Inr k1" "keeps k1 k'" "struct_rel (kern u) k'"
    by (rule do_V [OF d(1,2) lk(2)])
  note v = V_atomic_effect [OF k'(3)]
  have "excl_inv L (lock_id u) (hold(?c := None)) await k1"
    by (rule excl_release [OF d(4,10)]) (use d(5,6) v(1-4) in \<open>simp_all add: waits_def sval_def pend_def\<close>)
  then have "excl_inv L (lock_id u) (hold(?c := None)) await k'" by (rule excl_keeps [OF _ k'(4)])
  moreover have "await(?c := None) = await" by (rule fun_upd_idem) (use d(6) in simp)
  ultimately have "op_post L (lock_id u) hold await (Op_Release l) (kern u) k'" using k' by (simp add: op_post_def)
  then show ?thesis using lk(1) k'(1) on_kernel_result [of "Release run_handler (lock_id u l)"] by (auto simp: Release_def)
qed

text \<open>Requests on the console and on the disk.\<close>

lemma device_idle:
  assumes p: "op_pre L hold await c u" and h: "inside c = Some (dev_lock x)" "awaits c = None"
    and s: "dev_sem x (kernel.more (kern u)) = Some ds"
  shows "\<not> dev_busy x (kernel.more (kern u))"
proof -
  note d = op_preD [OF p]
  show ?thesis
    by (rule excl_idle [OF d(4,10) _ _ s sval_nonneg [OF d(9)] waits_one [OF d(9)]]) (use d(5,6) h in simp_all)
qed

lemma request_post:
  assumes p: "op_pre L hold await c u" and c: "requests c = Some x" "inside c = Some (dev_lock x)" "lock_after c = inside c" "awaits c = None"
    and s: "dev_sem x (kernel.more (kern u)) = Some ds" and ok: "kernel_ok dev_inv k'"
    and k1: "threads k1 = threads (kern u)" "semaphores k1 = semaphores (kern u)" "pending k1 = pending (kern u)"
      "cpu k1 = cpu (kern u)" "spaces k1 = spaces (kern u)" "threadToBeDestroyed k1 = threadToBeDestroyed (kern u)"
      "dev_names (kernel.more k1) = dev_names (kernel.more (kern u))"
      "\<And>y. dev_busy y (kernel.more k1) \<longleftrightarrow> dev_busy y (kernel.more (kern u)) \<or> y = x"
    and sch: "Schedule x n ty k1 = Inr k'"
  shows "op_post L (lock_id u) hold await c (kern u) k'"
proof -
  note d = op_preD [OF p]
  let ?c = "currentThread (kern u)"
  have k': "threads k' = threads k1" "semaphores k' = semaphores k1" "kernel.more k' = kernel.more k1"
    using sch by (auto simp: Schedule_def Let_def res_simps)
  have pend: "pend y k' = pend y k1 + of_bool (y = x)" for y
    using sch by (auto simp: Schedule_def Let_def res_simps pend_insert PendingInterrupt_new_def)
  have "struct_rel k1 k'" by (rule acct_relD(1) [OF Schedule_acct [OF sch, of "\<lambda>y. 0 - of_bool (y = x)" "\<lambda>_. 0"]]) simp
  moreover have "struct_rel (kern u) k1" by (rule struct_same) (use k1 in simp_all)
  ultimately have st: "struct_rel (kern u) k'" by (rule_tac struct_trans)
  have "excl_inv L (lock_id u) hold (await(?c := Some x)) k'"
  proof (rule excl_request [OF d(4,10)])
    show "hold ?c = Some (dev_lock x)" "await ?c = None" using d(5,6) c by simp_all
    show "x = ConsoleWriteDone \<or> x = DiskDone" by (rule dev_sem_in(2) [OF s])
    show "\<not> dev_busy x (kernel.more (kern u))" by (rule device_idle [OF p c(2,4) s])
  qed (use k' k1 pend in \<open>simp_all add: waits_def sval_def pend_def [of _ k1] pend_def [of _ "kern u"]\<close>)
  moreover have "hold(?c := lock_after c) = hold" by (rule fun_upd_idem) (use d(5) c(3) in simp)
  ultimately show ?thesis using ok st c(1) by (simp add: op_post_def)
qed

lemma PutChar_result:
  assumes p: "op_pre L hold await (Op_PutChar ch) u"
  shows "op_result L hold await (Op_PutChar ch) u (do_op big h (Op_PutChar ch) u)"
proof -
  note d = op_preD [OF p]
  let ?k = "kern u"
  have "WriteLock \<in> L" using d(7) by (simp add: op_ok_def)
  then obtain con where con: "console (kernel.more ?k) = Some con" using locks_okD(1) [OF d(3), of WriteLock] by (auto split: if_splits)
  have s: "dev_sem ConsoleWriteDone (kernel.more ?k) = Some (writeDone (kernel.more ?k))" by simp
  have "\<not> putBusy con" using device_idle [OF p _ _ s] con by simp
  then obtain k' where k': "PutChar ch ?k = Inr k'" "kernel_ok dev_inv k'"
    using do_dcall_ok [OF d(1), of "D_PutChar ch"] con by auto
  let ?k1 = "set_console (con\<lparr>display := display con @ encode_char (utf8 con) ch, putBusy := True\<rparr>) ?k"
  have sch: "Schedule ConsoleWriteDone 100 ConsoleWriteInt ?k1 = Inr k'"
    using k'(1) con by (auto simp: PutChar_def ASSERT_def split: if_splits)
  have b: "dev_busy y (kernel.more ?k1) \<longleftrightarrow> dev_busy y (kernel.more ?k) \<or> y = ConsoleWriteDone" for y
    by (cases y) (simp_all add: set_console_def)
  have "op_post L (lock_id u) hold await (Op_PutChar ch) ?k k'"
    by (rule request_post [OF p _ _ _ _ s k'(2) _ _ _ _ _ _ _ b sch]) (use con in \<open>simp_all add: set_console_def dev_names_def\<close>)
  then show ?thesis using k'(1) on_kernel_result [of "PutChar ch"] by simp
qed

lemma disk_post:
  assumes p: "op_pre L hold await c u"
    and c: "requests c = Some DiskDone" "inside c = Some DiskLock" "lock_after c = inside c" "awaits c = None"
    and sd: "synchDisk (kernel.more (kern u)) = Some sd" and ok: "kernel_ok dev_inv k'"
    and f: "f = count_read \<or> f = count_write" and a: "active disk1"
    and sch: "Schedule DiskDone n ty (f (set_disk disk1 (kern u))) = Inr k'"
  shows "op_post L (lock_id u) hold await c (kern u) k'"
proof -
  let ?k1 = "f (set_disk disk1 (kern u))"
  have b: "dev_busy y (kernel.more ?k1) \<longleftrightarrow> dev_busy y (kernel.more (kern u)) \<or> y = DiskDone" for y
    using f sd a by (cases y) (auto simp: set_disk_def count_read_def count_write_def)
  show ?thesis
    by (rule request_post [OF p c(1) _ c(3,4) _ ok _ _ _ _ _ _ _ b sch])
       (use f sd c(2) in \<open>auto simp: set_disk_def count_read_def count_write_def dev_names_def\<close>)
qed

lemma disk_present:
  assumes "op_pre L hold await c u" "inside c = Some DiskLock" "awaits c = None"
  obtains sd where "synchDisk (kernel.more (kern u)) = Some sd" "\<not> active (disk sd)"
proof -
  note d = op_preD [OF assms(1)]
  have "DiskLock \<in> L" using d(7) assms(2) by (simp add: op_ok_def)
  then obtain sd where sd: "synchDisk (kernel.more (kern u)) = Some sd" using locks_okD(1) [OF d(3), of DiskLock] by (auto split: option.splits)
  then show ?thesis using that device_idle [OF assms(1), of DiskDone "disk_sem sd"] assms(2,3) by simp
qed

lemma UpdateLast_active: "active (UpdateLast t s d) = active d"
  by (auto simp: UpdateLast_def Let_def split: prod.splits)

lemma ReadRequest_result:
  assumes p: "op_pre L hold await (Op_ReadRequest n) u"
  shows "op_result L hold await (Op_ReadRequest n) u (do_op big h (Op_ReadRequest n) u)"
proof -
  note d = op_preD [OF p]
  obtain sd where sd: "synchDisk (kernel.more (kern u)) = Some sd" "\<not> active (disk sd)" by (rule disk_present [OF p]) simp_all
  have n: "0 \<le> n" "n < NumSectors" using d(7) by (simp_all add: op_ok_def)
  obtain k' where k': "map_sum id snd (ReadRequest n (kern u)) = Inr k'" "kernel_ok dev_inv k'"
    using do_dcall_ok [OF d(1), of "D_ReadRequest n"] sd n by auto
  then obtain data where r: "ReadRequest n (kern u) = Inr (data, k')" by (cases "ReadRequest n (kern u)") auto
  then obtain ticks where "Schedule DiskDone ticks DiskInt
      (count_read (set_disk (UpdateLast (now (kern u)) n ((disk sd)\<lparr>active := True\<rparr>)) (kern u))) = Inr k'"
    using sd by (auto simp: ReadRequest_def Let_def res_simps)
  then have "op_post L (lock_id u) hold await (Op_ReadRequest n) (kern u) k'"
    by (rule_tac disk_post [OF p _ _ _ _ sd(1) k'(2)]) (simp_all add: UpdateLast_active)
  then show ?thesis using r by (auto simp: op_result_def)
qed

lemma WriteRequest_result:
  assumes p: "op_pre L hold await (Op_WriteRequest n data) u"
  shows "op_result L hold await (Op_WriteRequest n data) u (do_op big h (Op_WriteRequest n data) u)"
proof -
  note d = op_preD [OF p]
  obtain sd where sd: "synchDisk (kernel.more (kern u)) = Some sd" "\<not> active (disk sd)" by (rule disk_present [OF p]) simp_all
  have n: "0 \<le> n" "n < NumSectors" "length data = SectorSize" using d(7) by (simp_all add: op_ok_def)
  obtain k' where k': "WriteRequest n data (kern u) = Inr k'" "kernel_ok dev_inv k'"
    using do_dcall_ok [OF d(1), of "D_WriteRequest n data"] sd n by auto
  then obtain ticks where "Schedule DiskDone ticks DiskInt
      (count_write (set_disk (UpdateLast (now (kern u)) n ((transfer_out n data (disk sd))\<lparr>active := True\<rparr>)) (kern u))) = Inr k'"
    using sd by (auto simp: WriteRequest_def Let_def res_simps)
  then have "op_post L (lock_id u) hold await (Op_WriteRequest n data) (kern u) k'"
    by (rule_tac disk_post [OF p _ _ _ _ sd(1) k'(2)]) (simp_all add: UpdateLast_active)
  then show ?thesis using k'(1) on_kernel_result [of "WriteRequest n data"] by simp
qed

lemma GetChar_result:
  assumes p: "op_pre L hold await Op_GetChar u"
  shows "op_result L hold await Op_GetChar u (do_op big h Op_GetChar u)"
proof -
  note d = op_preD [OF p]
  have "ReadLock \<in> L" using d(7) by (simp add: op_ok_def)
  then obtain con where con: "console (kernel.more (kern u)) = Some con" using locks_okD(1) [OF d(3), of ReadLock] by (auto split: if_splits)
  let ?k = "set_console (con\<lparr>incoming := EOF\<rparr>) (kern u)"
  have "kernel_ok dev_inv ?k" using do_dcall_ok [OF d(1), of D_GetChar] con by (auto simp: GetChar_def)
  moreover have "keeps (kern u) ?k" by (rule set_console_keeps [OF con]) simp
  ultimately have "op_post L (lock_id u) hold await Op_GetChar (kern u) ?k" by (intro keeps_post [OF p]) simp_all
  then show ?thesis using con by (auto simp: op_result_def GetChar_def)
qed

lemma call_result:
  assumes p: "op_pre L hold await c u" and c: "call_ok call (kern u)" "requests c = None" "awaits c = None" "lock_after c = inside c" "result_ok c (0, [])"
    and r: "do_call run_handler call = f" "\<And>k'. f (kern u) = Inr k' \<Longrightarrow> keeps (kern u) k'"
  shows "op_result L hold await c u (on_kernel f u)"
proof -
  note d = op_preD [OF p]
  obtain k' where k': "do_call run_handler call (kern u) = Inr k'" "kernel_ok dev_inv k'" by (rule call_succeeds [OF d(1,2) c(1)])
  then have "f (kern u) = Inr k'" using r(1) by simp
  moreover have "op_post L (lock_id u) hold await c (kern u) k'" by (rule keeps_post [OF p r(2) k'(2) c(2-4)]) fact
  ultimately show ?thesis using on_kernel_result c(5) by blast
qed

lemma Yield_result:
  assumes "op_pre L hold await Op_Yield u"
  shows "op_result L hold await Op_Yield u (do_op big h Op_Yield u)"
  unfolding do_op.simps by (rule call_result [OF assms, of Call_Yield]) (auto simp: fun_eq_iff intro: acct.Yield_R)

lemma OneTick_result:
  assumes "op_pre L hold await Op_OneTick u"
  shows "op_result L hold await Op_OneTick u (do_op big h Op_OneTick u)"
  unfolding do_op.simps by (rule call_result [OF assms, of Call_Tick]) (auto simp: fun_eq_iff intro: acct.OneTick_R)

text \<open>Operations on the processor.\<close>

definition user_machine :: "machine \<Rightarrow> bool" where
  "user_machine m \<longleftrightarrow> machine_wf m \<and> translation_ready m \<and> tlb m = None \<and> pageTableSize m \<le> NumPhysPages \<and> regs_ok (registers m)"

definition mach_keeps :: "machine \<Rightarrow> machine \<Rightarrow> bool" where
  "mach_keeps m m' \<longleftrightarrow> machine_wf m' \<and> same_translation m m' \<and> regs_ok (registers m')"

lemma user_cpu:
  assumes "kernel_ok dev_inv k" "mach_ok a k"
  obtains m sp th where "cpu k = Some m" "user_machine m" "threads k (currentThread k) = Some th" "space th = Some a" "spaces k a = Some sp"
proof -
  obtain m sp pt where m: "cpu k = Some m" "spaces k a = Some sp" "tlb m = None" "pageTable m = Some (asPageTable sp)"
      "pageTableSize m = numPages sp" "ptables m (asPageTable sp) = Some pt" "numPages sp \<le> length pt" "numPages sp \<le> NumPhysPages"
    and t: "\<forall>t th. threads k t = Some th \<longrightarrow> space th = Some a"
    using assms(2) by (auto simp: mach_ok_def)
  have kv: "kinv dev_inv [] k" using assms(1) by (simp add: kernel_ok_def)
  have r: "regs_ok (registers m)" using kinvD(2) [OF kv] m(1) by (simp add: cpu_inv_def)
  then have "user_machine m" using m by (simp add: user_machine_def machine_wf_def translation_ready_def regs_ok_def)
  moreover obtain th where "threads k (currentThread k) = Some th" using kinv_current [OF kv] by blast
  ultimately show ?thesis using that m(1,2) t by blast
qed

lemma linv_cpu_status [simp]: "linv (k\<lparr>cpu := x\<rparr>) = linv k" "linv (k\<lparr>status := y\<rparr>) = linv k"
  unfolding linv_def by (simp_all cong: list.case_cong frame.case_cong)

lemma set_cpu_ok:
  assumes k: "kernel_ok dev_inv k" "cpu k = Some m" and m: "mach_keeps m m'"
  shows "kernel_ok dev_inv (k\<lparr>cpu := Some m'\<rparr>)" "keeps k (k\<lparr>cpu := Some m'\<rparr>)"
proof -
  have "kinv dev_inv [] k" "linv k" using k(1) by (simp_all add: kernel_ok_def)
  then show "kernel_ok dev_inv (k\<lparr>cpu := Some m'\<rparr>)"
    using k(2) m by (simp add: kernel_ok_def kinv_def cpu_inv_def mach_keeps_def)
  have p: "\<exists>pt. ptables m' p = Some pt \<and> n \<le> length pt" if "pageTable m = Some p" "pageTableSize m = n" for p n
    using m that by (auto simp: mach_keeps_def same_translation_def machine_wf_def)
  have "mach_ok a (k\<lparr>cpu := Some m'\<rparr>)" if "mach_ok a k" for a
    using that k(2) m p by (auto simp: mach_ok_def mach_keeps_def same_translation_def)
  then show "keeps k (k\<lparr>cpu := Some m'\<rparr>)"
    unfolding keeps_def by (intro acct_frame struct_relI) (simp_all add: waits_def sval_def pend_def)
qed

lemma user_machineD:
  assumes "user_machine m"
  shows "machine_wf m" "translation_ready m" "tlb m = None" "pageTableSize m \<le> NumPhysPages" "unat (registers m ! LoadReg) < NumGPRegs"
    "regs_ok (registers m)" "mach_keeps m m"
  using assms by (auto simp: user_machine_def mach_keeps_def regs_ok_def)

lemma on_machine_result:
  assumes p: "op_pre L hold await c u" and L: "ThreadLock \<in> L"
    and c: "requests c = None" "awaits c = None" "lock_after c = inside c"
    and f: "\<And>m. user_machine m \<Longrightarrow> case f m of Inl e \<Rightarrow> may_fail c e | Inr (v, m') \<Rightarrow> result_ok c v \<and> mach_keeps m m'"
  shows "op_result L hold await c u (on_machine f u)"
proof -
  note d = op_preD [OF p]
  obtain a where "mach_ok a (kern u)" using d(8) L by blast
  then obtain m where m: "cpu (kern u) = Some m" "user_machine m" by (rule user_cpu [OF d(1)])
  show ?thesis
  proof (cases "f m")
    case (Inl e)
    then show ?thesis using f [OF m(2)] m(1) by (simp add: op_result_def on_machine_def)
  next
    case (Inr r)
    obtain v m' where r: "r = (v, m')" by fastforce
    then have m': "result_ok c v" "mach_keeps m m'" using f [OF m(2)] Inr by simp_all
    have "op_post L (lock_id u) hold await c (kern u) ((kern u)\<lparr>cpu := Some m'\<rparr>)"
      by (rule keeps_post [OF p set_cpu_ok(2,1) [OF d(1) m(1) m'(2)] c])
    then show ?thesis using Inr r m m' by (auto simp: op_result_def on_machine_def)
  qed
qed

lemma WriteRegister_keeps:
  assumes "mach_keeps m0 m" "0 \<le> r" "r < int NumTotalRegs" "nat r = LoadReg \<Longrightarrow> unat v < NumGPRegs"
  shows "\<exists>m'. WriteRegister r v m = Inr m' \<and> mach_keeps m0 m'"
  using assms by (auto simp: WriteRegister_def mach_keeps_def machine_wf_def regs_ok_def nth_list_update)

lemma ReadRegister_ok: "0 \<le> r \<Longrightarrow> r < int NumTotalRegs \<Longrightarrow> ReadRegister r m = Inr (registers m ! nat r)"
  by (simp add: ReadRegister_def)

lemma clear_registers_keeps:
  "mach_keeps m0 m \<Longrightarrow> \<forall>r \<in> set ns. 0 \<le> r \<and> r < int NumTotalRegs \<Longrightarrow> \<exists>m'. clear_registers ns m = Inr m' \<and> mach_keeps m0 m'"
proof (induction ns arbitrary: m)
  case (Cons r ns)
  obtain m1 where "WriteRegister r 0 m = Inr m1" "mach_keeps m0 m1" using WriteRegister_keeps [OF Cons.prems(1), of r 0] Cons.prems(2) by auto
  then show ?case using Cons.IH [of m1] Cons.prems(2) by auto
qed simp

lemma UpdatePC_keeps:
  assumes "user_machine m"
  shows "\<exists>m'. UpdatePC m = Inr m' \<and> mach_keeps m m'"
proof -
  obtain m1 where m1: "WriteRegister (int PrevPCReg) (registers m ! PCReg) m = Inr m1" "mach_keeps m m1"
    using WriteRegister_keeps [OF user_machineD(7) [OF assms], of "int PrevPCReg"] by auto
  obtain m2 where m2: "WriteRegister (int PCReg) (registers m1 ! NextPCReg) m1 = Inr m2" "mach_keeps m m2"
    using WriteRegister_keeps [OF m1(2), of "int PCReg"] by auto
  obtain m3 where m3: "WriteRegister (int NextPCReg) (registers m1 ! NextPCReg + 4) m2 = Inr m3" "mach_keeps m m3"
    using WriteRegister_keeps [OF m2(2), of "int NextPCReg"] by auto
  show ?thesis using m1 m2 m3 by (simp add: UpdatePC_def ReadRegister_ok)
qed

lemma raise_registers_keeps:
  assumes "user_machine m"
  shows "\<exists>m'. raise_registers t m = Inr m' \<and> mach_keeps m m'"
  using user_machineD [OF assms] unfolding raise_registers_def DelayedLoad_def
  by (auto simp: Let_def mach_keeps_def machine_wf_def regs_ok_def nth_list_update)

lemma init_registers_keeps:
  assumes "user_machine m"
  shows "\<exists>m'. init_registers pages a m = Inr m' \<and> mach_keeps m m'"
proof -
  obtain f arg f_exit idx where a: "a = (f, arg, f_exit, idx)" by (cases a)
  have w: "\<exists>m'. WriteRegister r v m1 = Inr m' \<and> mach_keeps m m'" if "mach_keeps m m1" "0 \<le> r" "r < 37" for r v m1
    using WriteRegister_keeps [OF that(1)] that by auto
  obtain m0 where m0: "clear_registers [0..int NumTotalRegs - 1] m = Inr m0" "mach_keeps m m0"
    using clear_registers_keeps [OF user_machineD(7) [OF assms], of "[0..int NumTotalRegs - 1]"] by fastforce
  obtain m1 where m1: "WriteRegister (int PrevPCReg) (registers m0 ! PCReg) m0 = Inr m1" "mach_keeps m m1" using w [OF m0(2), of "int PrevPCReg"] by auto
  obtain m2 where m2: "WriteRegister (int PCReg) f m1 = Inr m2" "mach_keeps m m2" using w [OF m1(2), of "int PCReg"] by auto
  obtain m3 where m3: "WriteRegister (int NextPCReg) (f + 4) m2 = Inr m3" "mach_keeps m m3" using w [OF m2(2), of "int NextPCReg"] by auto
  obtain m4 where m4: "WriteRegister (int RetAddrReg) f_exit m3 = Inr m4" "mach_keeps m m4" using w [OF m3(2), of "int RetAddrReg"] by auto
  obtain m5 where m5: "WriteRegister (int StackReg) (word_of_int (thread_stack pages idx)) m4 = Inr m5" "mach_keeps m m5"
    using w [OF m4(2), of "int StackReg"] by auto
  obtain m6 where m6: "WriteRegister 4 arg m5 = Inr m6" "mach_keeps m m6" using w [OF m5(2), of "4"] by auto
  show ?thesis using m0 m1 m2 m3 m4 m5 m6 by (simp add: init_registers_def a ReadRegister_ok del: upto.simps)
qed

lemma same_tables_keeps: "user_machine m \<Longrightarrow> same_tables m m' \<Longrightarrow> mach_keeps m m'"
  by (simp add: user_machine_def mach_keeps_def same_tables_def same_translation_def)

lemma machine_op_result:
  assumes p: "op_pre L hold await c u" and c: "needs_user c" "plain c"
  shows "op_result L hold await c u (do_op big h c u)"
proof -
  note d = op_preD [OF p]
  have L: "ThreadLock \<in> L" and args: "op_args_ok c" using d(7) c by (simp_all add: op_ok_def)
  note r = on_machine_result [OF p L]
  show ?thesis
  proof (cases c)
    case (Op_ReadRegister n)
    show ?thesis unfolding Op_ReadRegister do_op.simps
      by (rule r [unfolded Op_ReadRegister]) (use args Op_ReadRegister in \<open>simp_all add: ReadRegister_ok user_machineD\<close>)
  next
    case (Op_WriteRegister n w)
    have "\<exists>m'. WriteRegister n w m = Inr m' \<and> mach_keeps m m'" if "user_machine m" for m
      by (rule WriteRegister_keeps [OF user_machineD(7) [OF that]]) (use args Op_WriteRegister in auto)
    then show ?thesis unfolding Op_WriteRegister do_op.simps by (intro r [unfolded Op_WriteRegister]) fastforce+
  next
    case (Op_copyFrom a)
    show ?thesis unfolding Op_copyFrom do_op.simps
    proof (rule r [unfolded Op_copyFrom])
      fix m
      assume m: "user_machine m"
      show "case bindR (copyStringFromMachine big (heap h) a 15 m) (\<lambda>(n, st, m'). Inr ((of_nat n, st), m')) of
          Inl e \<Rightarrow> may_fail (Op_copyFrom a) e | Inr (v, m') \<Rightarrow> result_ok (Op_copyFrom a) v \<and> mach_keeps m m'"
        using copyStringFromMachine_total [OF user_machineD(1-5) [OF m], of big "heap h" a] same_tables_keeps [OF m]
        by (cases "copyStringFromMachine big (heap h) a 15 m") auto
    qed simp_all
  next
    case (Op_copyTo s a)
    show ?thesis unfolding Op_copyTo do_op.simps
    proof (rule r [unfolded Op_copyTo])
      fix m
      assume m: "user_machine m"
      show "case bindR (copyStringToMachine big s a 15 m) (\<lambda>(n, m'). Inr ((of_nat n, []), m')) of
          Inl e \<Rightarrow> may_fail (Op_copyTo s a) e | Inr (v, m') \<Rightarrow> result_ok (Op_copyTo s a) v \<and> mach_keeps m m'"
        using copyStringToMachine_total [OF user_machineD(1,2,5) [OF m], of 15 s big a] same_tables_keeps [OF m] args Op_copyTo
        by (cases "copyStringToMachine big s a 15 m") auto
    qed simp_all
  next
    case Op_UpdatePC
    show ?thesis unfolding Op_UpdatePC do_op.simps
      by (rule r [unfolded Op_UpdatePC]) (use UpdatePC_keeps in fastforce)+
  next
    case (Op_raise t)
    show ?thesis unfolding Op_raise do_op.simps
      by (rule r [unfolded Op_raise]) (use raise_registers_keeps [of _ t] in fastforce)+
  next
    case (Op_init_registers a)
    obtain x where "mach_ok x (kern u)" using d(8) L by blast
    then obtain th sp where t: "threads (kern u) (currentThread (kern u)) = Some th" "space th = Some x" "spaces (kern u) x = Some sp"
      by (rule user_cpu [OF d(1)])
    have "op_result L hold await (Op_init_registers a) u
        (on_machine (\<lambda>m. bindR (init_registers (numPages sp) a m) (\<lambda>m'. Inr ((0, []), m'))) u)"
      by (rule r [unfolded Op_init_registers]) (use init_registers_keeps [of _ "numPages sp" a] in fastforce)+
    then show ?thesis using t by (simp add: Op_init_registers StartUserThread_registers_def get_thread_def)
  qed (use c in \<open>simp_all add: plain_def\<close>)
qed

lemma plain_op:
  assumes p: "op_pre L hold await c u" and c: "plain c"
  shows "op_result L hold await c u (do_op big h c u)"
proof (cases "needs_user c")
  case True
  then show ?thesis by (rule machine_op_result [OF p _ c])
next
  case False
  note d = op_preD [OF p]
  have same: "op_post L (lock_id u) hold await c (kern u) (kern u)" if "requests c = None" "awaits c = None" "lock_after c = inside c"
    by (rule keeps_post [OF p _ d(1) that]) (simp add: keeps_def acct_same)
  show ?thesis
  proof (cases c)
    case (Op_setStatus st)
    let ?k = "(kern u)\<lparr>status := st\<rparr>"
    have "kernel_ok dev_inv ?k" using d(1) by (simp add: kernel_ok_def)
    moreover have "keeps (kern u) ?k" by (simp add: keeps_def acct_same)
    ultimately have "op_post L (lock_id u) hold await c (kern u) ?k" by (intro keeps_post [OF p]) (simp_all add: Op_setStatus)
    then show ?thesis by (auto simp: op_result_def Op_setStatus)
  next
    case (Op_char_array n)
    then show ?thesis using same by (auto simp: op_result_def new_chars_def intro!: exI [of _ "kern u"])
  next
    case Op_int_variable
    then show ?thesis using same by (auto simp: op_result_def intro!: exI [of _ "kern u"])
  qed (use p False c d(7) Acquire_result Release_result P_result PutChar_result GetChar_result ReadRequest_result WriteRequest_result
      Yield_result OneTick_result in \<open>simp_all add: plain_def op_result_def on_kernel_def Halt_def op_ok_def\<close>)
qed

section \<open>The table of user threads\<close>

definition slot_tids :: "tid option list \<Rightarrow> tid set" where
  "slot_tids gs = {t. Some t \<in> set gs}"

text \<open>
  \<open>A\<close> is the set of the threads that have not left: the slots of the table, marked in the
  bitmap of the stacks, hold all of them but at most one, and the counter is their number less one.
\<close>

definition table_ok :: "usys \<Rightarrow> tid set \<Rightarrow> bool" where
  "table_ok u A \<longleftrightarrow> finite A \<and> BitMap_wf (stackMap u) \<and> numBits (stackMap u) = int MAX_THREADS \<and> length (g_threads u) = MAX_THREADS \<and>
     (\<forall>i < MAX_THREADS. int i \<in> marked (stackMap u) \<longleftrightarrow> g_threads u ! i \<noteq> None) \<and>
     (\<forall>i < MAX_THREADS. \<forall>j < MAX_THREADS. g_threads u ! i \<noteq> None \<longrightarrow> g_threads u ! i = g_threads u ! j \<longrightarrow> i = j) \<and>
     slot_tids (g_threads u) \<subseteq> A \<and> card (A - slot_tids (g_threads u)) \<le> 1 \<and> g_threadsIdx u = int (card A) - 1 \<and>
     (\<forall>i < MAX_THREADS. \<forall>t. g_threads u ! i = Some t \<longrightarrow>
        (\<exists>f arg f_exit. start_code u t = Some (StartUserThread (f, arg, f_exit, int i))))"

lemma table_okI:
  assumes "finite A" "BitMap_wf (stackMap u)" "numBits (stackMap u) = int MAX_THREADS" "length (g_threads u) = MAX_THREADS"
    "\<And>i. i < MAX_THREADS \<Longrightarrow> int i \<in> marked (stackMap u) \<longleftrightarrow> g_threads u ! i \<noteq> None"
    "\<And>i j. i < MAX_THREADS \<Longrightarrow> j < MAX_THREADS \<Longrightarrow> g_threads u ! i \<noteq> None \<Longrightarrow> g_threads u ! i = g_threads u ! j \<Longrightarrow> i = j"
    "slot_tids (g_threads u) \<subseteq> A" "card (A - slot_tids (g_threads u)) \<le> 1" "g_threadsIdx u = int (card A) - 1"
    "\<And>i t. i < MAX_THREADS \<Longrightarrow> g_threads u ! i = Some t \<Longrightarrow> \<exists>f arg f_exit. start_code u t = Some (StartUserThread (f, arg, f_exit, int i))"
  shows "table_ok u A"
  unfolding table_ok_def using assms by auto

lemma table_okD:
  assumes "table_ok u A"
  shows "finite A" "BitMap_wf (stackMap u)" "numBits (stackMap u) = int MAX_THREADS" "length (g_threads u) = MAX_THREADS"
    "\<And>i. i < MAX_THREADS \<Longrightarrow> int i \<in> marked (stackMap u) \<longleftrightarrow> g_threads u ! i \<noteq> None"
    "\<And>i j. i < MAX_THREADS \<Longrightarrow> j < MAX_THREADS \<Longrightarrow> g_threads u ! i \<noteq> None \<Longrightarrow> g_threads u ! i = g_threads u ! j \<Longrightarrow> i = j"
    "slot_tids (g_threads u) \<subseteq> A" "card (A - slot_tids (g_threads u)) \<le> 1" "g_threadsIdx u = int (card A) - 1"
    "\<And>i t. i < MAX_THREADS \<Longrightarrow> g_threads u ! i = Some t \<Longrightarrow> \<exists>f arg f_exit. start_code u t = Some (StartUserThread (f, arg, f_exit, int i))"
  using assms unfolding table_ok_def by - (elim conjE; blast)+

lemma slot_tids_nth: "length gs = n \<Longrightarrow> t \<in> slot_tids gs \<longleftrightarrow> (\<exists>i < n. gs ! i = Some t)"
  by (auto simp: slot_tids_def in_set_conv_nth)

lemma slot_tids_fill:
  assumes "n < length gs" "gs ! n = None"
  shows "slot_tids (gs[n := Some t]) = insert t (slot_tids gs)"
proof (rule set_eqI)
  fix x
  show "x \<in> slot_tids (gs[n := Some t]) \<longleftrightarrow> x \<in> insert t (slot_tids gs)"
    unfolding slot_tids_nth [of "gs[n := Some t]" "length gs", simplified] insert_iff slot_tids_nth [of gs, OF refl]
    using assms by (metis nth_list_update_eq nth_list_update_neq option.inject option.distinct(1))
qed

lemma slot_tids_clear:
  assumes "n < length gs" "gs ! n = Some c" "\<And>j. j < length gs \<Longrightarrow> gs ! j = Some c \<Longrightarrow> j = n"
  shows "slot_tids (gs[n := None]) = slot_tids gs - {c}"
proof (rule set_eqI)
  fix x
  show "x \<in> slot_tids (gs[n := None]) \<longleftrightarrow> x \<in> slot_tids gs - {c}"
    unfolding slot_tids_nth [of "gs[n := None]" "length gs", simplified] Diff_iff slot_tids_nth [of gs, OF refl]
    using assms by (metis nth_list_update_eq nth_list_update_neq option.inject option.distinct(1) singletonD singletonI)
qed

lemma table_same: "g_threads u' = g_threads u \<Longrightarrow> stackMap u' = stackMap u \<Longrightarrow> g_threadsIdx u' = g_threadsIdx u \<Longrightarrow>
    start_code u' = start_code u \<Longrightarrow> table_ok u' A = table_ok u A"
  by (simp add: table_ok_def)

lemma table_create:
  assumes i: "table_ok u A" and t: "t \<notin> A" and f: "Find (stackMap u) = Inr (idx, sm)" "0 \<le> idx"
  shows "table_ok (u\<lparr>stackMap := sm, kern := k, g_threads := (g_threads u)[nat idx := Some t], g_threadsIdx := g_threadsIdx u + 1,
      start_code := (start_code u)(t \<mapsto> StartUserThread (x, y, z, idx))\<rparr>) (insert t A)" (is "table_ok ?u _")
proof -
  note d = table_okD [OF i]
  let ?n = "nat idx" and ?gs = "g_threads u"
  have ne: "marked (stackMap u) \<noteq> {0..<numBits (stackMap u)}" using Find_full [OF d(2)] f by auto
  obtain sm' where m: "Find (stackMap u) = Inr (idx, sm')" "idx \<in> {0..<numBits (stackMap u)} - marked (stackMap u)"
    "marked sm' = insert idx (marked (stackMap u))" "numBits sm' = numBits (stackMap u)" "BitMap_wf sm'"
    using Find_free [OF d(2) ne] f by auto
  then have sm: "marked sm = insert idx (marked (stackMap u))" "numBits sm = 10" "BitMap_wf sm" using f d(3) by auto
  have n: "?n < 10" "int ?n = idx" "idx \<notin> marked (stackMap u)" using m(2) d(3) by auto
  have free: "?gs ! ?n = None" using d(5) [OF n(1)] n by simp
  have st: "slot_tids (?gs[?n := Some t]) = insert t (slot_tids ?gs)" by (rule slot_tids_fill) (use n(1) d(4) free in simp_all)
  have tn: "?gs ! j \<noteq> Some t" if "j < 10" for j using slot_tids_nth [OF d(4)] that d(7) t by blast
  show ?thesis
  proof (rule table_okI)
    show "card (insert t A - slot_tids (g_threads ?u)) \<le> 1"
    proof -
      have *: "insert t A - slot_tids (?gs[?n := Some t]) \<subseteq> A - slot_tids ?gs" unfolding st by auto
      show ?thesis using card_mono [OF _ *] d(1,8) by simp
    qed
    show "int j \<in> marked (stackMap ?u) \<longleftrightarrow> g_threads ?u ! j \<noteq> None" if "j < 10" for j
      using d(4) d(5) [OF that] n that sm(1) by (auto simp: nth_list_update)
    show "j = l" if "j < 10" "l < 10" "g_threads ?u ! j \<noteq> None" "g_threads ?u ! j = g_threads ?u ! l" for j l
    proof (cases "j = ?n \<or> l = ?n")
      case True
      then show ?thesis using that tn [OF that(1)] tn [OF that(2)] d(4) n(1) by (simp add: nth_list_update split: if_splits)
    next
      case False
      then show ?thesis using that d(6) [of j l] by simp
    qed
    show "\<exists>f arg f_exit. start_code ?u w = Some (StartUserThread (f, arg, f_exit, int j))" if "j < 10" "g_threads ?u ! j = Some w" for j w
    proof (cases "j = ?n")
      case True
      then have "start_code ?u w = Some (StartUserThread (x, y, z, int j))" using that d(4) n by simp
      then show ?thesis by blast
    next
      case False
      then show ?thesis using that d(10) [of j w] tn [of j] by auto
    qed
  qed (use d(1,4,7,9) sm t in \<open>auto simp: st\<close>)
qed

lemma GetStackId:
  "case GetStackIdFromThread gs ns t of i \<Rightarrow> i = -1 \<and> (\<forall>j \<in> set ns. gs ! nat j \<noteq> Some t) \<or> i \<in> set ns \<and> gs ! nat i = Some t"
  by (induction ns) auto

lemma table_exit:
  assumes i: "table_ok u A" and c: "currentThread (kern u) \<in> A"
  shows "\<exists>sm gs. exit_thread u = Inr ((0, []), u\<lparr>g_threads := gs, stackMap := sm, g_threadsIdx := g_threadsIdx u - 1\<rparr>) \<and>
     table_ok (u\<lparr>g_threads := gs, stackMap := sm, g_threadsIdx := g_threadsIdx u - 1\<rparr>) (A - {currentThread (kern u)})"
proof -
  note d = table_okD [OF i]
  let ?c = "currentThread (kern u)" and ?gs = "g_threads u"
  let ?i = "GetStackIdFromThread ?gs [0..int MAX_THREADS - 1] ?c"
  have cd: "card (A - {?c}) = card A - 1" "0 < card A" using c d(1) by (auto simp: card_gt_0_iff)
  have g: "?i = -1 \<and> (\<forall>j \<in> set [0..int MAX_THREADS - 1]. ?gs ! nat j \<noteq> Some ?c) \<or> ?i \<in> set [0..int MAX_THREADS - 1] \<and> ?gs ! nat ?i = Some ?c"
    using GetStackId [of ?gs "[0..int MAX_THREADS - 1]" ?c] by simp
  show ?thesis
  proof (cases "?i = -1")
    case True
    have "?gs ! j \<noteq> Some ?c" if "j < 10" for j
    proof -
      have "\<forall>j \<in> set [0..int MAX_THREADS - 1]. ?gs ! nat j \<noteq> Some ?c" using g True by auto
      then show ?thesis using that by (auto simp del: upto.simps dest!: bspec [of _ _ "int j"])
    qed
    then have nc: "?c \<notin> slot_tids ?gs" using slot_tids_nth [OF d(4)] by blast
    let ?u = "u\<lparr>g_threads := ?gs, stackMap := stackMap u, g_threadsIdx := g_threadsIdx u - 1\<rparr>"
    have "exit_thread u = Inr ((0, []), ?u)" using True by (simp add: exit_thread_def del: upto.simps)
    moreover have "table_ok ?u (A - {?c})"
    proof (rule table_okI)
      show "card (A - {?c} - slot_tids (g_threads ?u)) \<le> 1"
        using card_mono [OF _ Diff_mono [OF Diff_subset subset_refl], of A "slot_tids ?gs" "{?c}"] d(1,8) by simp
      show "slot_tids (g_threads ?u) \<subseteq> A - {?c}" using d(7) nc by auto
    qed (use d cd in auto)
    ultimately show ?thesis by blast
  next
    case False
    then have r: "0 \<le> ?i" "?i < 10" "?gs ! nat ?i = Some ?c" using g by auto
    define n where "n = nat ?i"
    have n: "n < 10" "int n = ?i" "?gs ! n = Some ?c" using r by (auto simp: n_def)
    obtain sm where sm: "Clear ?i (stackMap u) = Inr sm" "marked sm = marked (stackMap u) - {?i}" "numBits sm = 10" "BitMap_wf sm"
      using Clear_marked [OF d(2), of ?i] r d(3) by auto
    let ?u = "u\<lparr>g_threads := ?gs[n := None], stackMap := sm, g_threadsIdx := g_threadsIdx u - 1\<rparr>"
    have st: "slot_tids (?gs[n := None]) = slot_tids ?gs - {?c}"
    proof (rule slot_tids_clear)
      show "j = n" if "j < length ?gs" "?gs ! j = Some ?c" for j using d(6) [of j n] that n d(4) by simp
    qed (use n d(4) in simp_all)
    have "exit_thread u = Inr ((0, []), ?u)" using r sm(1) by (simp add: exit_thread_def n_def del: upto.simps)
    moreover have "table_ok ?u (A - {?c})"
    proof (rule table_okI)
      have "?c \<in> slot_tids ?gs" using slot_tids_nth [OF d(4)] n by blast
      then have "A - {?c} - slot_tids (g_threads ?u) = A - slot_tids ?gs" by (auto simp: st)
      then show "card (A - {?c} - slot_tids (g_threads ?u)) \<le> 1" using d(8) by simp
      show "int j \<in> marked (stackMap ?u) \<longleftrightarrow> g_threads ?u ! j \<noteq> None" if "j < 10" for j
        using d(4) d(5) [OF that] n that sm(2) by (auto simp: nth_list_update)
      show "j = l" if "j < 10" "l < 10" "g_threads ?u ! j \<noteq> None" "g_threads ?u ! j = g_threads ?u ! l" for j l
        using that d(4) d(6) [of j l] n(1) by (auto simp: nth_list_update split: if_splits)
      show "\<exists>f arg f_exit. start_code ?u x = Some (StartUserThread (f, arg, f_exit, int j))" if "j < 10" "g_threads ?u ! j = Some x" for j x
        using that d(4) d(10) [of j x] n by (auto simp: nth_list_update split: if_splits)
    qed (use d(1,4,7,9) sm cd in \<open>auto simp: st\<close>)
    ultimately show ?thesis by blast
  qed
qed

section \<open>The invariant of the system\<close>

definition hold_of :: "(tid \<rightharpoonup> prog) \<Rightarrow> tid \<Rightarrow> lock_name option" where
  "hold_of ps t = (case ps t of None \<Rightarrow> None | Some p \<Rightarrow> p_lock p)"

definition await_of :: "(tid \<rightharpoonup> prog) \<Rightarrow> tid \<Rightarrow> int_handler option" where
  "await_of ps t = (case ps t of None \<Rightarrow> None | Some p \<Rightarrow> p_await p)"

definition leaving :: "(tid \<rightharpoonup> prog) \<Rightarrow> tid \<Rightarrow> bool" where
  "leaving ps t = (case ps t of None \<Rightarrow> False | Some p \<Rightarrow> p_leaving p)"

text \<open>The threads that have not left the table: they exist, are not about to leave, and have not finished.\<close>

definition active_threads :: "nachos \<Rightarrow> (tid \<rightharpoonup> prog) \<Rightarrow> tid set" where
  "active_threads k ps = {t. threads k t \<noteq> None \<and> \<not> leaving ps t \<and> threadToBeDestroyed k \<noteq> Some t}"

definition progs_ok :: "lock_name set \<Rightarrow> usys \<Rightarrow> (tid \<rightharpoonup> prog) \<Rightarrow> bool" where
  "progs_ok L u ps \<longleftrightarrow>
     (\<forall>t p. ps t = Some p \<longrightarrow> prog_wf L p \<and> threads (kern u) t \<noteq> None) \<and>
     (\<forall>t. threads (kern u) t \<noteq> None \<longrightarrow> ps t = None \<longrightarrow> (\<exists>p. start_code u t = Some p \<and> free_wf L p)) \<and>
     (\<forall>t. threadToBeDestroyed (kern u) = Some t \<longrightarrow> hold_of ps t = None)"

definition sys_inv :: "lock_name set \<Rightarrow> nat \<Rightarrow> running \<Rightarrow> bool" where
  "sys_inv L a s \<longleftrightarrow> kernel_ok dev_inv (kern (sys s)) \<and> (ThreadLock \<in> L \<longrightarrow> mach_ok a (kern (sys s))) \<and> locks_ok L (sys s) \<and>
     excl_inv L (lock_id (sys s)) (hold_of (progs s)) (await_of (progs s)) (kern (sys s)) \<and> progs_ok L (sys s) (progs s) \<and>
     (ThreadLock \<in> L \<longrightarrow> table_ok (sys s) (active_threads (kern (sys s)) (progs s)))"

lemma sys_invD:
  assumes "sys_inv L a s"
  shows "kernel_ok dev_inv (kern (sys s))" "ThreadLock \<in> L \<Longrightarrow> mach_ok a (kern (sys s))" "locks_ok L (sys s)"
    "excl_inv L (lock_id (sys s)) (hold_of (progs s)) (await_of (progs s)) (kern (sys s))" "progs_ok L (sys s) (progs s)"
    "ThreadLock \<in> L \<Longrightarrow> table_ok (sys s) (active_threads (kern (sys s)) (progs s))"
  using assms unfolding sys_inv_def by blast+

lemma progs_okD:
  assumes "progs_ok L u ps"
  shows "ps t = Some p \<Longrightarrow> prog_wf L p" "ps t = Some p \<Longrightarrow> threads (kern u) t \<noteq> None"
    "threads (kern u) t \<noteq> None \<Longrightarrow> ps t = None \<Longrightarrow> \<exists>p. start_code u t = Some p \<and> free_wf L p"
    "threadToBeDestroyed (kern u) = Some t \<Longrightarrow> hold_of ps t = None"
  using assms unfolding progs_ok_def by blast+

lemma progs_okI:
  assumes "\<And>t p. ps t = Some p \<Longrightarrow> prog_wf L p \<and> threads (kern u) t \<noteq> None"
    "\<And>t. threads (kern u) t \<noteq> None \<Longrightarrow> ps t = None \<Longrightarrow> \<exists>p. start_code u t = Some p \<and> free_wf L p"
    "\<And>t. threadToBeDestroyed (kern u) = Some t \<Longrightarrow> hold_of ps t = None"
  shows "progs_ok L u ps"
  using assms unfolding progs_ok_def by blast

lemma view_upd:
  "hold_of (ps(t \<mapsto> p)) = (hold_of ps)(t := p_lock p)" "await_of (ps(t \<mapsto> p)) = (await_of ps)(t := p_await p)"
  "leaving (ps(t \<mapsto> p)) = (leaving ps)(t := p_leaving p)"
  by (auto simp: hold_of_def await_of_def leaving_def fun_eq_iff)

lemma locks_same:
  assumes "dev_names (kernel.more (kern u')) = dev_names (kernel.more (kern u))" "thread_lock u' = thread_lock u"
  shows "lock_of l u' = lock_of l u" "lock_id u' = lock_id u"
proof -
  show l: "lock_of l u' = lock_of l u" for l using assms
    by (cases l; cases "synchDisk (kernel.more (kern u))"; cases "synchDisk (kernel.more (kern u'))") (auto simp: dev_names_def)
  then show "lock_id u' = lock_id u" by (simp add: lock_id_def fun_eq_iff)
qed

lemma sys_next:
  assumes i: "sys_inv L a s" and k: "kernel_ok dev_inv (kern u')" and n: "dev_names (kernel.more (kern u')) = dev_names (kernel.more (kern (sys s)))"
    and sm: "\<And>x. semaphores (kern (sys s)) x \<noteq> None \<Longrightarrow> semaphores (kern u') x \<noteq> None"
    and m: "\<And>x. mach_ok x (kern (sys s)) \<Longrightarrow> mach_ok x (kern u')" and tl: "thread_lock u' = thread_lock (sys s)"
    and e: "excl_inv L (lock_id (sys s)) (hold_of ps') (await_of ps') (kern u')" and p: "progs_ok L u' ps'"
    and t: "ThreadLock \<in> L \<Longrightarrow> table_ok u' (active_threads (kern u') ps')"
  shows "sys_inv L a \<lparr>sys = u', progs = ps'\<rparr>"
proof -
  note d = sys_invD [OF i]
  note l = locks_same [OF n tl]
  have "locks_ok L u'" unfolding locks_ok_def l using locks_okD [OF d(3)] sm by auto
  then show ?thesis using k d(2) m e p t unfolding sys_inv_def by (simp add: l)
qed

text \<open>Steps in which the kernel changes as \<open>struct_rel\<close> says, and no thread is added.\<close>

lemma active_struct:
  assumes r: "struct_rel k k'" and l: "\<And>t. threads k' t \<noteq> None \<Longrightarrow> leaving ps' t = leaving ps t"
  shows "active_threads k' ps' = active_threads k ps"
proof (rule set_eqI)
  fix t
  note d = struct_relD [OF r]
  show "t \<in> active_threads k' ps' \<longleftrightarrow> t \<in> active_threads k ps"
    unfolding active_threads_def mem_Collect_eq using d(4) d(5) [of t] d(6) [of t] d(7) [of t] l [of t]
    by (cases "threads k t"; cases "threads k' t") auto
qed

lemma kernel_step_inv:
  assumes i: "sys_inv L a s" and st: "kstep run_handler (kern (sys s)) = Inr k'"
  shows "sys_inv L a \<lparr>sys = (sys s)\<lparr>kern := k'\<rparr>, progs = live_progs k' (progs s)\<rparr>"
proof -
  note d = sys_invD [OF i]
  let ?k = "kern (sys s)" and ?ps = "progs s"
  have k: "kernel_ok dev_inv k'" using nachos.kstep_ok [OF d(1)] st by simp
  have e: "excl_inv L (lock_id (sys s)) (hold_of ?ps) (await_of ?ps) k'" and r: "struct_rel ?k k'"
    using kstep_excl [OF d(1,4) st] by blast+
  note rd = struct_relD [OF r]
  have dead: "hold_of ?ps t = None" if "threads k' t = None" for t
    using rd(7) [OF that] progs_okD(2,4) [OF d(5), of t] by (cases "?ps t") (auto simp: hold_of_def)
  have aw: "await_of ?ps t = None" if "hold_of ?ps t = None" for t
    using that by (auto simp: hold_of_def await_of_def split: option.splits)
  have hold: "hold_of (live_progs k' ?ps) = hold_of ?ps" "await_of (live_progs k' ?ps) = await_of ?ps"
    using dead aw by (auto simp: hold_of_def await_of_def live_progs_def fun_eq_iff)
  have lv: "leaving (live_progs k' ?ps) t = leaving ?ps t" if "threads k' t \<noteq> None" for t
    using that by (auto simp: leaving_def live_progs_def)
  show ?thesis
  proof (rule sys_next [OF i])
    show "progs_ok L (sys s\<lparr>kern := k'\<rparr>) (live_progs k' ?ps)"
    proof (rule progs_okI)
      show "prog_wf L p \<and> threads (kern (sys s\<lparr>kern := k'\<rparr>)) t \<noteq> None" if "live_progs k' ?ps t = Some p" for t p
        using that progs_okD(1) [OF d(5), of t p] by (simp add: live_progs_def split: if_splits)
      show "\<exists>p. start_code (sys s\<lparr>kern := k'\<rparr>) t = Some p \<and> free_wf L p"
        if "threads (kern (sys s\<lparr>kern := k'\<rparr>)) t \<noteq> None" "live_progs k' ?ps t = None" for t
        using that progs_okD(3) [OF d(5), of t] rd(6) [of t] by (auto simp: live_progs_def split: if_splits)
      show "hold_of (live_progs k' ?ps) t = None" if "threadToBeDestroyed (kern (sys s\<lparr>kern := k'\<rparr>)) = Some t" for t
        using that progs_okD(4) [OF d(5), of t] rd(4) unfolding hold(1) by simp
    qed
    show "table_ok (sys s\<lparr>kern := k'\<rparr>) (active_threads (kern (sys s\<lparr>kern := k'\<rparr>)) (live_progs k' ?ps))" if "ThreadLock \<in> L"
      using d(6) [OF that] active_struct [OF r lv] table_same [of "sys s\<lparr>kern := k'\<rparr>" "sys s"] by simp
  qed (use k e rd hold in simp_all)
qed

section \<open>Steps of the code of a thread\<close>

lemma op_pre_sys:
  assumes i: "sys_inv L a s" and u: "in_user (kern (sys s))" and p: "progs s (currentThread (kern (sys s))) = Some (Do c g)"
  shows "op_pre L (hold_of (progs s)) (await_of (progs s)) c (sys s)"
  unfolding op_pre_def using sys_invD [OF i] u p progs_okD(1) [OF sys_invD(5) [OF i] p] by (auto simp: hold_of_def await_of_def)

lemma next_view:
  assumes "prog_wf L (Do c g)" "result_ok c v"
  shows "prog_wf L (g v)" "hold_of (ps(t \<mapsto> g v)) = (hold_of ps)(t := lock_after c)"
    "await_of (ps(t \<mapsto> g v)) = (await_of ps)(t := requests c)"
    "leaving (ps(t \<mapsto> g v)) = (leaving ps)(t := (c = Op_exit_thread \<or> c = Op_Release ThreadLock \<and> head_leave (g (0, []))))"
proof -
  have n: "prog_wf L (g v) \<and> p_lock (g v) = lock_after c \<and> p_await (g v) = requests c \<and>
      p_leaving (g v) = (c = Op_exit_thread \<or> c = Op_Release ThreadLock \<and> head_leave (g (0, [])))"
    using assms(1) [unfolded prog_wf.simps] assms(2) by blast
  then show "prog_wf L (g v)" by blast
  show "hold_of (ps(t \<mapsto> g v)) = (hold_of ps)(t := lock_after c)" "await_of (ps(t \<mapsto> g v)) = (await_of ps)(t := requests c)"
    "leaving (ps(t \<mapsto> g v)) = (leaving ps)(t := (c = Op_exit_thread \<or> c = Op_Release ThreadLock \<and> head_leave (g (0, []))))"
    unfolding view_upd by (simp_all only: n)
qed

text \<open>What follows for the code of the threads when the current thread goes on with \<open>p\<close>.\<close>

lemma progs_ok_step:
  assumes i: "progs_ok L u ps" and p: "prog_wf L p" and t: "threads (kern u) t \<noteq> None"
    and k': "\<And>x. threads (kern u') x \<noteq> None \<longleftrightarrow> threads (kern u) x \<noteq> None \<or> x \<in> N"
      "threadToBeDestroyed (kern u') = None \<or> threadToBeDestroyed (kern u') = Some t \<and> p_lock p = None"
      "\<And>x. x \<notin> N \<Longrightarrow> start_code u' x = start_code u x" "\<And>x. x \<in> N \<Longrightarrow> \<exists>q. start_code u' x = Some q \<and> free_wf L q"
  shows "progs_ok L u' (ps(t \<mapsto> p))"
proof (rule progs_okI)
  note d = progs_okD [OF i]
  show "prog_wf L q \<and> threads (kern u') x \<noteq> None" if "(ps(t \<mapsto> p)) x = Some q" for x q
    using that d(1,2) [of x q] p t k'(1) [of x] by (auto split: if_splits)
  show "\<exists>q. start_code u' x = Some q \<and> free_wf L q" if "threads (kern u') x \<noteq> None" "(ps(t \<mapsto> p)) x = None" for x
    using that d(3) [of x] k'(1,3,4) [of x] by (cases "x \<in> N") (auto split: if_splits)
  show "hold_of (ps(t \<mapsto> p)) x = None" if "threadToBeDestroyed (kern u') = Some x" for x
    using that k'(2) by (auto simp: hold_of_def)
qed

lemma same_threads:
  assumes "kernel_ok dev_inv k" "in_user k" "struct_rel k k'"
  shows "threads k' x \<noteq> None \<longleftrightarrow> threads k x \<noteq> None" "threadToBeDestroyed k' = None"
proof -
  have t: "threadToBeDestroyed k = None" by (rule user_thread [OF assms(1,2)])
  show "threads k' x \<noteq> None \<longleftrightarrow> threads k x \<noteq> None" "threadToBeDestroyed k' = None"
    using struct_relD(4) [OF assms(3)] struct_relD(6,7) [OF assms(3), of x] t by (cases "threads k x"; cases "threads k' x"; auto)+
qed

lemma plain_step:
  assumes i: "sys_inv L a s" and u: "in_user (kern (sys s))" and p: "progs s (currentThread (kern (sys s))) = Some (Do c g)"
    and c: "plain c" and o: "do_op big h c (sys s) = Inr (v, u')"
  shows "sys_inv L a \<lparr>sys = u', progs = (progs s)(currentThread (kern (sys s)) \<mapsto> g v)\<rparr>"
proof -
  note d = sys_invD [OF i] and pre = op_pre_sys [OF i u p]
  let ?k = "kern (sys s)" and ?t = "currentThread (kern (sys s))" and ?ps = "progs s"
  obtain k' where r: "result_ok c v" "u' = (sys s)\<lparr>kern := k'\<rparr>"
    "op_post L (lock_id (sys s)) (hold_of ?ps) (await_of ?ps) c ?k k'"
    using plain_op [OF pre c, of big h] o by (auto simp: op_result_def)
  then have k: "kernel_ok dev_inv k'" and st: "struct_rel ?k k'"
    and e: "excl_inv L (lock_id (sys s)) ((hold_of ?ps)(?t := lock_after c)) ((await_of ?ps)(?t := requests c)) k'"
    by (simp_all add: op_post_def)
  have wf: "prog_wf L (Do c g)" by (rule progs_okD(1) [OF d(5) p])
  note v = next_view [OF wf r(1)] and rd = struct_relD [OF st] and th = same_threads [OF d(1) u st]
  have "leaving (?ps(?t \<mapsto> g v)) x = leaving ?ps x" for x
    using v(4) p c by (auto simp: leaving_def plain_def)
  note act = active_struct [OF st this]
  show ?thesis
  proof (rule sys_next [OF i])
    show "progs_ok L u' (?ps(?t \<mapsto> g v))"
      by (rule progs_ok_step [OF d(5) v(1), where N = "{}"]) (use th progs_okD(2) [OF d(5) p] r(2) in simp_all)
    show "table_ok u' (active_threads (kern u') (?ps(?t \<mapsto> g v)))" if "ThreadLock \<in> L"
      using d(6) [OF that] act table_same [of u' "sys s"] r(2) by simp
  qed (use k e rd v r(2) in simp_all)
qed

text \<open>A thread finishes: the accounts do not change.\<close>

lemma excl_same:
  assumes "excl_inv L lk hold await k" "\<And>s t. waits k' s t = waits k s t" "kernel.more k' = kernel.more k"
    "semaphores k' = semaphores k" "pending k' = pending k"
  shows "excl_inv L lk hold await k'"
proof -
  have "sval k' = sval k" by (simp add: sval_def fun_eq_iff assms(4))
  then show ?thesis by (intro excl_frame [OF assms(1,2)]) (simp_all add: assms(3,5) pend_def dev_acc_def dev_bal_def split: option.split)
qed

lemma Finish_frame:
  assumes k: "kernel_ok dev_inv k" and u: "in_user k"
  obtains k' where "Finish k = Inr k'" "kernel_ok dev_inv k'" "\<And>s t. waits k' s t = waits k s t" "kernel.more k' = kernel.more k"
    "semaphores k' = semaphores k" "pending k' = pending k" "\<And>x. mach_ok x k \<Longrightarrow> mach_ok x k'"
    "\<And>t. threads k' t \<noteq> None \<longleftrightarrow> threads k t \<noteq> None" "threadToBeDestroyed k' = Some (currentThread k)"
proof -
  let ?c = "currentThread k"
  obtain th where th: "threads k ?c = Some th" "kstack th = []" "threadToBeDestroyed k = None" by (rule user_thread [OF k u])
  let ?k = "k\<lparr>level := IntOff, threadToBeDestroyed := Some ?c, threads := (threads k)(?c \<mapsto> th\<lparr>tstatus := BLOCKED, kstack := [Sleeping]\<rparr>)\<rparr>"
  have f: "Finish k = Inr ?k"
    using th by (simp add: Finish_def Let_def Sleep_def upd_thread_def get_thread_def push_frame_def put_thread_def)
  have "kernel_ok dev_inv ?k" using call_succeeds [OF k u, of Call_Finish] f by auto
  moreover have "mach_ok x ?k" if "mach_ok x k" for x using that th(1) by (auto simp: mach_ok_def)
  moreover have "waits ?k s t = waits k s t" for s t using th by (simp add: waits_def)
  ultimately show ?thesis using that [of ?k] f th(1) by simp
qed

text \<open>A new thread.\<close>

lemma spawn:
  assumes k: "kernel_ok dev_inv k" and u: "in_user k" and h: "host_ok h k"
  obtains k1 k' where "Thread_new (new_regs h) (new_tid h) name k = Inr k1" "Start run_handler (new_tid h) k1 = Inr k'"
    "kernel_ok dev_inv k'" "dev_names (kernel.more k') = dev_names (kernel.more k)"
    "\<And>x. semaphores k x \<noteq> None \<Longrightarrow> semaphores k' x \<noteq> None" "\<And>x. mach_ok x k \<Longrightarrow> mach_ok x k'"
    "\<And>L lk hold await. excl_inv L lk hold await k \<Longrightarrow> excl_inv L lk hold await k'"
    "\<And>t. threads k' t \<noteq> None \<longleftrightarrow> threads k t \<noteq> None \<or> t = new_tid h" "threadToBeDestroyed k' = None"
proof -
  let ?c = "currentThread k" and ?n = "new_tid h"
  have n: "threads k ?n = None" "length (new_regs h) = 40" using h by (simp_all add: host_ok_def)
  obtain th where th: "threads k ?c = Some th" "kstack th = []" "level k = IntOn" "threadToBeDestroyed k = None" by (rule user_thread [OF k u])
  have nc: "?n \<noteq> ?c" using th n by auto
  define t1 where "t1 = \<lparr>tname = name, tstatus = JUST_CREATED, stack = None, kstack = [],
      userRegisters = (new_regs h)[LoadReg := 0, LoadValueReg := 0], space = space th\<rparr>"
  let ?k1 = "put_thread ?n t1 k"
  have k1: "Thread_new (new_regs h) ?n name k = Inr ?k1" using th by (simp add: Thread_new_def get_thread_def t1_def)
  have ok1: "kernel_ok dev_inv ?k1" using call_succeeds [OF k u, of "Call_New ?n name (new_regs h)"] n k1 by auto
  have u1: "in_user ?k1" using u nc by (simp add: in_user_def)
  obtain k' where k': "Start run_handler ?n ?k1 = Inr k'" "kernel_ok dev_inv k'"
    using call_succeeds [OF ok1 u1, of "Call_Start ?n"] by (auto simp: t1_def)
  let ?t2 = "t1\<lparr>stack := Some STACK_FENCEPOST, kstack := [Startup], tstatus := READY\<rparr>"
  let ?k2 = "(put_thread ?n ?t2 (k\<lparr>level := IntOff\<rparr>))\<lparr>readyList := kappend ?n (readyList k)\<rparr>"
  have "SetLevel run_handler IntOn ?k2 = Inr k'"
    using k'(1) th(3) by (simp add: Start_def StackAllocate_def upd_thread_def get_thread_def ReadyToRun_def put_thread_def Let_def t1_def)
  then have kp: "keeps ?k2 k'" by (rule acct.SetLevel_R)
  note r = struct_relD [OF keeps_struct [OF kp]]
  have w: "waits ?k2 s t = waits k s t" for s t using n(1) by (simp add: waits_def)
  have m: "mach_ok x ?k2" if "mach_ok x k" for x using that th(1) by (auto simp: mach_ok_def t1_def)
  have e: "excl_inv L lk hold await k'" if "excl_inv L lk hold await k" for L lk hold await
    by (rule excl_keeps [OF excl_same [OF that w] kp]) simp_all
  have d: "threads k' t \<noteq> None \<longleftrightarrow> threads k t \<noteq> None \<or> t = ?n" for t
    using r(6,7) [of t] th(4) by (cases "threads k' t"; cases "threads k t"; cases "t = ?n") auto
  show ?thesis
    using r(4) th(4) by (intro that [OF k1 k' _ r(2) r(3) e d]) (simp_all add: r(1) m)
qed

lemma active_add:
  assumes "\<And>t. threads k' t \<noteq> None \<longleftrightarrow> threads k t \<noteq> None \<or> t = n" "threadToBeDestroyed k' = None" "threadToBeDestroyed k = None"
    "leaving ps' = leaving ps" "ps n = None"
  shows "active_threads k' ps' = insert n (active_threads k ps)"
proof (rule set_eqI)
  fix t
  show "t \<in> active_threads k' ps' \<longleftrightarrow> t \<in> insert n (active_threads k ps)"
    unfolding active_threads_def mem_Collect_eq insert_iff assms(1-4) using assms(5) by (auto simp: leaving_def)
qed

lemma current_thread_lives:
  assumes "sys_inv L a s" "in_user (kern (sys s))"
  shows "threads (kern (sys s)) (currentThread (kern (sys s))) \<noteq> None" "threadToBeDestroyed (kern (sys s)) = None"
  using user_thread [OF sys_invD(1) [OF assms(1)] assms(2)] by (metis option.distinct(1))+

lemma create_step:
  assumes i: "sys_inv L a s" and u: "in_user (kern (sys s))" and h: "host_ok h (kern (sys s))"
    and p: "progs s (currentThread (kern (sys s))) = Some (Do (Op_create_thread f arg fx) g)"
  shows "\<exists>v u'. create_thread h f arg fx (sys s) = Inr (v, u') \<and>
     sys_inv L a \<lparr>sys = u', progs = (progs s)(currentThread (kern (sys s)) \<mapsto> g v)\<rparr>"
proof -
  note d = sys_invD [OF i] and pre = op_preD [OF op_pre_sys [OF i u p]]
  let ?k = "kern (sys s)" and ?t = "currentThread (kern (sys s))" and ?ps = "progs s" and ?n = "new_tid h" and ?u = "sys s"
  let ?c = "Op_create_thread f arg fx"
  have wf: "prog_wf L (Do ?c g)" by (rule progs_okD(1) [OF d(5) p])
  have v: "prog_wf L (g v)" "hold_of (?ps(?t \<mapsto> g v)) = hold_of ?ps" "await_of (?ps(?t \<mapsto> g v)) = await_of ?ps"
    "leaving (?ps(?t \<mapsto> g v)) = leaving ?ps" for v
    using next_view(1) [OF wf, of v] next_view(2-4) [OF wf, where v = v and ps = ?ps and t = ?t] pre(5,6) p by (auto simp: fun_upd_idem leaving_def fun_eq_iff)
  have L: "ThreadLock \<in> L" using pre(7) by (simp add: op_ok_def)
  note tb = table_okD [OF d(6) [OF L]] and cur = current_thread_lives [OF i u]
  obtain idx sm where f: "Find (stackMap ?u) = Inr (idx, sm)" using Find_free [OF tb(2)] Find_full [OF tb(2)] by metis
  show ?thesis
  proof (cases "0 \<le> idx")
    case False
    have "marked (stackMap ?u) = {0..<numBits (stackMap ?u)}" using Find_free [OF tb(2)] f False by fastforce
    then have sm: "sm = stackMap ?u" using Find_full [OF tb(2)] f by simp
    have "create_thread h f arg fx ?u = Inr ((- 1, []), ?u)" using f False sm by (simp add: create_thread_def)
    moreover have "sys_inv L a \<lparr>sys = ?u, progs = ?ps(?t \<mapsto> g (- 1, []))\<rparr>"
    proof (rule sys_next [OF i])
      show "progs_ok L ?u (?ps(?t \<mapsto> g (- 1, [])))"
        by (rule progs_ok_step [OF d(5) v(1) cur(1), where N = "{}"]) (use cur in simp_all)
      show "table_ok ?u (active_threads ?k (?ps(?t \<mapsto> g (- 1, []))))"
        using d(6) [OF L] v(4) by (simp add: active_threads_def)
    qed (use d v in simp_all)
    ultimately show ?thesis by blast
  next
    case True
    obtain k1 k' where k': "Thread_new (new_regs h) ?n ''user thread'' ?k = Inr k1" "Start run_handler ?n k1 = Inr k'"
      "kernel_ok dev_inv k'" "dev_names (kernel.more k') = dev_names (kernel.more ?k)"
      "\<And>x. semaphores ?k x \<noteq> None \<Longrightarrow> semaphores k' x \<noteq> None" "\<And>x. mach_ok x ?k \<Longrightarrow> mach_ok x k'"
      "\<And>L lk hold await. excl_inv L lk hold await ?k \<Longrightarrow> excl_inv L lk hold await k'"
      "\<And>t. threads k' t \<noteq> None \<longleftrightarrow> threads ?k t \<noteq> None \<or> t = ?n" "threadToBeDestroyed k' = None"
      by (rule spawn [OF d(1) u h]) blast
    let ?sc = "(start_code ?u)(?n \<mapsto> StartUserThread (f, arg, fx, idx))"
    let ?u' = "?u\<lparr>stackMap := sm, kern := k', g_threads := (g_threads ?u)[nat idx := Some ?n], g_threadsIdx := g_threadsIdx ?u + 1,
        start_code := ?sc\<rparr>"
    have new: "threads ?k ?n = None" using h by (simp add: host_ok_def)
    then have pn: "?ps ?n = None" using progs_okD(2) [OF d(5), of ?n] by (cases "?ps ?n") auto
    have "create_thread h f arg fx ?u = Inr ((0, []), ?u')" using f True k'(1,2) by (simp add: create_thread_def Let_def)
    moreover have "sys_inv L a \<lparr>sys = ?u', progs = ?ps(?t \<mapsto> g (0, []))\<rparr>"
    proof (rule sys_next [OF i])
      show "progs_ok L ?u' (?ps(?t \<mapsto> g (0, [])))"
      proof (rule progs_ok_step [OF d(5) v(1) cur(1), where N = "{?n}"])
        show "threads (kern ?u') x \<noteq> None \<longleftrightarrow> threads (kern ?u) x \<noteq> None \<or> x \<in> {?n}" for x using k'(8) [of x] by simp
      qed (use k' StartUserThread_wf [OF L] in auto)
      have "?n \<notin> active_threads ?k ?ps" using new by (simp add: active_threads_def)
      note t = table_create [OF d(6) [OF L] this f True, where k = k' and x = f and y = arg and z = fx]
      have "active_threads k' (?ps(?t \<mapsto> g (0, []))) = insert ?n (active_threads ?k ?ps)"
        by (rule active_add [OF k'(8,9) cur(2) v(4) pn])
      then show "table_ok ?u' (active_threads (kern ?u') (?ps(?t \<mapsto> g (0, []))))" using t by simp
      show "excl_inv L (lock_id ?u) (hold_of (?ps(?t \<mapsto> g (0, [])))) (await_of (?ps(?t \<mapsto> g (0, [])))) (kern ?u')"
        unfolding v using k'(7) [OF d(4)] by simp
    qed (use k' in simp_all)
    ultimately show ?thesis by blast
  qed
qed

lemma exit_step:
  assumes i: "sys_inv L a s" and u: "in_user (kern (sys s))"
    and p: "progs s (currentThread (kern (sys s))) = Some (Do Op_exit_thread g)"
  shows "\<exists>v u'. exit_thread (sys s) = Inr (v, u') \<and> sys_inv L a \<lparr>sys = u', progs = (progs s)(currentThread (kern (sys s)) \<mapsto> g v)\<rparr>"
proof -
  note d = sys_invD [OF i] and pre = op_preD [OF op_pre_sys [OF i u p]]
  let ?k = "kern (sys s)" and ?t = "currentThread (kern (sys s))" and ?ps = "progs s" and ?u = "sys s"
  have wf: "prog_wf L (Do Op_exit_thread g)" by (rule progs_okD(1) [OF d(5) p])
  note v = next_view(1) [OF wf, of "(0, [])"] next_view(2-4) [OF wf, where v = "(0, [])" and ps = ?ps and t = ?t]
  have hv: "hold_of (?ps(?t \<mapsto> g (0, []))) = hold_of ?ps" "await_of (?ps(?t \<mapsto> g (0, []))) = await_of ?ps"
    using v(2,3) pre(5,6) by (simp_all add: fun_upd_idem)
  have L: "ThreadLock \<in> L" using pre(7) by (simp add: op_ok_def)
  note cur = current_thread_lives [OF i u]
  have act: "?t \<in> active_threads ?k ?ps" using cur p by (simp add: active_threads_def leaving_def)
  obtain sm gs where e: "exit_thread ?u = Inr ((0, []), ?u\<lparr>g_threads := gs, stackMap := sm, g_threadsIdx := g_threadsIdx ?u - 1\<rparr>)"
    and t: "table_ok (?u\<lparr>g_threads := gs, stackMap := sm, g_threadsIdx := g_threadsIdx ?u - 1\<rparr>) (active_threads ?k ?ps - {?t})"
    using table_exit [OF d(6) [OF L] act] by blast
  let ?u' = "?u\<lparr>g_threads := gs, stackMap := sm, g_threadsIdx := g_threadsIdx ?u - 1\<rparr>"
  have "sys_inv L a \<lparr>sys = ?u', progs = ?ps(?t \<mapsto> g (0, []))\<rparr>"
  proof (rule sys_next [OF i])
    show "progs_ok L ?u' (?ps(?t \<mapsto> g (0, [])))"
      by (rule progs_ok_step [OF d(5) v(1) cur(1), where N = "{}"]) (use cur in simp_all)
    have "active_threads ?k (?ps(?t \<mapsto> g (0, []))) = active_threads ?k ?ps - {?t}" using v(4) by (auto simp: active_threads_def)
    then show "table_ok ?u' (active_threads (kern ?u') (?ps(?t \<mapsto> g (0, []))))" using t by simp
  qed (use d hv in simp_all)
  then show ?thesis using e by blast
qed

text \<open>A thread that has no lock finishes; what is left of its code is never executed.\<close>

lemma finish_step:
  assumes i: "sys_inv L a s" and u: "in_user (kern (sys s))" and p: "hold_of (progs s) (currentThread (kern (sys s))) = None"
    and q: "prog_wf L q" "p_lock q = None" "p_leaving q = False"
    and l: "ThreadLock \<in> L \<Longrightarrow> leaving (progs s) (currentThread (kern (sys s)))"
  shows "\<exists>k'. Finish (kern (sys s)) = Inr k' \<and>
     sys_inv L a \<lparr>sys = (sys s)\<lparr>kern := k'\<rparr>, progs = (progs s)(currentThread (kern (sys s)) \<mapsto> q)\<rparr>"
proof -
  note d = sys_invD [OF i]
  let ?k = "kern (sys s)" and ?t = "currentThread (kern (sys s))" and ?ps = "progs s" and ?u = "sys s"
  obtain k' where k': "Finish ?k = Inr k'" "kernel_ok dev_inv k'" "\<And>s t. waits k' s t = waits ?k s t" "kernel.more k' = kernel.more ?k"
    "semaphores k' = semaphores ?k" "pending k' = pending ?k" "\<And>x. mach_ok x ?k \<Longrightarrow> mach_ok x k'"
    "\<And>t. threads k' t \<noteq> None \<longleftrightarrow> threads ?k t \<noteq> None" "threadToBeDestroyed k' = Some ?t"
    by (rule Finish_frame [OF d(1) u]) blast
  note cur = current_thread_lives [OF i u]
  have aw: "await_of ?ps ?t = None" using p by (auto simp: hold_of_def await_of_def split: option.splits)
  have hv: "hold_of (?ps(?t \<mapsto> q)) = hold_of ?ps" "await_of (?ps(?t \<mapsto> q)) = await_of ?ps"
    unfolding view_upd using p q(2) aw by (simp_all add: fun_upd_idem)
  have "sys_inv L a \<lparr>sys = ?u\<lparr>kern := k'\<rparr>, progs = ?ps(?t \<mapsto> q)\<rparr>"
  proof (rule sys_next [OF i])
    show "progs_ok L (?u\<lparr>kern := k'\<rparr>) (?ps(?t \<mapsto> q))"
      by (rule progs_ok_step [OF d(5) q(1) cur(1), where N = "{}"]) (use k'(8,9) q(2) in simp_all)
    show "table_ok (?u\<lparr>kern := k'\<rparr>) (active_threads (kern (?u\<lparr>kern := k'\<rparr>)) (?ps(?t \<mapsto> q)))" if L: "ThreadLock \<in> L"
    proof -
      have "active_threads k' (?ps(?t \<mapsto> q)) = active_threads ?k ?ps"
        unfolding active_threads_def view_upd k'(8,9) using l [OF L] cur(2) by auto
      then show ?thesis using d(6) [OF L] table_same [of "?u\<lparr>kern := k'\<rparr>" ?u] by simp
    qed
    show "excl_inv L (lock_id ?u) (hold_of (?ps(?t \<mapsto> q))) (await_of (?ps(?t \<mapsto> q))) (kern (?u\<lparr>kern := k'\<rparr>))"
      unfolding hv by (rule excl_same [OF d(4)]) (use k' in simp_all)
  qed (use k' in simp_all)
  then show ?thesis using k'(1) by blast
qed

lemma leave_step:
  assumes i: "sys_inv L a s" and u: "in_user (kern (sys s))"
    and p: "progs s (currentThread (kern (sys s))) = Some (Do Op_leave g)"
  shows "case leave (sys s) of Inl e \<Rightarrow> e = MachineHalted
     | Inr (v, u') \<Rightarrow> sys_inv L a \<lparr>sys = u', progs = (progs s)(currentThread (kern (sys s)) \<mapsto> g v)\<rparr>"
proof (cases "g_threadsIdx (sys s) \<ge> 0")
  case True
  have wf: "prog_wf L (Do Op_leave g)" by (rule progs_okD(1) [OF sys_invD(5) [OF i] p])
  then have q: "prog_wf L (g (0, []))" "p_lock (g (0, [])) = None" "p_leaving (g (0, [])) = False" by auto
  have "hold_of (progs s) (currentThread (kern (sys s))) = None" "leaving (progs s) (currentThread (kern (sys s)))"
    using p by (simp_all add: hold_of_def leaving_def)
  then show ?thesis using finish_step [OF i u _ q] True by (auto simp: leave_def on_kernel_def)
qed (simp add: leave_def on_kernel_def Halt_def)

lemma returned_step:
  assumes i: "sys_inv L a s" and u: "in_user (kern (sys s))" and p: "progs s (currentThread (kern (sys s))) = Some Returned"
  shows "\<exists>k'. Finish (kern (sys s)) = Inr k' \<and> sys_inv L a (s\<lparr>sys := (sys s)\<lparr>kern := k'\<rparr>\<rparr>)"
proof -
  have wf: "prog_wf L Returned" by (rule progs_okD(1) [OF sys_invD(5) [OF i] p])
  have "hold_of (progs s) (currentThread (kern (sys s))) = None" using p by (simp add: hold_of_def)
  moreover have "(progs s)(currentThread (kern (sys s)) \<mapsto> Returned) = progs s" using p by auto
  ultimately obtain k' where "Finish (kern (sys s)) = Inr k'" "sys_inv L a \<lparr>sys = (sys s)\<lparr>kern := k'\<rparr>, progs = progs s\<rparr>"
    using finish_step [OF i u _ wf] wf by auto
  moreover have "\<lparr>sys = x, progs = progs s\<rparr> = s\<lparr>sys := x\<rparr>" for x by simp
  ultimately show ?thesis by auto
qed

lemma fork_step:
  assumes i: "sys_inv L a s" and u: "in_user (kern (sys s))" and h: "host_ok h (kern (sys s))"
    and p: "progs s (currentThread (kern (sys s))) = Some (Fork name f q)"
  shows "\<exists>u'. fork_thread h name f (sys s) = Inr u' \<and> sys_inv L a \<lparr>sys = u', progs = (progs s)(currentThread (kern (sys s)) \<mapsto> q)\<rparr>"
proof -
  note d = sys_invD [OF i]
  let ?k = "kern (sys s)" and ?t = "currentThread (kern (sys s))" and ?ps = "progs s" and ?n = "new_tid h" and ?u = "sys s"
  have wf: "prog_wf L (Fork name f q)" by (rule progs_okD(1) [OF d(5) p])
  then have q: "ThreadLock \<notin> L" "free_wf L f" "prog_wf L q" "p_lock q = None" by (simp_all add: free_wf_def)
  have hv: "hold_of (?ps(?t \<mapsto> q)) = hold_of ?ps" "await_of (?ps(?t \<mapsto> q)) = await_of ?ps"
    unfolding view_upd using p q(4) by (simp_all add: fun_upd_idem hold_of_def await_of_def)
  obtain k1 k' where k': "Thread_new (new_regs h) ?n name ?k = Inr k1" "Start run_handler ?n k1 = Inr k'"
    "kernel_ok dev_inv k'" "dev_names (kernel.more k') = dev_names (kernel.more ?k)"
    "\<And>x. semaphores ?k x \<noteq> None \<Longrightarrow> semaphores k' x \<noteq> None" "\<And>x. mach_ok x ?k \<Longrightarrow> mach_ok x k'"
    "\<And>L lk hold await. excl_inv L lk hold await ?k \<Longrightarrow> excl_inv L lk hold await k'"
    "\<And>t. threads k' t \<noteq> None \<longleftrightarrow> threads ?k t \<noteq> None \<or> t = ?n" "threadToBeDestroyed k' = None"
    by (rule spawn [OF d(1) u h]) blast
  let ?u' = "?u\<lparr>kern := k', start_code := (start_code ?u)(?n \<mapsto> f)\<rparr>"
  have "sys_inv L a \<lparr>sys = ?u', progs = ?ps(?t \<mapsto> q)\<rparr>"
  proof (rule sys_next [OF i])
    show "progs_ok L ?u' (?ps(?t \<mapsto> q))"
    proof (rule progs_ok_step [OF d(5) q(3) current_thread_lives(1) [OF i u], where N = "{?n}"])
      show "threads (kern ?u') x \<noteq> None \<longleftrightarrow> threads (kern ?u) x \<noteq> None \<or> x \<in> {?n}" for x using k'(8) [of x] by simp
    qed (use k' q in auto)
    show "excl_inv L (lock_id ?u) (hold_of (?ps(?t \<mapsto> q))) (await_of (?ps(?t \<mapsto> q))) (kern ?u')"
      unfolding hv using k'(7) [OF d(4)] by simp
  qed (use k' q(1) in simp_all)
  moreover have "fork_thread h name f ?u = Inr ?u'" using k'(1,2) by (simp add: fork_thread_def)
  ultimately show ?thesis by blast
qed

lemma start_step:
  assumes i: "sys_inv L a s" and u: "in_user (kern (sys s))" and p: "progs s (currentThread (kern (sys s))) = None"
  shows "\<exists>q. start_code (sys s) (currentThread (kern (sys s))) = Some q \<and> sys_inv L a (s\<lparr>progs := (progs s)(currentThread (kern (sys s)) \<mapsto> q)\<rparr>)"
proof -
  note d = sys_invD [OF i] and cur = current_thread_lives [OF i u]
  let ?k = "kern (sys s)" and ?t = "currentThread (kern (sys s))" and ?ps = "progs s" and ?u = "sys s"
  obtain q where q: "start_code ?u ?t = Some q" "free_wf L q" using progs_okD(3) [OF d(5) cur(1) p] by blast
  then have f: "prog_wf L q" "p_lock q = None" "\<not> p_leaving q" by (simp_all add: free_wf_def)
  have hv: "hold_of (?ps(?t \<mapsto> q)) = hold_of ?ps" "await_of (?ps(?t \<mapsto> q)) = await_of ?ps" "leaving (?ps(?t \<mapsto> q)) = leaving ?ps"
    unfolding view_upd using p f by (auto simp: fun_upd_idem hold_of_def await_of_def leaving_def fun_eq_iff)
  have "sys_inv L a \<lparr>sys = ?u, progs = ?ps(?t \<mapsto> q)\<rparr>"
  proof (rule sys_next [OF i])
    show "progs_ok L ?u (?ps(?t \<mapsto> q))"
      by (rule progs_ok_step [OF d(5) f(1) cur(1), where N = "{}"]) (use cur in simp_all)
    show "table_ok ?u (active_threads ?k (?ps(?t \<mapsto> q)))" if "ThreadLock \<in> L"
      using d(6) [OF that] hv(3) by (simp add: active_threads_def)
  qed (use d hv in simp_all)
  moreover have "\<lparr>sys = ?u, progs = x\<rparr> = s\<lparr>progs := x\<rparr>" for x by simp
  ultimately show ?thesis using q(1) by simp
qed

text \<open>One instruction of a user program.\<close>

lemma OneInstruction_keeps:
  assumes m: "user_machine m"
  shows "case OneInstruction big m of Inl e \<Rightarrow> e = ArithmeticTrap | Inr (t, m') \<Rightarrow> mach_keeps m m'"
proof -
  note d = user_machineD [OF m]
  have lr: "unat (reg m LoadReg) < NumGPRegs" using d(5) by (simp add: reg_def)
  show ?thesis
  proof (rule OneInstruction_cases [OF d(1,2) lr, of big])
    fix lr lv pc m2 m3
    assume dl: "DelayedLoad lr lv m2 = Inr m3" and o: "OneInstruction big m = Inr (None, advance_pc pc m3)"
      and k: "exec_keeps m m2" and l: "unat lr < NumGPRegs"
    have m2: "machine_wf m2" "unat (reg m2 LoadReg) < NumGPRegs" "same_translation m m2"
      using k lr by (simp_all add: exec_keeps_def)
    note m3 = DelayedLoad_reg [OF m2(1,2) dl]
    note m4 = advance_pc_reg [OF m3(1)]
    have "same_translation m (advance_pc pc m3)"
      using m2(3) dl by (auto simp: DelayedLoad_def Let_def advance_pc_def split: if_splits)
    moreover have "regs_ok (registers (advance_pc pc m3))"
      using m4(1) m4(3) [of pc LoadReg] m3(3) [of LoadReg] l by (simp add: regs_ok_def reg_def machine_wf_length)
    ultimately show ?thesis using o m4(1) by (simp add: mach_keeps_def)
  qed (use d(6) in \<open>simp_all add: mach_keeps_def\<close>)
qed

lemma instruction_step:
  assumes i: "sys_inv L a s" and u: "in_user (kern (sys s))" and p: "progs s (currentThread (kern (sys s))) = Some Machine_Run"
    and L: "{ReadLock, WriteLock, ThreadLock} \<subseteq> L"
  shows "case run_instruction big (sys s) of Inl e \<Rightarrow> e = ArithmeticTrap
     | Inr (q, u') \<Rightarrow> sys_inv L a \<lparr>sys = u', progs = (progs s)(currentThread (kern (sys s)) \<mapsto> q)\<rparr>"
proof -
  note d = sys_invD [OF i] and cur = current_thread_lives [OF i u]
  let ?k = "kern (sys s)" and ?t = "currentThread (kern (sys s))" and ?ps = "progs s" and ?u = "sys s"
  have tl: "ThreadLock \<in> L" using L by simp
  obtain m where m: "cpu ?k = Some m" "user_machine m" by (rule user_cpu [OF d(1) d(2) [OF tl]])
  let ?tick = "seq Op_OneTick Machine_Run"
  have tick: "free_wf L ?tick" using tl by (simp add: wf_simps)
  show ?thesis
  proof (cases "OneInstruction big m")
    case (Inl e)
    then show ?thesis using OneInstruction_keeps [OF m(2), of big] m(1) by (simp add: run_instruction_def)
  next
    case (Inr r)
    obtain tr m' where r: "r = (tr, m')" by fastforce
    have mk: "mach_keeps m m'" using OneInstruction_keeps [OF m(2), of big] Inr r by simp
    note c = set_cpu_ok [OF d(1) m(1) mk]
    let ?k' = "?k\<lparr>cpu := Some m'\<rparr>"
    define q where "q = (case tr of None \<Rightarrow> ?tick | Some trap \<Rightarrow> RaiseException trap (status ?k) ?tick)"
    have "free_wf L q" using tick RaiseException_wf [OF L tick] by (simp add: q_def split: option.split)
    then have f: "prog_wf L q" "p_lock q = None" "\<not> p_leaving q" by (simp_all add: free_wf_def)
    have hv: "hold_of (?ps(?t \<mapsto> q)) = hold_of ?ps" "await_of (?ps(?t \<mapsto> q)) = await_of ?ps" "leaving (?ps(?t \<mapsto> q)) = leaving ?ps"
      unfolding view_upd using p f by (auto simp: fun_upd_idem hold_of_def await_of_def leaving_def fun_eq_iff)
    note rd = struct_relD [OF keeps_struct [OF c(2)]]
    have "sys_inv L a \<lparr>sys = ?u\<lparr>kern := ?k'\<rparr>, progs = ?ps(?t \<mapsto> q)\<rparr>"
    proof (rule sys_next [OF i])
      show "progs_ok L (?u\<lparr>kern := ?k'\<rparr>) (?ps(?t \<mapsto> q))"
        by (rule progs_ok_step [OF d(5) f(1) cur(1), where N = "{}"]) (use cur in simp_all)
      show "table_ok (?u\<lparr>kern := ?k'\<rparr>) (active_threads (kern (?u\<lparr>kern := ?k'\<rparr>)) (?ps(?t \<mapsto> q)))" if "ThreadLock \<in> L"
        using d(6) [OF that] hv(3) table_same [of "?u\<lparr>kern := ?k'\<rparr>" ?u] by (simp add: active_threads_def)
      show "excl_inv L (lock_id ?u) (hold_of (?ps(?t \<mapsto> q))) (await_of (?ps(?t \<mapsto> q))) (kern (?u\<lparr>kern := ?k'\<rparr>))"
        unfolding hv using excl_keeps [OF d(4) c(2)] by simp
    qed (use c rd in simp_all)
    moreover have "run_instruction big ?u = Inr (q, ?u\<lparr>kern := ?k'\<rparr>)" using m(1) Inr r by (simp add: run_instruction_def Let_def q_def)
    ultimately show ?thesis by simp
  qed
qed

section \<open>One step of the system\<close>

text \<open>How a step may end the simulation.\<close>

definition may_end :: "running \<Rightarrow> nachos_error \<Rightarrow> bool" where
  "may_end s e \<longleftrightarrow>
     (if \<not> in_user (kern (sys s)) then e = MachineHalted
      else case progs s (currentThread (kern (sys s))) of
          Some (Do c g) \<Rightarrow> may_fail c e
        | Some Machine_Run \<Rightarrow> e = ArithmeticTrap
        | _ \<Rightarrow> False)"

lemma ustep_inv:
  assumes i: "sys_inv L a s" and h: "host_ok h (kern (sys s))" and L: "ThreadLock \<in> L \<longrightarrow> {ReadLock, WriteLock} \<subseteq> L"
  shows "case ustep big h s of Inl e \<Rightarrow> may_end s e | Inr s' \<Rightarrow> sys_inv L a s'"
proof (cases "in_user (kern (sys s))")
  case False
  note st = nachos.kstep_ok [OF sys_invD(1) [OF i]]
  show ?thesis
  proof (cases "kstep run_handler (kern (sys s))")
    case (Inl e)
    then show ?thesis using False st no_handler_failure by (auto simp: ustep_def Let_def may_end_def)
  next
    case (Inr k')
    then show ?thesis using False kernel_step_inv [OF i Inr] by (simp add: ustep_def Let_def)
  qed
next
  case u: True
  let ?t = "currentThread (kern (sys s))"
  show ?thesis
  proof (cases "progs s ?t")
    case None
    then show ?thesis using u start_step [OF i u None] by (auto simp: ustep_def Let_def)
  next
    case (Some p)
    have wf: "prog_wf L p" by (rule progs_okD(1) [OF sys_invD(5) [OF i] Some])
    show ?thesis
    proof (cases p)
      case Machine_Run
      then have "{ReadLock, WriteLock, ThreadLock} \<subseteq> L" using wf L by simp
      from instruction_step [OF i u _ this, of big] show ?thesis using u Some Machine_Run
        by (cases "run_instruction big (sys s)") (auto simp: ustep_def Let_def may_end_def)
    next
      case Returned
      then show ?thesis using u Some returned_step [OF i u] by (auto simp: ustep_def Let_def)
    next
      case (Fork n f q)
      then show ?thesis using u Some fork_step [OF i u h] by (fastforce simp: ustep_def Let_def)
    next
      case (Do c g)
      note p = Some [unfolded Do]
      have st: "ustep big h s = bindR (do_op big h c (sys s)) (\<lambda>(v, u'). Inr \<lparr>sys = u', progs = (progs s)(?t \<mapsto> g v)\<rparr>)"
        using u p by (simp add: ustep_def Let_def)
      have e: "may_end s e = may_fail c e" for e using u p by (simp add: may_end_def)
      consider "plain c" | f arg fx where "c = Op_create_thread f arg fx" | "c = Op_exit_thread" | "c = Op_leave"
        by (auto simp: plain_def)
      then show ?thesis
      proof cases
        case 1
        note r = plain_op [OF op_pre_sys [OF i u p] 1, of big h] and n = plain_step [OF i u p 1, of big h]
        show ?thesis using r n unfolding st
          by (cases "do_op big h c (sys s)") (auto simp: op_result_def e)
      next
        case 2
        then show ?thesis using create_step [OF i u h p [unfolded 2]] unfolding st by auto
      next
        case 3
        then show ?thesis using exit_step [OF i u p [unfolded 3]] unfolding st by auto
      next
        case 4
        then show ?thesis using leave_step [OF i u p [unfolded 4]] unfolding st
          by (cases "leave (sys s)") (auto simp: e)
      qed
    qed
  qed
qed


end
