(* ===== verification/Nachos_Boot.thy ===== *)
theory Nachos_Boot
  imports Nachos_UserSafe
begin

text \<open>
  The invariant of the system holds when Nachos has started: with the console and a user program (\<open>boot_user\<close>), or with
  the disk and kernel threads (\<open>boot_disk\<close>); hence in every state that is reached.
\<close>

section \<open>Exclusion in a kernel that grows\<close>

lemma excl_cong:
  assumes i: "excl_inv L lk hold await k" and k': "\<And>s t. waits k' s t = waits k s t" "\<And>s. sval k' s = sval k s"
    "dev_sems (kernel.more k') = dev_sems (kernel.more k)" "sems_distinct (kernel.more k') = sems_distinct (kernel.more k)"
    "\<And>h. dev_sem h (kernel.more k') = dev_sem h (kernel.more k)" "\<And>h. dev_busy h (kernel.more k') = dev_busy h (kernel.more k)"
    "\<And>h. h = ConsoleWriteDone \<or> h = DiskDone \<Longrightarrow> pend h k' = pend h k"
    and l: "\<And>l. l \<in> L \<Longrightarrow> lk' l = lk l"
  shows "excl_inv L lk' hold await k'"
proof -
  note d = excl_invD [OF i]
  have acc: "dev_acc h 0 k' = dev_acc h 0 k" "dev_bal h 0 k' = dev_bal h 0 k" if "h = ConsoleWriteDone \<or> h = DiskDone" for h
    using k'(2,5-7) that by (simp_all add: dev_acc_def dev_bal_def split: option.split)
  show ?thesis
  proof (rule excl_invI)
    show "sems_distinct (kernel.more k')" "finite {t. hold t \<noteq> None}" using d(1,4) k'(4) by simp_all
    show "inj_on lk' L" using d(2) l by (simp add: inj_on_def)
    show "lk' x \<notin> dev_sems (kernel.more k')" if "x \<in> L" for x using d(3) l that k'(3) by simp
    show "hold t = Some x \<Longrightarrow> x \<in> L" for t x by (rule d(5))
    show "await t = Some h \<Longrightarrow> hold t = Some (dev_lock h)" for t h by (rule d(6))
    show "hold t = Some x \<and> await t = None" if "x \<in> L" "waits k' (lk' x) t" for x t using d(7) [of x t] that l k'(1) by simp
    show "sval k' (lk' x) + int (card {t. hold t = Some x \<and> \<not> waits k' (lk' x) t}) = 1" if "x \<in> L" for x
      using d(8) [OF that] l [OF that] k'(1,2) by simp
    show "dev_acc h 0 k'" if "h = ConsoleWriteDone \<or> h = DiskDone" for h using d(9) [OF that] acc [OF that] by simp
    show "hold t = Some (dev_lock h) \<and> await t = None" if "dev_sem h (kernel.more k') = Some ds" "waits k' ds t" for h ds t
      using d(10) [of h ds t] that k'(1,5) by simp
    show "dev_bal h 0 k' = int (card {t. await t = Some h \<or> waits k' ds t})" if "dev_sem h (kernel.more k') = Some ds" for h ds
      using d(11) [of h ds] that k'(1,5) acc(2) dev_sem_in(2) [of h "kernel.more k" ds] by simp
  qed
qed

lemma new_sem_effect:
  assumes "semaphores k s = None" "\<And>t. \<not> waits k s t"
  shows "waits (Semaphore_new s n v k) x t = waits k x t" "sval (Semaphore_new s n v k) x = (if x = s then v else sval k x)"
    "kernel.more (Semaphore_new s n v k) = kernel.more k" "pend h (Semaphore_new s n v k') = pend h k'"
  using assms by (auto simp: Semaphore_new_def waits_def sval_def pend_def)

text \<open>A new lock is free.\<close>

lemma excl_new_lock:
  assumes i: "excl_inv L lk hold await k" and kv: "\<And>t. \<not> waits k s t" and s: "semaphores k s = None" "s \<notin> dev_sems (kernel.more k)"
    and l: "l \<notin> L" "\<And>x. x \<in> L \<Longrightarrow> lk x \<noteq> s"
  shows "excl_inv (insert l L) (lk(l := s)) hold await (Lock_new s n k)" (is "excl_inv _ ?lk _ _ ?k")
proof -
  note d = excl_invD [OF i]
  have w: "waits ?k x t = waits k x t" "sval ?k x = (if x = s then 1 else sval k x)" "kernel.more ?k = kernel.more k" "pend h ?k = pend h k"
    "\<not> waits k s t" for x t h
    unfolding Lock_new_def using new_sem_effect [OF s(1) kv] kv by simp_all
  have ds: "ds \<noteq> s" if "dev_sem h (kernel.more k) = Some ds" for h ds using dev_sem_in(1) [OF that] s(2) by auto
  have acc: "dev_acc h 0 ?k = dev_acc h 0 k" "dev_bal h 0 ?k = dev_bal h 0 k" for h
    using w(2-4) ds [of h] by (auto simp: dev_acc_def dev_bal_def split: option.split)
  have lk: "?lk x = lk x" "x \<noteq> l" if "x \<in> L" for x using that l(1) by auto
  show ?thesis
  proof (rule excl_invI)
    show "sems_distinct (kernel.more ?k)" "finite {t. hold t \<noteq> None}" using d(1,4) w(3) by simp_all
    show "inj_on ?lk (insert l L)" using d(2) l by (auto simp: inj_on_def)
    show "?lk x \<notin> dev_sems (kernel.more ?k)" if "x \<in> insert l L" for x using d(3) [of x] s(2) that w(3) by auto
    show "hold t = Some x \<Longrightarrow> x \<in> insert l L" for t x using d(5) by blast
    show "await t = Some h \<Longrightarrow> hold t = Some (dev_lock h)" for t h by (rule d(6))
    show "hold t = Some x \<and> await t = None" if "x \<in> insert l L" "waits ?k (?lk x) t" for x t
      using that d(7) [of x t] w(1,5) by (auto split: if_splits)
    show "sval ?k (?lk x) + int (card {t. hold t = Some x \<and> \<not> waits ?k (?lk x) t}) = 1" if "x \<in> insert l L" for x
    proof (cases "x = l")
      case True
      have "hold t \<noteq> Some l" for t using d(5) l(1) by blast
      then show ?thesis using True w(2) by simp
    next
      case False
      then show ?thesis using d(8) [of x] that l(2) [of x] w by simp
    qed
    show "dev_acc h 0 ?k" if "h = ConsoleWriteDone \<or> h = DiskDone" for h using d(9) [OF that] acc by simp
    show "hold t = Some (dev_lock h) \<and> await t = None" if "dev_sem h (kernel.more ?k) = Some ds" "waits ?k ds t" for h ds t
      using d(10) [of h ds t] that w by simp
    show "dev_bal h 0 ?k = int (card {t. await t = Some h \<or> waits ?k ds t})" if "dev_sem h (kernel.more ?k) = Some ds" for h ds
      using d(11) [of h ds] that w acc by simp
  qed
qed

section \<open>The kernel when Initialize has enabled interrupts\<close>

lemma excl_start:
  assumes "sems_distinct (kernel.more k)" "\<And>s t. \<not> waits k s t" "synchDisk (kernel.more k) = None" "console (kernel.more k) = None"
    "sval k (writeDone (kernel.more k)) = 0" "pend ConsoleWriteDone k = 0" "pend DiskDone k = 0"
  shows "excl_inv {} lk (\<lambda>_. None) (\<lambda>_. None) k"
proof (rule excl_invI)
  show "dev_acc h 0 k" if "h = ConsoleWriteDone \<or> h = DiskDone" for h using that assms(3,4,6,7) by (auto simp: dev_acc_def)
  show "dev_bal h 0 k = int (card {t. None = Some h \<or> waits k ds t})" if "dev_sem h (kernel.more k) = Some ds" for h ds
    using that dev_sem_in(2) [OF that] assms(2,3,5,6) by (auto simp: dev_bal_def)
qed (use assms in simp_all)

lemma settles_ok:
  assumes "settles k k'" "kernel_ok dev_inv k" "excl_inv L lk hold await k"
  shows "kernel_ok dev_inv k' \<and> in_user k' \<and> excl_inv L lk hold await k' \<and> struct_rel k k'"
  using assms
proof (induction rule: settles.induct)
  case (settled k)
  have "struct_rel k k" by (rule struct_same) simp_all
  then show ?case using settled by simp
next
  case (settle k k1 k')
  have "kernel_ok dev_inv k1" using nachos.kstep_ok [OF settle.prems(1)] settle.hyps(2) by simp
  then show ?case using settle.IH kstep_excl [OF settle.prems settle.hyps(2)] struct_trans by blast
qed

lemma before_enable:
  assumes b: "boot_ok garbage d" and k: "(if r then start_timer (power_on d) else Inr (power_on d)) = Inr k"
  shows "threads k = (\<lambda>_. None)" "semaphores k = semaphores (power_on d)" "threadToBeDestroyed k = None"
    "dev_names (kernel.more k) = dev_names d" "pend ConsoleWriteDone k = 0" "pend DiskDone k = 0"
  using k b by (auto simp: start_timer_def Random_def Let_def Timer_new_def Schedule_def res_simps dev_names_def pend_def
      PendingInterrupt_new_def split: if_splits)

definition booted :: "Devices \<Rightarrow> nachos \<Rightarrow> bool" where
  "booted d k \<longleftrightarrow> kernel_ok dev_inv k \<and> in_user k \<and> excl_inv {} (\<lambda>_. 0) (\<lambda>_. None) (\<lambda>_. None) k \<and>
     (\<forall>t. threads k t \<noteq> None \<longleftrightarrow> t = 0) \<and> currentThread k = 0 \<and> threadToBeDestroyed k = None \<and>
     dom (semaphores k) = {readAvail d, writeDone d} \<and> dev_names (kernel.more k) = dev_names d"

lemma Initialize_booted:
  assumes b: "boot_ok garbage d" and ki: "Initialize r garbage d = Inr ki" and k0: "settles ki k0"
  shows "booted d k0"
proof -
  obtain k where k: "(if r then start_timer (power_on d) else Inr (power_on d)) = Inr k"
    and e: "SetLevel run_handler IntOn (put_thread 0 (main_thread garbage) k) = Inr ki"
    using ki by (auto simp: Initialize_def Enable_def res_simps)
  let ?k = "put_thread 0 (main_thread garbage) k"
  note p = before_enable [OF b k]
  have d: "dev_names (kernel.more ?k) = dev_names d" using p(4) by simp
  then have nm: "sems_distinct (kernel.more ?k)" "writeDone (kernel.more ?k) = writeDone d" "synchDisk (kernel.more ?k) = None" "console (kernel.more ?k) = None"
    using b names_sems [OF d] by (auto simp: dev_names_def boot_ok_def sems_distinct_def)
  have "excl_inv {} (\<lambda>_. 0) (\<lambda>_. None) (\<lambda>_. None) ?k"
    by (rule excl_start) (use nm p in \<open>simp_all add: waits_def main_thread_def sval_def pend_def\<close>)
  moreover have kp: "keeps ?k ki" by (rule acct.SetLevel_R [OF e])
  ultimately have ei: "excl_inv {} (\<lambda>_. 0) (\<lambda>_. None) (\<lambda>_. None) ki" by (rule excl_keeps)
  have ok: "kernel_ok dev_inv ki" using Initialize_ok [OF b, of r] ki by auto
  have s: "kernel_ok dev_inv k0" "in_user k0" "excl_inv {} (\<lambda>_. 0) (\<lambda>_. None) (\<lambda>_. None) k0" "struct_rel ?k k0"
    using settles_ok [OF k0 ok ei] struct_trans [OF keeps_struct [OF kp]] by blast+
  note r = struct_relD [OF s(4)]
  have t: "threads k0 t \<noteq> None \<longleftrightarrow> t = 0" for t
    using r(6) [of t] r(7) [of t] p(1,3) by (cases "threads k0 t"; cases "t = 0") auto
  have c: "currentThread k0 = 0" using t [of "currentThread k0"] kinv_current s(1) by (auto simp: kernel_ok_def)
  have tb: "threadToBeDestroyed k0 = None" using r(4) p(3) by auto
  have sd: "dom (semaphores k0) = {readAvail d, writeDone d}" using r(8) p(2) by auto
  show ?thesis unfolding booted_def using s(1-3) t c tb sd r(1) d by simp
qed

section \<open>Starting a user program\<close>

definition boot_args_ok :: "boot_args \<Rightarrow> bool" where
  "boot_args_ok b \<longleftrightarrow> boot_ok (b_regs b) (b_devices b) \<and> b_bitmap b \<noteq> [] \<and>
     distinct [readAvail (b_devices b), writeDone (b_devices b), b_threadLock b, b_readLock b, b_writeLock b]"

lemma bootedD:
  assumes "booted d k"
  shows "kernel_ok dev_inv k" "in_user k" "excl_inv {} (\<lambda>_. 0) (\<lambda>_. None) (\<lambda>_. None) k" "\<And>t. threads k t \<noteq> None \<longleftrightarrow> t = 0"
    "currentThread k = 0" "threadToBeDestroyed k = None" "dom (semaphores k) = {readAvail d, writeDone d}"
    "dev_names (kernel.more k) = dev_names d" "\<And>s t. \<not> waits k s t"
proof -
  show b: "kernel_ok dev_inv k" "in_user k" "excl_inv {} (\<lambda>_. 0) (\<lambda>_. None) (\<lambda>_. None) k" "\<And>t. threads k t \<noteq> None \<longleftrightarrow> t = 0"
    "currentThread k = 0" "threadToBeDestroyed k = None" "dom (semaphores k) = {readAvail d, writeDone d}"
    "dev_names (kernel.more k) = dev_names d"
    using assms unfolding booted_def by auto
  show "\<not> waits k s t" for s t
    using b(2,5) b(4) [of t] by (cases "t = 0") (auto simp: waits_def in_user_def split: option.splits)
qed

lemma Machine_new_kernel_ok:
  assumes "kernel_ok dev_inv k"
  shows "kernel_ok dev_inv (k\<lparr>cpu := Some (Machine_new x)\<rparr>)"
proof -
  have "kinv dev_inv [] k" "linv k" using assms by (simp_all add: kernel_ok_def)
  then show ?thesis by (auto simp: kernel_ok_def kinv_def cpu_inv_def thread_cpu_ok_def regs_ok_def Machine_new_def)
qed

lemma set_space_kernel_ok:
  assumes ok: "kernel_ok dev_inv k" and th: "threads k (currentThread k) = Some th" and m: "regs_ok (registers m)"
  shows "kernel_ok dev_inv ((put_thread (currentThread k) (th\<lparr>space := Some a\<rparr>) (k\<lparr>spaces := (spaces k)(a \<mapsto> sp)\<rparr>))\<lparr>cpu := Some m\<rparr>)"
    (is "kernel_ok _ ?k")
proof -
  have i: "kinv dev_inv [] k" "linv k" using ok by (simp_all add: kernel_ok_def)
  have v: "tview_of [] ?k = tview_of [] k" using th by (auto simp: tview_of_def fun_eq_iff)
  have "cpu_inv ?k" using kinvD(2) [OF i(1)] m th by (auto simp: cpu_inv_def thread_cpu_ok_def)
  moreover have "devs_ok dev_inv ?k" using kinvD(3) [OF i(1)] by (simp add: devs_ok_def)
  ultimately have "kinv dev_inv [] ?k" using kinvD(1) [OF i(1)] v by (simp add: kinv_def)
  moreover have "linv ?k" using i(2) th by (simp add: linv_def cong: list.case_cong frame.case_cong)
  ultimately show ?thesis by (simp add: kernel_ok_def)
qed

text \<open>Loading leaves the registers alone, InitRegisters everything but the registers.\<close>

lemma load_segment_frame: "load_segment r x s m = Inr m' \<Longrightarrow> \<exists>mm. m' = m\<lparr>mainMemory := mm\<rparr>"
  by (cases m) (auto simp: load_segment_def Let_def res_simps split: if_splits)

lemma AddrSpace_new_frame:
  assumes "AddrSpace_new r big g pt p x m = Inr (sp, m')"
  shows "registers m' = registers m" "tlb m' = tlb m" "pageTable m' = pageTable m" "pageTableSize m' = pageTableSize m" "asPageTable sp = p" "numPages sp \<le> NumPhysPages"
    "\<exists>pt. ptables m' p = Some pt \<and> length pt = numPages sp"
  using assms by (auto simp: AddrSpace_new_def Let_def res_simps split: if_splits dest!: load_segment_frame)

lemma WriteRegister_frame: "WriteRegister r v m = Inr m' \<Longrightarrow> \<exists>x. m' = m\<lparr>registers := x\<rparr>"
  by (auto simp: WriteRegister_def res_simps)

lemma clear_registers_frame: "clear_registers ns m = Inr m' \<Longrightarrow> \<exists>x. m' = m\<lparr>registers := x\<rparr>"
proof (induction ns arbitrary: m)
  case Nil
  then have "m' = m\<lparr>registers := registers m\<rparr>" by simp
  then show ?case by blast
next
  case (Cons n ns)
  then obtain m1 where m1: "WriteRegister n 0 m = Inr m1" "clear_registers ns m1 = Inr m'" by (auto simp: res_simps)
  then show ?case using WriteRegister_frame [OF m1(1)] Cons.IH [OF m1(2)] by auto
qed

lemma InitRegisters_frame:
  assumes i: "InitRegisters sp m = Inr m'" and m: "machine_wf m" "regs_ok (registers m)"
  shows "(\<exists>x. m' = m\<lparr>registers := x\<rparr>) \<and> regs_ok (registers m')"
proof -
  have mk: "mach_keeps m m" using m by (simp add: mach_keeps_def)
  obtain m1 where m1: "clear_registers [0..int NumTotalRegs - 1] m = Inr m1" "mach_keeps m m1"
    using clear_registers_keeps [OF mk, of "[0..int NumTotalRegs - 1]"] by fastforce
  obtain m2 where m2: "WriteRegister (int PCReg) USER_START_ADDRESS m1 = Inr m2" "mach_keeps m m2"
    using WriteRegister_keeps [OF m1(2), of "int PCReg"] by auto
  obtain m3 where m3: "WriteRegister (int NextPCReg) (registers m2 ! PCReg + 4) m2 = Inr m3" "mach_keeps m m3"
    using WriteRegister_keeps [OF m2(2), of "int NextPCReg"] by auto
  obtain m4 where m4: "WriteRegister (int StackReg) (of_nat (numPages sp * PageSize) - 16) m3 = Inr m4" "mach_keeps m m4"
    using WriteRegister_keeps [OF m3(2), of "int StackReg"] by auto
  have "m' = m4" using i m1 m2 m3 m4 by (simp add: InitRegisters_def ReadRegister_ok del: upto.simps)
  then show ?thesis
    using m4(2) clear_registers_frame [OF m1(1)] WriteRegister_frame [OF m2(1)] WriteRegister_frame [OF m3(1)] WriteRegister_frame [OF m4(1)]
    by (auto simp: mach_keeps_def)
qed

lemma StartProcess_effect:
  assumes ok: "kernel_ok dev_inv k" and c: "cpu k = Some (Machine_new x)" and th: "\<And>t. threads k t \<noteq> None \<longleftrightarrow> t = currentThread k"
    and s: "StartProcess big g pt p a (Some f) k = Inr k'"
  shows "kernel_ok dev_inv k'" "mach_ok a k'" "\<And>s t. waits k' s t = waits k s t" "kernel.more k' = kernel.more k"
    "semaphores k' = semaphores k" "pending k' = pending k" "\<And>t. threads k' t \<noteq> None \<longleftrightarrow> threads k t \<noteq> None"
    "currentThread k' = currentThread k" "threadToBeDestroyed k' = threadToBeDestroyed k"
proof -
  obtain t where t: "threads k (currentThread k) = Some t" using th [of "currentThread k"] by auto
  obtain sp m1 m2 where m1: "AddrSpace_new Executable_ReadAt big g pt p f (Machine_new x) = Inr (sp, m1)"
    and m2: "InitRegisters sp m1 = Inr m2"
    and k': "k' = (put_thread (currentThread k) (t\<lparr>space := Some a\<rparr>) (k\<lparr>spaces := (spaces k)(a \<mapsto> sp)\<rparr>))
        \<lparr>cpu := Some (m2\<lparr>pageTable := Some (asPageTable sp), pageTableSize := numPages sp\<rparr>)\<rparr>"
    using s c t by (auto simp: StartProcess_def upd_thread_def get_thread_def RestoreState_def put_thread_def res_simps split: option.splits)
  note f = AddrSpace_new_frame [OF m1]
  have "machine_wf m1" "regs_ok (registers m1)" using f(1-3) by (simp_all add: machine_wf_def regs_ok_def Machine_new_def)
  note i = InitRegisters_frame [OF m2 this]
  then obtain y where y: "m2 = m1\<lparr>registers := y\<rparr>" by blast
  show "kernel_ok dev_inv k'" unfolding k' by (rule set_space_kernel_ok [OF ok t]) (use i in simp)
  have "space th = Some a" if "threads k' u = Some th" for u th
    using that th [of u] by (auto simp: k' split: if_splits)
  then show "mach_ok a k'" using f(2,5-7) y by (auto simp: mach_ok_def k' Machine_new_def)
  show "waits k' s u = waits k s u" for s u using t by (simp add: k' waits_def)
  show "kernel.more k' = kernel.more k" "semaphores k' = semaphores k" "pending k' = pending k"
    "currentThread k' = currentThread k" "threadToBeDestroyed k' = threadToBeDestroyed k" by (simp_all add: k')
  show "threads k' u \<noteq> None \<longleftrightarrow> threads k u \<noteq> None" for u using t by (simp add: k')
qed

lemma Schedule_pend: "Schedule x n ty k = Inr k' \<Longrightarrow> pend h k' = pend h k + of_bool (h = x)"
  by (auto simp: Schedule_def Let_def res_simps pend_insert PendingInterrupt_new_def)

lemma SynchConsole_effect:
  assumes i: "excl_inv L lk hold await k" and w: "\<And>s t. \<not> waits k s t" and con: "console (kernel.more k) = None"
    and s: "semaphores k rl = None" "semaphores k wl = None" "rl \<noteq> wl" "rl \<notin> dev_sems (kernel.more k)" "wl \<notin> dev_sems (kernel.more k)"
    and l: "ReadLock \<notin> L" "WriteLock \<notin> L" "\<And>x. x \<in> L \<Longrightarrow> lk x \<noteq> rl \<and> lk x \<noteq> wl"
    and c: "SynchConsole_new None None env rl wl k = Inr k'"
  shows "excl_inv (insert WriteLock (insert ReadLock L)) (lk(ReadLock := rl, WriteLock := wl)) hold await k'"
    "dom (semaphores k') = {rl, wl} \<union> dom (semaphores k)" "threads k' = threads k" "cpu k' = cpu k"
    "currentThread k' = currentThread k" "threadToBeDestroyed k' = threadToBeDestroyed k"
    "console (kernel.more k') \<noteq> None" "m_readLock (kernel.more k') = rl" "m_writeLock (kernel.more k') = wl" "\<not> stdin_busy (kernel.more k)"
proof -
  define con1 where "con1 = env\<lparr>readFileNo := 0, writeFileNo := 1, putBusy := False, incoming := EOF\<rparr>"
  obtain k1 where b: "\<not> stdin_busy (kernel.more k)"
    and sch: "Schedule ConsoleReadPoll 100 ConsoleReadInt (set_console con1 (set_devices ((kernel.more k)\<lparr>stdin_busy := True\<rparr>) k)) = Inr k1"
    and k': "k' = (let k2 = Lock_new wl (Some ''SynchConsole_WriteLock'') (Lock_new rl (Some ''SynchConsole_ReadLock'') k1) in
       set_devices ((kernel.more k2)\<lparr>m_readLock := rl, m_writeLock := wl\<rparr>) k2)"
    using c by (auto simp: SynchConsole_new_def Console_new_def Let_def res_simps con1_def)
  let ?d = "(kernel.more k)\<lparr>stdin_busy := True, console := Some con1\<rparr>"
  have k1: "kernel.more k1 = ?d" "threads k1 = threads k" "semaphores k1 = semaphores k" "cpu k1 = cpu k"
    "currentThread k1 = currentThread k" "threadToBeDestroyed k1 = threadToBeDestroyed k"
    using sch by (auto simp: Schedule_def Let_def res_simps set_console_def)
  have p1: "pend h k1 = pend h k" if "h \<noteq> ConsoleReadPoll" for h
    using Schedule_pend [OF sch, of h] that by (simp add: pend_def set_console_def)
  have w1: "\<not> waits k1 s t" for s t using w [of s t] k1(2) by (simp add: waits_def)
  have names: "dev_sems ?d = dev_sems (kernel.more k)" "sems_distinct ?d = sems_distinct (kernel.more k)"
    "dev_sem h ?d = dev_sem h (kernel.more k)" "dev_busy h ?d = dev_busy h (kernel.more k)" for h
    using con by (cases h; simp add: dev_sems_def sems_distinct_def con1_def)+
  have "excl_inv L lk hold await k1"
    by (rule excl_cong [OF i]) (use k1 p1 names in \<open>auto simp: waits_def sval_def\<close>)
  then have e2: "excl_inv (insert ReadLock L) (lk(ReadLock := rl)) hold await (Lock_new rl (Some ''SynchConsole_ReadLock'') k1)"
    by (rule excl_new_lock) (use w1 s k1 names l in auto)
  let ?k2 = "Lock_new rl (Some ''SynchConsole_ReadLock'') k1" and ?k3 = "Lock_new wl (Some ''SynchConsole_WriteLock'') (Lock_new rl (Some ''SynchConsole_ReadLock'') k1)"
  have w2: "\<not> waits ?k2 s t" for s t using w1 [of s t] by (simp add: Lock_new_def Semaphore_new_def waits_def)
  have e3: "excl_inv (insert WriteLock (insert ReadLock L)) (lk(ReadLock := rl, WriteLock := wl)) hold await ?k3"
  proof (rule excl_new_lock [OF e2 w2])
    show "(lk(ReadLock := rl)) x \<noteq> wl" if "x \<in> insert ReadLock L" for x using that l(3) [of x] s(3) by auto
  qed (use s k1(1,3) names(1) l in \<open>simp_all add: Lock_new_def Semaphore_new_def\<close>)
  let ?d3 = "(kernel.more ?k3)\<lparr>m_readLock := rl, m_writeLock := wl\<rparr>"
  have n3: "dev_sems ?d3 = dev_sems (kernel.more ?k3)" "sems_distinct ?d3 = sems_distinct (kernel.more ?k3)"
    "dev_sem h ?d3 = dev_sem h (kernel.more ?k3)" "dev_busy h ?d3 = dev_busy h (kernel.more ?k3)" for h
    by (cases h; simp add: dev_sems_def sems_distinct_def)+
  have eq: "k' = set_devices ?d3 ?k3" using k' by (simp add: Let_def)
  show "excl_inv (insert WriteLock (insert ReadLock L)) (lk(ReadLock := rl, WriteLock := wl)) hold await k'"
    unfolding eq by (rule excl_cong [OF e3]) (use n3 in \<open>simp_all add: waits_def sval_def pend_def\<close>)
  show "dom (semaphores k') = {rl, wl} \<union> dom (semaphores k)" "threads k' = threads k" "cpu k' = cpu k"
    "currentThread k' = currentThread k" "threadToBeDestroyed k' = threadToBeDestroyed k"
    "console (kernel.more k') \<noteq> None" "m_readLock (kernel.more k') = rl" "m_writeLock (kernel.more k') = wl"
    using k1 by (auto simp: eq Lock_new_def Semaphore_new_def)
  show "\<not> stdin_busy (kernel.more k)" by (rule b)
qed

lemma table_start:
  assumes "BitMap_wf sm" "numBits sm = 10" "marked sm = {}" "stackMap u = sm" "g_threads u = replicate 10 None" "g_threadsIdx u = 0"
  shows "table_ok u {t}"
  by (rule table_okI) (use assms in \<open>simp_all add: slot_tids_def\<close>)

lemma boot_user_inv:
  assumes b: "boot_args_ok b" and k0: "booted (b_devices b) k0" and s: "boot_user big b f k0 = Inr s"
  shows "sys_inv {ReadLock, WriteLock, ThreadLock} (b_space b) s"
proof -
  note d = bootedD [OF k0]
  let ?d = "b_devices b" and ?tl = "b_threadLock b" and ?rl = "b_readLock b" and ?wl = "b_writeLock b"
  have ds: "distinct [readAvail ?d, writeDone ?d, ?tl, ?rl, ?wl]" and bo: "boot_ok (b_regs b) ?d" and bm: "1 \<le> length (b_bitmap b)"
    using b by (cases "b_bitmap b"; simp add: boot_args_ok_def)+
  obtain sm where sm: "BitMap_new (b_bitmap b) (int 10) = Inr sm" "marked sm = {}" "numBits sm = 10" "BitMap_wf sm"
    using BitMap_new_empty [of 10 "b_bitmap b"] bm by (auto simp: divRoundUp_def)
  define kB where "kB = (Lock_new ?tl (Some ''thread_lock'') k0)\<lparr>cpu := Some (Machine_new False)\<rparr>"
  have "semaphores k0 x = None" if "x \<noteq> readAvail ?d" "x \<noteq> writeDone ?d" for x
    using that d(7) domIff [of x "semaphores k0"] by simp
  then have free: "semaphores k0 ?tl = None" "semaphores k0 ?rl = None" "semaphores k0 ?wl = None" using ds by force+
  have sems: "dev_sems (kernel.more k0) = {readAvail ?d, writeDone ?d}" "console (kernel.more k0) = None"
    using d(8) bo names_sems [OF d(8)] by (auto simp: dev_names_def dev_sems_def boot_ok_def)
  have kB: "kernel.more kB = kernel.more k0" "threads kB = threads k0" "dom (semaphores kB) = insert ?tl (dom (semaphores k0))"
    "currentThread kB = 0" "threadToBeDestroyed kB = None" "cpu kB = Some (Machine_new False)"
    using d(5,6) by (auto simp: kB_def Lock_new_def Semaphore_new_def)
  have "kernel_ok dev_inv (Lock_new ?tl (Some ''thread_lock'') k0)" by (rule new_lock_kernel_ok [OF d(1) free(1)])
  then have okB: "kernel_ok dev_inv kB" unfolding kB_def by (rule Machine_new_kernel_ok)
  have wB: "\<not> waits kB s t" for s t using d(9) [of s t] kB(2) by (simp add: waits_def)
  have "excl_inv {ThreadLock} ((\<lambda>_. 0)(ThreadLock := ?tl)) (\<lambda>_. None) (\<lambda>_. None) (Lock_new ?tl (Some ''thread_lock'') k0)"
    by (rule excl_new_lock [OF d(3,9)]) (use free sems ds in auto)
  then have eB: "excl_inv {ThreadLock} ((\<lambda>_. 0)(ThreadLock := ?tl)) (\<lambda>_. None) (\<lambda>_. None) kB"
    unfolding kB_def by (rule excl_same) (simp_all add: waits_def)
  obtain k2 k3 where k2: "SynchConsole_new None None (b_console b) ?rl ?wl kB = Inr k2"
    and k3: "StartProcess big (b_header b) (b_entries b) (b_table b) (b_space b) (Some f) k2 = Inr k3"
    and eq: "s = \<lparr>sys = \<lparr>kern = k3\<lparr>status := UserMode\<rparr>, g_threads = replicate 10 None, stackMap = sm,
                   g_threadsIdx = 0, thread_lock = ?tl, start_code = (\<lambda>_. None)\<rparr>, progs = [currentThread k3 \<mapsto> Machine_Run]\<rparr>"
    using s sm(1) by (auto simp: boot_user_def res_simps kB_def)
  have nB: "semaphores kB ?rl = None" "semaphores kB ?wl = None" "console (kernel.more kB) = None"
    "?rl \<notin> dev_sems (kernel.more kB)" "?wl \<notin> dev_sems (kernel.more kB)"
    using free ds sems kB(1) by (auto simp: kB_def Lock_new_def Semaphore_new_def)
  have dn: "?rl \<noteq> ?wl" "?tl \<noteq> ?rl" "?tl \<noteq> ?wl" using ds by auto
  have tlk: "\<And>x. x \<in> {ThreadLock} \<Longrightarrow> ((\<lambda>_. 0)(ThreadLock := ?tl)) x \<noteq> ?rl \<and> ((\<lambda>_. 0)(ThreadLock := ?tl)) x \<noteq> ?wl" using dn by simp
  note c = SynchConsole_effect [OF eB wB nB(3) nB(1,2) dn(1) nB(4,5) _ _ tlk k2, simplified]
  have ok2: "kernel_ok dev_inv k2"
    using SynchConsole_new_ok [OF okB, of None None "b_console b" ?rl ?wl] nB dn(1) c(10) k2 by auto
  have th2: "threads k2 t \<noteq> None \<longleftrightarrow> t = currentThread k2" for t using c(3,5) d(4) [of t] kB(2,4) by simp
  have cpu2: "cpu k2 = Some (Machine_new False)" using c(4) kB(6) by simp
  note p = StartProcess_effect [OF ok2 cpu2 th2 k3]
  let ?u = "\<lparr>kern = k3\<lparr>status := UserMode\<rparr>, g_threads = replicate 10 None, stackMap = sm, g_threadsIdx = 0, thread_lock = ?tl,
      start_code = (\<lambda>_. None)\<rparr>"
  have cur: "currentThread k3 = 0" "threads k3 t \<noteq> None \<longleftrightarrow> t = 0" "threadToBeDestroyed k3 = None" for t
    using p(7-9) th2 c(5,6) kB(4,5) by simp_all
  have lk: "lock_of ReadLock ?u = Inr ?rl" "lock_of WriteLock ?u = Inr ?wl" "lock_of ThreadLock ?u = Inr ?tl" using c(7-9) p(4) by simp_all
  then have id: "lock_id ?u ReadLock = ?rl" "lock_id ?u WriteLock = ?wl" "lock_id ?u ThreadLock = ?tl" by (simp_all add: lock_id_def)
  have live: "semaphores k3 ?rl \<noteq> None" "semaphores k3 ?wl \<noteq> None" "semaphores k3 ?tl \<noteq> None"
    using c(2) kB(3) p(5) by (auto simp flip: domIff)
  have hv: "hold_of [0 \<mapsto> Machine_Run] = (\<lambda>_. None)" "await_of [0 \<mapsto> Machine_Run] = (\<lambda>_. None)" "leaving [0 \<mapsto> Machine_Run] = (\<lambda>_. False)"
    by (auto simp: hold_of_def await_of_def leaving_def fun_eq_iff)
  show ?thesis
    unfolding sys_inv_def eq running.simps usys.simps
  proof (intro conjI impI)
    show "kernel_ok dev_inv (k3\<lparr>status := UserMode\<rparr>)" using p(1) by (simp add: kernel_ok_def)
    show "mach_ok (b_space b) (k3\<lparr>status := UserMode\<rparr>)" using p(2) by (simp add: mach_ok_def)
    show "locks_ok {ReadLock, WriteLock, ThreadLock} ?u" unfolding locks_ok_def using lk id live by simp
    show "excl_inv {ReadLock, WriteLock, ThreadLock} (lock_id ?u) (hold_of [currentThread k3 \<mapsto> Machine_Run])
        (await_of [currentThread k3 \<mapsto> Machine_Run]) (k3\<lparr>status := UserMode\<rparr>)"
    proof -
      have L: "{WriteLock, ReadLock, ThreadLock} = {ReadLock, WriteLock, ThreadLock}" by auto
      have "\<And>x. x \<in> {ReadLock, WriteLock, ThreadLock} \<Longrightarrow> lock_id ?u x = ((\<lambda>_. 0)(ThreadLock := ?tl, ReadLock := ?rl, WriteLock := ?wl)) x"
        using id by auto
      then show ?thesis unfolding cur(1) hv
        by (intro excl_cong [OF c(1) [unfolded L]]) (use p(3-6) in \<open>simp_all add: waits_def sval_def pend_def\<close>)
    qed
    show "progs_ok {ReadLock, WriteLock, ThreadLock} ?u [currentThread k3 \<mapsto> Machine_Run]"
      by (rule progs_okI) (use cur in \<open>auto split: if_splits\<close>)
    have "active_threads (k3\<lparr>status := UserMode\<rparr>) [currentThread k3 \<mapsto> Machine_Run] = {0}"
      unfolding active_threads_def cur(1) hv using cur(2,3) by simp
    then show "table_ok ?u (active_threads (k3\<lparr>status := UserMode\<rparr>) [currentThread k3 \<mapsto> Machine_Run])"
      using table_start [OF sm(4,3,2)] by simp
  qed
qed

lemma user_run_inv:
  assumes "user_run big b f s" "boot_args_ok b"
  shows "sys_inv {ReadLock, WriteLock, ThreadLock} (b_space b) s"
  using assms
proof (induction rule: user_run.induct)
  case (user_boot ki k0 s)
  then show ?case using boot_user_inv [OF _ Initialize_booted] by (auto simp: boot_args_ok_def)
next
  case (user_step s h s')
  then show ?case using ustep_inv [of "{ReadLock, WriteLock, ThreadLock}" "b_space b" s h big] by simp
qed

section \<open>Starting with a disk\<close>

definition disk_args_ok :: "bool \<Rightarrow> boot_args \<Rightarrow> 8 word list option \<Rightarrow> semid \<Rightarrow> semid \<Rightarrow> bool" where
  "disk_args_ok big b unixFile ds dl \<longleftrightarrow> boot_ok (b_regs b) (b_devices b) \<and>
     distinct [readAvail (b_devices b), writeDone (b_devices b), b_threadLock b, ds, dl] \<and>
     (case Disk_new big unixFile of Inl _ \<Rightarrow> False | Inr d \<Rightarrow> DiskSize \<le> length (diskFile d))"

text \<open>A new semaphore that is no lock of the discipline.\<close>

lemma excl_new_sem:
  assumes i: "excl_inv {} lk hold await k" and w: "\<And>s t. \<not> waits k s t" and s: "semaphores k s = None" "s \<notin> dev_sems (kernel.more k)"
  shows "excl_inv {} lk hold await (Semaphore_new s n v k)" (is "excl_inv _ _ _ _ ?k")
proof -
  note d = excl_invD [OF i] and f = new_sem_effect [OF s(1) w]
  have ds: "ds \<noteq> s" if "dev_sem h (kernel.more k) = Some ds" for h ds using dev_sem_in(1) [OF that] s(2) by auto
  have acc: "dev_acc h 0 ?k = dev_acc h 0 k" "dev_bal h 0 ?k = dev_bal h 0 k" for h
    using f(2-4) ds [of h] by (auto simp: dev_acc_def dev_bal_def split: option.split)
  show ?thesis
  proof (rule excl_invI)
    show "dev_bal h 0 ?k = int (card {t. await t = Some h \<or> waits ?k x t})" if "dev_sem h (kernel.more ?k) = Some x" for h x
      using d(11) [of h x] that f acc by simp
    show "h = ConsoleWriteDone \<or> h = DiskDone \<Longrightarrow> dev_acc h 0 ?k" for h unfolding acc by (rule d(9))
    show "hold t = Some (dev_lock h) \<and> await t = None" if "dev_sem h (kernel.more ?k) = Some x" "waits ?k x t" for h x t
      using that w f(1) by simp
  qed (use d(1,4-6) f(3) in simp_all)
qed

text \<open>A disk is added: it is idle and its semaphore has no unit.\<close>

lemma excl_new_disk:
  assumes i: "excl_inv {} lk hold await k" and w: "\<And>s t. \<not> waits k s t" and a: "\<And>t. await t = None"
    and d: "synchDisk (kernel.more k) = None" "\<not> active dsk" "sval k ds = 0" "ds \<noteq> readAvail (kernel.more k)" "ds \<noteq> writeDone (kernel.more k)"
  shows "excl_inv {} lk hold await (set_devices ((kernel.more k)\<lparr>synchDisk := Some \<lparr>disk = dsk, disk_sem = ds, disk_lock = dl\<rparr>\<rparr>) k)"
    (is "excl_inv _ _ _ _ (set_devices ?d k)")
proof -
  note e = excl_invD [OF i]
  have c: "dev_busy ConsoleWriteDone ?d = dev_busy ConsoleWriteDone (kernel.more k)" "dev_sem ConsoleWriteDone ?d = dev_sem ConsoleWriteDone (kernel.more k)"
    "\<not> dev_busy DiskDone ?d" "dev_sem DiskDone ?d = Some ds" using d(2) by simp_all
  have p: "pend h (set_devices ?d k) = pend h k" for h by (simp add: pend_def)
  have w': "waits (set_devices ?d k) s t = waits k s t" for s t by (simp add: waits_def)
  have p0: "pend DiskDone k = 0" using e(9) [of DiskDone] d(1) by (simp add: dev_acc_def)
  have none: "{t. await t = Some h \<or> waits (set_devices ?d k) s t} = {}" for h s using w w' a by simp
  show ?thesis
  proof (rule excl_invI)
    show "sems_distinct (kernel.more (set_devices ?d k))" using e(1) d by (simp add: sems_distinct_def)
    show "dev_acc h 0 (set_devices ?d k)" if "h = ConsoleWriteDone \<or> h = DiskDone" for h
      using that e(9) [of ConsoleWriteDone] p p0 c by (auto simp: dev_acc_def)
    show "dev_bal h 0 (set_devices ?d k) = int (card {t. await t = Some h \<or> waits (set_devices ?d k) s t})"
      if "dev_sem h (kernel.more (set_devices ?d k)) = Some s" for h s
    proof -
      have "h = ConsoleWriteDone \<or> h = DiskDone" by (rule dev_sem_in(2) [OF that])
      then show ?thesis unfolding none using that e(11) [of ConsoleWriteDone "writeDone (kernel.more k)"] p p0 c d(3) w a by (auto simp: dev_bal_def)
    qed
  qed (use e(4-6) w w' a in auto)
qed

lemma boot_disk_inv:
  assumes b: "disk_args_ok big b f ds dl" and k0: "booted (b_devices b) k0" and s: "boot_disk big b f ds dl p k0 = Inr s"
    and p: "free_wf {DiskLock} p"
  shows "sys_inv {DiskLock} a s"
proof -
  note d = bootedD [OF k0]
  let ?d = "b_devices b" and ?tl = "b_threadLock b"
  have dt: "distinct [readAvail ?d, writeDone ?d, ?tl, ds, dl]" and bo: "boot_ok (b_regs b) ?d"
    using b by (simp_all add: disk_args_ok_def)
  obtain dsk where dk: "Disk_new big f = Inr dsk" "DiskSize \<le> length (diskFile dsk)" using b by (auto simp: disk_args_ok_def split: sum.splits)
  have idle: "\<not> active dsk" using dk(1) by (auto simp: Disk_new_def res_simps)
  have "semaphores k0 x = None" if "x \<noteq> readAvail ?d" "x \<noteq> writeDone ?d" for x
    using that d(7) domIff [of x "semaphores k0"] by simp
  then have free: "semaphores k0 ?tl = None" "semaphores k0 ds = None" "semaphores k0 dl = None" using dt by force+
  have nm: "readAvail (kernel.more k0) = readAvail ?d" "writeDone (kernel.more k0) = writeDone ?d" "synchDisk (kernel.more k0) = None"
    using d(8) bo by (auto simp: dev_names_def boot_ok_def)
  let ?k1 = "Lock_new ?tl (Some ''thread_lock'') k0"
  let ?k2 = "Semaphore_new ds ''synch disk'' 0 ?k1"
  let ?k3 = "set_devices ((kernel.more ?k2)\<lparr>synchDisk := Some \<lparr>disk = dsk, disk_sem = ds, disk_lock = dl\<rparr>\<rparr>) ?k2"
  obtain sm k4 where sm: "BitMap_new (b_bitmap b) (int 10) = Inr sm" and k4: "SynchDisk_new big f ds dl ?k1 = Inr k4"
    and eq: "s = \<lparr>sys = \<lparr>kern = k4, g_threads = replicate 10 None, stackMap = sm, g_threadsIdx = 0, thread_lock = ?tl,
        start_code = (\<lambda>_. None)\<rparr>, progs = [currentThread k4 \<mapsto> p]\<rparr>"
    using s by (auto simp: boot_disk_def res_simps)
  have e: "k4 = Lock_new dl (Some ''synch disk lock'') ?k3"
    using k4 dk(1) by (cases k0) (auto simp: SynchDisk_new_def Let_def Lock_new_def Semaphore_new_def put_sem_def set_devices_def)
  have ok: "kernel_ok dev_inv ?k1" by (rule new_lock_kernel_ok [OF d(1) free(1)])
  have dc: "dcall_ok (D_SynchDisk big f ds dl) ?k1" using dt free nm dk by (auto simp: Lock_new_def Semaphore_new_def)
  have ok4: "kernel_ok dev_inv k4" using SynchDisk_new_ok [OF ok dc] k4 by auto
  have f1: "threads ?k1 = threads k0" "kernel.more ?k1 = kernel.more k0" "pending ?k1 = pending k0" by (simp_all add: Lock_new_def Semaphore_new_def)
  have w1: "\<not> waits ?k1 s t" for s t using d(9) [of s t] f1(1) by (simp add: waits_def)
  have e1: "excl_inv {} (\<lambda>_. 0) (\<lambda>_. None) (\<lambda>_. None) ?k1"
    unfolding Lock_new_def by (rule excl_new_sem [OF d(3,9) free(1)]) (use dt nm in \<open>auto simp: dev_sems_def\<close>)
  have w2: "\<not> waits ?k2 s t" for s t using w1 [of s t] by (simp add: waits_def Semaphore_new_def)
  have e2: "excl_inv {} (\<lambda>_. 0) (\<lambda>_. None) (\<lambda>_. None) ?k2"
    by (rule excl_new_sem [OF e1 w1]) (use free dt nm in \<open>auto simp: dev_sems_def Lock_new_def Semaphore_new_def\<close>)
  have e3: "excl_inv {} (\<lambda>_. 0) (\<lambda>_. None) (\<lambda>_. None) ?k3"
    by (rule excl_new_disk [OF e2 w2]) (use nm idle dt in \<open>auto simp: Lock_new_def Semaphore_new_def sval_def\<close>)
  have w3: "\<not> waits ?k3 s t" for s t using w2 [of s t] by (simp add: waits_def)
  have e4: "excl_inv {DiskLock} ((\<lambda>_. 0)(DiskLock := dl)) (\<lambda>_. None) (\<lambda>_. None) k4"
    unfolding e by (rule excl_new_lock [OF e3 w3]) (use free dt nm in \<open>auto simp: Lock_new_def Semaphore_new_def dev_sems_def\<close>)
  let ?u = "\<lparr>kern = k4, g_threads = replicate 10 None, stackMap = sm, g_threadsIdx = 0, thread_lock = ?tl, start_code = (\<lambda>_. None)\<rparr>"
  have lk: "lock_of DiskLock ?u = Inr dl" "semaphores k4 dl \<noteq> None" by (simp_all add: e Lock_new_def Semaphore_new_def)
  then have id: "lock_id ?u DiskLock = dl" by (simp add: lock_id_def)
  have ex: "excl_inv {DiskLock} (lock_id ?u) (\<lambda>_. None) (\<lambda>_. None) k4" by (rule excl_cong [OF e4]) (use id in simp_all)
  have th: "threads k4 = threads k0" "currentThread k4 = 0" "threadToBeDestroyed k4 = None"
    using d(5,6) by (simp_all add: e Lock_new_def Semaphore_new_def)
  have pf: "prog_wf {DiskLock} p" "p_lock p = None" using p by (simp_all add: free_wf_def)
  have hv: "hold_of [0 \<mapsto> p] = (\<lambda>_. None)" "await_of [0 \<mapsto> p] = (\<lambda>_. None)"
    using pf(2) by (auto simp: hold_of_def await_of_def fun_eq_iff)
  have po: "progs_ok {DiskLock} ?u [0 \<mapsto> p]"
    by (rule progs_okI) (use th d(4) pf in \<open>auto split: if_splits\<close>)
  have "locks_ok {DiskLock} ?u" using lk id by (simp add: locks_ok_def)
  then show ?thesis unfolding sys_inv_def eq using ok4 ex po hv th(2) by simp
qed

lemma disk_run_inv:
  assumes "disk_run big b f ds dl p s" "disk_args_ok big b f ds dl" "free_wf {DiskLock} p"
  shows "sys_inv {DiskLock} 0 s"
  using assms
proof (induction rule: disk_run.induct)
  case (disk_boot ki k0 s)
  then show ?case using boot_disk_inv [OF _ Initialize_booted] by (auto simp: disk_args_ok_def)
next
  case (disk_step s h s')
  then show ?case using ustep_inv [of "{DiskLock}" 0 s h big] by simp
qed


end
