(* ===== verification/Nachos_UserRun.thy ===== *)
theory Nachos_UserRun
  imports Nachos_Boot
begin

text \<open>
  What holds in every state that Nachos reaches with user programs (\<open>user_run\<close>) or with kernel threads that use the disk
  (\<open>disk_run\<close>): every step succeeds or ends the simulation in one of a few known ways, locks and devices are used by one thread at
  a time, the table of user threads is consistent and their stacks are disjoint. The properties
  follow from the invariant \<open>sys_inv\<close>, which theory \<open>Nachos_Boot\<close> establishes.
\<close>

section \<open>Who has a lock, and who uses a device\<close>

definition holds_lock :: "running \<Rightarrow> lock_name \<Rightarrow> tid \<Rightarrow> bool" where
  "holds_lock s l t \<longleftrightarrow> hold_of (progs s) t = Some l \<and> \<not> waits (kern (sys s)) (lock_id (sys s) l) t"

lemma lock_holders:
  assumes i: "sys_inv L a s" and l: "l \<in> L"
  shows "sval (kern (sys s)) (lock_id (sys s) l) = (if \<exists>t. holds_lock s l t then 0 else 1)"
    "holds_lock s l t \<Longrightarrow> holds_lock s l t' \<Longrightarrow> t = t'"
proof -
  note d = sys_invD [OF i] and e = excl_invD [OF sys_invD(4) [OF i]]
  let ?H = "{t. hold_of (progs s) t = Some l \<and> \<not> waits (kern (sys s)) (lock_id (sys s) l) t}"
  have f: "finite ?H" by (rule holders_finite [OF e(4)])
  have v: "0 \<le> sval (kern (sys s)) (lock_id (sys s) l)" using sval_nonneg d(1) by (auto simp: kernel_ok_def)
  have c: "sval (kern (sys s)) (lock_id (sys s) l) + int (card ?H) = 1" by (rule e(8) [OF l])
  show "holds_lock s l t \<Longrightarrow> holds_lock s l t' \<Longrightarrow> t = t'"
    using v c card_le_Suc0_iff_eq [OF f] by (auto simp: holds_lock_def)
  show "sval (kern (sys s)) (lock_id (sys s) l) = (if \<exists>t. holds_lock s l t then 0 else 1)"
  proof (cases "?H = {}")
    case True
    then show ?thesis using c [unfolded True] by (auto simp: holds_lock_def)
  next
    case False
    then have "0 < card ?H" using f by (simp add: card_gt_0_iff)
    then show ?thesis using False c v by (auto simp: holds_lock_def)
  qed
qed

text \<open>A busy device has a thread that waits for it, and has its lock.\<close>

lemma busy_owner:
  assumes i: "sys_inv L a s" and b: "dev_busy h (kernel.more (kern (sys s)))" and ds: "dev_sem h (kernel.more (kern (sys s))) = Some ds"
  shows "\<exists>t. holds_lock s (dev_lock h) t \<and> (await_of (progs s) t = Some h \<or> waits (kern (sys s)) ds t)"
proof -
  note d = sys_invD [OF i] and e = excl_invD [OF sys_invD(4) [OF i]]
  let ?k = "kern (sys s)"
  have kv: "kinv dev_inv [] ?k" using d(1) by (simp add: kernel_ok_def)
  have "pend h ?k = 1" using e(9) [OF dev_sem_in(2) [OF ds]] b by (simp add: dev_acc_def)
  then have "0 < int (card {t. await_of (progs s) t = Some h \<or> waits ?k ds t})"
    using e(11) [OF ds] ds sval_nonneg [OF kv, of ds] by (simp add: dev_bal_def)
  then obtain t where t: "await_of (progs s) t = Some h \<or> waits ?k ds t" by (auto simp: card_gt_0_iff)
  have h: "hold_of (progs s) t = Some (dev_lock h)" using t e(6) [of t h] e(10) [OF ds, of t] by blast
  then have l: "dev_lock h \<in> L" by (rule e(5))
  have "\<not> waits ?k (lock_id (sys s) (dev_lock h)) t"
    using t e(7) [OF l, of t] waits_one [OF kv, of ds t] e(3) [OF l] dev_sem_in(1) [OF ds] by auto
  then show ?thesis using h t by (auto simp: holds_lock_def)
qed

lemma safe_step:
  assumes "sys_inv L a s" "host_ok h (kern (sys s))" "ThreadLock \<in> L \<longrightarrow> {ReadLock, WriteLock} \<subseteq> L"
  shows "(\<exists>s'. ustep big h s = Inr s') \<or> (\<exists>e. ustep big h s = Inl e \<and> may_end s e)"
  using ustep_inv [OF assms, of big] by (cases "ustep big h s") auto

lemma request_idle:
  assumes i: "sys_inv L a s" and u: "in_user (kern (sys s))" and p: "progs s (currentThread (kern (sys s))) = Some (Do c g)"
    and c: "requests c = Some h" and ds: "dev_sem h (kernel.more (kern (sys s))) = Some ds"
  shows "\<not> dev_busy h (kernel.more (kern (sys s)))"
  by (rule device_idle [OF op_pre_sys [OF i u p] _ _ ds]; use c in \<open>cases c; auto\<close>)

lemma last_leaves:
  assumes i: "sys_inv L a s" and L: "ThreadLock \<in> L" and u: "in_user (kern (sys s))"
    and p: "progs s (currentThread (kern (sys s))) = Some (Do Op_leave g)"
  shows "ustep big h s = Inl MachineHalted \<longleftrightarrow> active_threads (kern (sys s)) (progs s) = {}"
proof -
  note d = table_okD [OF sys_invD(6) [OF i L]]
  have wf: "prog_wf L (Do Op_leave g)" by (rule progs_okD(1) [OF sys_invD(5) [OF i] p])
  then have "\<exists>k'. Finish (kern (sys s)) = Inr k'"
    using finish_step [OF i u, of "g (0, [])"] p by (auto simp: hold_of_def leaving_def)
  then have "ustep big h s = Inl MachineHalted \<longleftrightarrow> g_threadsIdx (sys s) < 0"
    using u p by (auto simp: ustep_def leave_def on_kernel_def Halt_def Let_def)
  then show ?thesis using d(1,9) by (auto simp: card_gt_0_iff)
qed

text \<open>The registers when all have been cleared.\<close>

lemma clear_all_registers:
  assumes "length (registers m) = NumTotalRegs"
  shows "clear_registers [0..39] m = Inr (m\<lparr>registers := replicate NumTotalRegs 0\<rparr>)"
proof -
  obtain rs where rs: "clear_registers [0..39] m = Inr (m\<lparr>registers := rs\<rparr>)" "length rs = NumTotalRegs"
      "\<forall>j < NumTotalRegs. rs ! j = (if int j \<in> set [0..39] then 0 else registers m ! j)"
    using clear_registers_eq [OF assms, of "[0..39]"] unfolding set_upto atLeastAtMost_iff by auto
  have "rs = replicate NumTotalRegs 0"
    using rs(2,3) unfolding set_upto atLeastAtMost_iff by (intro nth_equalityI) auto
  then show ?thesis using rs(1) by simp
qed

lemma program_size_min: "program_ok exe h \<Longrightarrow> 4096 \<le> program_size h"
  by (auto simp: program_ok_def program_size_def segment_ok_def)

section \<open>A run\<close>

definition example_console :: Console where
  "example_console = \<lparr>readFileNo = 0, writeFileNo = 0, putBusy = True, incoming = 0, utf8 = True, polls = [], keyboard = [], display = []\<rparr>"

definition example_boot :: boot_args where
  "example_boot = \<lparr>b_random = False, b_regs = replicate 40 0, b_devices = example_devices, b_console = example_console,
     b_readLock = 2, b_writeLock = 3, b_threadLock = 4, b_bitmap = [0xFFFFFFFF], b_header = replicate 40 0xfe,
     b_entries = example_entries, b_table = 1, b_space = 7\<rparr>"

definition example_host :: host where
  "example_host = \<lparr>heap = (\<lambda>_ _. 7), new_tid = 9, new_regs = replicate 40 1, new_int = 5\<rparr>"

lemma example_boot_args: "boot_args_ok example_boot"
  using example_boot_ok by (simp add: boot_args_ok_def example_boot_def example_devices_def)

lemma example_settles: "settles example_kernel example_kernel"
  by (rule settled) (rule example_in_user)

lemma example_user_run: "\<exists>s. user_run False example_boot (Unix_file example_program) s \<and> in_user (kern (sys s)) \<and>
    progs s = [currentThread (kern (sys s)) \<mapsto> Machine_Run] \<and> host_ok example_host (kern (sys s))"
proof -
  let ?b = example_boot
  note d = bootedD [OF Initialize_booted [OF example_boot_ok example_initialize example_settles]]
  obtain sm where sm: "BitMap_new (b_bitmap ?b) (int 10) = Inr sm"
    using BitMap_new_empty [of 10 "b_bitmap ?b"] by (auto simp: example_boot_def divRoundUp_def)
  define kB where "kB = (Lock_new 4 (Some ''thread_lock'') example_kernel)\<lparr>cpu := Some (Machine_new False)\<rparr>"
  have "kernel_ok dev_inv (Lock_new 4 (Some ''thread_lock'') example_kernel)"
    by (rule new_lock_kernel_ok [OF d(1)]) (simp add: example_kernel_def example_devices_def)
  then have ok: "kernel_ok dev_inv kB" unfolding kB_def by (rule Machine_new_kernel_ok)
  have "dcall_ok (D_SynchConsole None None example_console 2 3) kB"
    by (simp add: kB_def Lock_new_def Semaphore_new_def example_kernel_def example_devices_def)
  then obtain k2 where k2: "SynchConsole_new None None example_console 2 3 kB = Inr k2" using SynchConsole_new_ok [OF ok] by blast
  have f2: "threads k2 = threads kB" "currentThread k2 = currentThread kB" "cpu k2 = cpu kB" "spaces k2 = spaces kB"
    using k2 by (auto simp: SynchConsole_new_def Console_new_def Let_def res_simps Schedule_def Lock_new_def Semaphore_new_def set_console_def)
  have th: "threads k2 (currentThread k2) = Some (main_thread (replicate 40 0))" "cpu k2 = Some (Machine_new False)" "currentThread k2 = 0" "threads k2 9 = None"
    using f2 by (simp_all add: kB_def Lock_new_def Semaphore_new_def example_kernel_def)
  obtain sp m1 m2 where m: "AddrSpace_new Executable_ReadAt False (replicate 40 0xfe) example_entries 1 (Unix_file example_program) (Machine_new False) = Inr (sp, m1)"
    "InitRegisters sp m1 = Inr m2"
    using exe.AddrSpace_new_eq [of "Unix_file example_program" example_noff "replicate 40 0xfe" False example_entries 1 "Machine_new False"]
      example_program_ok InitRegisters_eq by (auto simp: Machine_new_def)
  then obtain k3 where k3: "StartProcess False (replicate 40 0xfe) example_entries 1 7 (Some (Unix_file example_program)) k2 = Inr k3"
    and c3: "currentThread k3 = currentThread k2" "\<exists>t. threads k3 (currentThread k3) = Some t \<and> kstack t = []" "threads k3 9 = threads k2 9"
    using th by (auto simp: StartProcess_def upd_thread_def get_thread_def RestoreState_def put_thread_def main_thread_def)
  obtain s where s: "boot_user False ?b (Unix_file example_program) example_kernel = Inr s"
    and "kern (sys s) = k3\<lparr>status := UserMode\<rparr>" "progs s = [currentThread k3 \<mapsto> Machine_Run]"
    using sm k2 k3 by (auto simp: boot_user_def example_boot_def kB_def)
  moreover have "Initialize (b_random ?b) (b_regs ?b) (b_devices ?b) = Inr example_kernel" using example_initialize by (simp add: example_boot_def)
  then have "user_run False ?b (Unix_file example_program) s" by (rule user_boot [OF _ example_settles s])
  ultimately show ?thesis using c3(2,3) th(4) by (intro exI [of _ s]) (auto simp: in_user_def host_ok_def example_host_def)
qed


section \<open>User programs\<close>

text \<open>
  C1. User programs run safely: in every state that Nachos reaches from its start with a user program, any program, the
  next step of the system (of the kernel, of a system call, of a user thread or of the program itself)
  succeeds, or ends the simulation in one of these ways: the machine halts, the program asked to end, an exception is not
  handled, a system call is given an address that cannot be accessed, the kernel's copy of a string passed to PutString leaves its buffer,
  or a division overflows on the host. In
  particular no assertion of the threads, of the locks, of the console and of the interrupts fails, no null or deleted thread, semaphore,
  lock or address space is used, and no register is out of range.
\<close>

theorem user_system_safe:
  assumes "boot_args_ok b" "user_run big b f s" "host_ok h (kern (sys s))"
  shows "(\<exists>s'. ustep big h s = Inr s') \<or> (\<exists>e. ustep big h s = Inl e \<and> may_end s e)"
  by (rule safe_step [OF user_run_inv [OF assms(2,1)] assms(3)]) simp

theorem user_system_safe_witness:
  "\<exists>s. user_run False example_boot (Unix_file example_program) s \<and>
     ((\<exists>s'. ustep False example_host s = Inr s') \<or> ustep False example_host s = Inl ArithmeticTrap)"
proof -
  obtain s where s: "user_run False example_boot (Unix_file example_program) s" "in_user (kern (sys s))"
    "progs s = [currentThread (kern (sys s)) \<mapsto> Machine_Run]" "host_ok example_host (kern (sys s))"
    using example_user_run by blast
  then have "may_end s e \<longleftrightarrow> e = ArithmeticTrap" for e by (simp add: may_end_def)
  then show ?thesis using user_system_safe [OF example_boot_args s(1,4)] s(1) by metis
qed

text \<open>
  C6. The console is used by one thread at a time: in every reachable state each lock is free exactly when no thread is
  inside, at most one thread is inside; while the display is busy, the thread that is inside the write lock waits
  for it; and a thread about to call PutChar finds the display idle.
\<close>

theorem console_exclusion:
  assumes "boot_args_ok b" "user_run big b f s"
  shows "(\<forall>l \<in> {ReadLock, WriteLock, ThreadLock}.
       sval (kern (sys s)) (lock_id (sys s) l) = (if \<exists>t. holds_lock s l t then 0 else 1) \<and>
       (\<forall>t t'. holds_lock s l t \<longrightarrow> holds_lock s l t' \<longrightarrow> t = t')) \<and>
     (dev_busy ConsoleWriteDone (kernel.more (kern (sys s))) \<longrightarrow>
       (\<exists>t. holds_lock s WriteLock t \<and>
          (await_of (progs s) t = Some ConsoleWriteDone \<or> waits (kern (sys s)) (writeDone (kernel.more (kern (sys s)))) t))) \<and>
     (\<forall>ch g. in_user (kern (sys s)) \<and> progs s (currentThread (kern (sys s))) = Some (Do (Op_PutChar ch) g) \<longrightarrow>
       \<not> dev_busy ConsoleWriteDone (kernel.more (kern (sys s))))"
proof -
  note i = user_run_inv [OF assms(2,1)]
  show ?thesis
  proof (intro conjI ballI impI allI)
    fix l
    assume "l \<in> {ReadLock, WriteLock, ThreadLock}"
    note l = lock_holders [OF i this]
    show "sval (kern (sys s)) (lock_id (sys s) l) = (if \<exists>t. holds_lock s l t then 0 else 1)" by (rule l(1))
    show "holds_lock s l t \<Longrightarrow> holds_lock s l t' \<Longrightarrow> t = t'" for t t' by (rule l(2))
  next
    show "\<exists>t. holds_lock s WriteLock t \<and> (await_of (progs s) t = Some ConsoleWriteDone \<or>
        waits (kern (sys s)) (writeDone (kernel.more (kern (sys s)))) t)" if "dev_busy ConsoleWriteDone (kernel.more (kern (sys s)))"
      using busy_owner [OF i that] by simp
  next
    show "\<not> dev_busy ConsoleWriteDone (kernel.more (kern (sys s)))"
      if "in_user (kern (sys s)) \<and> progs s (currentThread (kern (sys s))) = Some (Do (Op_PutChar ch) g)" for ch g
      using request_idle [OF i, of "Op_PutChar ch" g ConsoleWriteDone] that by simp
  qed
qed

theorem console_exclusion_witness:
  "\<exists>s. user_run False example_boot (Unix_file example_program) s \<and> sval (kern (sys s)) (lock_id (sys s) WriteLock) = 1"
proof -
  obtain s where s: "user_run False example_boot (Unix_file example_program) s"
    "progs s = [currentThread (kern (sys s)) \<mapsto> Machine_Run]"
    using example_user_run by blast
  then have "\<not> holds_lock s WriteLock t" for t by (simp add: holds_lock_def hold_of_def)
  then show ?thesis using console_exclusion [OF example_boot_args s(1)] s(1) by (intro exI [of _ s]) simp
qed

text \<open>
  C5. The table of user threads: in every reachable state each slot of g_threads is used exactly when its stack is marked in
  stackMap, the threads in the slots are distinct and alive, the thread in slot i was started on the stack i,
  all threads that have not left are in the table but at most one (the main thread), the counter
  g_threadsIdx is the number of the threads that have not left less one, and a thread that leaves halts the machine exactly
  when it is the last one.
\<close>

theorem user_thread_table:
  assumes "boot_args_ok b" "user_run big b f s"
  defines "u \<equiv> sys s" and "A \<equiv> active_threads (kern (sys s)) (progs s)"
  shows "length (g_threads u) = MAX_THREADS \<and> marked (stackMap u) = {int i | i. i < MAX_THREADS \<and> g_threads u ! i \<noteq> None} \<and>
     (\<forall>i < MAX_THREADS. \<forall>j < MAX_THREADS. g_threads u ! i \<noteq> None \<longrightarrow> g_threads u ! i = g_threads u ! j \<longrightarrow> i = j) \<and>
     (\<forall>i < MAX_THREADS. \<forall>t. g_threads u ! i = Some t \<longrightarrow> t \<in> A \<and>
        (\<exists>x arg f_exit. start_code u t = Some (StartUserThread (x, arg, f_exit, int i)))) \<and>
     card (A - {t. Some t \<in> set (g_threads u)}) \<le> 1 \<and> finite A \<and> g_threadsIdx u = int (card A) - 1 \<and>
     (\<forall>g. in_user (kern u) \<longrightarrow> progs s (currentThread (kern u)) = Some (Do Op_leave g) \<longrightarrow>
        (ustep big h s = Inl MachineHalted \<longleftrightarrow> A = {}))"
proof -
  note i = user_run_inv [OF assms(2,1)]
  have "table_ok u A" using sys_invD(6) [OF i] by (simp add: u_def A_def)
  note d = table_okD [OF this]
  show ?thesis
  proof (intro conjI allI impI)
    show "marked (stackMap u) = {int i | i. i < MAX_THREADS \<and> g_threads u ! i \<noteq> None}"
    proof (intro set_eqI iffI)
      fix x
      assume x: "x \<in> marked (stackMap u)"
      then have "0 \<le> x" "x < 10" using d(3) by (auto simp: marked_def)
      then show "x \<in> {int i | i. i < MAX_THREADS \<and> g_threads u ! i \<noteq> None}"
        using d(5) [of "nat x"] x by (intro CollectI exI [of _ "nat x"]) auto
    qed (use d(5) in auto)
    show "t \<in> A" if "i < MAX_THREADS" "g_threads u ! i = Some t" for i t
      using d(7) slot_tids_nth [OF d(4), of t] that by auto
    show "ustep big h s = Inl MachineHalted \<longleftrightarrow> A = {}"
      if "in_user (kern u)" "progs s (currentThread (kern u)) = Some (Do Op_leave g)" for g
      using last_leaves [OF i, of g big h] that by (simp add: u_def A_def)
  qed (use d in \<open>auto simp: slot_tids_def\<close>)
qed


theorem user_thread_table_witness:
  "\<exists>s. user_run False example_boot (Unix_file example_program) s \<and> g_threadsIdx (sys s) = int (card (active_threads (kern (sys s)) (progs s))) - 1"
proof -
  obtain s where s: "user_run False example_boot (Unix_file example_program) s" using example_user_run by blast
  then show ?thesis using user_thread_table [OF example_boot_args s, of example_host] by (intro exI [of _ s]) simp
qed

text \<open>
  C20. A user thread starts as do_ThreadCreate asked: with the program counter at f, its argument in register 4,
  f_exit as the return address and the stack of its slot. In the address space of a loaded program the stacks of
  the ten slots, of 256 bytes each, lie above the total size of its segments, are disjoint, and lie below the stack of the main thread,
  of which they leave 272 bytes.
\<close>

theorem user_thread_start:
  assumes "length (registers m) = NumTotalRegs" "program_ok exe nh"
  defines "pages \<equiv> program_pages nh"
  defines "area \<equiv> \<lambda>i. {thread_stack pages i - USER_THREAD_STACK_SIZE..<thread_stack pages i}"
  shows "init_registers pages (f, arg, f_exit, idx) m =
       Inr (m\<lparr>registers := (replicate NumTotalRegs 0)[PCReg := f, NextPCReg := f + 4, RetAddrReg := f_exit,
         StackReg := word_of_int (thread_stack pages idx), 4 := arg]\<rparr>) \<and>
     (\<forall>i j. i \<noteq> j \<longrightarrow> area i \<inter> area j = {}) \<and>
     (\<forall>i. 0 \<le> i \<and> i < int MAX_THREADS \<longrightarrow>
        area i \<subseteq> {sint (seg_size (noff_code nh)) + sint (seg_size (initData nh)) + sint (seg_size (uninitData nh))..<
           int (pages * PageSize) - 16 - 272} \<and>
        uint (word_of_int (thread_stack pages i) :: reg_word) = thread_stack pages i)"
proof (intro conjI allI impI)
  note n = program_pages_bounds [OF assms(2)]
  show "init_registers pages (f, arg, f_exit, idx) m =
       Inr (m\<lparr>registers := (replicate NumTotalRegs 0)[PCReg := f, NextPCReg := f + 4, RetAddrReg := f_exit,
         StackReg := word_of_int (thread_stack pages idx), 4 := arg]\<rparr>)"
    using clear_all_registers [OF assms(1)] list_update_id [of "replicate 40 (0 :: reg_word)" 36]
    by (simp add: init_registers_def WriteRegister_def ReadRegister_def)
  show "area i \<inter> area j = {}" if "i \<noteq> j" for i j
    using that by (cases i j rule: linorder_cases) (auto simp: area_def thread_stack_def)
  show "area i \<subseteq> {sint (seg_size (noff_code nh)) + sint (seg_size (initData nh)) + sint (seg_size (uninitData nh))..<
           int (pages * PageSize) - 16 - 272}" if "0 \<le> i \<and> i < int MAX_THREADS" for i
    using that n(3) by (auto simp: area_def thread_stack_def pages_def program_size_def)
  show "uint (word_of_int (thread_stack pages i) :: reg_word) = thread_stack pages i" if "0 \<le> i \<and> i < int MAX_THREADS" for i
  proof -
    have "0 \<le> thread_stack pages i" "thread_stack pages i < 2 ^ 32"
      using that n(1,3) program_size_min [OF assms(2)] by (auto simp: thread_stack_def pages_def)
    then show ?thesis by (simp add: uint_word_of_int)
  qed
qed


theorem user_thread_start_witness:
  "init_registers (program_pages example_noff) (0x100, 7, 0x200, 3) (Machine_new False) =
     Inr ((Machine_new False)\<lparr>registers := (replicate 40 0)[34 := 0x100, 35 := 0x104, 31 := 0x200,
       29 := word_of_int (thread_stack (program_pages example_noff) 3), 4 := 7]\<rparr>)"
  using user_thread_start [where m = "Machine_new False" and exe = example_program and nh = example_noff and f = "0x100" and arg = 7 and
    f_exit = "0x200" and idx = 3] example_program_ok
  by (simp add: Machine_new_def)

section \<open>Kernel threads and the disk\<close>

text \<open>
  Kernel threads that use the disk: their code reads and writes sectors, valid ones, through
  SynchDisk::ReadSector and SynchDisk::WriteSector, goes on as the bytes read say, yields, and forks
  other such threads. They do nothing to the disk or its lock by themselves.
\<close>

inductive disk_prog :: "prog \<Rightarrow> bool" where
  disk_return: "disk_prog Returned"
| disk_read: "0 \<le> n \<Longrightarrow> n < NumSectors \<Longrightarrow> (\<And>bytes. disk_prog (f bytes)) \<Longrightarrow> disk_prog (SynchDisk_ReadSector n f)"
| disk_write: "0 \<le> n \<Longrightarrow> n < NumSectors \<Longrightarrow> length data = SectorSize \<Longrightarrow> disk_prog p \<Longrightarrow> disk_prog (SynchDisk_WriteSector n data p)"
| disk_yield: "disk_prog p \<Longrightarrow> disk_prog (seq Op_Yield p)"
| disk_fork: "disk_prog f \<Longrightarrow> disk_prog p \<Longrightarrow> disk_prog (Fork name f p)"

lemma disk_prog_wf: "disk_prog p \<Longrightarrow> free_wf {DiskLock} p"
proof (induction rule: disk_prog.induct)
  case (disk_read n f)
  then show ?case by (intro SynchDisk_wf(1)) simp_all
next
  case (disk_write n data p)
  then show ?case by (intro SynchDisk_wf(2)) simp_all
qed (simp_all add: wf_simps)

text \<open>
  C7. The synchronous disk: kernel threads, any number of them, that use the disk through ReadSector and WriteSector of
  SynchDisk (and yield and fork in between) run safely; at any time at most one of them is inside the lock of the disk, while
  the disk is busy that thread waits for it, and a request is only made of a disk that is idle.
\<close>

theorem disk_exclusion:
  assumes "disk_args_ok big b unixFile ds dl" "disk_prog p" "disk_run big b unixFile ds dl p s" "host_ok h (kern (sys s))"
  shows "((\<exists>s'. ustep big h s = Inr s') \<or> (\<exists>e. ustep big h s = Inl e \<and> may_end s e)) \<and>
     sval (kern (sys s)) (lock_id (sys s) DiskLock) = (if \<exists>t. holds_lock s DiskLock t then 0 else 1) \<and>
     (\<forall>t t'. holds_lock s DiskLock t \<longrightarrow> holds_lock s DiskLock t' \<longrightarrow> t = t') \<and>
     (\<forall>sd. synchDisk (kernel.more (kern (sys s))) = Some sd \<longrightarrow>
        (active (disk sd) \<longrightarrow> (\<exists>t. holds_lock s DiskLock t \<and>
           (await_of (progs s) t = Some DiskDone \<or> waits (kern (sys s)) (disk_sem sd) t))) \<and>
        (\<forall>c g. in_user (kern (sys s)) \<and> progs s (currentThread (kern (sys s))) = Some (Do c g) \<and> requests c = Some DiskDone \<longrightarrow>
           \<not> active (disk sd)))"
proof (intro conjI allI impI)
  note i = disk_run_inv [OF assms(3,1) disk_prog_wf [OF assms(2)]]
  show "(\<exists>s'. ustep big h s = Inr s') \<or> (\<exists>e. ustep big h s = Inl e \<and> may_end s e)"
    by (rule safe_step [OF i assms(4)]) simp
  show "sval (kern (sys s)) (lock_id (sys s) DiskLock) = (if \<exists>t. holds_lock s DiskLock t then 0 else 1)"
    by (rule lock_holders(1) [OF i]) simp
  show "t = t'" if "holds_lock s DiskLock t" "holds_lock s DiskLock t'" for t t' by (rule lock_holders(2) [OF i _ that]) simp
  fix sd
  assume sd: "synchDisk (kernel.more (kern (sys s))) = Some sd"
  then show "\<exists>t. holds_lock s DiskLock t \<and> (await_of (progs s) t = Some DiskDone \<or> waits (kern (sys s)) (disk_sem sd) t)" if "active (disk sd)"
    using busy_owner [OF i, of DiskDone "disk_sem sd"] that by simp
  show "\<not> active (disk sd)"
    if "in_user (kern (sys s)) \<and> progs s (currentThread (kern (sys s))) = Some (Do c g) \<and> requests c = Some DiskDone" for c g
    using request_idle [OF i, of c g DiskDone] that sd by simp
qed

definition example_disk_prog :: prog where
  "example_disk_prog = Fork ''reader'' (SynchDisk_ReadSector 1 (\<lambda>_. Returned)) (SynchDisk_WriteSector 0 (replicate 128 1) Returned)"

theorem disk_exclusion_witness:
  "\<exists>s. disk_run False example_boot None 5 6 example_disk_prog s \<and>
     ((\<exists>s'. ustep False example_host s = Inr s') \<or> (\<exists>e. ustep False example_host s = Inl e \<and> may_end s e))"
proof -
  obtain d where d: "Disk_new False None = Inr d" "disk_inv d" using Disk_new_inv [of False] by blast
  then have a: "disk_args_ok False example_boot None 5 6"
    using example_boot_ok by (auto simp: disk_args_ok_def example_boot_def example_devices_def disk_inv_def)
  have w: "disk_prog example_disk_prog"
    unfolding example_disk_prog_def by (intro disk_prog.intros) simp_all
  obtain sm where sm: "BitMap_new (b_bitmap example_boot) (int 10) = Inr sm"
    using BitMap_new_empty [of 10 "b_bitmap example_boot"] by (auto simp: example_boot_def divRoundUp_def)
  obtain s where s: "boot_disk False example_boot None 5 6 example_disk_prog example_kernel = Inr s"
      and "threads (kern (sys s)) = threads example_kernel"
    using d sm by (auto simp: boot_disk_def example_boot_def SynchDisk_new_def Lock_new_def Semaphore_new_def Let_def res_simps)
  then have h: "host_ok example_host (kern (sys s))" by (simp add: host_ok_def example_host_def example_kernel_def)
  have "Initialize (b_random example_boot) (b_regs example_boot) (b_devices example_boot) = Inr example_kernel"
    using example_initialize by (simp add: example_boot_def)
  then have r: "disk_run False example_boot None 5 6 example_disk_prog s" by (rule disk_boot [OF _ example_settles s])
  then show ?thesis using disk_exclusion [OF a w r h] by blast
qed

end
