(* ===== verification/Spec2Isabelle.thy ===== *)
theory Spec2Isabelle
  imports Nachos_Fairness Nachos_FSRefine Nachos_Coff Nachos_Network Nachos_UserRun
begin

text \<open>
  Verification of Nachos, an instructional operating system that runs on a simulated MIPS machine
  (C++ sources under \<^verbatim>\<open>src/code\<close>).

  \<^bold>\<open>The program.\<close> The directory \<^verbatim>\<open>machine\<close> simulates the hardware: the processor, the clock and its
  interrupts, the timer, the disk, the console. The directory \<^verbatim>\<open>threads\<close> is the kernel: lists, threads,
  the scheduler, semaphores and locks, the initialisation. The directory \<^verbatim>\<open>filesys\<close> is the file
  system on the simulated disk. The directory \<^verbatim>\<open>userprog\<close> loads user programs and has the system calls, the user
  threads, the synchronous console and the bitmaps. Devices interrupt the kernel through handlers that they schedule on the
  queue of pending interrupts; the handlers of the synchronous devices wake up threads through
  semaphores; the scheduler switches threads when a thread yields, sleeps or finishes, or when an
  interrupt handler asks for it; the file system runs on top of the disk, user programs on top of
  the processor and of address spaces.

  \<^bold>\<open>The theories.\<close>

  \<^item> \<open>Nachos_Prelude\<close>: results that may be errors (a failed ASSERT, a null or dangling pointer, an
    index out of bounds, ...), integer division of C, loops; the interface of a queue.
    C integers are \<open>int\<close>, taken through \<open>to_int\<close> (wrap-around at 32 bits) where the code can make them overflow.
  \<^item> \<open>Nachos_List\<close> (\<^verbatim>\<open>threads/list.cc\<close>): linked lists on a heap of elements, and the functional keyed lists
    they implement. The kernel uses the functional lists.
  \<^item> \<open>Nachos_BitMap\<close> (\<^verbatim>\<open>userprog/bitmap.cc\<close>): bitmaps on arrays of 32-bit words, the set they
    represent, and the interface of an allocator.
  \<^item> \<open>Nachos_Machine\<close> (\<^verbatim>\<open>machine/machine.cc\<close>, \<^verbatim>\<open>machine/translate.cc\<close>): registers, memory, page tables and TLB,
    address translation and memory accesses in both byte orders of the host.
  \<^item> \<open>Nachos_Mips\<close> (\<^verbatim>\<open>machine/mipssim.cc\<close>): decoding and execution of one instruction, with
    delayed loads and branches.
  \<^item> \<open>Nachos_Interrupt\<close> (\<^verbatim>\<open>machine/interrupt.cc\<close>, \<^verbatim>\<open>machine/timer.cc\<close>, \<^verbatim>\<open>machine/stats.cc\<close>): the state of the kernel, the clock and
    the pending interrupts; the interface of interrupt handlers.
  \<^item> \<open>Nachos_Threads\<close> (\<^verbatim>\<open>threads/thread.cc\<close>, \<^verbatim>\<open>threads/scheduler.cc\<close>) and \<open>Nachos_Synch\<close> (\<^verbatim>\<open>threads/synch.cc\<close>): threads, context switches,
    semaphores and locks, and a step of the kernel.
  \<^item> \<open>Nachos_Scheduling\<close> and \<open>Nachos_Kernel\<close>: the invariant of the kernel and its preservation by every
    operation, with the contract between the kernel and the handlers as the locale \<open>kernel_handlers\<close>.
  \<^item> \<open>Nachos_Disk\<close> (\<^verbatim>\<open>machine/disk.cc\<close>): the disk and the latency of its requests.
  \<^item> \<open>Nachos_Devices\<close> (\<^verbatim>\<open>machine/console.cc\<close>, \<^verbatim>\<open>filesys/synchdisk.cc\<close>, \<^verbatim>\<open>userprog/synchconsole.cc\<close>): the devices in the
    kernel's state and their handlers, on which the kernel's locales are interpreted.
  \<^item> \<open>Nachos_System\<close> (\<^verbatim>\<open>threads/system.cc\<close>): the initialisation, and the states that the system reaches;
    \<open>Nachos_Fairness\<close>: bounded waiting of ready threads.
  \<^item> \<open>Nachos_File\<close> (\<^verbatim>\<open>filesys/filehdr.cc\<close>, \<^verbatim>\<open>filesys/openfile.cc\<close>), \<open>Nachos_FileSys\<close> (\<^verbatim>\<open>filesys/directory.cc\<close>, \<^verbatim>\<open>filesys/filesys.cc\<close>):
    file headers, open files, directories and the file system; \<open>Nachos_FSRefine\<close>: the file system
    refines a finite map from names to arrays of bytes.
  \<^item> \<open>Nachos_AddrSpace\<close> (\<^verbatim>\<open>userprog/addrspace.cc\<close>, \<^verbatim>\<open>userprog/progtest.cc\<close>): loading a program.
  \<^item> \<open>Nachos_Coff\<close> (\<^verbatim>\<open>bin/coff2noff.c\<close>): the converter that makes executables from the compiler's output.
  \<^item> \<open>Nachos_Network\<close> (\<^verbatim>\<open>machine/network.cc\<close>, \<^verbatim>\<open>network/post.cc\<close>): the network device, the headers of the post office, and where
    it aborts.
  \<^item> \<open>Nachos_UserMem\<close> (\<^verbatim>\<open>threads/system.cc\<close>): strings and numbers between the kernel and user programs.
  \<^item> \<open>Nachos_Syscall\<close> (\<^verbatim>\<open>userprog/exception.cc\<close>, \<^verbatim>\<open>userprog/userthread.cc\<close>, \<^verbatim>\<open>userprog/synchconsole.cc\<close>, \<^verbatim>\<open>filesys/synchdisk.cc\<close>,
    \<^verbatim>\<open>threads/threadtest.cc\<close>, Machine::Run): system calls, user threads, the operations of the synchronous devices, and \<open>ustep\<close>, one
    step of the whole system with any number of threads.
  \<^item> \<open>Nachos_Frame\<close>, \<open>Nachos_Account\<close>: what the operations of the kernel keep (the locale \<open>kernel_frame\<close>, interpreted for each such
    relation): who waits for which semaphore, and the balance of requests, pending interrupts and semaphores of the
    devices. \<open>Nachos_Exclusion\<close>: the invariant of locks and devices. \<open>Nachos_UserSys\<close>: the discipline of locking that the
    code follows. \<open>Nachos_UserSafe\<close>: the invariant \<open>sys_inv\<close> of the system and that every step keeps it.
    \<open>Nachos_Boot\<close>: it holds after the start. \<open>Nachos_UserRun\<close>: what follows in every reachable state.

  \<^bold>\<open>How the code is modelled.\<close> Every operation of the C++ code is a function that returns an
  error or a result; ASSERT, a null or dangling pointer and an array index out of bounds are
  errors. Objects are records, pointers are numbers, memory that the code leaves uninitialised is an
  argument (\<open>garbage\<close>). The kernel is a record that the devices extend. A thread suspended inside the
  kernel keeps, on its \<open>kstack\<close>, the operations it still has to complete: the assembly routine SWITCH
  is the change of \<open>currentThread\<close>, and \<open>kstep\<close> runs the innermost suspended operation of the current thread. For the
  properties of the kernel alone, what threads do outside of it is any sequence of kernel calls within their contracts
  (\<open>call_ok\<close>, \<open>dcall_ok\<close>). For the whole system it is code: system calls and the code of threads are values of type
  \<open>prog\<close>, the next operation and a continuation, since a thread can be suspended at each operation; a user program is
  the loop of the processor on the memory, with system calls where it traps. The
  host is part of the state where the code depends on it: the values of \<^verbatim>\<open>rand\<close>, the bytes typed on the
  keyboard, the contents of the disk file, the addresses of new threads (\<open>host_ok\<close>: not those of living ones).

  The one loop of the kernel with no obvious bound, the delivery of due interrupts, is a partial
  function that is proved to end from every state. The walk of a linked list and the loop
  that copies a string from a user program are partial functions too; they return on every well-formed list and on every
  terminated string, and the latter in every state of a running system. Everything else is structural recursion, or recursion with a measure.

  \<^bold>\<open>What is shown.\<close>
  The lists implement queues, through any sequence of operations, and stable sorted insertion; bitmaps implement sets. Address translation is
  total and stays in memory; one instruction on a well-formed processor never leaves an array and has precise
  exceptions; multiplication, division, signed arithmetic and unaligned accesses compute
  what the architecture says, except where the code errs. In every reachable state of the booted
  kernel no assertion fails, thread states agree with the queues, no wakeup is lost, interrupts are
  delivered on time and a ready thread waits for a bounded number of context switches. The disk
  stores sectors and its latencies agree with the position of the head; reading and writing a file is reading and
  writing an array of bytes, on positions that are not negative and as long as the end of the request is a C integer (other
  requests fail, as the theorems say); the file system implements a map of such files, loses no sector and shares none, and its
  operations fail only for the reasons they should, under one rule of use that the code does not enforce: a file is not removed
  while it is open. Files above 3840 bytes are the exception: Create then writes past the end of the header. A loaded program is in memory where its header says, and the converter makes
  of every well-formed COFF file a program whose sections are then in memory. A packet that the network does not lose arrives
  in the device it is addressed to as it was sent; the mailboxes behind it cannot work in this version.
  With any user program and any number of user threads, every step of the system succeeds or ends the simulation in one of a few known ways (\<open>may_end\<close>); the console
  and the disk are used by one thread at a time, also across context switches and interrupts; the table of user threads agrees with the threads
  that exist, and their stacks are disjoint.

  \<^bold>\<open>Not modelled.\<close>
  The synchronisation of the post office and its mailboxes (in this version its constructor aborts, since condition
  variables are not implemented, so the code cannot run); the sockets of the host; the debugger and everything that only prints; the assembly of the context
  switch; command line options; the destruction of the global objects when Nachos ends; the file system on the host that
  is used instead of the disk in some configurations, except for reading an executable; the tools under
  \<^verbatim>\<open>code/bin\<close> other than \<^verbatim>\<open>coff2noff\<close>, which inspect and run object files on the host
  and are not part of the default build; test programs other than \<^verbatim>\<open>threadtest.cc\<close>.
\<close>

end
